(* ===== verification/Prelude.thy ===== *)
theory Prelude
  imports Main "HOL-Library.Word" "HOL-Library.Code_Target_Numeral"
begin

text \<open>
  What the component theories share: the machine types of the C code, byte lists and
  their big-endian values, the reader type \<open>'a rd\<close> of every parsing function, the
  codec interfaces that relate a writer to its reader, and the collections of rewrite
  rules the component proofs use.
\<close>

unbundle bit_operations_syntax

section \<open>Machine types\<close>

type_synonym u8 = "8 word"
type_synonym u16 = "16 word"
type_synonym u32 = "32 word"
type_synonym u64 = "64 word"
type_synonym bytes = "u8 list"

text \<open>
  A \<open>size_t\<close> is a \<open>nat\<close>; the platforms of the application (arm64 and x86-64 iOS) have
  a 64-bit \<open>size_t\<close>, and where the code's overflow checks matter the sum is taken
  modulo \<open>size_mod\<close> as the machine does.
\<close>

definition size_mod :: nat where
  "size_mod = 2 ^ 64"

definition size_add :: "nat \<Rightarrow> nat \<Rightarrow> nat" where
  "size_add a b = (a + b) mod size_mod"

lemma size_add_small: "a + b < size_mod \<Longrightarrow> size_add a b = a + b"
  by (simp add: size_add_def)

lemma size_add_wraps: "a < size_mod \<Longrightarrow> b < size_mod \<Longrightarrow> size_add a b < a \<longleftrightarrow> size_mod \<le> a + b"
  by (auto simp: size_add_def mod_if)

lemma add_mod_hi: "m \<le> n \<Longrightarrow> n < 2 * m \<Longrightarrow> m + n mod m = n"
  for m n :: nat
  by (simp add: le_mod_geq)

section \<open>Bytes and big-endian numbers\<close>

named_theorems word_nat \<open>reading words as natural numbers\<close>

definition be_nat :: "bytes \<Rightarrow> nat" where
  "be_nat bs = foldl (\<lambda>a b. a * 256 + unat b) 0 bs"

fun be_bytes :: "nat \<Rightarrow> nat \<Rightarrow> bytes" where
  "be_bytes 0 v = []"
| "be_bytes (Suc n) v = be_bytes n (v div 256) @ [word_of_nat v]"

lemma be_nat_Nil [simp]: "be_nat [] = 0"
  by (simp add: be_nat_def)

lemma be_nat_snoc [simp]: "be_nat (bs @ [b]) = be_nat bs * 256 + unat b"
  by (simp add: be_nat_def)

lemma unat_u8_less [simp]: "unat (b :: u8) < 256"
  using unsigned_less [of b, where ?'a = nat] by simp

lemma unat_u8_le [simp]: "unat (b :: u8) \<le> 255"
  using unat_u8_less [of b] by linarith

lemma unat_word_of_nat_u8 [simp]: "unat (word_of_nat v :: u8) = v mod 256"
  by (simp add: unat_of_nat)

lemma length_be_bytes [simp]: "length (be_bytes n v) = n"
  by (induction n arbitrary: v) auto

lemma be_nat_less: "be_nat bs < 256 ^ length bs"
proof (induction bs rule: rev_induct)
  case Nil
  then show ?case by simp
next
  case (snoc b bs)
  have "be_nat bs * 256 + unat b < (be_nat bs + 1) * 256"
    by simp
  also have "\<dots> \<le> 256 ^ length bs * 256"
    using snoc.IH by simp
  finally show ?case by (simp add: mult.commute)
qed

lemma be_nat_singleton [simp]: "be_nat [b] = unat b"
  using be_nat_snoc [of "[]" b] by simp

lemma be_nat_append: "be_nat (as @ bs) = be_nat as * 256 ^ length bs + be_nat bs"
proof (induction bs rule: rev_induct)
  case Nil
  then show ?case by simp
next
  case (snoc b bs)
  have "be_nat (as @ bs @ [b]) = be_nat (as @ bs) * 256 + unat b"
    using be_nat_snoc [of "as @ bs" b] by simp
  with snoc show ?case by (simp add: algebra_simps)
qed

lemma be_nat_Cons: "be_nat (b # bs) = unat b * 256 ^ length bs + be_nat bs"
  using be_nat_append [of "[b]" bs] by simp

lemma be_nat_be_bytes [simp]: "be_nat (be_bytes n v) = v mod 256 ^ n"
proof (induction n arbitrary: v)
  case 0
  then show ?case by simp
next
  case (Suc n)
  have "v mod (256 ^ n * 256) = v mod 256 + 256 * (v div 256 mod 256 ^ n)"
    by (metis mod_mult2_eq mult.commute add.commute)
  with Suc show ?case by (simp add: mult.commute)
qed

lemma be_bytes_be_nat: "length bs = n \<Longrightarrow> be_bytes n (be_nat bs) = bs"
proof (induction n arbitrary: bs)
  case 0
  then show ?case by simp
next
  case (Suc n)
  then obtain as b where bs: "bs = as @ [b]"
    by (cases bs rule: rev_cases) auto
  have "(be_nat as * 256 + unat b) div 256 = be_nat as"
    by simp
  moreover have "word_of_nat (be_nat as * 256 + unat b) = b"
  proof -
    have "(word_of_nat (be_nat as * 256) :: u8) = 0"
      by (simp add: word_of_nat_eq_0_iff del: of_nat_mult)
    then show ?thesis by simp
  qed
  ultimately show ?case using Suc bs by simp
qed

lemma be_bytes_mod: "be_bytes n (v mod 256 ^ n) = be_bytes n v"
  using be_bytes_be_nat [of "be_bytes n v" n] by simp

lemma be_nat_inj: "length as = length bs \<Longrightarrow> be_nat as = be_nat bs \<Longrightarrow> as = bs"
  by (metis be_bytes_be_nat)

text \<open>Storing bytes at a position: \<open>memcpy\<close>, \<open>memmove\<close> and single assignments.\<close>

definition put_bytes :: "nat \<Rightarrow> bytes \<Rightarrow> bytes \<Rightarrow> bytes" where
  "put_bytes pos ys xs = take pos xs @ ys @ drop (pos + length ys) xs"

lemma put_bytes_append [simp]:
  "length zs = length ys \<Longrightarrow> put_bytes (length xs) ys (xs @ zs @ r) = xs @ ys @ r"
  by (simp add: put_bytes_def)

lemma put_bytes_end [simp]:
  "length zs = length ys \<Longrightarrow> put_bytes (length xs) ys (xs @ zs) = xs @ ys"
  by (simp add: put_bytes_def)

lemma length_put_bytes: "pos + length ys \<le> length xs \<Longrightarrow> length (put_bytes pos ys xs) = length xs"
  by (simp add: put_bytes_def)

lemma nth_put_bytes:
  "pos + length ys \<le> length xs \<Longrightarrow> i < length xs \<Longrightarrow>
   put_bytes pos ys xs ! i = (if pos \<le> i \<and> i < pos + length ys then ys ! (i - pos) else xs ! i)"
  by (auto simp: put_bytes_def nth_append)

text \<open>Little-endian base 128: groups of seven bits, the lowest first, a top bit on all but the last.\<close>

fun uleb128 :: "nat \<Rightarrow> bytes" where
  "uleb128 v = (if v < 128 then [word_of_nat v] else word_of_nat (128 + v mod 128) # uleb128 (v div 128))"

declare uleb128.simps [simp del]

subsection \<open>Shifting a byte into a word\<close>

lemma push_or_nat:
  fixes x y :: "'a :: len word"
  assumes "unat x < 2 ^ m" and "m + n \<le> LENGTH('a)" and "unat y < 2 ^ n"
  shows "unat (push_bit n x OR y) = unat x * 2 ^ n + unat y"
proof -
  have "take_bit n y = y"
    using assms(3) by (intro unsigned_word_eqI [where ?'a = nat])
      (simp add: unsigned_take_bit_eq take_bit_nat_eq_self)
  then have bity: "\<not> bit y k" if "n \<le> k" for k
    using that by (metis bit_take_bit_iff not_less)
  have eq: "push_bit n x + y = push_bit n x OR y"
    by (rule disjunctive_add_eq_or)
      (use bity in \<open>auto simp: bit_eq_iff bit_simps\<close>)
  have small: "unat x * 2 ^ n + unat y < 2 ^ LENGTH('a)"
  proof -
    have "unat x * 2 ^ n + unat y < (unat x + 1) * 2 ^ n"
      using assms(3) by simp
    also have "\<dots> \<le> 2 ^ m * 2 ^ n"
      using assms(1) by (intro mult_right_mono) auto
    also have "\<dots> \<le> 2 ^ LENGTH('a)"
      using assms(2) by (simp flip: power_add)
    finally show ?thesis .
  qed
  have "unat x * 2 ^ n < 2 ^ LENGTH('a)"
    using small by simp
  then have "take_bit LENGTH('a) (push_bit n (unat x)) = unat x * 2 ^ n"
    by (simp add: push_bit_eq_mult take_bit_nat_eq_self)
  then have px: "unat (push_bit n x) = unat x * 2 ^ n"
    by (metis unsigned_push_bit_eq)
  have "unat (push_bit n x + y) = unat x * 2 ^ n + unat y"
    using small px by (simp add: unat_word_ariths)
  with eq show ?thesis by simp
qed

lemma unat_ucast_up:
  fixes w :: "'a :: len word"
  assumes "LENGTH('a) \<le> LENGTH('b :: len)"
  shows "unat (ucast w :: 'b word) = unat w"
proof -
  have "unat w < 2 ^ LENGTH('b)"
    using unsigned_less [of w, where ?'a = nat] assms
    by (meson le_less_trans not_less one_less_numeral_iff power_increasing_iff semiring_norm(76) less_le_trans)
  then show ?thesis by (simp add: unsigned_ucast_eq take_bit_nat_eq_self)
qed

lemma ucast_up_down:
  fixes w :: "'a :: len word"
  assumes "LENGTH('a) \<le> LENGTH('b :: len)"
  shows "ucast (ucast w :: 'b word) = w"
proof (rule unsigned_word_eqI [where ?'a = nat])
  have "unat (ucast (ucast w :: 'b word) :: 'a word) = take_bit LENGTH('a) (unat w)"
    by (subst unsigned_ucast_eq) (simp only: unat_ucast_up [OF assms])
  then show "unat (ucast (ucast w :: 'b word) :: 'a word) = unat w"
    by (simp add: take_bit_nat_eq_self)
qed

lemma unat_ucast_u8_u64 [simp]: "unat (ucast (b :: u8) :: u64) = unat b"
  by (rule unat_ucast_up) simp

lemma unat_ucast_u8_u32 [simp]: "unat (ucast (b :: u8) :: u32) = unat b"
  by (rule unat_ucast_up) simp

subsection \<open>Masks and single bits of a byte\<close>

lemma unat_and_mask: "unat (w AND mask n) = unat w mod 2 ^ n"
  for w :: "'a :: len word"
proof -
  have "unat (w AND mask n) = unat (take_bit n w)"
    by (simp only: take_bit_eq_mask)
  also have "\<dots> = take_bit n (unat w)"
    by (rule unsigned_take_bit_eq)
  finally show ?thesis by (simp only: take_bit_eq_mod)
qed

lemma unat_drop_bit: "unat (drop_bit n w) = unat w div 2 ^ n"
  for w :: "'a :: len word"
  using unat_drop_bit_eq [of n w] drop_bit_eq_div [of n "unat w"] by (rule trans)

lemma unat_and_7f: "unat ((b :: u8) AND 0x7f) = unat b mod 128"
  using unat_and_mask [of b 7] by (simp add: mask_eq_exp_minus_1)

lemma unat_and_1f: "unat ((b :: u8) AND 0x1f) = unat b mod 32"
  using unat_and_mask [of b 5] by (simp add: mask_eq_exp_minus_1)

lemma and_top_bit: "(b :: u8) AND 0x80 = 0 \<longleftrightarrow> unat b < 128"
proof -
  have "b AND 2 ^ 7 = 0 \<longleftrightarrow> \<not> bit b 7" by (rule and_exp_eq_0_iff_not_bit)
  also have "bit b 7 \<longleftrightarrow> bit (unat b) 7" by (simp add: bit_unsigned_iff)
  also have "\<dots> \<longleftrightarrow> odd (unat b div 128)" by (simp add: bit_iff_odd)
  also have "\<dots> \<longleftrightarrow> 128 \<le> unat b"
  proof -
    have "unat b div 128 < 2" using unat_u8_less [of b] by linarith
    then have "unat b div 128 = 0 \<or> unat b div 128 = 1" by linarith
    then show ?thesis by (auto simp: div_eq_0_iff)
  qed
  finally show ?thesis by (simp add: not_le)
qed

lemma word_of_nat_unat_id: "word_of_nat (unat w) = (w :: 'a :: len word)"
  by (rule unsigned_word_eqI [where ?'a = nat]) simp

lemma unat_word_of_nat_less: "n < 2 ^ LENGTH('a :: len) \<Longrightarrow> unat (word_of_nat n :: 'a word) = n"
  by (simp only: unat_of_nat mod_less)

lemma unat_u8_80: "unat (0x80 :: u8) = 128"
  by simp

lemma unat_u32_1f: "unat (0x1f :: u32) = 31"
  by simp

lemma push_or_nat_eq:
  fixes x y :: "'a :: len word"
  assumes "unat x = a" "unat y = b" "a < 2 ^ m" "m + n \<le> LENGTH('a)" "b < 2 ^ n"
  shows "push_bit n x OR y = word_of_nat (a * 2 ^ n + b)"
proof -
  have "unat (push_bit n x OR y) = a * 2 ^ n + b"
    using push_or_nat [of x m n y] assms by simp
  then show ?thesis by (metis word_of_nat_unat_id)
qed

subsection \<open>Reading a word as signed\<close>

lemma sint_u64:
  "sint (w :: u64) = (if unat w < 2 ^ 63 then int (unat w) else int (unat w) - 2 ^ 64)"
proof -
  have less: "int (unat w) < 2 ^ 64" using unsigned_less [of w, where ?'a = int] by simp
  have "sint w = take_bit (Suc 63) (int (unat w) + 2 ^ 63) - 2 ^ 63"
    by (simp only: sint_uint signed_take_bit_eq_take_bit_shift) simp
  also have "\<dots> = (int (unat w) + 2 ^ 63) mod 2 ^ 64 - 2 ^ 63"
    by (simp add: take_bit_eq_mod)
  also have "(int (unat w) + 2 ^ 63) mod 2 ^ 64 =
      (if unat w < 2 ^ 63 then int (unat w) + 2 ^ 63 else int (unat w) + 2 ^ 63 - 2 ^ 64)"
  proof (cases "unat w < 2 ^ 63")
    case True
    then have "int (unat w) < 2 ^ 63"
      by (simp only: of_nat_less_numeral_power_cancel_iff)
    with True show ?thesis by (simp add: mod_pos_pos_trivial)
  next
    case False
    then have "2 ^ 63 \<le> int (unat w)"
      by (simp only: not_less numeral_power_le_of_nat_cancel_iff)
    then have "(int (unat w) + 2 ^ 63 - 2 ^ 64) mod 2 ^ 64 = int (unat w) + 2 ^ 63 - 2 ^ 64"
      using less by (intro mod_pos_pos_trivial) simp_all
    with False show ?thesis
      by (metis minus_mod_self2)
  qed
  finally show ?thesis by simp
qed

section \<open>Readers\<close>

text \<open>
  A reader is a C function of the shape \<open>int f(CBS *cbs, T *out)\<close>: it takes the bytes
  that are left and returns the value (\<open>None\<close> for a zero return) and the bytes left
  afterwards. A function that fails half way leaves \<open>cbs\<close> where it stopped, so the
  remaining bytes are part of the result in both cases.
\<close>

type_synonym 'a rd = "bytes \<Rightarrow> 'a option \<times> bytes"

definition rd_return :: "'a \<Rightarrow> 'a rd" where
  "rd_return x s = (Some x, s)"

definition rd_fail :: "'a rd" where
  "rd_fail s = (None, s)"

definition rd_bind :: "'a rd \<Rightarrow> ('a \<Rightarrow> 'b rd) \<Rightarrow> 'b rd" where
  "rd_bind m f s = (case m s of (None, s') \<Rightarrow> (None, s') | (Some x, s') \<Rightarrow> f x s')"

definition rd_guard :: "bool \<Rightarrow> unit rd" where
  "rd_guard b = (if b then rd_return () else rd_fail)"

lemma rd_return_apply [simp]: "rd_return x s = (Some x, s)"
  by (simp add: rd_return_def)

lemma rd_fail_apply [simp]: "rd_fail s = (None, s)"
  by (simp add: rd_fail_def)

lemma rd_guard_simps [simp]: "rd_guard True s = (Some (), s)" "rd_guard False s = (None, s)"
  by (simp_all add: rd_guard_def)

lemma rd_bind_Some: "m s = (Some x, s') \<Longrightarrow> rd_bind m f s = f x s'"
  by (simp add: rd_bind_def)

lemma rd_bind_None: "m s = (None, s') \<Longrightarrow> rd_bind m f s = (None, s')"
  by (simp add: rd_bind_def)

lemma rd_bind_eq_Some:
  "rd_bind m f s = (Some y, r) \<longleftrightarrow> (\<exists>x s'. m s = (Some x, s') \<and> f x s' = (Some y, r))"
  by (auto simp: rd_bind_def split: prod.splits option.splits)

lemma rd_guard_eq_Some: "rd_guard b s = (Some u, r) \<longleftrightarrow> b \<and> r = s"
  by (cases b) auto

text \<open>Reading a fixed number of values one after the other.\<close>

fun rd_many :: "'a rd \<Rightarrow> nat \<Rightarrow> 'a list rd" where
  "rd_many d 0 = rd_return []"
| "rd_many d (Suc n) = rd_bind d (\<lambda>x. rd_bind (rd_many d n) (\<lambda>xs. rd_return (x # xs)))"

section \<open>Codec interfaces\<close>

text \<open>
  The contract between a writer and its reader. \<open>codec\<close>: reading back what was written
  gives the value and leaves what followed it. \<open>canonical_codec\<close>: in addition the reader
  accepts nothing but what the writer writes, so an encoding is unique; DER and the
  minimal base-128, UTF-8 and fixed-width encodings of the code are of this kind.
\<close>

locale codec =
  fixes enc :: "'a \<Rightarrow> bytes"
    and dec :: "'a rd"
    and valid :: "'a \<Rightarrow> bool"
  assumes dec_enc: "valid x \<Longrightarrow> dec (enc x @ r) = (Some x, r)"
begin

lemma prefix_free:
  assumes "valid x" and "valid y" and "enc x @ r = enc y @ q"
  shows "x = y \<and> r = q"
proof -
  have "dec (enc x @ r) = (Some y, q)"
    unfolding assms(3) by (rule dec_enc [OF assms(2)])
  with dec_enc [OF assms(1), of r] show ?thesis by simp
qed

lemma enc_inj: "inj_on enc {x. valid x}"
proof (rule inj_onI)
  fix x y
  assume "x \<in> {x. valid x}" and "y \<in> {x. valid x}" and "enc x = enc y"
  then show "x = y" using prefix_free [of x y "[]" "[]"] by auto
qed

lemma dec_many:
  "(\<And>x. x \<in> set xs \<Longrightarrow> valid x) \<Longrightarrow>
   rd_many dec (length xs) (concat (map enc xs) @ r) = (Some xs, r)"
  by (induction xs) (simp_all add: rd_bind_def dec_enc)

end

locale canonical_codec = codec +
  assumes dec_canonical: "dec s = (Some x, r) \<Longrightarrow> valid x \<and> s = enc x @ r"
begin

lemma dec_iff: "dec s = (Some x, r) \<longleftrightarrow> valid x \<and> s = enc x @ r"
  using dec_enc dec_canonical by blast

lemma dec_many_canonical:
  "rd_many dec n s = (Some xs, r) \<Longrightarrow>
   length xs = n \<and> (\<forall>x \<in> set xs. valid x) \<and> s = concat (map enc xs) @ r"
proof (induction n arbitrary: s xs)
  case 0
  then show ?case by simp
next
  case (Suc n)
  then obtain y s' ys where "dec s = (Some y, s')" "rd_many dec n s' = (Some ys, r)" "xs = y # ys"
    by (auto simp: rd_bind_eq_Some)
  with Suc.IH [of s' ys] dec_canonical [of s y s'] show ?case by simp
qed

lemma dec_length: "dec s = (Some x, r) \<Longrightarrow> length s = length (enc x) + length r"
  using dec_canonical by fastforce

end

end
