(* ===== verification/Cbs.thy ===== *)
theory Cbs
  imports Prelude
begin

text \<open>
  The byte-string reader of \<open>crypto/bytestring/cbs.c\<close>. A \<open>CBS\<close> (a pointer and a length)
  is the list of the bytes it still covers; each operation is a reader \<open>'a rd\<close> that
  returns its output and the bytes left. Output parameters a caller may pass as NULL are
  components of the result. The text and time functions of the file are in \<open>Oid\<close> and
  \<open>Cbs_Time\<close>.
\<close>

section \<open>Raw access\<close>

definition CBS_init :: "bytes \<Rightarrow> nat \<Rightarrow> bytes" where
  "CBS_init data len = take len data"

definition cbs_get :: "nat \<Rightarrow> bytes rd" where
  "cbs_get n cbs = (if length cbs < n then (None, cbs) else (Some (take n cbs), drop n cbs))"

definition CBS_skip :: "nat \<Rightarrow> unit rd" where
  "CBS_skip len = rd_bind (cbs_get len) (\<lambda>dummy. rd_return ())"

text \<open>
  \<open>can_alloc n\<close> says whether the allocator hands out \<open>n\<close> bytes. The old contents of
  \<open>*out_ptr\<close> are freed first, so on failure the output is empty.
\<close>

definition CBS_stow :: "(nat \<Rightarrow> bool) \<Rightarrow> bytes \<Rightarrow> bool \<times> bytes" where
  "CBS_stow can_alloc cbs =
     (if length cbs = 0 then (True, [])
      else if can_alloc (length cbs) then (True, cbs)
      else (False, []))"

definition CBS_contains_zero_byte :: "bytes \<Rightarrow> bool" where
  "CBS_contains_zero_byte cbs = (0 \<in> set cbs)"

text \<open>\<open>CRYPTO_memcmp\<close> folds every difference of the two buffers into one byte.\<close>

fun memcmp_loop :: "u8 \<Rightarrow> bytes \<Rightarrow> bytes \<Rightarrow> u8" where
  "memcmp_loop x (a # as) (b # bs) = memcmp_loop (x OR (a XOR b)) as bs"
| "memcmp_loop x _ _ = x"

definition CRYPTO_memcmp :: "bytes \<Rightarrow> bytes \<Rightarrow> nat \<Rightarrow> u8" where
  "CRYPTO_memcmp in_a in_b len = memcmp_loop 0 (take len in_a) (take len in_b)"

definition CBS_mem_equal :: "bytes \<Rightarrow> bytes \<Rightarrow> bool" where
  "CBS_mem_equal cbs data =
     (if length data \<noteq> length cbs then False else CRYPTO_memcmp cbs data (length data) = 0)"

section \<open>Fixed-width integers\<close>

definition cbs_get_u :: "nat \<Rightarrow> u64 rd" where
  "cbs_get_u len =
     rd_bind (cbs_get len)
       (\<lambda>data. rd_return (foldl (\<lambda>result d. push_bit 8 result OR ucast d) 0 data))"

definition CBS_get_u8 :: "u8 rd" where
  "CBS_get_u8 = rd_bind (cbs_get 1) (\<lambda>v. rd_return (hd v))"

definition CBS_get_u16 :: "u16 rd" where
  "CBS_get_u16 = rd_bind (cbs_get_u 2) (\<lambda>v. rd_return (ucast v))"

definition CRYPTO_bswap2 :: "u16 \<Rightarrow> u16" where
  "CRYPTO_bswap2 x = drop_bit 8 x OR push_bit 8 x"

definition CRYPTO_bswap4 :: "u32 \<Rightarrow> u32" where
  "CRYPTO_bswap4 x0 =
     (let x = drop_bit 16 x0 OR push_bit 16 x0
      in drop_bit 8 (x AND 0xff00ff00) OR push_bit 8 (x AND 0x00ff00ff))"

definition CRYPTO_bswap8 :: "u64 \<Rightarrow> u64" where
  "CRYPTO_bswap8 x =
     ucast (CRYPTO_bswap4 (ucast (drop_bit 32 x))) OR
     push_bit 32 (ucast (CRYPTO_bswap4 (ucast x)))"

definition CBS_get_u16le :: "u16 rd" where
  "CBS_get_u16le = rd_bind CBS_get_u16 (\<lambda>v. rd_return (CRYPTO_bswap2 v))"

definition CBS_get_u24 :: "u32 rd" where
  "CBS_get_u24 = rd_bind (cbs_get_u 3) (\<lambda>v. rd_return (ucast v))"

definition CBS_get_u32 :: "u32 rd" where
  "CBS_get_u32 = rd_bind (cbs_get_u 4) (\<lambda>v. rd_return (ucast v))"

definition CBS_get_u32le :: "u32 rd" where
  "CBS_get_u32le = rd_bind CBS_get_u32 (\<lambda>v. rd_return (CRYPTO_bswap4 v))"

definition CBS_get_u64 :: "u64 rd" where
  "CBS_get_u64 = cbs_get_u 8"

definition CBS_get_u64le :: "u64 rd" where
  "CBS_get_u64le = rd_bind (cbs_get_u 8) (\<lambda>v. rd_return (CRYPTO_bswap8 v))"

definition CBS_get_last_u8 :: "u8 rd" where
  "CBS_get_last_u8 cbs =
     (if length cbs = 0 then (None, cbs) else (Some (cbs ! (length cbs - 1)), butlast cbs))"

section \<open>Byte ranges and length prefixes\<close>

definition CBS_get_bytes :: "nat \<Rightarrow> bytes rd" where
  "CBS_get_bytes len = rd_bind (cbs_get len) (\<lambda>v. rd_return (CBS_init v len))"

definition CBS_copy_bytes :: "nat \<Rightarrow> bytes rd" where
  "CBS_copy_bytes len = rd_bind (cbs_get len) (\<lambda>v. rd_return (take len v))"

definition cbs_get_length_prefixed :: "nat \<Rightarrow> bytes rd" where
  "cbs_get_length_prefixed len_len =
     rd_bind (cbs_get_u len_len) (\<lambda>len. CBS_get_bytes (unat len))"

definition CBS_get_u8_length_prefixed :: "bytes rd" where
  "CBS_get_u8_length_prefixed = cbs_get_length_prefixed 1"

definition CBS_get_u16_length_prefixed :: "bytes rd" where
  "CBS_get_u16_length_prefixed = cbs_get_length_prefixed 2"

definition CBS_get_u24_length_prefixed :: "bytes rd" where
  "CBS_get_u24_length_prefixed = cbs_get_length_prefixed 3"

text \<open>\<open>OPENSSL_memchr\<close>: the index of the first \<open>c\<close>, if there is one.\<close>

fun OPENSSL_memchr :: "bytes \<Rightarrow> u8 \<Rightarrow> nat option" where
  "OPENSSL_memchr [] c = None"
| "OPENSSL_memchr (b # s) c = (if b = c then Some 0 else map_option Suc (OPENSSL_memchr s c))"

definition CBS_get_until_first :: "u8 \<Rightarrow> bytes rd" where
  "CBS_get_until_first c cbs =
     (case OPENSSL_memchr cbs c of
        None \<Rightarrow> (None, cbs)
      | Some split \<Rightarrow> CBS_get_bytes split cbs)"

section \<open>Decimal and base-128 integers\<close>

definition OPENSSL_isdigit :: "u8 \<Rightarrow> bool" where
  "OPENSSL_isdigit c = (0x30 \<le> c \<and> c \<le> 0x39)"

abbreviation UINT64_MAX :: u64 where
  "UINT64_MAX \<equiv> - 1"

text \<open>
  The loop of \<open>CBS_get_u64_decimal\<close>: \<open>v\<close> and \<open>seen_digit\<close> are its variables. A digit that
  overflows or follows a leading zero has been skipped when the function fails.
\<close>

fun u64_decimal_loop :: "u64 \<Rightarrow> bool \<Rightarrow> u64 rd" where
  "u64_decimal_loop v seen_digit [] = (if seen_digit then Some v else None, [])"
| "u64_decimal_loop v seen_digit (c # cbs) =
     (if \<not> OPENSSL_isdigit c then (if seen_digit then Some v else None, c # cbs)
      else if (v = 0 \<and> seen_digit) \<or> UINT64_MAX div 10 < v \<or>
              UINT64_MAX - ucast (c - 0x30) < v * 10
      then (None, cbs)
      else u64_decimal_loop (v * 10 + ucast (c - 0x30)) True cbs)"

definition CBS_get_u64_decimal :: "u64 rd" where
  "CBS_get_u64_decimal = u64_decimal_loop 0 False"

text \<open>The loop of \<open>parse_base128_integer\<close>, with the value \<open>v\<close> read so far.\<close>

fun base128_loop :: "u64 \<Rightarrow> u64 rd" where
  "base128_loop v [] = (None, [])"
| "base128_loop v (b # cbs) =
     (if drop_bit (64 - 7) v \<noteq> 0 then (None, cbs)
      else if v = 0 \<and> b = 0x80 then (None, cbs)
      else let v' = push_bit 7 v OR ucast (b AND 0x7f)
           in if b AND 0x80 \<noteq> 0 then base128_loop v' cbs else (Some v', cbs))"

declare base128_loop.simps [simp del]

definition parse_base128_integer :: "u64 rd" where
  "parse_base128_integer = base128_loop 0"

section \<open>ASN.1 tags\<close>

abbreviation CBS_ASN1_CONSTRUCTED :: u32 where
  "CBS_ASN1_CONSTRUCTED \<equiv> 0x20000000"

abbreviation CBS_ASN1_TAG_NUMBER_MASK :: u32 where
  "CBS_ASN1_TAG_NUMBER_MASK \<equiv> 0x1fffffff"

abbreviation CBS_ASN1_BOOLEAN :: u32 where "CBS_ASN1_BOOLEAN \<equiv> 0x1"
abbreviation CBS_ASN1_INTEGER :: u32 where "CBS_ASN1_INTEGER \<equiv> 0x2"
abbreviation CBS_ASN1_OCTETSTRING :: u32 where "CBS_ASN1_OCTETSTRING \<equiv> 0x4"

definition parse_asn1_tag :: "u32 rd" where
  "parse_asn1_tag =
     rd_bind CBS_get_u8 (\<lambda>tag_byte.
       let tag = push_bit 24 ((ucast tag_byte :: u32) AND 0xe0);
           tag_number = (ucast (tag_byte AND 0x1f) :: u32)
       in rd_bind
            (if tag_number = 0x1f then
               rd_bind parse_base128_integer (\<lambda>v.
                 if ucast CBS_ASN1_TAG_NUMBER_MASK < v \<or> v < 0x1f then rd_fail
                 else rd_return (ucast v))
             else rd_return tag_number)
            (\<lambda>tag_number.
               let tag = tag OR tag_number
               in if tag AND NOT CBS_ASN1_CONSTRUCTED = 0 then rd_fail else rd_return tag))"

section \<open>ASN.1 elements\<close>

text \<open>
  What \<open>cbs_get_any_asn1_element\<close> learns from an element's header: the tag, the length
  of the header, the length of the whole element (in \<open>el_len\<close>; of the header alone when
  the length is indefinite) and whether a form only BER allows was met.
\<close>

record asn1_element =
  el_tag :: u32
  el_header_len :: nat
  el_len :: nat
  el_ber_found :: bool
  el_indefinite :: bool

definition asn1_long_length :: "bool \<Rightarrow> u32 \<Rightarrow> nat \<Rightarrow> nat \<Rightarrow> asn1_element rd" where
  "asn1_long_length ber_ok tag header_len num_bytes =
     rd_bind (cbs_get_u num_bytes) (\<lambda>len64.
       let short_form = len64 < 128;
           too_long = drop_bit ((num_bytes - 1) * 8) len64 = 0;
           len = unat len64
       in if (short_form \<or> too_long) \<and> \<not> ber_ok then rd_fail
          else if size_add len (header_len + num_bytes) < len then rd_fail
          else rd_return \<lparr>el_tag = tag, el_header_len = header_len + num_bytes,
                 el_len = size_add len (header_len + num_bytes),
                 el_ber_found = short_form \<or> too_long, el_indefinite = False\<rparr>)"

definition asn1_header :: "bool \<Rightarrow> asn1_element rd" where
  "asn1_header ber_ok cbs =
     rd_bind parse_asn1_tag (\<lambda>tag. rd_bind CBS_get_u8 (\<lambda>length_byte header.
       let header_len = length cbs - length header;
           num_bytes = unat (length_byte AND 0x7f)
       in if length_byte AND 0x80 = 0
          then rd_return \<lparr>el_tag = tag, el_header_len = header_len,
                 el_len = unat length_byte + header_len,
                 el_ber_found = False, el_indefinite = False\<rparr> header
          else if ber_ok \<and> tag AND CBS_ASN1_CONSTRUCTED \<noteq> 0 \<and> num_bytes = 0
          then rd_return \<lparr>el_tag = tag, el_header_len = header_len, el_len = header_len,
                 el_ber_found = True, el_indefinite = True\<rparr> header
          else if num_bytes = 0 \<or> 4 < num_bytes then rd_fail header
          else asn1_long_length ber_ok tag header_len num_bytes header)) cbs"

text \<open>The header is read from a copy, so a bad header leaves \<open>cbs\<close> alone.\<close>

definition cbs_get_any_asn1_element :: "bool \<Rightarrow> (bytes \<times> asn1_element) rd" where
  "cbs_get_any_asn1_element ber_ok cbs =
     (case asn1_header ber_ok cbs of
        (None, _) \<Rightarrow> (None, cbs)
      | (Some e, _) \<Rightarrow> rd_bind (CBS_get_bytes (el_len e)) (\<lambda>out. rd_return (out, e)) cbs)"

definition CBS_get_any_asn1_element :: "(bytes \<times> u32 \<times> nat) rd" where
  "CBS_get_any_asn1_element =
     rd_bind (cbs_get_any_asn1_element False)
       (\<lambda>(out, e). rd_return (out, el_tag e, el_header_len e))"

definition CBS_get_any_ber_asn1_element :: "(bytes \<times> asn1_element) rd" where
  "CBS_get_any_ber_asn1_element = cbs_get_any_asn1_element True"

text \<open>Reading from an output value: what a call such as \<open>CBS_skip(out, n)\<close> leaves of it.\<close>

definition rd_on :: "'b rd \<Rightarrow> bytes \<Rightarrow> ('b \<times> bytes) rd" where
  "rd_on f out cbs = (case f out of (None, _) \<Rightarrow> (None, cbs) | (Some y, out') \<Rightarrow> (Some (y, out'), cbs))"

definition CBS_get_any_asn1 :: "(bytes \<times> u32) rd" where
  "CBS_get_any_asn1 =
     rd_bind CBS_get_any_asn1_element (\<lambda>(out, tag, header_len).
       rd_bind (rd_on (CBS_skip header_len) out) (\<lambda>(_, out). rd_return (out, tag)))"

definition cbs_get_asn1 :: "u32 \<Rightarrow> bool \<Rightarrow> bytes rd" where
  "cbs_get_asn1 tag_value skip_header =
     rd_bind CBS_get_any_asn1_element (\<lambda>(out, tag, header_len).
       if tag \<noteq> tag_value then rd_fail
       else if skip_header
       then rd_bind (rd_on (CBS_skip header_len) out) (\<lambda>(_, out). rd_return out)
       else rd_return out)"

definition CBS_get_asn1 :: "u32 \<Rightarrow> bytes rd" where
  "CBS_get_asn1 tag_value = cbs_get_asn1 tag_value True"

definition CBS_get_asn1_element :: "u32 \<Rightarrow> bytes rd" where
  "CBS_get_asn1_element tag_value = cbs_get_asn1 tag_value False"

definition CBS_peek_asn1_tag :: "bytes \<Rightarrow> u32 \<Rightarrow> bool" where
  "CBS_peek_asn1_tag cbs tag_value =
     (case parse_asn1_tag cbs of
        (None, _) \<Rightarrow> False
      | (Some actual_tag, _) \<Rightarrow> tag_value = actual_tag)"

section \<open>ASN.1 values\<close>

definition CBS_is_valid_asn1_integer :: "bytes \<Rightarrow> bool option" where
  \<comment> \<open>\<open>None\<close>: not valid; \<open>Some is_negative\<close> otherwise\<close>
  "CBS_is_valid_asn1_integer cbs =
     (case CBS_get_u8 cbs of
        (None, _) \<Rightarrow> None
      | (Some first_byte, copy) \<Rightarrow>
         let is_negative = first_byte AND 0x80 \<noteq> 0
         in (case CBS_get_u8 copy of
               (None, _) \<Rightarrow> Some is_negative
             | (Some second_byte, _) \<Rightarrow>
                 if (first_byte = 0x00 \<and> second_byte AND 0x80 = 0) \<or>
                    (first_byte = 0xff \<and> second_byte AND 0x80 \<noteq> 0)
                 then None
                 else Some is_negative))"

definition CBS_is_unsigned_asn1_integer :: "bytes \<Rightarrow> bool" where
  "CBS_is_unsigned_asn1_integer cbs = (CBS_is_valid_asn1_integer cbs = Some False)"

fun asn1_uint64_loop :: "u64 \<Rightarrow> bytes \<Rightarrow> u64 option" where
  "asn1_uint64_loop out [] = Some out"
| "asn1_uint64_loop out (d # data) =
     (if drop_bit 56 out \<noteq> 0 then None else asn1_uint64_loop (push_bit 8 out OR ucast d) data)"

definition CBS_get_asn1_uint64 :: "u64 rd" where
  "CBS_get_asn1_uint64 =
     rd_bind (CBS_get_asn1 CBS_ASN1_INTEGER) (\<lambda>bytes.
       if \<not> CBS_is_unsigned_asn1_integer bytes then rd_fail
       else (case asn1_uint64_loop 0 bytes of
               None \<Rightarrow> rd_fail
             | Some v \<Rightarrow> rd_return v))"

text \<open>
  \<open>CBS_get_asn1_int64\<close> fills an 8-byte little-endian image of the integer, low bytes from
  the end of the data and the rest with the sign, and copies it into an \<open>int64_t\<close>.
\<close>

definition CBS_get_asn1_int64 :: "u64 rd" where
  "CBS_get_asn1_int64 =
     rd_bind (CBS_get_asn1 CBS_ASN1_INTEGER) (\<lambda>bytes.
       case CBS_is_valid_asn1_integer bytes of
         None \<Rightarrow> rd_fail
       | Some is_negative \<Rightarrow>
           if 8 < length bytes then rd_fail
           else let sign_extend =
                      rev bytes @ replicate (8 - length bytes) (if is_negative then 0xff else 0)
                in rd_return (word_of_nat (be_nat (rev sign_extend))))"

definition CBS_get_asn1_bool :: "bool rd" where
  "CBS_get_asn1_bool =
     rd_bind (CBS_get_asn1 CBS_ASN1_BOOLEAN) (\<lambda>bytes.
       if length bytes \<noteq> 1 then rd_fail
       else let value = hd bytes
            in if value \<noteq> 0 \<and> value \<noteq> 0xff then rd_fail else rd_return (value \<noteq> 0))"

text \<open>The optional readers return \<open>None\<close> inside the result when the element is absent.\<close>

definition CBS_get_optional_asn1 :: "u32 \<Rightarrow> bytes option rd" where
  "CBS_get_optional_asn1 tag cbs =
     (if CBS_peek_asn1_tag cbs tag
      then rd_bind (CBS_get_asn1 tag) (\<lambda>out. rd_return (Some out)) cbs
      else rd_return None cbs)"

definition CBS_get_optional_asn1_octet_string :: "u32 \<Rightarrow> (bytes \<times> bool) rd" where
  "CBS_get_optional_asn1_octet_string tag =
     rd_bind (CBS_get_optional_asn1 tag) (\<lambda>present.
       case present of
         Some child \<Rightarrow>
           rd_bind (rd_on (CBS_get_asn1 CBS_ASN1_OCTETSTRING) child) (\<lambda>(out, child).
             if length child \<noteq> 0 then rd_fail else rd_return (out, True))
       | None \<Rightarrow> rd_return ([], False))"

definition CBS_get_optional_asn1_uint64 :: "u32 \<Rightarrow> u64 \<Rightarrow> u64 rd" where
  "CBS_get_optional_asn1_uint64 tag default_value =
     rd_bind (CBS_get_optional_asn1 tag) (\<lambda>present.
       case present of
         Some child \<Rightarrow>
           rd_bind (rd_on CBS_get_asn1_uint64 child) (\<lambda>(out, child).
             if length child \<noteq> 0 then rd_fail else rd_return out)
       | None \<Rightarrow> rd_return default_value)"

definition CBS_get_optional_asn1_bool :: "u32 \<Rightarrow> int \<Rightarrow> int rd" where
  "CBS_get_optional_asn1_bool tag default_value =
     rd_bind (CBS_get_optional_asn1 tag) (\<lambda>present.
       case present of
         Some child \<Rightarrow>
           rd_bind (rd_on (CBS_get_asn1 CBS_ASN1_BOOLEAN) child) (\<lambda>(child2, child).
             if length child2 \<noteq> 1 \<or> length child \<noteq> 0 then rd_fail
             else if hd child2 = 0 then rd_return 0
             else if hd child2 = 0xff then rd_return 1
             else rd_fail)
       | None \<Rightarrow> rd_return default_value)"

definition CBS_is_valid_asn1_bitstring :: "bytes \<Rightarrow> bool" where
  "CBS_is_valid_asn1_bitstring cbs =
     (case CBS_get_u8 cbs of
        (None, _) \<Rightarrow> False
      | (Some num_unused_bits, rest) \<Rightarrow>
         if 7 < num_unused_bits then False
         else if num_unused_bits = 0 then True
         else (case CBS_get_last_u8 rest of
                 (None, _) \<Rightarrow> False
               | (Some last_byte, _) \<Rightarrow> last_byte AND (push_bit (unat num_unused_bits) 1 - 1) = 0))"

definition CBS_asn1_bitstring_has_bit :: "bytes \<Rightarrow> u32 \<Rightarrow> bool" where
  "CBS_asn1_bitstring_has_bit cbs bit' =
     (if \<not> CBS_is_valid_asn1_bitstring cbs then False
      else let byte_num = unat (drop_bit 3 bit' + 1);
               bit_num = unat (7 - (bit' AND 7))
           in byte_num < length cbs \<and> cbs ! byte_num AND push_bit bit_num 1 \<noteq> 0)"

section \<open>What the raw and fixed-width readers do\<close>

lemma cbs_get_eq_Some: "cbs_get n s = (Some p, r) \<longleftrightarrow> length p = n \<and> s = p @ r"
  by (auto simp: cbs_get_def split: if_splits)

lemma cbs_get_append [simp]: "length p = n \<Longrightarrow> cbs_get n (p @ r) = (Some p, r)"
  by (simp add: cbs_get_eq_Some)

lemma CBS_skip_eq_Some: "CBS_skip n s = (Some u, r) \<longleftrightarrow> (\<exists>p. length p = n \<and> s = p @ r)"
  by (auto simp: CBS_skip_def rd_bind_eq_Some cbs_get_eq_Some)

lemma CBS_skip_append [simp]: "length p = n \<Longrightarrow> CBS_skip n (p @ r) = (Some (), r)"
  by (simp add: CBS_skip_eq_Some)

lemma CBS_get_bytes_eq_Some: "CBS_get_bytes n s = (Some p, r) \<longleftrightarrow> length p = n \<and> s = p @ r"
  by (auto simp: CBS_get_bytes_def CBS_init_def rd_bind_eq_Some cbs_get_eq_Some)

lemma CBS_get_u8_simps [simp]:
  "CBS_get_u8 [] = (None, [])"
  "CBS_get_u8 (b # s) = (Some b, s)"
  by (simp_all add: CBS_get_u8_def rd_bind_def cbs_get_def)

lemma CBS_get_u8_eq_Some: "CBS_get_u8 s = (Some b, r) \<longleftrightarrow> s = b # r"
  by (cases s) auto

lemma unat_be_fold:
  "length data \<le> 8 \<Longrightarrow>
   unat (foldl (\<lambda>result d. push_bit 8 result OR ucast d) (0 :: u64) data) = be_nat data"
proof (induction data rule: rev_induct)
  case Nil
  then show ?case by simp
next
  case (snoc d data)
  have len: "length data \<le> 7" using snoc.prems by simp
  have "be_nat data < 2 ^ 56"
  proof -
    have "be_nat data < 256 ^ length data" by (rule be_nat_less)
    also have "\<dots> \<le> 256 ^ 7" using len by (intro power_increasing) auto
    finally show ?thesis by simp
  qed
  with snoc show ?case
    by (simp add: push_or_nat [where m = 56])
qed

lemma cbs_get_u_eq_Some:
  assumes "n \<le> 8"
  shows "cbs_get_u n s = (Some v, r) \<longleftrightarrow> unat v < 256 ^ n \<and> s = be_bytes n (unat v) @ r"
proof
  assume "cbs_get_u n s = (Some v, r)"
  then obtain data where "length data = n" "s = data @ r"
      and v: "v = foldl (\<lambda>result d. push_bit 8 result OR ucast d) 0 data"
    by (auto simp: cbs_get_u_def rd_bind_eq_Some cbs_get_eq_Some)
  moreover have "unat v = be_nat data"
    using v unat_be_fold assms \<open>length data = n\<close> by simp
  ultimately show "unat v < 256 ^ n \<and> s = be_bytes n (unat v) @ r"
    using be_nat_less [of data] by (simp add: be_bytes_be_nat)
next
  assume "unat v < 256 ^ n \<and> s = be_bytes n (unat v) @ r"
  then have "unat v < 256 ^ n" and s: "s = be_bytes n (unat v) @ r" by auto
  then have "unat (foldl (\<lambda>result d. push_bit 8 result OR ucast d) (0 :: u64) (be_bytes n (unat v))) = unat v"
    using assms by (simp add: unat_be_fold)
  then have "foldl (\<lambda>result d. push_bit 8 result OR ucast d) 0 (be_bytes n (unat v)) = v"
    by (rule unsigned_word_eqI)
  then show "cbs_get_u n s = (Some v, r)"
    by (simp add: cbs_get_u_def rd_bind_Some s)
qed

text \<open>The fixed-width big-endian readers and their encodings are canonical codecs.\<close>

interpretation u8_codec: canonical_codec "\<lambda>b. [b]" CBS_get_u8 "\<lambda>_. True"
  by unfold_locales (auto simp: CBS_get_u8_eq_Some)

lemma ucast_narrow_nat:
  fixes v :: u64
  assumes "unat v < 2 ^ LENGTH('a :: len)"
  shows "unat (ucast v :: 'a word) = unat v"
  using assms by (simp add: unsigned_ucast_eq take_bit_nat_eq_self)

lemma CBS_get_u16_eq_Some: "CBS_get_u16 s = (Some v, r) \<longleftrightarrow> s = be_bytes 2 (unat v) @ r"
proof -
  have up: "unat (ucast v :: u64) = unat v" by (rule unat_ucast_up) simp
  have less: "unat v < 256 ^ 2" using unsigned_less [of v, where ?'a = nat] by simp
  show ?thesis
  proof
    assume "CBS_get_u16 s = (Some v, r)"
    then obtain w :: u64 where "v = ucast w" "unat w < 256 ^ 2" "s = be_bytes 2 (unat w) @ r"
      by (auto simp: CBS_get_u16_def rd_bind_eq_Some cbs_get_u_eq_Some)
    then show "s = be_bytes 2 (unat v) @ r" by (simp add: ucast_narrow_nat)
  next
    assume "s = be_bytes 2 (unat v) @ r"
    then have "cbs_get_u 2 s = (Some (ucast v), r)"
      using up less by (simp add: cbs_get_u_eq_Some)
    then show "CBS_get_u16 s = (Some v, r)" by (simp add: CBS_get_u16_def rd_bind_Some ucast_up_down)
  qed
qed

lemma CBS_get_u24_eq_Some:
  "CBS_get_u24 s = (Some v, r) \<longleftrightarrow> unat v < 2 ^ 24 \<and> s = be_bytes 3 (unat v) @ r"
proof -
  have up: "unat (ucast v :: u64) = unat v" by (rule unat_ucast_up) simp
  show ?thesis
  proof
    assume "CBS_get_u24 s = (Some v, r)"
    then obtain w :: u64 where "v = ucast w" "unat w < 256 ^ 3" "s = be_bytes 3 (unat w) @ r"
      by (auto simp: CBS_get_u24_def rd_bind_eq_Some cbs_get_u_eq_Some)
    then show "unat v < 2 ^ 24 \<and> s = be_bytes 3 (unat v) @ r" by (simp add: ucast_narrow_nat)
  next
    assume "unat v < 2 ^ 24 \<and> s = be_bytes 3 (unat v) @ r"
    then have "cbs_get_u 3 s = (Some (ucast v), r)"
      using up by (simp add: cbs_get_u_eq_Some)
    then show "CBS_get_u24 s = (Some v, r)" by (simp add: CBS_get_u24_def rd_bind_Some ucast_up_down)
  qed
qed

lemma CBS_get_u32_eq_Some: "CBS_get_u32 s = (Some v, r) \<longleftrightarrow> s = be_bytes 4 (unat v) @ r"
proof -
  have up: "unat (ucast v :: u64) = unat v" by (rule unat_ucast_up) simp
  have less: "unat v < 256 ^ 4" using unsigned_less [of v, where ?'a = nat] by simp
  show ?thesis
  proof
    assume "CBS_get_u32 s = (Some v, r)"
    then obtain w :: u64 where "v = ucast w" "unat w < 256 ^ 4" "s = be_bytes 4 (unat w) @ r"
      by (auto simp: CBS_get_u32_def rd_bind_eq_Some cbs_get_u_eq_Some)
    then show "s = be_bytes 4 (unat v) @ r" by (simp add: ucast_narrow_nat)
  next
    assume "s = be_bytes 4 (unat v) @ r"
    then have "cbs_get_u 4 s = (Some (ucast v), r)"
      using up less by (simp add: cbs_get_u_eq_Some)
    then show "CBS_get_u32 s = (Some v, r)" by (simp add: CBS_get_u32_def rd_bind_Some ucast_up_down)
  qed
qed

interpretation u16_codec: canonical_codec "\<lambda>v. be_bytes 2 (unat v)" CBS_get_u16 "\<lambda>_. True"
  by unfold_locales (auto simp: CBS_get_u16_eq_Some)

interpretation u24_codec:
  canonical_codec "\<lambda>v. be_bytes 3 (unat v)" CBS_get_u24 "\<lambda>v. unat v < 2 ^ 24"
  by unfold_locales (auto simp: CBS_get_u24_eq_Some)

interpretation u32_codec: canonical_codec "\<lambda>v. be_bytes 4 (unat v)" CBS_get_u32 "\<lambda>_. True"
  by unfold_locales (auto simp: CBS_get_u32_eq_Some)

lemma CBS_get_u64_eq_Some: "CBS_get_u64 s = (Some v, r) \<longleftrightarrow> s = be_bytes 8 (unat v) @ r"
  using unsigned_less [of v, where ?'a = nat] by (simp add: CBS_get_u64_def cbs_get_u_eq_Some)

interpretation u64_codec: canonical_codec "\<lambda>v. be_bytes 8 (unat v)" CBS_get_u64 "\<lambda>_. True"
  by unfold_locales (auto simp: CBS_get_u64_eq_Some)

end
