(* ===== verification/Der.thy ===== *)
theory Der
  imports Cbs
begin

text \<open>
  What DER is, as byte lists built from a tag and contents, and the theorem that the
  reader of \<open>Cbs\<close> accepts exactly these lists: minimal base-128 integers, tags in low
  or high form, minimal definite lengths, elements. Every step is a canonical codec, so
  each later round trip is an instance of the shared lemmas of that interface.
\<close>

section \<open>The encodings\<close>

fun base128_cont :: "nat \<Rightarrow> bytes" where
  "base128_cont v =
     (if v = 0 then [] else base128_cont (v div 128) @ [word_of_nat (128 + v mod 128)])"

declare base128_cont.simps [simp del]

definition base128 :: "nat \<Rightarrow> bytes" where
  "base128 v = base128_cont (v div 128) @ [word_of_nat (v mod 128)]"

definition tag_class :: "u32 \<Rightarrow> nat" where
  "tag_class t = unat t div 2 ^ 29"

definition tag_number :: "u32 \<Rightarrow> nat" where
  "tag_number t = unat t mod 2 ^ 29"

definition valid_tag :: "u32 \<Rightarrow> bool" where
  "valid_tag t = (t AND NOT CBS_ASN1_CONSTRUCTED \<noteq> 0)"

definition der_tag :: "u32 \<Rightarrow> bytes" where
  "der_tag t =
     (if tag_number t < 31 then [word_of_nat (tag_class t * 32 + tag_number t)]
      else word_of_nat (tag_class t * 32 + 31) # base128 (tag_number t))"

definition length_octets :: "nat \<Rightarrow> nat" where
  "length_octets n =
     (if n < 2 ^ 8 then 1 else if n < 2 ^ 16 then 2 else if n < 2 ^ 24 then 3 else 4)"

definition der_length :: "nat \<Rightarrow> bytes" where
  "der_length n =
     (if n < 128 then [word_of_nat n]
      else word_of_nat (128 + length_octets n) # be_bytes (length_octets n) n)"

definition der_element :: "u32 \<Rightarrow> bytes \<Rightarrow> bytes" where
  "der_element t body = der_tag t @ der_length (length body) @ body"

section \<open>Base-128 integers\<close>

lemma base128_cont_0 [simp]: "base128_cont 0 = []"
  by (simp add: base128_cont.simps)

lemma base128_cont_step:
  "a * 128 + d \<noteq> 0 \<Longrightarrow> d < 128 \<Longrightarrow> base128_cont (a * 128 + d) = base128_cont a @ [word_of_nat (128 + d)]"
  by (subst base128_cont.simps) simp

lemma drop_57_iff: "drop_bit 57 (v :: u64) = 0 \<longleftrightarrow> unat v < 2 ^ 57"
proof -
  have "unat (drop_bit 57 v) = unat v div 2 ^ 57"
    by (metis unat_drop_bit_eq drop_bit_eq_div)
  then have "drop_bit 57 v = 0 \<longleftrightarrow> unat v div 2 ^ 57 = 0"
    by (metis unat_eq_0)
  then show ?thesis by (simp add: div_eq_0_iff)
qed

lemma unat_eq_numeral_u8: "(b :: u8) = 0x80 \<longleftrightarrow> unat b = 128"
  by (metis unat_u8_80 unsigned_word_eqI)

text \<open>One step of the loop in terms of the numbers read.\<close>

lemma base128_loop_Cons:
  "base128_loop v (b # s) =
     (let w = word_of_nat (unat v * 128 + unat b mod 128)
      in if 2 ^ 57 \<le> unat v \<or> (unat v = 0 \<and> unat b = 128) then (None, s)
         else if 128 \<le> unat b then base128_loop w s else (Some w, s))"
proof (cases "unat v < 2 ^ 57")
  case True
  have "push_bit 7 v OR ucast (b AND 0x7f) = word_of_nat (unat v * 128 + unat b mod 128)"
    using push_or_nat_eq [of v "unat v" "ucast (b AND 0x7f)" "unat b mod 128" 57 7] True
    by (simp add: unat_and_7f)
  with True show ?thesis
    by (simp add: base128_loop.simps Let_def drop_57_iff and_top_bit unat_eq_numeral_u8 unat_eq_0 not_less)
next
  case False
  then show ?thesis
    by (simp add: base128_loop.simps drop_57_iff Let_def)
qed

lemma base128_loop_base128_cont:
  "a < 2 ^ 64 \<Longrightarrow> base128_loop 0 (base128_cont a @ s) = base128_loop (word_of_nat a) s"
proof (induction a arbitrary: s rule: base128_cont.induct)
  case (1 a)
  show ?case
  proof (cases "a = 0")
    case True
    then show ?thesis by simp
  next
    case False
    define q where "q = a div 128"
    define b :: u8 where "b = word_of_nat (128 + a mod 128)"
    have q: "q < 2 ^ 57" and a: "a = q * 128 + a mod 128"
      using "1.prems" by (auto simp: q_def)
    have b: "unat b = 128 + a mod 128"
      unfolding b_def unat_word_of_nat_u8 by simp
    have cont: "base128_cont a = base128_cont q @ [b]"
      using False by (subst base128_cont.simps) (simp add: q_def b_def)
    have uq: "unat (word_of_nat q :: u64) = q"
      using q by (simp add: unat_of_nat)
    have "base128_loop 0 (base128_cont a @ s) = base128_loop (word_of_nat q) (b # s)"
      using "1.IH" [OF False] q by (simp add: cont q_def)
    also have "\<dots> = base128_loop (word_of_nat (q * 128 + a mod 128)) s"
    proof -
      have "\<not> (q = 0 \<and> a mod 128 = 0)" using a False by auto
      with q b uq show ?thesis by (subst base128_loop_Cons) (auto simp: Let_def)
    qed
    finally show ?thesis using a by simp
  qed
qed

lemma parse_base128_integer_base128: "parse_base128_integer (base128 (unat v) @ r) = (Some v, r)"
proof -
  define a where "a = unat v"
  have a: "a < 2 ^ 64" using unsigned_less [of v, where ?'a = nat] by (simp add: a_def)
  define q where "q = a div 128"
  define b :: u8 where "b = word_of_nat (a mod 128)"
  have b: "unat b = a mod 128"
    unfolding b_def unat_word_of_nat_u8 by simp
  have q: "q < 2 ^ 57" "q * 128 + a mod 128 = a" using a by (auto simp: q_def)
  have uq: "unat (word_of_nat q :: u64) = q"
    using q by (simp add: unat_of_nat)
  have "base128_loop 0 (base128_cont q @ b # r) = base128_loop (word_of_nat q) (b # r)"
    using q by (intro base128_loop_base128_cont) simp
  also have "\<dots> = (Some (word_of_nat (q * 128 + a mod 128)), r)"
    using q b uq mod_less_divisor [of 128 a] by (subst base128_loop_Cons) (auto simp: Let_def)
  also have "word_of_nat (q * 128 + a mod 128) = v"
    unfolding q by (simp only: a_def word_of_nat_unat_id)
  finally show ?thesis
    by (simp add: parse_base128_integer_def base128_def flip: a_def q_def b_def)
qed

lemma base128_loop_canonical:
  "base128_loop v s = (Some x, r) \<Longrightarrow>
   \<exists>p. s = p @ r \<and> base128_cont (unat v) @ p = base128 (unat x)"
proof (induction s arbitrary: v)
  case Nil
  then show ?case by (simp add: base128_loop.simps)
next
  case (Cons b s)
  define w :: u64 where "w = word_of_nat (unat v * 128 + unat b mod 128)"
  have small: "unat v < 2 ^ 57" and min: "\<not> (unat v = 0 \<and> unat b = 128)"
    using Cons.prems by (auto simp: base128_loop_Cons Let_def split: if_splits)
  have w: "unat w = unat v * 128 + unat b mod 128"
    unfolding w_def using small mod_less_divisor [of 128 "unat b"]
    by (intro unat_word_of_nat_less) simp
  show ?case
  proof (cases "unat b < 128")
    case True
    then have "base128_loop v (b # s) = (Some w, s)"
      using small min by (subst base128_loop_Cons) (auto simp: Let_def w_def)
    then have "x = w" "r = s"
      using Cons.prems by auto
    with True w show ?thesis by (auto simp: base128_def word_of_nat_unat_id)
  next
    case False
    then have d: "128 + unat b mod 128 = unat b"
      by (intro add_mod_hi) auto
    have "base128_loop v (b # s) = base128_loop w s"
      using small min False unfolding base128_loop_Cons Let_def w_def [symmetric] by auto
    then have "base128_loop w s = (Some x, r)"
      using Cons.prems by simp
    then obtain p where p: "s = p @ r" "base128_cont (unat w) @ p = base128 (unat x)"
      using Cons.IH by blast
    have "unat v * 128 + unat b mod 128 \<noteq> 0"
      using min d by auto
    then have "base128_cont (unat w) = base128_cont (unat v) @ [word_of_nat (128 + unat b mod 128)]"
      unfolding w by (intro base128_cont_step) auto
    then have "base128_cont (unat w) = base128_cont (unat v) @ [b]"
      by (simp only: d word_of_nat_unat_id)
    with p show ?thesis by (intro exI [of _ "b # p"]) simp
  qed
qed

lemma parse_base128_integer_eq_Some:
  "parse_base128_integer s = (Some v, r) \<longleftrightarrow> s = base128 (unat v) @ r"
proof
  assume "parse_base128_integer s = (Some v, r)"
  then show "s = base128 (unat v) @ r"
    using base128_loop_canonical [of 0 s v r] by (auto simp: parse_base128_integer_def)
qed (simp add: parse_base128_integer_base128)

interpretation base128_codec:
  canonical_codec "\<lambda>v. base128 (unat v)" parse_base128_integer "\<lambda>_. True"
  by unfold_locales (auto simp: parse_base128_integer_eq_Some)

section \<open>Tags\<close>

lemma tag_byte_class:
  "push_bit 24 ((ucast (b :: u8) :: u32) AND 0xe0) = push_bit 29 (ucast (drop_bit 5 b))"
proof -
  have "(0xe0 :: u32) = push_bit 5 (mask 3)"
    by (simp add: mask_eq_exp_minus_1)
  then have "(ucast b :: u32) AND 0xe0 = ucast b AND push_bit 5 (mask 3)"
    by simp
  also have "push_bit 24 \<dots> = push_bit 29 (ucast (drop_bit 5 b))"
    by (rule bit_word_eqI) (auto simp: bit_simps dest: bit_imp_le_length)
  finally show ?thesis .
qed

lemma unat_drop_5: "unat (ucast (drop_bit 5 (b :: u8)) :: u32) = unat b div 32"
  using unat_drop_bit_eq [of 5 b] by (simp add: drop_bit_eq_div)

lemma tag_or_number:
  fixes n :: u32
  assumes "unat n < 2 ^ 29"
  shows "unat (push_bit 24 ((ucast (b :: u8) :: u32) AND 0xe0) OR n) = unat b div 32 * 2 ^ 29 + unat n"
proof -
  have "unat b div 32 < 2 ^ 3" using unat_u8_less [of b] by (simp add: less_mult_imp_div_less)
  then have "unat (push_bit 29 (ucast (drop_bit 5 b) :: u32) OR n) =
      unat (ucast (drop_bit 5 b) :: u32) * 2 ^ 29 + unat n"
    using assms by (intro push_or_nat [where m = 3]) (simp_all only: unat_drop_5, simp_all)
  then show ?thesis
    by (simp only: tag_byte_class unat_drop_5)
qed

lemma tag_class_less: "tag_class t < 8"
  using unsigned_less [of t, where ?'a = nat] by (simp add: tag_class_def less_mult_imp_div_less)

lemma tag_number_less: "tag_number t < 2 ^ 29"
  by (simp add: tag_number_def)

lemma tag_split: "unat t = tag_class t * 2 ^ 29 + tag_number t"
  by (simp add: tag_class_def tag_number_def)

lemma tag_parts:
  assumes "unat t = c * 2 ^ 29 + n" and "n < 2 ^ 29"
  shows "tag_class t = c" and "tag_number t = n"
  using assms by (simp_all add: tag_class_def tag_number_def)

text \<open>What the reader has after the identifier octets, before the check for the reserved tag.\<close>

definition read_tag_number :: "u8 \<Rightarrow> u32 rd" where
  "read_tag_number b =
     (if unat b mod 32 = 31
      then rd_bind parse_base128_integer
             (\<lambda>v. if 2 ^ 29 \<le> unat v \<or> unat v < 31 then rd_fail else rd_return (ucast v))
      else rd_return (ucast (b AND 0x1f)))"

lemma parse_asn1_tag_alt:
  "parse_asn1_tag =
     rd_bind CBS_get_u8 (\<lambda>b. rd_bind (read_tag_number b) (\<lambda>n.
       let tag = push_bit 24 ((ucast b :: u32) AND 0xe0) OR n
       in if valid_tag tag then rd_return tag else rd_fail))"
proof -
  have eq31: "(ucast (b AND 0x1f) :: u32) = 0x1f \<longleftrightarrow> unat b mod 32 = 31" for b :: u8
    by (metis unat_ucast_u8_u32 unat_and_1f unat_u32_1f unsigned_word_eqI)
  have mask: "ucast CBS_ASN1_TAG_NUMBER_MASK < v \<longleftrightarrow> 2 ^ 29 \<le> unat v" for v :: u64
    by (simp add: word_less_nat_alt less_eq_Suc_le)
  have low: "v < 0x1f \<longleftrightarrow> unat v < 31" for v :: u64
    by (simp add: word_less_nat_alt)
  show ?thesis
    unfolding parse_asn1_tag_def read_tag_number_def valid_tag_def Let_def eq31 mask low
    by (intro arg_cong [where f = "rd_bind CBS_get_u8"] ext) (simp add: rd_bind_def split: option.splits prod.splits)
qed

lemma read_tag_number_eq_Some:
  "read_tag_number b s = (Some n, r) \<longleftrightarrow>
     (if unat b mod 32 = 31 then 31 \<le> unat n \<and> unat n < 2 ^ 29 \<and> s = base128 (unat n) @ r
      else unat n = unat b mod 32 \<and> s = r)"
proof (cases "unat b mod 32 = 31")
  case True
  show ?thesis
  proof
    assume "read_tag_number b s = (Some n, r)"
    then obtain v :: u64
      where "s = base128 (unat v) @ r" "unat v < 2 ^ 29" "31 \<le> unat v" "n = ucast v"
      using True
      by (auto simp: read_tag_number_def rd_bind_eq_Some parse_base128_integer_eq_Some not_le not_less
          split: if_splits)
    with True show "if unat b mod 32 = 31 then 31 \<le> unat n \<and> unat n < 2 ^ 29 \<and> s = base128 (unat n) @ r
      else unat n = unat b mod 32 \<and> s = r" by (simp add: ucast_narrow_nat)
  next
    assume "if unat b mod 32 = 31 then 31 \<le> unat n \<and> unat n < 2 ^ 29 \<and> s = base128 (unat n) @ r
      else unat n = unat b mod 32 \<and> s = r"
    then have n: "31 \<le> unat n" "unat n < 2 ^ 29" "s = base128 (unat n) @ r" using True by auto
    have up: "unat (ucast n :: u64) = unat n" by (rule unat_ucast_up) simp
    have "parse_base128_integer s = (Some (ucast n), r)"
      using n up by (simp add: parse_base128_integer_eq_Some)
    with True n up show "read_tag_number b s = (Some n, r)"
      by (simp add: read_tag_number_def rd_bind_Some ucast_up_down)
  qed
next
  case False
  have "n = ucast (b AND 0x1f) \<longleftrightarrow> unat n = unat b mod 32"
    by (metis unat_ucast_u8_u32 unat_and_1f unsigned_word_eqI)
  with False show ?thesis by (auto simp: read_tag_number_def)
qed

lemma parse_asn1_tag_eq_Some:
  "parse_asn1_tag s = (Some t, r) \<longleftrightarrow> valid_tag t \<and> s = der_tag t @ r"
proof
  assume "parse_asn1_tag s = (Some t, r)"
  then obtain b s' n where s: "s = b # s'" and n: "read_tag_number b s' = (Some n, r)"
      and t: "t = push_bit 24 ((ucast b :: u32) AND 0xe0) OR n" and "valid_tag t"
    by (auto simp: parse_asn1_tag_alt rd_bind_eq_Some CBS_get_u8_eq_Some Let_def split: if_splits)
  have n29: "unat n < 2 ^ 29"
    using n mod_less_divisor [of 32 "unat b"] by (auto simp: read_tag_number_eq_Some split: if_splits)
  have "unat t = unat b div 32 * 2 ^ 29 + unat n"
    unfolding t by (rule tag_or_number [OF n29])
  then have parts: "tag_class t = unat b div 32" "tag_number t = unat n"
    using n29 tag_parts by blast+
  have "s = der_tag t @ r"
  proof (cases "unat b mod 32 = 31")
    case True
    then have "unat b div 32 * 32 + 31 = unat b" by presburger
    with True s n parts show ?thesis
      by (simp add: read_tag_number_eq_Some der_tag_def word_of_nat_unat_id del: of_nat_add of_nat_mult)
  next
    case False
    then have "unat n = unat b mod 32" "s' = r" using n by (auto simp: read_tag_number_eq_Some)
    moreover have "unat b mod 32 < 31" using False mod_less_divisor [of 32 "unat b"] by linarith
    ultimately show ?thesis
      using s parts by (simp add: der_tag_def word_of_nat_unat_id del: of_nat_add of_nat_mult)
  qed
  with \<open>valid_tag t\<close> show "valid_tag t \<and> s = der_tag t @ r" by simp
next
  assume asm: "valid_tag t \<and> s = der_tag t @ r"
  let ?k = "if tag_number t < 31 then tag_number t else 31"
  let ?b = "word_of_nat (tag_class t * 32 + ?k) :: u8"
  have b: "unat ?b = tag_class t * 32 + ?k"
    using tag_class_less [of t] by (intro unat_word_of_nat_less) simp
  let ?n = "word_of_nat (tag_number t) :: u32"
  have n: "unat ?n = tag_number t"
    using tag_number_less [of t] by (intro unat_word_of_nat_less) simp
  have "s = ?b # (if tag_number t < 31 then r else base128 (tag_number t) @ r)"
    using asm by (simp add: der_tag_def)
  moreover have "read_tag_number ?b (if tag_number t < 31 then r else base128 (tag_number t) @ r) = (Some ?n, r)"
    using tag_number_less [of t] unfolding read_tag_number_eq_Some b n by simp
  moreover have "push_bit 24 ((ucast ?b :: u32) AND 0xe0) OR ?n = t"
  proof (rule unsigned_word_eqI [where ?'a = nat])
    have "unat (push_bit 24 ((ucast ?b :: u32) AND 0xe0) OR ?n) = unat ?b div 32 * 2 ^ 29 + unat ?n"
      using tag_number_less [of t] n by (intro tag_or_number) simp
    also have "unat ?b div 32 = tag_class t" unfolding b by simp
    finally show "unat (push_bit 24 ((ucast ?b :: u32) AND 0xe0) OR ?n) = unat t"
      unfolding n using tag_split [of t] by simp
  qed
  ultimately show "parse_asn1_tag s = (Some t, r)"
    using asm by (auto simp: parse_asn1_tag_alt rd_bind_def Let_def)
qed

interpretation tag_codec: canonical_codec der_tag parse_asn1_tag valid_tag
  by unfold_locales (auto simp: parse_asn1_tag_eq_Some)

section \<open>Lengths\<close>

lemma length_octets_range: "1 \<le> length_octets n \<and> length_octets n \<le> 4"
  by (simp add: length_octets_def)

lemma length_octets_iff:
  assumes "1 \<le> n" and "n \<le> 4" and "128 \<le> v"
  shows "v < 256 ^ n \<and> 256 ^ (n - 1) \<le> v \<longleftrightarrow> v < 2 ^ 32 \<and> n = length_octets v"
proof -
  have "n = 1 \<or> n = 2 \<or> n = 3 \<or> n = 4" using assms by linarith
  then show ?thesis
    using assms(3) by (auto simp: length_octets_def)
qed

lemma length_base128_cont: "length (base128_cont v) \<le> v"
proof (induction v rule: base128_cont.induct)
  case (1 v)
  show ?case
  proof (cases "v = 0")
    case False
    then have "v div 128 < v" by simp
    with "1.IH" [OF False] False show ?thesis by (subst base128_cont.simps) simp
  qed simp
qed

lemma length_base128: "length (base128 v) \<le> v + 1"
  using length_base128_cont [of "v div 128"] div_le_dividend [of v 128]
  by (simp add: base128_def)

lemma length_der_tag: "length (der_tag t) < 2 ^ 30"
  using length_base128 [of "tag_number t"] tag_number_less [of t]
  by (simp add: der_tag_def)

lemma der_tag_not_Nil: "der_tag t \<noteq> []"
  by (simp add: der_tag_def)

lemma drop_bits_zero: "drop_bit n (v :: u64) = 0 \<longleftrightarrow> unat v < 2 ^ n"
proof -
  have "unat (drop_bit n v) = unat v div 2 ^ n"
    by (metis unat_drop_bit_eq drop_bit_eq_div)
  then have "drop_bit n v = 0 \<longleftrightarrow> unat v div 2 ^ n = 0"
    by (metis unat_eq_0)
  then show ?thesis by (simp add: div_eq_0_iff)
qed

lemma asn1_long_length_eq_Some:
  assumes n: "1 \<le> n" "n \<le> 4" and h: "h < 2 ^ 32"
  shows "asn1_long_length False t h n s = (Some e, r) \<longleftrightarrow>
    (\<exists>v. 128 \<le> v \<and> v < 2 ^ 32 \<and> n = length_octets v \<and> s = be_bytes n v @ r \<and>
      e = \<lparr>el_tag = t, el_header_len = h + n, el_len = v + (h + n),
           el_ber_found = False, el_indefinite = False\<rparr>)"
proof -
  have pow: "(2 :: nat) ^ ((k - Suc 0) * 8) = 256 ^ (k - Suc 0)" for k
    by (simp only: mult.commute [of _ 8] power_mult) simp
  have noov: "size_add v (h + n) = v + (h + n)" if "v < 2 ^ 32" for v
    using that h n by (intro size_add_small) (simp add: size_mod_def)
  have bound: "v < 2 ^ 32" if "v < 256 ^ n" for v :: nat
  proof -
    have "(256 :: nat) ^ n \<le> 256 ^ 4" using n by (intro power_increasing) auto
    with that show ?thesis by simp
  qed
  have lt128: "v < 128 \<longleftrightarrow> unat v < 128" for v :: u64
    by (simp add: word_less_nat_alt)
  have u64: "unat (word_of_nat v :: u64) = v" if "v < 2 ^ 32" for v
    using that by (intro unat_word_of_nat_less) simp
  show ?thesis
  proof
    assume "asn1_long_length False t h n s = (Some e, r)"
    then obtain v :: u64 and s' where get: "cbs_get_u n s = (Some v, s')"
      and rest: "(if (v < 128 \<or> drop_bit ((n - 1) * 8) v = 0) \<and> \<not> False then rd_fail
          else if size_add (unat v) (h + n) < unat v then rd_fail
          else rd_return \<lparr>el_tag = t, el_header_len = h + n, el_len = size_add (unat v) (h + n),
                 el_ber_found = v < 128 \<or> drop_bit ((n - 1) * 8) v = 0,
                 el_indefinite = False\<rparr>) s' = (Some e, r)"
      unfolding asn1_long_length_def Let_def rd_bind_eq_Some by blast
    from get n have v: "unat v < 256 ^ n" "s = be_bytes n (unat v) @ s'"
      by (simp_all add: cbs_get_u_eq_Some)
    from rest have "s' = r" "128 \<le> unat v" "256 ^ (n - 1) \<le> unat v"
      and e: "e = \<lparr>el_tag = t, el_header_len = h + n, el_len = size_add (unat v) (h + n),
           el_ber_found = False, el_indefinite = False\<rparr>"
      by (auto simp: drop_bits_zero pow lt128 not_less split: if_splits)
    with v have v: "unat v < 256 ^ n" "s = be_bytes n (unat v) @ r"
        "128 \<le> unat v" "256 ^ (n - 1) \<le> unat v" by simp_all
    then have "unat v < 2 ^ 32 \<and> n = length_octets (unat v)"
      using length_octets_iff [of n "unat v"] n by blast
    with v e show "\<exists>v. 128 \<le> v \<and> v < 2 ^ 32 \<and> n = length_octets v \<and> s = be_bytes n v @ r \<and>
      e = \<lparr>el_tag = t, el_header_len = h + n, el_len = v + (h + n),
           el_ber_found = False, el_indefinite = False\<rparr>"
      using noov by (intro exI [of _ "unat v"]) simp
  next
    assume "\<exists>v. 128 \<le> v \<and> v < 2 ^ 32 \<and> n = length_octets v \<and> s = be_bytes n v @ r \<and>
      e = \<lparr>el_tag = t, el_header_len = h + n, el_len = v + (h + n),
           el_ber_found = False, el_indefinite = False\<rparr>"
    then obtain v where v: "128 \<le> v" "v < 2 ^ 32" "n = length_octets v" "s = be_bytes n v @ r"
      and e: "e = \<lparr>el_tag = t, el_header_len = h + n, el_len = v + (h + n),
           el_ber_found = False, el_indefinite = False\<rparr>" by blast
    then have range: "v < 256 ^ n" "256 ^ (n - 1) \<le> v"
      using length_octets_iff [of n v] n by blast+
    define w :: u64 where "w = word_of_nat v"
    have w: "unat w = v" using u64 v(2) by (simp add: w_def)
    have get: "cbs_get_u n s = (Some w, r)"
      using v(4) range n by (simp add: cbs_get_u_eq_Some w)
    show "asn1_long_length False t h n s = (Some e, r)"
      unfolding asn1_long_length_def rd_bind_Some [where m = "cbs_get_u n" and s = s, OF get] Let_def
      using v range noov [OF v(2)] by (simp add: drop_bits_zero pow lt128 w e)
  qed
qed

section \<open>Elements\<close>

lemma asn1_header_eq_Some:
  "asn1_header False s = (Some e, r) \<longleftrightarrow>
    (\<exists>t n. valid_tag t \<and> n < 2 ^ 32 \<and> s = der_tag t @ der_length n @ r \<and>
      e = \<lparr>el_tag = t, el_header_len = length (der_tag t) + length (der_length n),
           el_len = n + (length (der_tag t) + length (der_length n)),
           el_ber_found = False, el_indefinite = False\<rparr>)"
    (is "_ \<longleftrightarrow> ?spec")
proof
  assume "asn1_header False s = (Some e, r)"
  then obtain t b h where s: "valid_tag t" "s = der_tag t @ b # h"
    and e: "(if b AND 0x80 = 0
          then rd_return \<lparr>el_tag = t, el_header_len = length s - length h,
                 el_len = unat b + (length s - length h),
                 el_ber_found = False, el_indefinite = False\<rparr> h
          else if unat (b AND 0x7f) = 0 \<or> 4 < unat (b AND 0x7f) then rd_fail h
          else asn1_long_length False t (length s - length h) (unat (b AND 0x7f)) h) = (Some e, r)"
    by (auto simp: asn1_header_def rd_bind_eq_Some parse_asn1_tag_eq_Some CBS_get_u8_eq_Some Let_def
        cong: if_cong)
  have hl: "length s - length h = length (der_tag t) + 1" using s by simp
  show ?spec
  proof (cases "b AND 0x80 = 0")
    case True
    then have "unat b < 128" by (simp add: and_top_bit)
    then have "der_length (unat b) = [b]" by (simp add: der_length_def word_of_nat_unat_id)
    moreover have "unat b < 2 ^ 32"
      by (rule less_trans [OF unat_u8_less]) simp
    ultimately show ?thesis
      using True e s hl by (intro exI [of _ t] exI [of _ "unat b"]) auto
  next
    case False
    let ?n = "unat b mod 128"
    have b: "128 + ?n = unat b"
      using False unat_u8_less [of b] by (intro add_mod_hi) (auto simp: and_top_bit simp del: unat_u8_less)
    have n: "1 \<le> ?n" "?n \<le> 4" and long: "asn1_long_length False t (length (der_tag t) + 1) ?n h = (Some e, r)"
      using False e hl by (auto simp: unat_and_7f split: if_splits)
    have "length (der_tag t) + 1 < 2 ^ 32" using length_der_tag [of t] by simp
    then obtain v where v: "128 \<le> v" "v < 2 ^ 32" "?n = length_octets v" "h = be_bytes ?n v @ r"
      and e: "e = \<lparr>el_tag = t, el_header_len = length (der_tag t) + 1 + ?n,
           el_len = v + (length (der_tag t) + 1 + ?n),
           el_ber_found = False, el_indefinite = False\<rparr>"
      using long asn1_long_length_eq_Some [OF n] by blast
    have "word_of_nat (128 + length_octets v) = b"
      unfolding v(3) [symmetric] b by (rule word_of_nat_unat_id)
    then have dl: "der_length v = b # be_bytes ?n v"
      using v by (simp add: der_length_def)
    with v e s show ?thesis
      by (intro exI [of _ t] exI [of _ v]) simp
  qed
next
  assume ?spec
  then obtain t n where t: "valid_tag t" and n: "n < 2 ^ 32" and s: "s = der_tag t @ der_length n @ r"
    and e: "e = \<lparr>el_tag = t, el_header_len = length (der_tag t) + length (der_length n),
           el_len = n + (length (der_tag t) + length (der_length n)),
           el_ber_found = False, el_indefinite = False\<rparr>" by blast
  have tag: "parse_asn1_tag s = (Some t, der_length n @ r)"
    using t s by (simp add: parse_asn1_tag_eq_Some)
  show "asn1_header False s = (Some e, r)"
  proof (cases "n < 128")
    case True
    define b :: u8 where "b = word_of_nat n"
    have b: "unat b = n" unfolding b_def using True by (intro unat_word_of_nat_less) simp
    have dl: "der_length n = [b]" using True by (simp add: der_length_def b_def)
    then show ?thesis
      using tag True b s by (simp add: asn1_header_def rd_bind_def Let_def and_top_bit e)
  next
    case False
    let ?k = "length_octets n"
    have k: "1 \<le> ?k" "?k \<le> 4" using length_octets_range by auto
    define b :: u8 where "b = word_of_nat (128 + ?k)"
    have b: "unat b = 128 + ?k" unfolding b_def using k by (intro unat_word_of_nat_less) simp
    have dl: "der_length n = b # be_bytes ?k n" using False by (simp add: der_length_def b_def)
    have num: "unat (b AND 0x7f) = ?k" using b k by (simp add: unat_and_7f)
    have "asn1_long_length False t (length (der_tag t) + 1) ?k (be_bytes ?k n @ r) = (Some e, r)"
      using length_der_tag [of t] False n e dl
      by (subst asn1_long_length_eq_Some [OF k]) (auto simp: algebra_simps)
    then show ?thesis
      using tag b k dl s num by (simp add: asn1_header_def rd_bind_def Let_def and_top_bit)
  qed
qed

lemma CBS_get_any_asn1_element_eq_Some:
  "CBS_get_any_asn1_element s = (Some (out, t, hl), r) \<longleftrightarrow>
    (\<exists>body. valid_tag t \<and> length body < 2 ^ 32 \<and> out = der_element t body \<and>
       hl + length body = length out \<and> s = out @ r)"
    (is "_ \<longleftrightarrow> ?spec")
proof
  assume "CBS_get_any_asn1_element s = (Some (out, t, hl), r)"
  then obtain e h where hdr: "asn1_header False s = (Some e, h)"
      and "CBS_get_bytes (el_len e) s = (Some out, r)" "t = el_tag e" "hl = el_header_len e"
    by (auto simp: CBS_get_any_asn1_element_def cbs_get_any_asn1_element_def rd_bind_eq_Some
        split: prod.splits option.splits)
  moreover from hdr obtain n where "valid_tag (el_tag e)" "n < 2 ^ 32"
      "s = der_tag (el_tag e) @ der_length n @ h"
      "el_header_len e = length (der_tag (el_tag e)) + length (der_length n)"
      "el_len e = n + el_header_len e"
    using asn1_header_eq_Some by auto
  ultimately have s: "s = der_tag t @ der_length n @ h" "valid_tag t" "n < 2 ^ 32"
    and out: "out = take (n + hl) s" "length out = n + hl" "s = out @ r"
    and hl: "hl = length (der_tag t) + length (der_length n)"
    by (auto simp: CBS_get_bytes_eq_Some)
  have body: "out = der_tag t @ der_length n @ take n h"
    unfolding out(1) unfolding s(1) hl by simp
  have "length out = length (der_tag t) + length (der_length n) + length (take n h)"
    unfolding body by simp
  with out(2) hl have n: "length (take n h) = n" by linarith
  then have "out = der_element t (take n h)"
    unfolding der_element_def by (simp only: body)
  moreover have "hl + length (take n h) = length out"
    using n out(2) by linarith
  ultimately show ?spec
    using s n out(3) by (intro exI [of _ "take n h"]) simp
next
  assume ?spec
  then obtain body where t: "valid_tag t" "length body < 2 ^ 32" and out: "out = der_element t body"
      and hl: "hl + length body = length out" and s: "s = out @ r" by blast
  have "asn1_header False s = (Some \<lparr>el_tag = t, el_header_len = hl, el_len = length out,
           el_ber_found = False, el_indefinite = False\<rparr>, body @ r)"
    unfolding asn1_header_eq_Some using t out hl s
    by (intro exI [of _ t] exI [of _ "length body"]) (auto simp: der_element_def)
  then show "CBS_get_any_asn1_element s = (Some (out, t, hl), r)"
    using s by (simp add: CBS_get_any_asn1_element_def cbs_get_any_asn1_element_def rd_bind_def
        CBS_get_bytes_def CBS_init_def)
qed

lemma rd_on_eq_Some: "rd_on f out s = (Some (y, out'), r) \<longleftrightarrow> f out = (Some y, out') \<and> r = s"
  by (auto simp: rd_on_def split: prod.splits option.splits)

lemma skip_header:
  "hl + length body = length (der_element t body) \<Longrightarrow>
   CBS_skip hl (der_element t body) = (Some (), body)"
  unfolding CBS_skip_eq_Some der_element_def
  by (intro exI [of _ "der_tag t @ der_length (length body)"]) simp

lemma CBS_get_any_asn1_eq_Some:
  "CBS_get_any_asn1 s = (Some (body, t), r) \<longleftrightarrow>
     valid_tag t \<and> length body < 2 ^ 32 \<and> s = der_element t body @ r"
proof
  assume "CBS_get_any_asn1 s = (Some (body, t), r)"
  then obtain out hl where "CBS_get_any_asn1_element s = (Some (out, t, hl), r)"
      and skip: "CBS_skip hl out = (Some (), body)"
    by (auto simp: CBS_get_any_asn1_def rd_bind_eq_Some rd_on_eq_Some)
  then obtain body' where "valid_tag t" "length body' < 2 ^ 32" "out = der_element t body'"
      "hl + length body' = length out" "s = out @ r"
    by (auto simp: CBS_get_any_asn1_element_eq_Some)
  with skip skip_header show "valid_tag t \<and> length body < 2 ^ 32 \<and> s = der_element t body @ r"
    by auto
next
  assume asm: "valid_tag t \<and> length body < 2 ^ 32 \<and> s = der_element t body @ r"
  define hl where "hl = length (der_tag t) + length (der_length (length body))"
  have hl: "hl + length body = length (der_element t body)"
    by (simp add: hl_def der_element_def)
  then have "CBS_get_any_asn1_element s = (Some (der_element t body, t, hl), r)"
    using asm by (auto simp: CBS_get_any_asn1_element_eq_Some)
  then show "CBS_get_any_asn1 s = (Some (body, t), r)"
    using skip_header [OF hl] by (simp add: CBS_get_any_asn1_def rd_bind_def rd_on_def)
qed

interpretation element_codec:
  canonical_codec "\<lambda>(body, t). der_element t body" CBS_get_any_asn1
    "\<lambda>(body, t). valid_tag t \<and> length body < 2 ^ 32"
  by unfold_locales (auto simp: CBS_get_any_asn1_eq_Some split: prod.splits)

lemma CBS_get_asn1_eq_Some:
  "CBS_get_asn1 t s = (Some body, r) \<longleftrightarrow>
     valid_tag t \<and> length body < 2 ^ 32 \<and> s = der_element t body @ r"
proof -
  have "CBS_get_asn1 t s = (Some body, r) \<longleftrightarrow> CBS_get_any_asn1 s = (Some (body, t), r)"
    by (auto simp: CBS_get_asn1_def cbs_get_asn1_def CBS_get_any_asn1_def rd_bind_eq_Some
        rd_on_eq_Some split: if_splits)
  then show ?thesis by (simp add: CBS_get_any_asn1_eq_Some)
qed

lemma CBS_peek_asn1_tag_iff:
  "CBS_peek_asn1_tag s t \<longleftrightarrow> valid_tag t \<and> (\<exists>r. s = der_tag t @ r)"
proof -
  have "CBS_peek_asn1_tag s t \<longleftrightarrow> (\<exists>r. parse_asn1_tag s = (Some t, r))"
    by (auto simp: CBS_peek_asn1_tag_def split: prod.splits option.splits)
  then show ?thesis by (simp add: parse_asn1_tag_eq_Some)
qed

section \<open>Integers\<close>

lemma asn1_uint64_loop_eq_Some:
  "asn1_uint64_loop v data = Some w \<longleftrightarrow> unat v * 256 ^ length data + be_nat data = unat w"
proof (induction data arbitrary: v)
  case Nil
  then show ?case by (auto intro: unsigned_word_eqI)
next
  case (Cons d data)
  show ?case
  proof (cases "unat v < 2 ^ 56")
    case True
    then have step: "unat (push_bit 8 v OR ucast d) = unat v * 256 + unat d"
      using push_or_nat [of v 56 8 "ucast d"] by simp
    have "asn1_uint64_loop v (d # data) = asn1_uint64_loop (push_bit 8 v OR ucast d) data"
      using True drop_bits_zero [of 56 v] by simp
    then show ?thesis
      using Cons.IH [of "push_bit 8 v OR ucast d"] unfolding step
      by (simp add: be_nat_Cons algebra_simps)
  next
    case False
    have "2 ^ 64 \<le> unat v * 256 ^ length (d # data)"
    proof -
      have "(2 :: nat) ^ 56 * 256 \<le> unat v * (256 * 256 ^ length data)"
        using False by (intro mult_le_mono) auto
      then show ?thesis by simp
    qed
    then have "unat v * 256 ^ length (d # data) + be_nat (d # data) \<noteq> unat w"
      using unsigned_less [of w, where ?'a = nat] by (simp del: unsigned_less)
    moreover have "asn1_uint64_loop v (d # data) = None"
      using False drop_bits_zero [of 56 v] by simp
    ultimately show ?thesis by simp
  qed
qed

lemma CBS_get_asn1_uint64_eq_Some:
  "CBS_get_asn1_uint64 s = (Some v, r) \<longleftrightarrow>
   (\<exists>body. s = der_element CBS_ASN1_INTEGER body @ r \<and> length body < 2 ^ 32 \<and>
      CBS_is_unsigned_asn1_integer body \<and> be_nat body = unat v)"
proof -
  have valid: "valid_tag CBS_ASN1_INTEGER" by (simp add: valid_tag_def)
  have "CBS_get_asn1_uint64 s = (Some v, r) \<longleftrightarrow>
    (\<exists>body. CBS_get_asn1 CBS_ASN1_INTEGER s = (Some body, r) \<and>
       CBS_is_unsigned_asn1_integer body \<and> asn1_uint64_loop 0 body = Some v)"
    unfolding CBS_get_asn1_uint64_def rd_bind_eq_Some by (auto split: if_splits option.splits)
  then show ?thesis
    using valid by (auto simp: asn1_uint64_loop_eq_Some CBS_get_asn1_eq_Some)
qed

end
