(* ===== verification/Cbb.thy ===== *)
theory Cbb
  imports Der
begin

text \<open>
  The byte-string builder of \<open>crypto/bytestring/cbb.c\<close>. All CBBs of one building process
  share the root's buffer, and each CBB has at most one open child, so the open CBBs form
  a chain. The state is the shared buffer and that chain, innermost child first; a CBB is
  named by its depth in the chain (the root is 0). A CBB that was flushed or discarded is
  no longer in the chain: its \<open>base\<close> pointer is NULL in the code, and every operation
  through a depth past the end of the chain fails, as the code's check of \<open>base\<close> makes it.
  \<open>can_alloc n\<close> says whether the allocator hands out \<open>n\<close> bytes.
\<close>

section \<open>State\<close>

text \<open>\<open>buf\<close> holds the bytes below \<open>base.len\<close>.\<close>

record cbb_buffer =
  buf :: bytes
  cap :: nat
  can_resize :: bool
  error :: bool

record cbb_child =
  offset :: nat
  pending_len_len :: nat
  pending_is_asn1 :: bool

record cbb =
  base :: cbb_buffer
  children :: "cbb_child list"

type_synonym cbb_op = "cbb \<Rightarrow> bool \<times> cbb"

text \<open>\<open>f && g\<close> on operations, and \<open>goto err\<close>, which marks the CBB at depth \<open>d\<close> failed.\<close>

definition cbb_seq :: "cbb_op \<Rightarrow> cbb_op \<Rightarrow> cbb_op" where
  "cbb_seq f g st = (case f st of (False, st') \<Rightarrow> (False, st') | (True, st') \<Rightarrow> g st')"

definition cbb_on_error :: "nat \<Rightarrow> cbb \<Rightarrow> cbb" where
  "cbb_on_error d st =
     st\<lparr>base := (base st)\<lparr>error := True\<rparr>,
        children := drop (length (children st) - d) (children st)\<rparr>"

definition cbb_goto_err :: "nat \<Rightarrow> cbb_op \<Rightarrow> cbb_op" where
  "cbb_goto_err d f st =
     (case f st of (False, st') \<Rightarrow> (False, cbb_on_error d st') | (True, st') \<Rightarrow> (True, st'))"

text \<open>The loop \<open>for (i = n - 1; i < n; i--) { p[i] = v; v >>= 8; }\<close>: the bytes stored and the
  value left over.\<close>

fun be_store :: "nat \<Rightarrow> nat \<Rightarrow> bytes \<times> nat" where
  "be_store 0 v = ([], v)"
| "be_store (Suc n) v = (let (bs, rest) = be_store n (v div 256) in (bs @ [word_of_nat v], rest))"

section \<open>Initialisation\<close>

definition CBB_zero :: cbb where
  "CBB_zero = \<lparr>base = \<lparr>buf = [], cap = 0, can_resize = False, error = False\<rparr>, children = []\<rparr>"

definition cbb_init :: "nat \<Rightarrow> bool \<Rightarrow> cbb" where
  "cbb_init cap' resize =
     \<lparr>base = \<lparr>buf = [], cap = cap', can_resize = resize, error = False\<rparr>, children = []\<rparr>"

definition CBB_init :: "(nat \<Rightarrow> bool) \<Rightarrow> nat \<Rightarrow> bool \<times> cbb" where
  "CBB_init can_alloc initial_capacity =
     (if 0 < initial_capacity \<and> \<not> can_alloc initial_capacity then (False, CBB_zero)
      else (True, cbb_init initial_capacity True))"

definition CBB_init_fixed :: "nat \<Rightarrow> bool \<times> cbb" where
  "CBB_init_fixed len = (True, cbb_init len False)"

section \<open>The buffer\<close>

definition cbb_buffer_reserve :: "(nat \<Rightarrow> bool) \<Rightarrow> nat \<Rightarrow> cbb_buffer \<Rightarrow> bool \<times> cbb_buffer" where
  "cbb_buffer_reserve can_alloc len b =
     (let newlen = size_add (length (buf b)) len
      in if newlen < length (buf b) then (False, b\<lparr>error := True\<rparr>)
         else if cap b < newlen then
           (if \<not> can_resize b then (False, b\<lparr>error := True\<rparr>)
            else let newcap = size_add (cap b) (cap b);
                     newcap = (if newcap < cap b \<or> newcap < newlen then newlen else newcap)
                 in if \<not> can_alloc newcap then (False, b\<lparr>error := True\<rparr>)
                    else (True, b\<lparr>cap := newcap\<rparr>))
         else (True, b))"

text \<open>The added bytes are uninitialised until the caller writes them; they are zero here.\<close>

definition cbb_buffer_add :: "(nat \<Rightarrow> bool) \<Rightarrow> nat \<Rightarrow> cbb_buffer \<Rightarrow> bool \<times> cbb_buffer" where
  "cbb_buffer_add can_alloc len b =
     (case cbb_buffer_reserve can_alloc len b of
        (False, b') \<Rightarrow> (False, b')
      | (True, b') \<Rightarrow> (True, b'\<lparr>buf := buf b' @ replicate len 0\<rparr>))"

section \<open>Flushing\<close>

text \<open>Length of the length octets, the first octet, and the value the loop after it writes.\<close>

definition asn1_length_form :: "nat \<Rightarrow> nat \<times> u8 \<times> nat" where
  "asn1_length_form len =
     (if 0xffffff < len then (5, 0x80 OR 4, len)
      else if 0xffff < len then (4, 0x80 OR 3, len)
      else if 0xff < len then (3, 0x80 OR 2, len)
      else if 0x7f < len then (2, 0x80 OR 1, len)
      else (1, word_of_nat len, 0))"

text \<open>
  The ASN.1 branch of \<open>CBB_flush\<close>: make room for long length octets, move the contents
  along and store the first octet. The result has the offset and the number of octets
  the length loop still has to write, and the length it writes.
\<close>

definition flush_asn1_prefix ::
    "(nat \<Rightarrow> bool) \<Rightarrow> cbb_child \<Rightarrow> nat \<Rightarrow> nat \<Rightarrow> cbb_buffer \<Rightarrow> (nat \<times> nat \<times> nat) option \<times> cbb_buffer" where
  "flush_asn1_prefix can_alloc child child_start len b =
     (if \<not> pending_is_asn1 child then (Some (offset child, pending_len_len child, len), b)
      else if 0xfffffffe < len then (None, b)
      else let (len_len, initial_length_byte, len') = asn1_length_form len;
               extra_bytes = len_len - 1
           in case (if len_len \<noteq> 1 then cbb_buffer_add can_alloc extra_bytes b else (True, b)) of
                (False, b') \<Rightarrow> (None, b')
              | (True, b') \<Rightarrow>
                  let moved = (if len_len \<noteq> 1
                               then put_bytes (child_start + extra_bytes)
                                      (take len' (drop child_start (buf b'))) (buf b')
                               else buf b')
                  in (Some (offset child + 1, len_len - 1, len'),
                      b'\<lparr>buf := put_bytes (offset child) [initial_length_byte] moved\<rparr>))"

text \<open>What \<open>CBB_flush\<close> of the CBB at depth \<open>d\<close> does once its child has no open child itself.\<close>

definition flush_child :: "(nat \<Rightarrow> bool) \<Rightarrow> nat \<Rightarrow> cbb_op" where
  "flush_child can_alloc d st =
     (case children st of
        [] \<Rightarrow> (True, st)
      | child # outer \<Rightarrow>
          let child_start = size_add (offset child) (pending_len_len child)
          in if child_start < offset child \<or> length (buf (base st)) < child_start
             then (False, cbb_on_error d st)
             else case flush_asn1_prefix can_alloc child child_start
                         (length (buf (base st)) - child_start) (base st) of
               (None, b) \<Rightarrow> (False, cbb_on_error d (st\<lparr>base := b\<rparr>))
             | (Some (off, n, len), b) \<Rightarrow>
                 let (bs, rest) = be_store n len;
                     b' = b\<lparr>buf := put_bytes off bs (buf b)\<rparr>
                 in if rest \<noteq> 0 then (False, cbb_on_error d (st\<lparr>base := b'\<rparr>))
                    else (True, st\<lparr>base := b', children := outer\<rparr>))"

function CBB_flush :: "(nat \<Rightarrow> bool) \<Rightarrow> nat \<Rightarrow> cbb_op" where
  "CBB_flush can_alloc d st =
     (if length (children st) < d \<or> error (base st) then (False, st)
      else if length (children st) = d then (True, st)
      else (case CBB_flush can_alloc (Suc d) st of
              (False, st') \<Rightarrow> (False, cbb_on_error d st')
            | (True, st') \<Rightarrow> flush_child can_alloc d st'))"
  by pat_completeness auto
termination
  by (relation "measure (\<lambda>(can_alloc, d, st). length (children st) - d)") auto

declare CBB_flush.simps [simp del]

definition CBB_data :: "nat \<Rightarrow> cbb \<Rightarrow> bytes" where
  "CBB_data d st =
     (if d = 0 then buf (base st)
      else let child = children st ! (length (children st) - d)
           in drop (offset child + pending_len_len child) (buf (base st)))"

definition CBB_len :: "nat \<Rightarrow> cbb \<Rightarrow> nat" where
  "CBB_len d st =
     (if d = 0 then length (buf (base st))
      else let child = children st ! (length (children st) - d)
           in length (buf (base st)) - offset child - pending_len_len child)"

text \<open>\<open>out_data\<close> and \<open>out_len\<close> may only be NULL for a fixed CBB. The result is the finished
  contents, \<open>None\<close> when the call fails. A successful call also sets the buffer pointer to
  NULL and cleans the CBB up, after which it may not be used; pointers are not in the
  model, so the state returned here is that before the cleaning up.\<close>

definition CBB_finish :: "(nat \<Rightarrow> bool) \<Rightarrow> bool \<Rightarrow> cbb \<Rightarrow> bytes option \<times> cbb" where
  "CBB_finish can_alloc out_null st =
     (case CBB_flush can_alloc 0 st of
        (False, st') \<Rightarrow> (None, st')
      | (True, st') \<Rightarrow>
          if can_resize (base st') \<and> out_null then (None, st')
          else (Some (buf (base st')), st'))"

section \<open>Children and plain contents\<close>

definition cbb_add_child :: "(nat \<Rightarrow> bool) \<Rightarrow> nat \<Rightarrow> bool \<Rightarrow> cbb_op" where
  "cbb_add_child can_alloc len_len is_asn1 st =
     (let off = length (buf (base st))
      in case cbb_buffer_add can_alloc len_len (base st) of
           (False, b) \<Rightarrow> (False, st\<lparr>base := b\<rparr>)
         | (True, b) \<Rightarrow>
             (True, st\<lparr>base := b\<lparr>buf := put_bytes off (replicate len_len 0) (buf b)\<rparr>,
                      children := \<lparr>offset = off, pending_len_len = len_len,
                                   pending_is_asn1 = is_asn1\<rparr> # children st\<rparr>))"

definition cbb_add_length_prefixed :: "(nat \<Rightarrow> bool) \<Rightarrow> nat \<Rightarrow> nat \<Rightarrow> cbb_op" where
  "cbb_add_length_prefixed can_alloc d len_len =
     cbb_seq (CBB_flush can_alloc d) (cbb_add_child can_alloc len_len False)"

definition CBB_add_u8_length_prefixed :: "(nat \<Rightarrow> bool) \<Rightarrow> nat \<Rightarrow> cbb_op" where
  "CBB_add_u8_length_prefixed can_alloc d = cbb_add_length_prefixed can_alloc d 1"

definition CBB_add_u16_length_prefixed :: "(nat \<Rightarrow> bool) \<Rightarrow> nat \<Rightarrow> cbb_op" where
  "CBB_add_u16_length_prefixed can_alloc d = cbb_add_length_prefixed can_alloc d 2"

definition CBB_add_u24_length_prefixed :: "(nat \<Rightarrow> bool) \<Rightarrow> nat \<Rightarrow> cbb_op" where
  "CBB_add_u24_length_prefixed can_alloc d = cbb_add_length_prefixed can_alloc d 3"

definition CBB_add_space :: "(nat \<Rightarrow> bool) \<Rightarrow> nat \<Rightarrow> nat \<Rightarrow> cbb_op" where
  "CBB_add_space can_alloc d len =
     cbb_seq (CBB_flush can_alloc d)
       (\<lambda>st. case cbb_buffer_add can_alloc len (base st) of (ok, b) \<Rightarrow> (ok, st\<lparr>base := b\<rparr>))"

text \<open>Filling the space just added at the end of the buffer.\<close>

definition fill_space :: "bytes \<Rightarrow> cbb_op" where
  "fill_space data st =
     (True, st\<lparr>base := (base st)\<lparr>buf :=
        put_bytes (length (buf (base st)) - length data) data (buf (base st))\<rparr>\<rparr>)"

definition CBB_add_bytes :: "(nat \<Rightarrow> bool) \<Rightarrow> nat \<Rightarrow> bytes \<Rightarrow> cbb_op" where
  "CBB_add_bytes can_alloc d data =
     cbb_seq (CBB_add_space can_alloc d (length data)) (fill_space data)"

definition CBB_add_zeros :: "(nat \<Rightarrow> bool) \<Rightarrow> nat \<Rightarrow> nat \<Rightarrow> cbb_op" where
  "CBB_add_zeros can_alloc d len =
     cbb_seq (CBB_add_space can_alloc d len) (fill_space (replicate len 0))"

definition CBB_reserve :: "(nat \<Rightarrow> bool) \<Rightarrow> nat \<Rightarrow> nat \<Rightarrow> cbb_op" where
  "CBB_reserve can_alloc d len =
     cbb_seq (CBB_flush can_alloc d)
       (\<lambda>st. case cbb_buffer_reserve can_alloc len (base st) of (ok, b) \<Rightarrow> (ok, st\<lparr>base := b\<rparr>))"

text \<open>\<open>CBB_did_write\<close> takes over what the caller wrote into the reserved space.\<close>

definition CBB_did_write :: "nat \<Rightarrow> bytes \<Rightarrow> cbb_op" where
  "CBB_did_write d written st =
     (let newlen = size_add (length (buf (base st))) (length written)
      in if length (children st) \<noteq> d \<or> newlen < length (buf (base st)) \<or> cap (base st) < newlen
         then (False, st)
         else (True, st\<lparr>base := (base st)\<lparr>buf := buf (base st) @ written\<rparr>\<rparr>))"

definition cbb_add_u :: "(nat \<Rightarrow> bool) \<Rightarrow> nat \<Rightarrow> u64 \<Rightarrow> nat \<Rightarrow> cbb_op" where
  "cbb_add_u can_alloc d v len_len =
     cbb_seq (CBB_add_space can_alloc d len_len)
       (\<lambda>st. let (bs, rest) = be_store len_len (unat v);
                 st' = snd (fill_space bs st)
             in if rest \<noteq> 0 then (False, cbb_on_error d st') else (True, st'))"

definition CBB_add_u8 :: "(nat \<Rightarrow> bool) \<Rightarrow> nat \<Rightarrow> u8 \<Rightarrow> cbb_op" where
  "CBB_add_u8 can_alloc d v = cbb_add_u can_alloc d (ucast v) 1"

definition CBB_add_u16 :: "(nat \<Rightarrow> bool) \<Rightarrow> nat \<Rightarrow> u16 \<Rightarrow> cbb_op" where
  "CBB_add_u16 can_alloc d v = cbb_add_u can_alloc d (ucast v) 2"

definition CBB_add_u16le :: "(nat \<Rightarrow> bool) \<Rightarrow> nat \<Rightarrow> u16 \<Rightarrow> cbb_op" where
  "CBB_add_u16le can_alloc d v = CBB_add_u16 can_alloc d (CRYPTO_bswap2 v)"

definition CBB_add_u24 :: "(nat \<Rightarrow> bool) \<Rightarrow> nat \<Rightarrow> u32 \<Rightarrow> cbb_op" where
  "CBB_add_u24 can_alloc d v = cbb_add_u can_alloc d (ucast v) 3"

definition CBB_add_u32 :: "(nat \<Rightarrow> bool) \<Rightarrow> nat \<Rightarrow> u32 \<Rightarrow> cbb_op" where
  "CBB_add_u32 can_alloc d v = cbb_add_u can_alloc d (ucast v) 4"

definition CBB_add_u32le :: "(nat \<Rightarrow> bool) \<Rightarrow> nat \<Rightarrow> u32 \<Rightarrow> cbb_op" where
  "CBB_add_u32le can_alloc d v = CBB_add_u32 can_alloc d (CRYPTO_bswap4 v)"

definition CBB_add_u64 :: "(nat \<Rightarrow> bool) \<Rightarrow> nat \<Rightarrow> u64 \<Rightarrow> cbb_op" where
  "CBB_add_u64 can_alloc d v = cbb_add_u can_alloc d v 8"

definition CBB_add_u64le :: "(nat \<Rightarrow> bool) \<Rightarrow> nat \<Rightarrow> u64 \<Rightarrow> cbb_op" where
  "CBB_add_u64le can_alloc d v = CBB_add_u64 can_alloc d (CRYPTO_bswap8 v)"

text \<open>The child of the CBB at depth \<open>d\<close> and everything inside it are dropped.\<close>

definition CBB_discard_child :: "nat \<Rightarrow> cbb \<Rightarrow> cbb" where
  "CBB_discard_child d st =
     (if length (children st) \<le> d then st
      else let child = children st ! (length (children st) - d - 1)
           in st\<lparr>base := (base st)\<lparr>buf := take (offset child) (buf (base st))\<rparr>,
                 children := drop (length (children st) - d) (children st)\<rparr>)"

section \<open>ASN.1 elements\<close>

text \<open>The first loop of \<open>add_base128_integer\<close> counts the 7-bit groups of \<open>v\<close>.\<close>

fun base128_groups :: "nat \<Rightarrow> nat" where
  "base128_groups copy = (if copy = 0 then 0 else Suc (base128_groups (copy div 128)))"

declare base128_groups.simps [simp del]

text \<open>The second loop, for the groups below \<open>n\<close> in descending order.\<close>

fun add_base128_loop :: "(nat \<Rightarrow> bool) \<Rightarrow> nat \<Rightarrow> u64 \<Rightarrow> nat \<Rightarrow> cbb_op" where
  "add_base128_loop can_alloc d v 0 = (\<lambda>st. (True, st))"
| "add_base128_loop can_alloc d v (Suc i) =
     (let byte = ucast (drop_bit (7 * i) v AND 0x7f) :: u8;
          byte = (if i \<noteq> 0 then byte OR 0x80 else byte)
      in cbb_seq (CBB_add_u8 can_alloc d byte) (add_base128_loop can_alloc d v i))"

definition add_base128_integer :: "(nat \<Rightarrow> bool) \<Rightarrow> nat \<Rightarrow> u64 \<Rightarrow> cbb_op" where
  "add_base128_integer can_alloc d v =
     (let len_len = base128_groups (unat v);
          len_len = (if len_len = 0 then 1 else len_len)
      in add_base128_loop can_alloc d v len_len)"

definition CBB_add_asn1 :: "(nat \<Rightarrow> bool) \<Rightarrow> nat \<Rightarrow> u32 \<Rightarrow> cbb_op" where
  "CBB_add_asn1 can_alloc d tag =
     cbb_seq (CBB_flush can_alloc d)
       (let tag_bits = ucast (drop_bit 24 tag AND 0xe0) :: u8;
            number = tag AND CBS_ASN1_TAG_NUMBER_MASK
        in cbb_seq
             (if 0x1f \<le> number
              then cbb_seq (CBB_add_u8 can_alloc d (tag_bits OR 0x1f))
                     (add_base128_integer can_alloc d (ucast number))
              else CBB_add_u8 can_alloc d (tag_bits OR ucast number))
             (cbb_add_child can_alloc 1 True))"

text \<open>The loop of \<open>CBB_add_asn1_uint64_with_tag\<close> over the bytes of the value, high byte first.\<close>

fun add_uint64_loop :: "(nat \<Rightarrow> bool) \<Rightarrow> nat \<Rightarrow> bool \<Rightarrow> bytes \<Rightarrow> cbb_op" where
  "add_uint64_loop can_alloc d started [] =
     (if \<not> started then CBB_add_u8 can_alloc d 0 else (\<lambda>st. (True, st)))"
| "add_uint64_loop can_alloc d started (byte # bs) =
     (if \<not> started \<and> byte = 0 then add_uint64_loop can_alloc d False bs
      else cbb_seq
             (if \<not> started \<and> byte AND 0x80 \<noteq> 0 then CBB_add_u8 can_alloc d 0 else (\<lambda>st. (True, st)))
             (cbb_seq (CBB_add_u8 can_alloc d byte) (add_uint64_loop can_alloc d True bs)))"

definition uint64_bytes :: "u64 \<Rightarrow> bytes" where
  "uint64_bytes value = map (\<lambda>i. ucast (drop_bit (8 * (7 - i)) value AND 0xff)) [0..<8]"

definition CBB_add_asn1_uint64_with_tag :: "(nat \<Rightarrow> bool) \<Rightarrow> nat \<Rightarrow> u64 \<Rightarrow> u32 \<Rightarrow> cbb_op" where
  "CBB_add_asn1_uint64_with_tag can_alloc d value tag =
     cbb_seq
       (cbb_goto_err d
          (cbb_seq (CBB_add_asn1 can_alloc d tag)
             (add_uint64_loop can_alloc (Suc d) False (uint64_bytes value))))
       (CBB_flush can_alloc d)"

definition CBB_add_asn1_uint64 :: "(nat \<Rightarrow> bool) \<Rightarrow> nat \<Rightarrow> u64 \<Rightarrow> cbb_op" where
  "CBB_add_asn1_uint64 can_alloc d value =
     CBB_add_asn1_uint64_with_tag can_alloc d value CBS_ASN1_INTEGER"

text \<open>The little-endian image of the value, and the last byte the encoding needs.\<close>

definition int64_image :: "u64 \<Rightarrow> bytes" where
  "int64_image value = rev (be_bytes 8 (unat value))"

fun int64_start :: "bytes \<Rightarrow> nat \<Rightarrow> nat" where
  "int64_start bytes 0 = 0"
| "int64_start bytes (Suc start) =
     (if bytes ! Suc start = 0xff \<and> bytes ! start AND 0x80 \<noteq> 0
      then int64_start bytes start else Suc start)"

fun add_bytes_down :: "(nat \<Rightarrow> bool) \<Rightarrow> nat \<Rightarrow> bytes \<Rightarrow> nat \<Rightarrow> cbb_op" where
  "add_bytes_down can_alloc d bytes 0 = CBB_add_u8 can_alloc d (bytes ! 0)"
| "add_bytes_down can_alloc d bytes (Suc i) =
     cbb_seq (CBB_add_u8 can_alloc d (bytes ! Suc i)) (add_bytes_down can_alloc d bytes i)"

definition CBB_add_asn1_int64_with_tag :: "(nat \<Rightarrow> bool) \<Rightarrow> nat \<Rightarrow> u64 \<Rightarrow> u32 \<Rightarrow> cbb_op" where
  "CBB_add_asn1_int64_with_tag can_alloc d value tag =
     (if 0 \<le> sint value then CBB_add_asn1_uint64_with_tag can_alloc d value tag
      else let bytes = int64_image value;
               start = int64_start bytes 7
           in cbb_seq
                (cbb_goto_err d
                   (cbb_seq (CBB_add_asn1 can_alloc d tag)
                      (add_bytes_down can_alloc (Suc d) bytes start)))
                (CBB_flush can_alloc d))"

definition CBB_add_asn1_int64 :: "(nat \<Rightarrow> bool) \<Rightarrow> nat \<Rightarrow> u64 \<Rightarrow> cbb_op" where
  "CBB_add_asn1_int64 can_alloc d value =
     CBB_add_asn1_int64_with_tag can_alloc d value CBS_ASN1_INTEGER"

definition CBB_add_asn1_octet_string :: "(nat \<Rightarrow> bool) \<Rightarrow> nat \<Rightarrow> bytes \<Rightarrow> cbb_op" where
  "CBB_add_asn1_octet_string can_alloc d data =
     cbb_goto_err d
       (cbb_seq (CBB_add_asn1 can_alloc d CBS_ASN1_OCTETSTRING)
          (cbb_seq (CBB_add_bytes can_alloc (Suc d) data) (CBB_flush can_alloc d)))"

definition CBB_add_asn1_bool :: "(nat \<Rightarrow> bool) \<Rightarrow> nat \<Rightarrow> int \<Rightarrow> cbb_op" where
  "CBB_add_asn1_bool can_alloc d value =
     cbb_goto_err d
       (cbb_seq (CBB_add_asn1 can_alloc d CBS_ASN1_BOOLEAN)
          (cbb_seq (CBB_add_u8 can_alloc (Suc d) (if value \<noteq> 0 then 0xff else 0))
             (CBB_flush can_alloc d)))"

end
