(* ===== verification/Cbb_Build.thy ===== *)
theory Cbb_Build
  imports Cbb
begin

text \<open>
  What the builder's operations append. \<open>writes\<close> is the contract every operation that
  succeeds satisfies: from a state with enough room it returns 1 and the buffer grows by
  exactly the bytes named. Contracts compose along \<open>cbb_seq\<close>, and a child block
  satisfies the contract of its header followed by its contents.
\<close>

section \<open>Stores\<close>

lemma be_store_eq: "be_store n v = (be_bytes n v, v div 256 ^ n)"
  by (induction n arbitrary: v) (auto simp: div_mult2_eq mult.commute)

section \<open>Well-formed states\<close>

fun chain_wf :: "nat \<Rightarrow> cbb_child list \<Rightarrow> bool" where
  "chain_wf n [] = True"
| "chain_wf n (c # cs) =
     (offset c + pending_len_len c \<le> n \<and> (pending_is_asn1 c \<longrightarrow> pending_len_len c = 1) \<and>
      chain_wf (offset c) cs)"

lemma chain_wf_mono: "chain_wf n cs \<Longrightarrow> n \<le> m \<Longrightarrow> chain_wf m cs"
  by (cases cs) auto

lemma chain_wf_drop: "chain_wf n cs \<Longrightarrow> chain_wf n (drop k cs)"
proof (induction cs arbitrary: n k)
  case Nil
  then show ?case by simp
next
  case (Cons c cs)
  then have "chain_wf n cs" by (auto intro: chain_wf_mono)
  with Cons show ?case by (cases k) auto
qed

definition buffer_wf :: "cbb_buffer \<Rightarrow> bool" where
  "buffer_wf b = (length (buf b) \<le> cap b \<and> cap b < size_mod)"

definition cbb_wf :: "cbb \<Rightarrow> bool" where
  "cbb_wf st = (buffer_wf (base st) \<and> chain_wf (length (buf (base st))) (children st))"

text \<open>There is room for \<open>n\<close> more bytes: in the buffer, or by growing it.\<close>

definition fits :: "(nat \<Rightarrow> bool) \<Rightarrow> nat \<Rightarrow> cbb_buffer \<Rightarrow> bool" where
  "fits can_alloc n b =
     (length (buf b) + n < size_mod \<and>
      (length (buf b) + n \<le> cap b \<or> (can_resize b \<and> (\<forall>m. can_alloc m))))"

lemma size_add_less: "size_add a b < size_mod"
  by (simp add: size_add_def size_mod_def)

lemma buffer_reserve_fits:
  assumes "fits A n b" and "buffer_wf b"
  shows "\<exists>c. cbb_buffer_reserve A n b = (True, b\<lparr>cap := c\<rparr>) \<and> cap b \<le> c \<and>
     length (buf b) + n \<le> c \<and> c < size_mod"
proof -
  have new: "size_add (length (buf b)) n = length (buf b) + n"
    using assms by (intro size_add_small) (simp add: fits_def)
  show ?thesis
  proof (cases "cap b < length (buf b) + n")
    case True
    then have "can_resize b" "\<forall>m. A m" using assms by (auto simp: fits_def)
    with True new assms size_add_less [of "cap b" "cap b"] show ?thesis
      by (auto simp: cbb_buffer_reserve_def Let_def fits_def)
  next
    case False
    with new assms show ?thesis
      by (intro exI [of _ "cap b"]) (simp add: cbb_buffer_reserve_def buffer_wf_def)
  qed
qed

lemma buffer_add_fits:
  assumes "fits A n b" and "buffer_wf b"
  shows "\<exists>c. cbb_buffer_add A n b = (True, b\<lparr>cap := c, buf := buf b @ replicate n 0\<rparr>) \<and>
     cap b \<le> c \<and> length (buf b) + n \<le> c \<and> c < size_mod"
proof -
  obtain c where "cbb_buffer_reserve A n b = (True, b\<lparr>cap := c\<rparr>)" "cap b \<le> c"
      "length (buf b) + n \<le> c" "c < size_mod"
    using buffer_reserve_fits [OF assms] by blast
  then show ?thesis
    by (intro exI [of _ c]) (simp add: cbb_buffer_add_def)
qed

section \<open>The contract of a successful operation\<close>

definition cbb_ready :: "(nat \<Rightarrow> bool) \<Rightarrow> nat \<Rightarrow> nat \<Rightarrow> cbb \<Rightarrow> bool" where
  "cbb_ready A d n st =
     (length (children st) = d \<and> \<not> error (base st) \<and> cbb_wf st \<and> fits A n (base st))"

definition cbb_wrote :: "cbb \<Rightarrow> bytes \<Rightarrow> cbb \<Rightarrow> bool" where
  "cbb_wrote st xs st' =
     (buf (base st') = buf (base st) @ xs \<and> children st' = children st \<and>
      error (base st') = error (base st) \<and> can_resize (base st') = can_resize (base st) \<and>
      cap (base st) \<le> cap (base st') \<and> buffer_wf (base st'))"

definition writes :: "(nat \<Rightarrow> bool) \<Rightarrow> nat \<Rightarrow> bytes \<Rightarrow> cbb_op \<Rightarrow> bool" where
  "writes A d xs f =
     (\<forall>n st. length xs \<le> n \<longrightarrow> cbb_ready A d n st \<longrightarrow> (\<exists>st'. f st = (True, st') \<and> cbb_wrote st xs st'))"

lemma writesD:
  assumes "writes A d xs f" and "cbb_ready A d n st" and "length xs \<le> n"
  obtains st' where "f st = (True, st')" and "cbb_wrote st xs st'"
  using assms unfolding writes_def by blast

lemma writesI:
  assumes "\<And>st. cbb_ready A d (length xs) st \<Longrightarrow> \<exists>st'. f st = (True, st') \<and> cbb_wrote st xs st'"
  shows "writes A d xs f"
proof -
  have "cbb_ready A d (length xs) st" if "cbb_ready A d n st" and "length xs \<le> n" for n st
    using that by (auto simp: cbb_ready_def fits_def)
  with assms show ?thesis unfolding writes_def by blast
qed

lemma cbb_wrote_ready:
  assumes "cbb_ready A d (length xs + n) st" and "cbb_wrote st xs st'"
  shows "cbb_ready A d n st'"
  using assms chain_wf_mono [of "length (buf (base st))" "children st" "length (buf (base st')) "]
  by (auto simp: cbb_ready_def cbb_wrote_def cbb_wf_def fits_def)

lemma cbb_wrote_trans:
  "cbb_wrote st xs st' \<Longrightarrow> cbb_wrote st' ys st'' \<Longrightarrow> cbb_wrote st (xs @ ys) st''"
  by (auto simp: cbb_wrote_def)

lemma writes_nothing: "writes A d [] (\<lambda>st. (True, st))"
  by (rule writesI) (auto simp: cbb_wrote_def cbb_ready_def cbb_wf_def)

lemma writes_seq:
  assumes "writes A d xs f" and "writes A d ys g"
  shows "writes A d (xs @ ys) (cbb_seq f g)"
proof (rule writesI)
  fix st
  assume ready: "cbb_ready A d (length (xs @ ys)) st"
  then obtain st1 where f: "f st = (True, st1)" and w1: "cbb_wrote st xs st1"
    using assms(1) by (auto elim: writesD)
  have "cbb_ready A d (length ys) st1"
    using ready w1 by (auto intro: cbb_wrote_ready)
  then obtain st2 where "g st1 = (True, st2)" and "cbb_wrote st1 ys st2"
    using assms(2) by (auto elim: writesD)
  with f w1 show "\<exists>st'. cbb_seq f g st = (True, st') \<and> cbb_wrote st (xs @ ys) st'"
    by (auto simp: cbb_seq_def intro: cbb_wrote_trans)
qed

lemma writes_goto_err: "writes A d xs f \<Longrightarrow> writes A d xs (cbb_goto_err d f)"
  unfolding writes_def by (fastforce simp: cbb_goto_err_def)

lemma flush_ready: "cbb_ready A d n st \<Longrightarrow> CBB_flush A d st = (True, st)"
  by (subst CBB_flush.simps) (simp add: cbb_ready_def)

lemma writes_flush: "writes A d [] (CBB_flush A d)"
  by (rule writesI) (auto simp: flush_ready cbb_wrote_def cbb_ready_def cbb_wf_def)

text \<open>\<open>CBB_add_space\<close> followed by storing the bytes.\<close>

lemma add_space_fill:
  assumes "cbb_ready A d (length xs) st"
  shows "\<exists>st'. CBB_add_space A d (length xs) st = (True, st') \<and>
     cbb_wrote st xs (snd (fill_space xs st')) \<and> children st' = children st"
proof -
  obtain c where c: "cbb_buffer_add A (length xs) (base st) =
      (True, (base st)\<lparr>cap := c, buf := buf (base st) @ replicate (length xs) 0\<rparr>)"
      "cap (base st) \<le> c" "length (buf (base st)) + length xs \<le> c" "c < size_mod"
    using buffer_add_fits [of A "length xs" "base st"] assms
    by (auto simp: cbb_ready_def cbb_wf_def)
  with assms show ?thesis
    by (simp add: CBB_add_space_def cbb_seq_def flush_ready fill_space_def cbb_wrote_def buffer_wf_def)
qed

lemma writes_add_bytes: "writes A d xs (CBB_add_bytes A d xs)"
proof (rule writesI)
  fix st
  assume "cbb_ready A d (length xs) st"
  from add_space_fill [OF this]
  show "\<exists>st'. CBB_add_bytes A d xs st = (True, st') \<and> cbb_wrote st xs st'"
    by (auto simp: CBB_add_bytes_def cbb_seq_def fill_space_def)
qed

lemma writes_add_zeros: "writes A d (replicate n 0) (CBB_add_zeros A d n)"
proof -
  have "CBB_add_zeros A d n = CBB_add_bytes A d (replicate n 0)"
    by (simp add: CBB_add_zeros_def CBB_add_bytes_def)
  then show ?thesis by (simp add: writes_add_bytes)
qed

lemma writes_add_u:
  assumes "unat v < 256 ^ n"
  shows "writes A d (be_bytes n (unat v)) (cbb_add_u A d v n)"
proof (rule writesI)
  fix st
  assume "cbb_ready A d (length (be_bytes n (unat v))) st"
  from add_space_fill [OF this] assms
  show "\<exists>st'. cbb_add_u A d v n st = (True, st') \<and> cbb_wrote st (be_bytes n (unat v)) st'"
    by (auto simp: cbb_add_u_def cbb_seq_def be_store_eq Let_def)
qed

lemma writes_add_u8: "writes A d [b] (CBB_add_u8 A d b)"
  using writes_add_u [of "ucast b" 1 A d]
  by (simp add: CBB_add_u8_def word_of_nat_unat_id)

lemma writes_add_u16: "writes A d (be_bytes 2 (unat v)) (CBB_add_u16 A d v)"
proof -
  have "unat (ucast v :: u64) = unat v" by (rule unat_ucast_up) simp
  then show ?thesis
    using writes_add_u [of "ucast v" 2 A d] unsigned_less [of v, where ?'a = nat]
    by (simp add: CBB_add_u16_def)
qed

lemma writes_add_u24:
  assumes "unat v < 2 ^ 24"
  shows "writes A d (be_bytes 3 (unat v)) (CBB_add_u24 A d v)"
proof -
  have "unat (ucast v :: u64) = unat v" by (rule unat_ucast_up) simp
  then show ?thesis
    using writes_add_u [of "ucast v" 3 A d] assms by (simp add: CBB_add_u24_def)
qed

lemma writes_add_u32: "writes A d (be_bytes 4 (unat v)) (CBB_add_u32 A d v)"
proof -
  have "unat (ucast v :: u64) = unat v" by (rule unat_ucast_up) simp
  then show ?thesis
    using writes_add_u [of "ucast v" 4 A d] unsigned_less [of v, where ?'a = nat]
    by (simp add: CBB_add_u32_def)
qed

lemma writes_add_u64: "writes A d (be_bytes 8 (unat v)) (CBB_add_u64 A d v)"
  using writes_add_u [of v 8 A d] unsigned_less [of v, where ?'a = nat]
  by (simp add: CBB_add_u64_def)

section \<open>Base-128 integers and tags\<close>

definition cont_groups :: "nat \<Rightarrow> nat \<Rightarrow> bytes" where
  "cont_groups v n = map (\<lambda>i. word_of_nat (128 + v div 128 ^ i mod 128)) (rev [0..<n])"

lemma cont_groups_Suc:
  "cont_groups v (Suc n) = cont_groups (v div 128) n @ [word_of_nat (128 + v mod 128)]"
proof -
  have "rev [0..<Suc n] = map Suc (rev [0..<n]) @ [0]"
    by (simp only: upt_conv_Cons zero_less_Suc map_Suc_upt [symmetric] rev_map rev.simps)
  then show ?thesis
    unfolding cont_groups_def by (simp only: map_append map_map comp_def list.map power_Suc
      div_mult2_eq power_0 div_by_1)
qed

lemma base128_cont_groups: "base128_cont v = cont_groups v (base128_groups v)"
proof (induction v rule: base128_cont.induct)
  case (1 v)
  show ?case
  proof (cases "v = 0")
    case True
    then show ?thesis by (simp add: cont_groups_def base128_groups.simps)
  next
    case False
    with "1.IH" have "base128_cont (v div 128) = cont_groups (v div 128) (base128_groups (v div 128))"
      by blast
    with False show ?thesis
      by (simp only: base128_cont.simps [of v] base128_groups.simps [of v] if_False cont_groups_Suc)
  qed
qed

lemma drop_and_7f:
  "unat (ucast (drop_bit (7 * i) (v :: u64) AND 0x7f) :: u8) = unat v div 128 ^ i mod 128"
proof -
  have "unat (drop_bit (7 * i) v AND 0x7f) = unat (drop_bit (7 * i) v) mod 2 ^ 7"
    using unat_and_mask [of "drop_bit (7 * i) v" 7] by (simp add: mask_eq_exp_minus_1)
  also have "unat (drop_bit (7 * i) v) = unat v div 2 ^ (7 * i)"
    by (metis unat_drop_bit_eq drop_bit_eq_div)
  also have "(2 :: nat) ^ (7 * i) = 128 ^ i"
    by (simp add: power_mult)
  finally have eq: "unat (drop_bit (7 * i) v AND 0x7f) = unat v div 128 ^ i mod 128" by simp
  moreover have "unat v div 128 ^ i mod 128 < 2 ^ LENGTH(8)"
    by (rule less_trans [of _ 128]) simp_all
  ultimately show ?thesis
    by (subst ucast_narrow_nat) simp_all
qed

lemma or_80: "unat (b :: u8) < 128 \<Longrightarrow> b OR 0x80 = word_of_nat (128 + unat b)"
  using push_or_nat_eq [of "1 :: u8" 1 b "unat b" 1 7] by (simp add: or.commute)

lemma writes_base128_loop:
  "writes A d (cont_groups (unat v div 128) n @ [word_of_nat (unat v mod 128)])
     (add_base128_loop A d v (Suc n))"
proof -
  define low :: "nat \<Rightarrow> bytes" where "low i = map (\<lambda>i. word_of_nat (unat v div 128 ^ i mod 128 + (if i \<noteq> 0 then 128 else 0)))
      (rev [0..<i])" for i
  have loop: "writes A d (low i) (add_base128_loop A d v i)" for i
  proof (induction i)
    case 0
    show ?case by (simp add: low_def writes_nothing)
  next
    case (Suc i)
    let ?b = "ucast (drop_bit (7 * i) v AND 0x7f) :: u8"
    let ?c = "if i \<noteq> 0 then ?b OR 0x80 else ?b"
    have "unat ?b < 128" by (simp add: drop_and_7f)
    then have "?c = word_of_nat (unat v div 128 ^ i mod 128 + (if i \<noteq> 0 then 128 else 0))"
      by (auto simp: or_80 word_of_nat_unat_id drop_and_7f add.commute simp flip: drop_and_7f)
    then have "low (Suc i) = [?c] @ low i" by (simp add: low_def)
    moreover have "writes A d ([?c] @ low i)
        (cbb_seq (CBB_add_u8 A d ?c) (add_base128_loop A d v i))"
      by (intro writes_seq writes_add_u8 Suc.IH)
    ultimately show ?case by (simp add: Let_def)
  qed
  have "low (Suc n) = cont_groups (unat v div 128) n @ [word_of_nat (unat v mod 128)]"
  proof -
    have "rev [0..<Suc n] = map Suc (rev [0..<n]) @ [0]"
      by (simp only: upt_conv_Cons zero_less_Suc map_Suc_upt [symmetric] rev_map rev.simps)
    then show ?thesis
      unfolding low_def cont_groups_def
      by (simp only: map_append map_map comp_def list.map power_Suc div_mult2_eq power_0 div_by_1)
        (simp add: add.commute)
  qed
  with loop [of "Suc n"] show ?thesis by simp
qed

lemma writes_base128: "writes A d (base128 (unat v)) (add_base128_integer A d v)"
proof (cases "unat v = 0")
  case True
  then show ?thesis
    using writes_base128_loop [of A d v 0]
    by (simp add: add_base128_integer_def base128_groups.simps base128_def cont_groups_def)
next
  case False
  then have "add_base128_integer A d v = add_base128_loop A d v (Suc (base128_groups (unat v div 128)))"
    by (simp add: add_base128_integer_def base128_groups.simps [of "unat v"])
  then show ?thesis
    using writes_base128_loop [of A d v "base128_groups (unat v div 128)"]
    by (simp only: base128_def base128_cont_groups)
qed

lemma tag_bits_or:
  assumes "unat x < 32"
  shows "(ucast (drop_bit 24 (t :: u32) AND 0xe0) :: u8) OR x = word_of_nat (tag_class t * 32 + unat x)"
proof -
  have "(0xe0 :: u32) = push_bit 5 (mask 3)"
    by (simp add: mask_eq_exp_minus_1)
  then have "drop_bit 24 t AND 0xe0 = drop_bit 24 t AND push_bit 5 (mask 3)" by simp
  also have "(ucast \<dots> :: u8) = push_bit 5 (ucast (drop_bit 29 t))"
    by (rule bit_word_eqI) (auto simp: bit_simps)
  finally have eq: "(ucast (drop_bit 24 t AND 0xe0) :: u8) = push_bit 5 (ucast (drop_bit 29 t))" .
  have c: "unat (drop_bit 29 t) = tag_class t"
    by (metis unat_drop_bit_eq drop_bit_eq_div tag_class_def)
  have "tag_class t < 2 ^ 8" using tag_class_less [of t] by simp
  then have "unat (ucast (drop_bit 29 t) :: u8) = tag_class t"
    using c by (simp add: unsigned_ucast_eq take_bit_nat_eq_self)
  then show ?thesis
    unfolding eq using push_or_nat_eq [of "ucast (drop_bit 29 t) :: u8" "tag_class t" x "unat x" 3 5]
      assms tag_class_less [of t] by simp
qed

lemma unat_tag_and_mask: "unat (t AND CBS_ASN1_TAG_NUMBER_MASK) = tag_number t"
  using unat_and_mask [of t 29] by (simp add: mask_eq_exp_minus_1 tag_number_def)

section \<open>Children\<close>

lemma add_child_ready:
  assumes "cbb_ready A d (ll + n) st" and "asn1 \<longrightarrow> ll = 1"
  shows "\<exists>st'. cbb_add_child A ll asn1 st = (True, st') \<and> cbb_ready A (Suc d) n st' \<and>
     buf (base st') = buf (base st) @ replicate ll 0 \<and>
     children st' = \<lparr>offset = length (buf (base st)), pending_len_len = ll, pending_is_asn1 = asn1\<rparr>
       # children st \<and>
     can_resize (base st') = can_resize (base st) \<and> cap (base st) \<le> cap (base st')"
proof -
  have "fits A ll (base st)" using assms(1) by (auto simp: cbb_ready_def fits_def)
  then obtain c where "cbb_buffer_add A ll (base st) =
      (True, (base st)\<lparr>cap := c, buf := buf (base st) @ replicate ll 0\<rparr>)"
      "cap (base st) \<le> c" "length (buf (base st)) + ll \<le> c" "c < size_mod"
    using buffer_add_fits [of A ll "base st"] assms(1) by (auto simp: cbb_ready_def cbb_wf_def)
  then show ?thesis
    using assms by (auto simp: cbb_add_child_def Let_def cbb_ready_def cbb_wf_def buffer_wf_def fits_def)
qed

text \<open>Writing the length prefix of the only open child, whose contents are \<open>inner\<close>.\<close>

lemma asn1_length_form_eq:
  assumes "asn1_length_form len = (k, b, len')" and "len \<le> 0xfffffffe"
  shows "k = length (der_length len)" and "[b] @ be_bytes (k - 1) len' = der_length len"
    and "len' < 256 ^ (k - 1)" and "k \<noteq> 1 \<Longrightarrow> len' = len"
proof -
  have "0x80 OR 4 = (0x84 :: u8)" "0x80 OR 3 = (0x83 :: u8)"
    "0x80 OR 2 = (0x82 :: u8)" "0x80 OR 1 = (0x81 :: u8)" by simp_all
  with assms show "k = length (der_length len)" "[b] @ be_bytes (k - 1) len' = der_length len"
    "len' < 256 ^ (k - 1)" "k \<noteq> 1 \<Longrightarrow> len' = len"
    by (auto simp: asn1_length_form_def der_length_def length_octets_def split: if_splits)
qed

lemma put_prefix:
  assumes "length X = Suc (length bs)"
  shows "put_bytes (Suc (length old)) bs (put_bytes (length old) [b] (old @ X @ inner)) = old @ (b # bs) @ inner"
proof -
  obtain x Y where X: "X = x # Y" "length Y = length bs"
    using assms by (cases X) auto
  have "put_bytes (length old) [b] (old @ X @ inner) = (old @ [b]) @ Y @ inner"
    using put_bytes_append [of "[x]" "[b]" old "Y @ inner"] X by simp
  then show ?thesis
    using put_bytes_append [of Y bs "old @ [b]" inner] X by simp
qed

lemma move_contents:
  assumes "length old + k = p"
  shows "\<exists>X. length X = Suc k \<and>
    put_bytes (Suc p) (take (length inner) (drop (Suc (length old)) (old @ [0] @ inner @ replicate k 0)))
      (old @ [0] @ inner @ replicate k 0) = old @ X @ inner"
proof -
  let ?Z = "old @ [0] @ inner @ replicate k 0"
  have "take (length inner) (drop (Suc (length old)) ?Z) = inner" by simp
  moreover have "take (Suc p) ?Z = old @ take (Suc k) ([0] @ inner @ replicate k 0)"
    by (simp flip: assms)
  moreover have "drop (Suc p + length inner) ?Z = []"
    using assms by simp
  ultimately show ?thesis
    by (intro exI [of _ "take (Suc k) ([0] @ inner @ replicate k 0)"]) (simp add: put_bytes_def)
qed

definition length_prefix :: "bool \<Rightarrow> nat \<Rightarrow> nat \<Rightarrow> bytes" where
  "length_prefix asn1 ll n = (if asn1 then der_length n else be_bytes ll n)"

definition prefix_fits :: "bool \<Rightarrow> nat \<Rightarrow> nat \<Rightarrow> bool" where
  "prefix_fits asn1 ll n = (if asn1 then ll = 1 \<and> n \<le> 0xfffffffe else n < 256 ^ ll)"

lemma flush_prefix_fits:
  assumes fit: "prefix_fits asn1 ll (length inner)"
    and room: "fits A (length (length_prefix asn1 ll (length inner)) - ll) b" and wf: "buffer_wf b"
    and b: "buf b = old @ replicate ll 0 @ inner"
  shows "\<exists>off n len b'. flush_asn1_prefix A
        \<lparr>offset = length old, pending_len_len = ll, pending_is_asn1 = asn1\<rparr>
        (length old + ll) (length inner) b = (Some (off, n, len), b') \<and>
      len < 256 ^ n \<and> put_bytes off (be_bytes n len) (buf b') =
        old @ length_prefix asn1 ll (length inner) @ inner \<and>
      can_resize b' = can_resize b \<and> error b' = error b \<and> cap b \<le> cap b' \<and> cap b' < size_mod \<and>
      length old + length (length_prefix asn1 ll (length inner)) + length inner \<le> cap b'"
proof (cases asn1)
  case False
  have "length (buf b) \<le> cap b" using wf by (simp add: buffer_wf_def)
  with False assms show ?thesis
    by (simp add: flush_asn1_prefix_def prefix_fits_def length_prefix_def buffer_wf_def)
next
  case True
  then have ll: "ll = 1" and small: "length inner \<le> 0xfffffffe"
    using fit by (simp_all add: prefix_fits_def)
  obtain k ib len' where form: "asn1_length_form (length inner) = (k, ib, len')"
    by (metis prod_cases3)
  note f = asn1_length_form_eq [OF form small]
  have pre: "length_prefix asn1 ll (length inner) = [ib] @ be_bytes (k - 1) len'"
    using f(2) True by (simp add: length_prefix_def)
  have bufcap: "length (buf b) \<le> cap b" "cap b < size_mod" using wf by (simp_all add: buffer_wf_def)
  show ?thesis
  proof (cases "k = 1")
    case True
    with f(3) have "len' = 0" by simp
    have "put_bytes (length old) [ib] (buf b) = old @ [ib] @ inner"
      using put_bytes_append [of "[0]" "[ib]" old inner] b ll by simp
    then have "put_bytes (Suc (length old)) [] (put_bytes (length old) [ib] (buf b)) = old @ [ib] @ inner"
      by (simp add: put_bytes_def)
    with True \<open>asn1\<close> small form ll pre b bufcap \<open>len' = 0\<close> show ?thesis
      by (simp add: flush_asn1_prefix_def)
  next
    case False
    have k: "k = Suc (k - 1)" using f(1) by (simp add: der_length_def split: if_splits)
    have len': "len' = length inner" using False f(4) by simp
    have room': "fits A (k - 1) b"
      using room pre ll by simp
    obtain c where add: "cbb_buffer_add A (k - 1) b = (True, b\<lparr>cap := c, buf := buf b @ replicate (k - 1) 0\<rparr>)"
        "cap b \<le> c" "length (buf b) + (k - 1) \<le> c" "c < size_mod"
      using buffer_add_fits [OF room' wf] by blast
    have Z: "buf b @ replicate (k - 1) 0 = old @ [0] @ inner @ replicate (k - 1) 0"
      using b ll by simp
    obtain X where X: "length X = Suc (k - 1)"
      "put_bytes (Suc (length old + (k - 1))) (take (length inner) (drop (Suc (length old))
         (buf b @ replicate (k - 1) 0))) (buf b @ replicate (k - 1) 0) = old @ X @ inner"
      using move_contents [of old "k - 1" _ inner] unfolding Z by blast
    have "put_bytes (Suc (length old)) (be_bytes (k - 1) len') (put_bytes (length old) [ib] (old @ X @ inner)) =
        old @ (ib # be_bytes (k - 1) len') @ inner"
      using X(1) by (intro put_prefix) simp
    with False \<open>asn1\<close> small form ll pre b add X f(3) len' k show ?thesis
      by (simp add: flush_asn1_prefix_def)
  qed
qed

lemma flush_open_child:
  assumes ready: "cbb_ready A (Suc d) e st"
    and ch: "children st = \<lparr>offset = length old, pending_len_len = ll, pending_is_asn1 = asn1\<rparr> # outer"
    and b: "buf (base st) = old @ replicate ll 0 @ inner"
    and fit: "prefix_fits asn1 ll (length inner)"
    and e: "length (length_prefix asn1 ll (length inner)) - ll \<le> e"
  shows "\<exists>st'. CBB_flush A d st = (True, st') \<and>
     buf (base st') = old @ length_prefix asn1 ll (length inner) @ inner \<and> children st' = outer \<and>
     can_resize (base st') = can_resize (base st) \<and> \<not> error (base st') \<and>
     cap (base st) \<le> cap (base st') \<and> buffer_wf (base st')"
proof -
  have wf: "buffer_wf (base st)" and err: "\<not> error (base st)"
    using ready by (simp_all add: cbb_ready_def cbb_wf_def)
  have room: "fits A (length (length_prefix asn1 ll (length inner)) - ll) (base st)"
    using ready e by (auto simp: cbb_ready_def fits_def)
  obtain off n len b' where pre: "flush_asn1_prefix A
        \<lparr>offset = length old, pending_len_len = ll, pending_is_asn1 = asn1\<rparr>
        (length old + ll) (length inner) (base st) = (Some (off, n, len), b')"
      "len < 256 ^ n" and b': "put_bytes off (be_bytes n len) (buf b') =
        old @ length_prefix asn1 ll (length inner) @ inner"
      "can_resize b' = can_resize (base st)" "error b' = error (base st)"
      "cap (base st) \<le> cap b'" "cap b' < size_mod"
      "length old + length (length_prefix asn1 ll (length inner)) + length inner \<le> cap b'"
    using flush_prefix_fits [OF fit room wf b] by blast
  have start: "size_add (length old) ll = length old + ll"
    using wf b by (intro size_add_small) (simp add: buffer_wf_def)
  have "CBB_flush A d st = flush_child A d st"
    using ready flush_ready [OF ready] by (subst CBB_flush.simps) (simp add: cbb_ready_def)
  also have "\<dots> = (True, st\<lparr>base := b'\<lparr>buf := old @ length_prefix asn1 ll (length inner) @ inner\<rparr>,
      children := outer\<rparr>)"
    using ch b start pre b' by (simp add: flush_child_def be_store_eq)
  finally show ?thesis
    using b' err by (simp add: buffer_wf_def)
qed

text \<open>A child block: open a child with a reserved prefix, write its contents, flush.\<close>

lemma writes_block:
  assumes body: "writes A (Suc d) inner body" and fit: "prefix_fits asn1 ll (length inner)"
    and ll: "ll \<le> length (length_prefix asn1 ll (length inner))"
  shows "writes A d (length_prefix asn1 ll (length inner) @ inner)
    (cbb_seq (cbb_add_child A ll asn1) (cbb_seq body (CBB_flush A d)))"
proof (rule writesI)
  fix st
  assume ready: "cbb_ready A d (length (length_prefix asn1 ll (length inner) @ inner)) st"
  define e where "e = length (length_prefix asn1 ll (length inner)) - ll"
  have len: "length (length_prefix asn1 ll (length inner) @ inner) = ll + (length inner + e)"
    using ll by (simp add: e_def)
  obtain st1 where st1: "cbb_add_child A ll asn1 st = (True, st1)"
      "cbb_ready A (Suc d) (length inner + e) st1"
      "buf (base st1) = buf (base st) @ replicate ll 0"
      "children st1 = \<lparr>offset = length (buf (base st)), pending_len_len = ll, pending_is_asn1 = asn1\<rparr>
        # children st"
      "can_resize (base st1) = can_resize (base st)" "cap (base st) \<le> cap (base st1)"
    using add_child_ready [of A d ll "length inner + e" st asn1] ready fit unfolding len
    by (auto simp: prefix_fits_def)
  obtain st2 where st2: "body st1 = (True, st2)" "cbb_wrote st1 inner st2"
    using body st1(2) by (auto elim: writesD)
  have ready2: "cbb_ready A (Suc d) e st2"
    using st1(2) st2(2) by (auto intro: cbb_wrote_ready)
  obtain st3 where st3: "CBB_flush A d st2 = (True, st3)"
      "buf (base st3) = buf (base st) @ length_prefix asn1 ll (length inner) @ inner"
      "children st3 = children st"
      "can_resize (base st3) = can_resize (base st2)" "\<not> error (base st3)"
      "cap (base st2) \<le> cap (base st3)" "buffer_wf (base st3)"
    using flush_open_child [OF ready2, of "buf (base st)" ll asn1 "children st" inner] st1 st2 fit
    by (auto simp: cbb_wrote_def e_def)
  show "\<exists>st'. cbb_seq (cbb_add_child A ll asn1) (cbb_seq body (CBB_flush A d)) st = (True, st') \<and>
     cbb_wrote st (length_prefix asn1 ll (length inner) @ inner) st'"
    using st1 st2 st3 ready by (intro exI [of _ st3]) (auto simp: cbb_seq_def cbb_wrote_def cbb_ready_def)
qed

lemma cbb_seq_assoc: "cbb_seq (cbb_seq f g) h = cbb_seq f (cbb_seq g h)"
  by (rule ext) (simp add: cbb_seq_def split: prod.splits bool.splits)

lemma writes_tag_bytes:
  "writes A d (der_tag t)
     (let tag_bits = ucast (drop_bit 24 t AND 0xe0) :: u8;
          number = t AND CBS_ASN1_TAG_NUMBER_MASK
      in if 0x1f \<le> number
         then cbb_seq (CBB_add_u8 A d (tag_bits OR 0x1f)) (add_base128_integer A d (ucast number))
         else CBB_add_u8 A d (tag_bits OR ucast number))"
proof -
  let ?bits = "ucast (drop_bit 24 t AND 0xe0) :: u8"
  let ?n = "t AND CBS_ASN1_TAG_NUMBER_MASK"
  have n: "unat ?n = tag_number t" by (rule unat_tag_and_mask)
  have le: "0x1f \<le> ?n \<longleftrightarrow> 31 \<le> tag_number t"
    using n by (simp add: word_le_nat_alt)
  show ?thesis
  proof (cases "tag_number t < 31")
    case True
    have "unat (ucast ?n :: u8) = tag_number t"
      using n True by (simp add: unsigned_ucast_eq take_bit_nat_eq_self)
    then have "?bits OR ucast ?n = word_of_nat (tag_class t * 32 + tag_number t)"
      using tag_bits_or [of "ucast ?n" t] True by simp
    with True show ?thesis
      using writes_add_u8 [of A d "?bits OR ucast ?n"] le by (simp add: der_tag_def Let_def)
  next
    case False
    have up: "unat (ucast ?n :: u64) = tag_number t"
      using n by (subst unat_ucast_up) simp_all
    have bits: "?bits OR 0x1f = word_of_nat (tag_class t * 32 + 31)"
      using tag_bits_or [of "0x1f" t] by simp
    have "writes A d ([?bits OR 0x1f] @ base128 (tag_number t))
       (cbb_seq (CBB_add_u8 A d (?bits OR 0x1f)) (add_base128_integer A d (ucast ?n)))"
      using writes_base128 [of A d "ucast ?n"] unfolding up by (intro writes_seq writes_add_u8)
    with False le show ?thesis
      unfolding Let_def bits by (simp add: der_tag_def)
  qed
qed

lemma writes_asn1_block:
  assumes "writes A (Suc d) inner body" and "length inner \<le> 0xfffffffe"
  shows "writes A d (der_element t inner) (cbb_seq (CBB_add_asn1 A d t) (cbb_seq body (CBB_flush A d)))"
proof -
  have "writes A d (length_prefix True 1 (length inner) @ inner)
      (cbb_seq (cbb_add_child A 1 True) (cbb_seq body (CBB_flush A d)))"
    using assms by (intro writes_block) (auto simp: prefix_fits_def length_prefix_def der_length_def)
  from writes_seq [OF writes_flush writes_seq [OF writes_tag_bytes this, of t]]
  show ?thesis
    by (simp add: CBB_add_asn1_def cbb_seq_assoc der_element_def length_prefix_def Let_def)
qed

lemma writes_length_prefixed:
  assumes "writes A (Suc d) inner body" and "length inner < 256 ^ ll"
  shows "writes A d (be_bytes ll (length inner) @ inner)
    (cbb_seq (cbb_add_length_prefixed A d ll) (cbb_seq body (CBB_flush A d)))"
proof -
  have "writes A d (length_prefix False ll (length inner) @ inner)
      (cbb_seq (cbb_add_child A ll False) (cbb_seq body (CBB_flush A d)))"
    using assms by (intro writes_block) (auto simp: prefix_fits_def length_prefix_def)
  from writes_seq [OF writes_flush this]
  show ?thesis
    by (simp add: cbb_add_length_prefixed_def cbb_seq_assoc length_prefix_def)
qed

end
