(* ===== verification/Asn1_Values.thy ===== *)
theory Asn1_Values
  imports Cbb_Build
begin

text \<open>
  The INTEGER, BOOLEAN and OCTET STRING values of \<open>cbs.c\<close> and \<open>cbb.c\<close>: their DER
  contents as functions of the value, the theorem that the readers accept exactly these
  contents, and that the builders write them, hence the round trips.
\<close>

section \<open>Contents of an INTEGER\<close>

fun min_bytes :: "nat \<Rightarrow> bytes" where
  "min_bytes n = (if n = 0 then [] else min_bytes (n div 256) @ [word_of_nat n])"

declare min_bytes.simps [simp del]

text \<open>A leading zero keeps the sign bit clear; a negative value is the complement of \<open>- i - 1\<close>.\<close>

definition der_uint :: "nat \<Rightarrow> bytes" where
  "der_uint n = (let bs = min_bytes n in if bs = [] \<or> 128 \<le> unat (hd bs) then 0 # bs else bs)"

definition der_int :: "int \<Rightarrow> bytes" where
  "der_int i = (if 0 \<le> i then der_uint (nat i) else map NOT (der_uint (nat (- i - 1))))"

lemma min_bytes_0 [simp]: "min_bytes 0 = []"
  by (simp add: min_bytes.simps)

lemma be_nat_min_bytes [simp]: "be_nat (min_bytes n) = n"
proof (induction n rule: min_bytes.induct)
  case (1 n)
  then show ?case by (subst min_bytes.simps) auto
qed

lemma be_nat_pos: "bs \<noteq> [] \<Longrightarrow> hd bs \<noteq> 0 \<Longrightarrow> 0 < be_nat bs"
  by (cases bs) (auto simp: be_nat_Cons unat_gt_0)

lemma min_bytes_be_nat: "bs = [] \<or> hd bs \<noteq> 0 \<Longrightarrow> min_bytes (be_nat bs) = bs"
proof (induction bs rule: rev_induct)
  case Nil
  then show ?case by simp
next
  case (snoc b bs)
  have hd: "bs = [] \<or> hd bs \<noteq> 0" using snoc.prems by (cases bs) auto
  have pos: "be_nat (bs @ [b]) \<noteq> 0" using be_nat_pos snoc.prems by force
  have "(be_nat bs * 256 + unat b) div 256 = be_nat bs" by simp
  moreover have "word_of_nat (be_nat bs * 256 + unat b) = b"
    using be_bytes_be_nat [of "bs @ [b]" "Suc (length bs)"] by simp
  ultimately show ?case
    using pos snoc.IH [OF hd] unfolding min_bytes.simps [of "be_nat (bs @ [b])"]
    by (simp only: be_nat_snoc if_False)
qed

lemma hd_min_bytes: "min_bytes n = [] \<or> hd (min_bytes n) \<noteq> 0"
proof (induction n rule: min_bytes.induct)
  case (1 n)
  show ?case
  proof (cases "n < 256")
    case True
    then have "n \<noteq> 0 \<Longrightarrow> word_of_nat n \<noteq> (0 :: u8)"
      by (metis unat_word_of_nat_u8 mod_less unsigned_0)
    then show ?thesis using True by (simp add: min_bytes.simps [of n])
  next
    case False
    then have "n div 256 \<noteq> 0" by (simp add: div_eq_0_iff)
    then have "min_bytes (n div 256) \<noteq> []"
      by (metis be_nat_Nil be_nat_min_bytes)
    with 1 False show ?thesis by (subst (1 2) min_bytes.simps) auto
  qed
qed

lemma length_min_bytes: "n < 256 ^ k \<Longrightarrow> length (min_bytes n) \<le> k"
proof (induction k arbitrary: n)
  case 0
  then show ?case by simp
next
  case (Suc k)
  then have "n div 256 < 256 ^ k" by (simp add: less_mult_imp_div_less mult.commute)
  with Suc.IH show ?case by (subst min_bytes.simps) auto
qed

lemma be_nat_der_uint [simp]: "be_nat (der_uint n) = n"
  by (simp add: der_uint_def Let_def be_nat_Cons)

lemma length_der_uint: "n < 256 ^ k \<Longrightarrow> length (der_uint n) \<le> Suc k"
  using length_min_bytes [of n k] by (simp add: der_uint_def Let_def)

text \<open>The validity check in terms of the first two octets.\<close>

lemma u8_ff_iff: "(b :: u8) = 0xff \<longleftrightarrow> NOT b = 0"
proof -
  have "(0xff :: u8) = NOT 0" by simp
  then show ?thesis by (metis bit.double_compl)
qed

lemma valid_integer_iff:
  "CBS_is_valid_asn1_integer xs = Some neg \<longleftrightarrow>
     xs \<noteq> [] \<and> (neg \<longleftrightarrow> 128 \<le> unat (hd xs)) \<and>
     (tl xs = [] \<or> \<not> (hd xs = 0 \<and> unat (hd (tl xs)) < 128) \<and>
                     \<not> (hd xs = 0xff \<and> 128 \<le> unat (hd (tl xs))))"
proof (cases xs)
  case (Cons a ys)
  then show ?thesis
    by (cases ys) (auto simp: CBS_is_valid_asn1_integer_def Let_def and_top_bit)
qed (simp add: CBS_is_valid_asn1_integer_def)

lemma unat_compl: "unat (NOT (w :: 'a :: len word)) = 2 ^ LENGTH('a) - 1 - unat w"
proof -
  have "NOT w = - 1 - w" by (simp add: not_eq_complement)
  moreover have "unat (- 1 - w) = unat (- 1 :: 'a word) - unat w"
    by (rule unat_sub) (rule word_order.extremum)
  ultimately show ?thesis by (simp add: unsigned_minus_1_eq_mask mask_eq_exp_minus_1)
qed

lemma unat_compl_u8: "unat (NOT (b :: u8)) = 255 - unat b"
  by (simp add: unat_compl)

lemma valid_integer_compl:
  "CBS_is_valid_asn1_integer (map NOT xs) = Some neg \<longleftrightarrow> CBS_is_valid_asn1_integer xs = Some (\<not> neg)"
proof -
  have top: "128 \<le> unat (NOT (b :: u8)) \<longleftrightarrow> \<not> 128 \<le> unat b" for b
    by (simp only: unat_compl_u8) arith
  have z: "NOT b = 0 \<longleftrightarrow> b = 0xff" and f: "NOT b = 0xff \<longleftrightarrow> b = 0" for b :: u8
    using u8_ff_iff [of b] u8_ff_iff [of "NOT b"] by simp_all
  show ?thesis
  proof (cases xs)
    case (Cons a ys)
    then show ?thesis
      by (cases ys) (auto simp: valid_integer_iff top z f not_less)
  qed (simp add: valid_integer_iff)
qed

lemma valid_uint_iff: "CBS_is_valid_asn1_integer xs = Some False \<longleftrightarrow> xs = der_uint (be_nat xs)"
proof
  assume valid: "CBS_is_valid_asn1_integer xs = Some False"
  then obtain a ys where xs: "xs = a # ys" by (cases xs) (simp_all add: valid_integer_iff)
  show "xs = der_uint (be_nat xs)"
  proof (cases "a = 0")
    case True
    then have "ys = [] \<or> 128 \<le> unat (hd ys)" using valid xs by (auto simp: valid_integer_iff)
    moreover then have "ys = [] \<or> hd ys \<noteq> 0" by auto
    ultimately show ?thesis
      using True xs by (auto simp: der_uint_def be_nat_Cons min_bytes_be_nat Let_def)
  next
    case False
    then have "min_bytes (be_nat xs) = xs" using xs by (intro min_bytes_be_nat) simp
    with valid xs show ?thesis by (simp add: der_uint_def valid_integer_iff Let_def)
  qed
next
  assume xs: "xs = der_uint (be_nat xs)"
  have "CBS_is_valid_asn1_integer (der_uint n) = Some False" for n
    using hd_min_bytes [of n]
    by (auto simp: der_uint_def Let_def valid_integer_iff not_le hd_conv_nth)
  then show "CBS_is_valid_asn1_integer xs = Some False" using xs by metis
qed

lemma unsigned_integer_iff: "CBS_is_unsigned_asn1_integer xs \<longleftrightarrow> xs = der_uint (be_nat xs)"
  by (simp only: CBS_is_unsigned_asn1_integer_def valid_uint_iff)

lemma CBS_get_asn1_uint64_iff:
  "CBS_get_asn1_uint64 s = (Some v, r) \<longleftrightarrow> s = der_element CBS_ASN1_INTEGER (der_uint (unat v)) @ r"
proof -
  have "length (der_uint (unat v)) < 2 ^ 32"
    using length_der_uint [of "unat v" 8] unsigned_less [of v, where ?'a = nat] by simp
  then show ?thesis
    unfolding CBS_get_asn1_uint64_eq_Some unsigned_integer_iff
    by (metis be_nat_der_uint)
qed

section \<open>Signed integers\<close>

lemma length_der_int_aux: "n < 2 ^ 63 \<Longrightarrow> length (der_uint n) \<le> 8"
proof -
  assume n: "n < 2 ^ 63"
  have le: "length (min_bytes n) \<le> 8" using n by (intro length_min_bytes) simp
  show ?thesis
  proof (cases "length (min_bytes n) = 8")
    case True
    then obtain a ys where m: "min_bytes n = a # ys" "length ys = 7"
      by (cases "min_bytes n") auto
    have "n = unat a * 256 ^ 7 + be_nat ys"
      using be_nat_min_bytes [of n] m by (simp add: be_nat_Cons)
    then have "unat a < 128" using n by simp
    with m show ?thesis by (simp add: der_uint_def)
  next
    case False
    with le show ?thesis by (simp add: der_uint_def Let_def)
  qed
qed

lemma be_nat_half:
  assumes "xs \<noteq> []" "unat (hd xs) < 128" "length xs \<le> 8"
  shows "be_nat xs < 2 ^ 63"
proof -
  obtain a ys where xs: "xs = a # ys" using assms(1) by (cases xs) auto
  have "be_nat xs < (unat a + 1) * 256 ^ length ys"
    using be_nat_less [of ys] xs by (simp add: be_nat_Cons)
  also have "\<dots> \<le> 128 * 256 ^ 7"
    using assms xs by (intro mult_le_mono power_increasing) auto
  finally show ?thesis by simp
qed

lemma be_nat_zeros [simp]: "be_nat (replicate k 0 @ xs) = be_nat xs"
  by (induction k) (simp_all add: be_nat_Cons)

lemma be_nat_compl: "be_nat (map NOT xs) + be_nat xs + 1 = 256 ^ length xs"
proof (induction xs)
  case (Cons a xs)
  have "unat (NOT a) + unat a = 255" using unat_u8_le [of a] by (simp add: unat_compl_u8)
  then have "unat (NOT a) * 256 ^ length xs + unat a * 256 ^ length xs = 255 * 256 ^ length xs"
    by (metis distrib_right)
  with Cons show ?case by (simp add: be_nat_Cons)
qed simp

text \<open>The value the reader assembles from valid contents of at most eight octets.\<close>

definition int64_of :: "bytes \<Rightarrow> bool \<Rightarrow> u64" where
  "int64_of body neg = word_of_nat (be_nat (replicate (8 - length body) (if neg then 0xff else 0) @ body))"

lemma int64_of_nonneg:
  assumes "CBS_is_valid_asn1_integer body = Some False" and "length body \<le> 8"
  shows "sint (int64_of body False) = int (be_nat body)" and "be_nat body < 2 ^ 63"
proof -
  show less: "be_nat body < 2 ^ 63"
    using assms by (intro be_nat_half) (auto simp: valid_integer_iff)
  then have "unat (int64_of body False) = be_nat body"
    unfolding int64_of_def by (simp add: unat_of_nat)
  with less show "sint (int64_of body False) = int (be_nat body)"
    by (simp add: sint_u64)
qed

lemma int64_of_neg:
  assumes "CBS_is_valid_asn1_integer body = Some True" and "length body \<le> 8"
  shows "sint (int64_of body True) = - int (be_nat (map NOT body)) - 1"
    and "be_nat (map NOT body) < 2 ^ 63"
proof -
  let ?m = "be_nat (map NOT body)"
  have "CBS_is_valid_asn1_integer (map NOT body) = Some False"
    using assms(1) by (simp add: valid_integer_compl)
  then show less: "?m < 2 ^ 63"
    using assms(2) by (intro be_nat_half) (auto simp: valid_integer_iff)
  let ?img = "replicate (8 - length body) 0xff @ body"
  have ff: "NOT (0xff :: u8) = 0" using u8_ff_iff by blast
  have "map NOT ?img = replicate (8 - length body) 0 @ map NOT body"
    by (simp only: map_append map_replicate ff)
  then have "be_nat (map NOT ?img) = ?m" by (simp only: be_nat_zeros)
  with be_nat_compl [of ?img] have "?m + be_nat ?img + 1 = 256 ^ length ?img"
    by (simp only:)
  with assms(2) have sum: "be_nat ?img + ?m + 1 = 2 ^ 64"
    by simp
  then have "unat (int64_of body True) = be_nat ?img"
    unfolding int64_of_def by (simp add: unat_of_nat)
  with sum less show "sint (int64_of body True) = - int ?m - 1"
    by (simp add: sint_u64)
qed

lemma int64_of_der_int:
  assumes "CBS_is_valid_asn1_integer body = Some neg" and "length body \<le> 8"
  shows "der_int (sint (int64_of body neg)) = body"
proof (cases neg)
  case True
  then have v: "CBS_is_valid_asn1_integer (map NOT body) = Some False"
    using assms(1) by (simp add: valid_integer_compl)
  have "map NOT (der_uint (be_nat (map NOT body))) = map NOT (map NOT body)"
    using v by (simp only: valid_uint_iff)
  also have "map NOT (map NOT body) = body" by (simp add: comp_def)
  finally show ?thesis
    using int64_of_neg [of body] assms True by (simp add: der_int_def)
next
  case False
  with assms int64_of_nonneg [of body] show ?thesis
    by (simp add: der_int_def valid_uint_iff)
qed

lemma valid_der_int:
  fixes v :: u64
  shows "CBS_is_valid_asn1_integer (der_int (sint v)) = Some (sint v < 0)"
    and "length (der_int (sint v)) \<le> 8" and "int64_of (der_int (sint v)) (sint v < 0) = v"
proof -
  define m where "m = nat (if 0 \<le> sint v then sint v else - sint v - 1)"
  have m: "m < 2 ^ 63"
    using sint_lt [of v] sint_ge [of v] by (auto simp: m_def nat_less_iff)
  have valid: "CBS_is_valid_asn1_integer (der_uint m) = Some False"
    by (simp add: valid_uint_iff)
  show len: "length (der_int (sint v)) \<le> 8"
    using length_der_int_aux [OF m] by (auto simp: der_int_def m_def split: if_splits)
  show ok: "CBS_is_valid_asn1_integer (der_int (sint v)) = Some (sint v < 0)"
    using valid by (auto simp: der_int_def m_def valid_integer_compl split: if_splits)
  have "sint (int64_of (der_int (sint v)) (sint v < 0)) = sint v"
  proof (cases "sint v < 0")
    case True
    have "map NOT (der_int (sint v)) = der_uint m"
      using True by (simp add: der_int_def m_def comp_def)
    with True int64_of_neg [of "der_int (sint v)"] ok len show ?thesis
      by (simp add: m_def)
  next
    case False
    with int64_of_nonneg [of "der_int (sint v)"] ok len show ?thesis
      by (simp add: der_int_def)
  qed
  then show "int64_of (der_int (sint v)) (sint v < 0) = v"
    by (rule signed_word_eqI)
qed

lemma CBS_get_asn1_int64_iff:
  "CBS_get_asn1_int64 s = (Some v, r) \<longleftrightarrow> s = der_element CBS_ASN1_INTEGER (der_int (sint v)) @ r"
proof -
  have step: "(case CBS_is_valid_asn1_integer bytes of
         None \<Rightarrow> rd_fail
       | Some is_negative \<Rightarrow>
           if 8 < length bytes then rd_fail
           else let sign_extend =
                      rev bytes @ replicate (8 - length bytes) (if is_negative then 0xff else 0)
                in rd_return (word_of_nat (be_nat (rev sign_extend)))) s' = (Some v, r) \<longleftrightarrow>
      (\<exists>neg. CBS_is_valid_asn1_integer bytes = Some neg \<and> length bytes \<le> 8 \<and>
         v = int64_of bytes neg) \<and> s' = r" for bytes s'
    unfolding int64_of_def Let_def
    by (cases "CBS_is_valid_asn1_integer bytes"; cases "8 < length bytes")
      (simp_all only: option.case option.simps rev_append rev_rev_ident rev_replicate if_True if_False
        rd_fail_apply rd_return_apply prod.inject not_less not_le, auto)
  have "CBS_get_asn1_int64 s = (Some v, r) \<longleftrightarrow>
    (\<exists>body neg. CBS_get_asn1 CBS_ASN1_INTEGER s = (Some body, r) \<and>
       CBS_is_valid_asn1_integer body = Some neg \<and> length body \<le> 8 \<and> v = int64_of body neg)"
    unfolding CBS_get_asn1_int64_def rd_bind_eq_Some step by blast
  also have "\<dots> \<longleftrightarrow> s = der_element CBS_ASN1_INTEGER (der_int (sint v)) @ r"
    (is "?get \<longleftrightarrow> ?enc")
  proof
    assume ?get
    then show ?enc by (auto simp: CBS_get_asn1_eq_Some int64_of_der_int)
  next
    assume ?enc
    with valid_der_int [of v] show ?get
      by (intro exI [of _ "der_int (sint v)"] exI [of _ "sint v < 0"])
        (auto simp: CBS_get_asn1_eq_Some valid_tag_def)
  qed
  finally show ?thesis .
qed

section \<open>What the value builders append\<close>

lemma byte_of_u64: "i < 8 \<Longrightarrow> (ucast (drop_bit (8 * (7 - i)) (v :: u64) AND 0xff) :: u8) =
    word_of_nat (unat v div 256 ^ (7 - i))"
proof -
  have "unat (ucast (drop_bit (8 * k) v AND 0xff) :: u8) = unat v div 256 ^ k mod 256" for k
  proof -
    have "unat (drop_bit (8 * k) v AND 0xff) = unat (drop_bit (8 * k) v) mod 2 ^ 8"
      using unat_and_mask [of "drop_bit (8 * k) v" 8] by (simp add: mask_eq_exp_minus_1)
    also have "unat (drop_bit (8 * k) v) = unat v div 2 ^ (8 * k)"
      by (metis unat_drop_bit_eq drop_bit_eq_div)
    also have "(2 :: nat) ^ (8 * k) = 256 ^ k" by (simp add: power_mult)
    finally have eq: "unat (drop_bit (8 * k) v AND 0xff) = unat v div 256 ^ k mod 256" by simp
    then show ?thesis by (subst ucast_narrow_nat) simp_all
  qed
  then show ?thesis
    by (intro unsigned_word_eqI [where ?'a = nat]) (simp only: unat_word_of_nat_u8)
qed

lemma be_bytes_map: "be_bytes n v = map (\<lambda>i. word_of_nat (v div 256 ^ (n - 1 - i))) [0..<n]"
proof (induction n arbitrary: v)
  case (Suc n)
  have "map (\<lambda>i. word_of_nat (v div 256 div 256 ^ (n - 1 - i)) :: u8) [0..<n] =
      map (\<lambda>i. word_of_nat (v div 256 ^ (n - i))) [0..<n]"
  proof (rule map_cong)
    fix i
    assume "i \<in> set [0..<n]"
    then have "256 * 256 ^ (n - 1 - i) = (256 :: nat) ^ (n - i)"
      by (simp flip: power_Suc add: Suc_diff_Suc)
    then show "word_of_nat (v div 256 div 256 ^ (n - 1 - i)) = (word_of_nat (v div 256 ^ (n - i)) :: u8)"
      by (simp flip: div_mult2_eq)
  qed simp
  with Suc show ?case by simp
qed simp

lemma uint64_bytes_eq: "uint64_bytes v = be_bytes 8 (unat v)"
  unfolding uint64_bytes_def be_bytes_map by (rule map_cong) (simp_all add: byte_of_u64)

lemma writes_uint64_started: "writes A d bs (add_uint64_loop A d True bs)"
proof (induction bs)
  case Nil
  show ?case by (simp add: writes_nothing)
next
  case (Cons b bs)
  have "writes A d ([] @ [b] @ bs) (cbb_seq (\<lambda>st. (True, st))
      (cbb_seq (CBB_add_u8 A d b) (add_uint64_loop A d True bs)))"
    by (intro writes_seq writes_nothing writes_add_u8 Cons)
  then show ?case by simp
qed

lemma writes_uint64_loop: "writes A d (der_uint (be_nat bs)) (add_uint64_loop A d False bs)"
proof (induction bs)
  case Nil
  show ?case by (simp add: der_uint_def writes_add_u8)
next
  case (Cons b bs)
  show ?case
  proof (cases "b = 0")
    case True
    with Cons show ?thesis by (simp add: be_nat_Cons)
  next
    case False
    let ?z = "if 128 \<le> unat b then [0] else [] :: bytes"
    have "der_uint (be_nat (b # bs)) = ?z @ [b] @ bs"
      using False min_bytes_be_nat [of "b # bs"] by (simp add: der_uint_def)
    moreover have "writes A d ?z (if b AND 0x80 \<noteq> 0 then CBB_add_u8 A d 0 else (\<lambda>st. (True, st)))"
      by (simp add: and_top_bit writes_add_u8 writes_nothing)
    then have "writes A d (?z @ [b] @ bs)
        (cbb_seq (if b AND 0x80 \<noteq> 0 then CBB_add_u8 A d 0 else (\<lambda>st. (True, st)))
          (cbb_seq (CBB_add_u8 A d b) (add_uint64_loop A d True bs)))"
      by (intro writes_seq writes_add_u8 writes_uint64_started)
    ultimately show ?thesis using False by simp
  qed
qed

text \<open>\<open>goto err\<close> of the steps before the final flush does not change what is written.\<close>

lemma writes_asn1_block_err:
  assumes "writes A (Suc d) inner body" and "length inner \<le> 0xfffffffe"
  shows "writes A d (der_element t inner)
    (cbb_seq (cbb_goto_err d (cbb_seq (CBB_add_asn1 A d t) body)) (CBB_flush A d))"
proof -
  have ok: "cbb_seq (cbb_goto_err d f) g st = (True, st')" if "cbb_seq f g st = (True, st')" for f g st st'
    using that by (auto simp: cbb_seq_def cbb_goto_err_def split: prod.splits bool.splits)
  show ?thesis
    using writes_asn1_block [OF assms, of t] unfolding writes_def cbb_seq_assoc [symmetric]
    by (meson ok)
qed

lemma writes_asn1_uint64_with_tag:
  "writes A d (der_element t (der_uint (unat v))) (CBB_add_asn1_uint64_with_tag A d v t)"
proof -
  have eq: "be_nat (uint64_bytes v) = unat v"
    using unsigned_less [of v, where ?'a = nat] by (simp add: uint64_bytes_eq)
  have len: "length (der_uint (unat v)) \<le> 0xfffffffe"
    using length_der_uint [of "unat v" 8] unsigned_less [of v, where ?'a = nat] by simp
  show ?thesis
    unfolding CBB_add_asn1_uint64_with_tag_def
    using writes_uint64_loop [of A "Suc d" "uint64_bytes v"] len
    by (intro writes_asn1_block_err) (simp_all only: eq)
qed

text \<open>Where the loop over the negative value's image stops.\<close>

lemma int64_start_props:
  assumes "int64_start bs n = s"
  shows "s \<le> n" and "\<forall>i. s < i \<longrightarrow> i \<le> n \<longrightarrow> bs ! i = 0xff"
    and "s < n \<Longrightarrow> 128 \<le> unat (bs ! s)"
    and "s = 0 \<or> \<not> (bs ! s = 0xff \<and> 128 \<le> unat (bs ! (s - 1)))"
proof -
  have "int64_start bs n \<le> n \<and> (\<forall>i. int64_start bs n < i \<longrightarrow> i \<le> n \<longrightarrow> bs ! i = 0xff) \<and>
    (int64_start bs n < n \<longrightarrow> 128 \<le> unat (bs ! int64_start bs n)) \<and>
    (int64_start bs n = 0 \<or> \<not> (bs ! int64_start bs n = 0xff \<and> 128 \<le> unat (bs ! (int64_start bs n - 1))))"
  proof (induction n)
    case (Suc n)
    then show ?case
      by (auto simp: and_top_bit not_less le_Suc_eq less_Suc_eq_le intro: order_antisym)
  qed simp
  with assms show "s \<le> n" "\<forall>i. s < i \<longrightarrow> i \<le> n \<longrightarrow> bs ! i = 0xff"
    "s < n \<Longrightarrow> 128 \<le> unat (bs ! s)" "s = 0 \<or> \<not> (bs ! s = 0xff \<and> 128 \<le> unat (bs ! (s - 1)))"
    by auto
qed

lemma writes_bytes_down:
  "writes A d (rev (map ((!) bs) [0..<Suc i])) (add_bytes_down A d bs i)"
proof (induction i)
  case 0
  show ?case using writes_add_u8 [of A d "bs ! 0"] by simp
next
  case (Suc i)
  have "writes A d ([bs ! Suc i] @ rev (map ((!) bs) [0..<Suc i]))
      (cbb_seq (CBB_add_u8 A d (bs ! Suc i)) (add_bytes_down A d bs i))"
    by (intro writes_seq writes_add_u8 Suc)
  then show ?case by simp
qed

lemma sint_neg_iff: "sint (v :: u64) < 0 \<longleftrightarrow> 2 ^ 63 \<le> unat v"
proof -
  have less: "int (unat v) < 2 ^ 64" using unsigned_less [of v, where ?'a = int] by simp
  show ?thesis using less unfolding sint_u64 by auto
qed

lemma int64_negative_contents:
  assumes "sint v < 0"
  shows "rev (map ((!) (int64_image v)) [0..<Suc (int64_start (int64_image v) 7)]) = der_int (sint v)"
proof -
  define img where "img = int64_image v"
  define s where "s = int64_start img 7"
  define body where "body = rev (take (Suc s) img)"
  note props = int64_start_props [of img 7 s, OF s_def [symmetric]]
  have len: "length img = 8" by (simp add: img_def int64_image_def)
  have split: "rev img = replicate (7 - s) 0xff @ body"
  proof -
    have "drop (Suc s) img = replicate (7 - s) 0xff"
      using props(1,2) len by (intro nth_equalityI) auto
    then have "img = take (Suc s) img @ replicate (7 - s) 0xff"
      by (metis append_take_drop_id)
    then show ?thesis by (metis body_def rev_append rev_replicate)
  qed
  have lb: "length body = Suc s" using props(1) len by (simp add: body_def)
  have top: "128 \<le> unat (img ! s)"
  proof (cases "s < 7")
    case True
    then show ?thesis by (rule props(3))
  next
    case False
    then have "s = 7" using props(1) by simp
    obtain a ys where r: "rev img = a # ys" "length ys = 7"
      using len length_rev [of img] by (cases "rev img") auto
    have "be_nat (rev img) = unat v"
      using unsigned_less [of v, where ?'a = nat] by (simp add: img_def int64_image_def)
    then have "unat v = unat a * 256 ^ 7 + be_nat ys"
      unfolding r(1) be_nat_Cons r(2) by (rule sym)
    moreover have "2 ^ 63 \<le> unat v" using assms by (simp only: sint_neg_iff)
    ultimately have "128 \<le> unat a" using be_nat_less [of ys] r(2) by simp
    moreover have "img ! 7 = a"
      using r len rev_nth [of 0 img] by simp
    ultimately show ?thesis using \<open>s = 7\<close> by simp
  qed
  have nth: "body ! i = img ! (s - i)" if "i \<le> s" for i
    using that props(1) len by (simp add: body_def rev_nth)
  have valid: "CBS_is_valid_asn1_integer body = Some True"
  proof -
    have hd: "hd body = img ! s" using nth [of 0] lb by (cases body) auto
    moreover have "hd (tl body) = img ! (s - 1)" if "tl body \<noteq> []"
      using that nth [of 1] lb by (cases body; cases "tl body") auto
    moreover have "tl body \<noteq> [] \<Longrightarrow> s \<noteq> 0" using lb by (cases body) auto
    ultimately show ?thesis
      using top props(4) lb by (auto simp: valid_integer_iff)
  qed
  have "int64_of body True = v"
  proof -
    have "replicate (8 - length body) 0xff @ body = be_bytes 8 (unat v)"
      using split lb by (simp add: img_def int64_image_def)
    then have "be_nat (replicate (8 - length body) 0xff @ body) = unat v"
      using be_nat_be_bytes [of 8 "unat v"] unsigned_less [of v, where ?'a = nat] by simp
    then show ?thesis by (simp only: int64_of_def if_True word_of_nat_unat_id)
  qed
  moreover have "map ((!) img) [0..<Suc s] = take (Suc s) img"
    using props(1) len by (intro nth_equalityI) (simp_all del: upt_Suc)
  then have "rev (map ((!) img) [0..<Suc s]) = body" by (simp only: body_def)
  ultimately show ?thesis
    using int64_of_der_int [OF valid] lb props(1) by (simp add: img_def s_def)
qed

lemma writes_asn1_int64_with_tag:
  "writes A d (der_element t (der_int (sint v))) (CBB_add_asn1_int64_with_tag A d v t)"
proof (cases "0 \<le> sint v")
  case True
  then have "nat (sint v) = unat v" using sint_neg_iff [of v] by (simp add: sint_u64)
  with True show ?thesis
    using writes_asn1_uint64_with_tag [of A d t v]
    by (simp add: CBB_add_asn1_int64_with_tag_def der_int_def)
next
  case False
  then have "writes A (Suc d) (der_int (sint v))
      (add_bytes_down A (Suc d) (int64_image v) (int64_start (int64_image v) 7))"
    using writes_bytes_down [of A "Suc d" "int64_image v" "int64_start (int64_image v) 7"]
      int64_negative_contents [of v] by simp
  moreover have "length (der_int (sint v)) \<le> 0xfffffffe"
    using valid_der_int(2) [of v] by linarith
  ultimately show ?thesis
    using False writes_asn1_block_err [of A d "der_int (sint v)" _ t]
    by (simp add: CBB_add_asn1_int64_with_tag_def Let_def)
qed

lemma writes_asn1_octet_string:
  "length data \<le> 0xfffffffe \<Longrightarrow>
   writes A d (der_element CBS_ASN1_OCTETSTRING data) (CBB_add_asn1_octet_string A d data)"
  unfolding CBB_add_asn1_octet_string_def
  by (intro writes_goto_err writes_asn1_block writes_add_bytes)

lemma writes_asn1_bool:
  "writes A d (der_element CBS_ASN1_BOOLEAN [if b \<noteq> 0 then 0xff else 0]) (CBB_add_asn1_bool A d b)"
  unfolding CBB_add_asn1_bool_def
  by (intro writes_goto_err writes_asn1_block writes_add_u8) simp

lemma CBS_get_asn1_bool_iff:
  "CBS_get_asn1_bool s = (Some b, r) \<longleftrightarrow>
     s = der_element CBS_ASN1_BOOLEAN [if b then 0xff else 0] @ r"
proof
  assume "CBS_get_asn1_bool s = (Some b, r)"
  then obtain body where "s = der_element CBS_ASN1_BOOLEAN body @ r" "length body = 1"
      "hd body = 0 \<or> hd body = 0xff" "b \<longleftrightarrow> hd body \<noteq> 0"
    by (auto simp: CBS_get_asn1_bool_def rd_bind_eq_Some CBS_get_asn1_eq_Some Let_def split: if_splits)
  then show "s = der_element CBS_ASN1_BOOLEAN [if b then 0xff else 0] @ r"
    by (cases body) auto
next
  assume s: "s = der_element CBS_ASN1_BOOLEAN [if b then 0xff else 0] @ r"
  have "CBS_get_asn1 CBS_ASN1_BOOLEAN s = (Some [if b then 0xff else 0], r)"
    unfolding CBS_get_asn1_eq_Some using s by (simp add: valid_tag_def)
  then show "CBS_get_asn1_bool s = (Some b, r)"
    by (simp add: CBS_get_asn1_bool_def rd_bind_def)
qed

section \<open>From initialisation to the finished contents\<close>

lemma init_fixed_ready: "n < size_mod \<Longrightarrow> cbb_ready A 0 n (snd (CBB_init_fixed n))"
  by (simp add: CBB_init_fixed_def cbb_init_def cbb_ready_def cbb_wf_def buffer_wf_def fits_def)

lemma init_growing_ready:
  "m < size_mod \<Longrightarrow> n < size_mod \<Longrightarrow> (\<And>k. A k) \<Longrightarrow> cbb_ready A 0 n (snd (CBB_init A m))"
  by (simp add: CBB_init_def cbb_init_def cbb_ready_def cbb_wf_def buffer_wf_def fits_def)

lemma finish_wrote:
  assumes "writes A 0 xs op" and "cbb_ready A 0 (length xs) st" and "buf (base st) = []"
  shows "fst (CBB_finish A False (snd (op st))) = Some xs"
proof -
  obtain st' where "op st = (True, st')" and w: "cbb_wrote st xs st'"
    using assms by (auto elim: writesD)
  moreover have "CBB_flush A 0 st' = (True, st')"
    using w assms(2) by (intro flush_ready [where n = 0] cbb_wrote_ready [OF _ w]) simp
  ultimately show ?thesis
    using w assms(3) by (simp add: CBB_finish_def cbb_wrote_def)
qed

section \<open>Properties\<close>

text \<open>What an operation appended to the buffer.\<close>

definition appended :: "cbb \<Rightarrow> cbb \<Rightarrow> bytes" where
  "appended st st' = drop (length (buf (base st))) (buf (base st'))"

lemma writes_appended:
  assumes "writes A d xs op" and "cbb_ready A d n st" and "length xs \<le> n"
  shows "\<exists>st'. op st = (True, st') \<and> appended st st' = xs"
  using writesD [OF assms] by (metis appended_def append_eq_conv_conj cbb_wrote_def)

lemma length_der_element_small: "length body \<le> 100 \<Longrightarrow> tag_number t < 31 \<Longrightarrow> length (der_element t body) = 2 + length body"
  by (simp add: der_element_def der_tag_def der_length_def)

text \<open>
  C1: Building an element and reading it back. Whatever operation \<open>body\<close> writes the bytes
  \<open>inner\<close> to the child that \<open>CBB_add_asn1\<close> opens, flushing the parent completes a DER
  element from which \<open>CBS_get_any_asn1\<close> returns the tag and exactly \<open>inner\<close>, leaving what
  follows: the length that was unknown when the child was opened is written minimally.
\<close>

theorem asn1_build_then_parse:
  assumes "writes A (Suc d) inner body" and "length inner \<le> 0xfffffffe" and "valid_tag t"
    and "cbb_ready A d n st" and "length (der_element t inner) \<le> n"
  shows "\<exists>st'. cbb_seq (CBB_add_asn1 A d t) (cbb_seq body (CBB_flush A d)) st = (True, st') \<and>
    CBS_get_any_asn1 (appended st st' @ r) = (Some (inner, t), r)"
proof -
  have "CBS_get_any_asn1 (der_element t inner @ r) = (Some (inner, t), r)"
    using assms by (simp add: CBS_get_any_asn1_eq_Some)
  then show ?thesis
    using writes_appended [OF writes_asn1_block [OF assms(1,2)] assms(4,5)] by metis
qed

lemma asn1_build_then_parse_witness:
  "\<exists>st'. cbb_seq (CBB_add_asn1 (\<lambda>_. True) 0 0x20000010)
      (cbb_seq (CBB_add_bytes (\<lambda>_. True) 1 [1, 2, 3]) (CBB_flush (\<lambda>_. True) 0))
      (snd (CBB_init_fixed 5)) = (True, st') \<and>
    CBS_get_any_asn1 (appended (snd (CBB_init_fixed 5)) st' @ [9]) = (Some ([1, 2, 3], 0x20000010), [9])"
  by (rule asn1_build_then_parse [where n = 5])
    (simp_all add: writes_add_bytes valid_tag_def init_fixed_ready size_mod_def length_der_element_small
      tag_number_def)

text \<open>
  C2: The reader and DER. \<open>CBS_get_any_asn1\<close> succeeds on exactly the inputs that start
  with a DER element (minimal tag, minimal definite length, the whole contents present)
  and returns that element's tag, contents and the rest, so no two encodings of an
  element are accepted.
\<close>

theorem any_asn1_exactly_der:
  "CBS_get_any_asn1 s = (Some (body, t), r) \<longleftrightarrow>
     valid_tag t \<and> length body < 2 ^ 32 \<and> s = der_element t body @ r"
  by (rule CBS_get_any_asn1_eq_Some)

text \<open>
  C22: Signed integers. \<open>CBS_get_asn1_int64\<close> accepts exactly the DER INTEGER whose contents
  are the shortest two's complement form of the value it returns, sign extension of
  short contents included.
\<close>

theorem get_int64_exactly_der:
  "CBS_get_asn1_int64 s = (Some v, r) \<longleftrightarrow> s = der_element CBS_ASN1_INTEGER (der_int (sint v)) @ r"
  by (rule CBS_get_asn1_int64_iff)

text \<open>
  Round trip of signed integers. \<open>CBB_add_asn1_int64\<close>, which drops the redundant sign
  bytes of the machine's image of the value, succeeds with eleven bytes of room and
  \<open>CBS_get_asn1_int64\<close> reads the value back.
\<close>

theorem int64_roundtrip:
  assumes "cbb_ready A d 11 st"
  shows "\<exists>st'. CBB_add_asn1_int64 A d v st = (True, st') \<and>
    CBS_get_asn1_int64 (appended st st' @ r) = (Some v, r)"
proof -
  have "length (der_element CBS_ASN1_INTEGER (der_int (sint v))) \<le> 11"
    using valid_der_int(2) [of v] by (simp add: length_der_element_small tag_number_def)
  then show ?thesis
    using writes_appended [OF writes_asn1_int64_with_tag assms]
    by (metis CBB_add_asn1_int64_def CBS_get_asn1_int64_iff)
qed

lemma int64_roundtrip_witness:
  "\<exists>st'. CBB_add_asn1_int64 (\<lambda>_. True) 0 (- 129) (snd (CBB_init_fixed 11)) = (True, st') \<and>
    CBS_get_asn1_int64 (appended (snd (CBB_init_fixed 11)) st' @ [7]) = (Some (- 129), [7])"
  by (rule int64_roundtrip) (simp add: init_fixed_ready size_mod_def)

text \<open>
  Round trip of unsigned integers: \<open>CBB_add_asn1_uint64\<close> adds the zero byte that keeps
  a large value from reading as negative and strips the leading zeros, and
  \<open>CBS_get_asn1_uint64\<close> reads the value back.
\<close>

theorem uint64_roundtrip:
  assumes "cbb_ready A d 11 st"
  shows "\<exists>st'. CBB_add_asn1_uint64 A d v st = (True, st') \<and>
    CBS_get_asn1_uint64 (appended st st' @ r) = (Some v, r)"
proof -
  have "length (der_uint (unat v)) \<le> 9"
    using length_der_uint [of "unat v" 8] unsigned_less [of v, where ?'a = nat] by simp
  then have "length (der_element CBS_ASN1_INTEGER (der_uint (unat v))) \<le> 11"
    by (simp add: length_der_element_small tag_number_def)
  then show ?thesis
    using writes_appended [OF writes_asn1_uint64_with_tag assms]
    by (metis CBB_add_asn1_uint64_def CBS_get_asn1_uint64_iff)
qed

lemma uint64_roundtrip_witness:
  "\<exists>st'. CBB_add_asn1_uint64 (\<lambda>_. True) 0 0x8000000000000000 (snd (CBB_init_fixed 11)) = (True, st') \<and>
    CBS_get_asn1_uint64 (appended (snd (CBB_init_fixed 11)) st' @ [7]) = (Some 0x8000000000000000, [7])"
  by (rule uint64_roundtrip) (simp add: init_fixed_ready size_mod_def)

end
