(* ===== verification/Oid.thy ===== *)
theory Oid
  imports Asn1_Values
begin

text \<open>
  Object identifiers: the text functions of \<open>cbs.c\<close> and \<open>cbb.c\<close>. The text of an OID is its
  arcs in decimal, separated by dots; its contents are base-128 integers, the first of
  which packs two arcs. Reading a text and writing it are shown to be inverse to each
  other through the contents.
\<close>

section \<open>The functions\<close>

text \<open>What \<open>snprintf\<close> prints for \<open>"%" PRIu64\<close>.\<close>

fun decimal :: "nat \<Rightarrow> bytes" where
  "decimal n = (if n < 10 then [word_of_nat (48 + n)] else decimal (n div 10) @ [word_of_nat (48 + n mod 10)])"

declare decimal.simps [simp del]

definition add_decimal :: "(nat \<Rightarrow> bool) \<Rightarrow> nat \<Rightarrow> u64 \<Rightarrow> cbb_op" where
  "add_decimal can_alloc d v = CBB_add_bytes can_alloc d (decimal (unat v))"

text \<open>The loop of \<open>CBS_is_valid_asn1_oid\<close>; \<open>prev\<close> is the byte before.\<close>

fun valid_oid_loop :: "u8 \<Rightarrow> bytes \<Rightarrow> bool" where
  "valid_oid_loop prev [] = (prev AND 0x80 = 0)"
| "valid_oid_loop prev (v # copy) =
     (if prev AND 0x80 = 0 \<and> v = 0x80 then False else valid_oid_loop v copy)"

definition CBS_is_valid_asn1_oid :: "bytes \<Rightarrow> bool" where
  "CBS_is_valid_asn1_oid cbs = (if length cbs = 0 then False else valid_oid_loop 0 cbs)"

lemma base128_loop_shorter: "base128_loop v s = (Some x, r) \<Longrightarrow> length r < length s"
proof (induction s arbitrary: v)
  case Nil
  then show ?case by (simp add: base128_loop.simps)
next
  case (Cons b s)
  then show ?case
    by (force simp: base128_loop.simps Let_def split: if_splits)
qed

lemma parse_base128_shorter: "parse_base128_integer s = (Some v, r) \<Longrightarrow> length r < length s"
  by (simp add: parse_base128_integer_def base128_loop_shorter)

text \<open>The rest of the components: a dot and the number, as long as there are bytes.\<close>

function oid_text_loop :: "(nat \<Rightarrow> bool) \<Rightarrow> bytes \<Rightarrow> cbb_op" where
  "oid_text_loop can_alloc copy st =
     (if copy = [] then (True, st)
      else case parse_base128_integer copy of
             (None, rest) \<Rightarrow> (False, st)
           | (Some v, rest) \<Rightarrow>
               (case cbb_seq (CBB_add_u8 can_alloc 0 0x2e) (add_decimal can_alloc 0 v) st of
                  (False, st') \<Rightarrow> (False, st')
                | (True, st') \<Rightarrow> oid_text_loop can_alloc rest st'))"
  by pat_completeness auto

termination oid_text_loop
  by (relation "measure (\<lambda>(A, copy, st). length copy)") (auto dest: parse_base128_shorter [OF sym])

declare oid_text_loop.simps [simp del]

text \<open>The result is the C string with its terminating zero, \<open>None\<close> for NULL.\<close>

definition CBS_asn1_oid_to_text :: "(nat \<Rightarrow> bool) \<Rightarrow> bytes \<Rightarrow> bytes option" where
  "CBS_asn1_oid_to_text can_alloc cbs =
     (case CBB_init can_alloc 32 of
        (False, cbb) \<Rightarrow> None
      | (True, cbb) \<Rightarrow>
          (case parse_base128_integer cbs of
             (None, copy) \<Rightarrow> None
           | (Some v, copy) \<Rightarrow>
               (case cbb_seq
                   (if 80 \<le> v
                    then cbb_seq (CBB_add_bytes can_alloc 0 [0x32, 0x2e]) (add_decimal can_alloc 0 (v - 80))
                    else cbb_seq (add_decimal can_alloc 0 (v div 40))
                      (cbb_seq (CBB_add_u8 can_alloc 0 0x2e) (add_decimal can_alloc 0 (v mod 40))))
                   (cbb_seq (oid_text_loop can_alloc copy) (CBB_add_u8 can_alloc 0 0)) cbb of
                  (False, cbb) \<Rightarrow> None
                | (True, cbb) \<Rightarrow> fst (CBB_finish can_alloc False cbb))))"

definition parse_dotted_decimal :: "u64 rd" where
  "parse_dotted_decimal cbs =
     (case CBS_get_u64_decimal cbs of
        (None, cbs) \<Rightarrow> (None, cbs)
      | (Some v, cbs) \<Rightarrow>
          (case CBS_get_u8 cbs of
             (None, cbs) \<Rightarrow> (Some v, cbs)
           | (Some dot, cbs) \<Rightarrow> if dot = 0x2e \<and> 0 < length cbs then (Some v, cbs) else (None, cbs)))"

lemma decimal_loop_shorter: "u64_decimal_loop v seen s = (Some x, r) \<Longrightarrow> length r \<le> length s \<and> (seen \<or> length r < length s)"
proof (induction v seen s rule: u64_decimal_loop.induct)
  case (1 v seen_digit)
  then show ?case by (auto split: if_splits)
next
  case (2 v seen_digit c cbs)
  then show ?case by (auto split: if_splits)
qed

lemma get_u8_Cons [simp]: "CBS_get_u8 (b # s) = (Some b, s)"
  by (simp add: CBS_get_u8_def cbs_get_def rd_bind_def)

lemma get_u8_Nil [simp]: "CBS_get_u8 [] = (None, [])"
  by (simp add: CBS_get_u8_def cbs_get_def rd_bind_def)

lemma parse_dotted_shorter: "parse_dotted_decimal s = (Some v, r) \<Longrightarrow> length r < length s"
proof -
  assume a: "parse_dotted_decimal s = (Some v, r)"
  then obtain x t where t: "CBS_get_u64_decimal s = (Some x, t)"
    by (auto simp: parse_dotted_decimal_def split: prod.splits option.splits)
  then have "length t < length s" using decimal_loop_shorter by (fastforce simp: CBS_get_u64_decimal_def)
  moreover have "length r \<le> length t"
    using a t by (cases t) (auto simp: parse_dotted_decimal_def split: if_splits)
  ultimately show ?thesis by simp
qed

function oid_arcs_loop :: "(nat \<Rightarrow> bool) \<Rightarrow> nat \<Rightarrow> bytes \<Rightarrow> cbb_op" where
  "oid_arcs_loop can_alloc d cbs st =
     (if cbs = [] then (True, st)
      else case parse_dotted_decimal cbs of
             (None, rest) \<Rightarrow> (False, st)
           | (Some a, rest) \<Rightarrow>
               (case add_base128_integer can_alloc d a st of
                  (False, st') \<Rightarrow> (False, st')
                | (True, st') \<Rightarrow> oid_arcs_loop can_alloc d rest st'))"
  by pat_completeness auto

termination oid_arcs_loop
  by (relation "measure (\<lambda>(A, d, cbs, st). length cbs)") (auto dest: parse_dotted_shorter [OF sym])

declare oid_arcs_loop.simps [simp del]

definition CBB_add_asn1_oid_from_text :: "(nat \<Rightarrow> bool) \<Rightarrow> nat \<Rightarrow> bytes \<Rightarrow> cbb_op" where
  "CBB_add_asn1_oid_from_text can_alloc d text =
     cbb_seq (CBB_flush can_alloc d)
       (\<lambda>st. case parse_dotted_decimal text of
          (None, cbs) \<Rightarrow> (False, st)
        | (Some a, cbs) \<Rightarrow>
            (case parse_dotted_decimal cbs of
               (None, cbs) \<Rightarrow> (False, st)
             | (Some b, cbs) \<Rightarrow>
                 if 2 < a \<or> (a < 2 \<and> 39 < b) \<or> UINT64_MAX - 80 < b then (False, st)
                 else cbb_seq (add_base128_integer can_alloc d (40 * a + b)) (oid_arcs_loop can_alloc d cbs) st))"

text \<open>
  The other function that hands out a C string, \<open>CBS_strdup\<close>: the contents up to the first
  zero byte, with a terminating zero of its own; \<open>None\<close> for NULL. The old string is freed.
\<close>

fun OPENSSL_strnlen :: "bytes \<Rightarrow> nat \<Rightarrow> nat" where
  "OPENSSL_strnlen (c # s) (Suc len) = (if c = 0 then 0 else Suc (OPENSSL_strnlen s len))"
| "OPENSSL_strnlen _ len = 0"

definition OPENSSL_strndup :: "(nat \<Rightarrow> bool) \<Rightarrow> bytes \<Rightarrow> nat \<Rightarrow> bytes option" where
  "OPENSSL_strndup can_alloc str max_len =
     (let len = OPENSSL_strnlen str max_len;
          alloc_size = size_add len 1
      in if alloc_size < len then None
         else if \<not> can_alloc alloc_size then None
         else Some (take len str @ [0]))"

definition CBS_strdup :: "(nat \<Rightarrow> bool) \<Rightarrow> bytes \<Rightarrow> bool \<times> bytes option" where
  "CBS_strdup can_alloc cbs =
     (let out = OPENSSL_strndup can_alloc cbs (length cbs) in (out \<noteq> None, out))"

lemma strnlen_takeWhile: "length s \<le> n \<Longrightarrow> take (OPENSSL_strnlen s n) s = takeWhile (\<lambda>c. c \<noteq> 0) s"
  by (induction s n rule: OPENSSL_strnlen.induct) auto

lemma strnlen_le: "OPENSSL_strnlen s n \<le> length s"
  by (induction s n rule: OPENSSL_strnlen.induct) auto

lemma CBS_strdup_result:
  assumes "length cbs + 1 < size_mod" and "\<And>n. can_alloc n"
  shows "CBS_strdup can_alloc cbs = (True, Some (takeWhile (\<lambda>c. c \<noteq> 0) cbs @ [0]))"
  using assms strnlen_le [of cbs "length cbs"]
  by (simp add: CBS_strdup_def OPENSSL_strndup_def Let_def size_add_small strnlen_takeWhile)

section \<open>Decimal numbers\<close>

definition digit_first :: "bytes \<Rightarrow> bool" where
  "digit_first s = (s \<noteq> [] \<and> OPENSSL_isdigit (hd s))"

lemma digit_iff: "OPENSSL_isdigit c \<longleftrightarrow> 48 \<le> unat c \<and> unat c \<le> 57"
  by (simp add: OPENSSL_isdigit_def word_le_nat_alt)

lemma decimal_step:
  assumes "OPENSSL_isdigit c"
  shows "u64_decimal_loop v seen (c # s) =
    (if v = 0 \<and> seen \<or> 2 ^ 64 \<le> unat v * 10 + (unat c - 48) then (None, s)
     else u64_decimal_loop (word_of_nat (unat v * 10 + (unat c - 48))) True s)"
proof -
  let ?d = "unat c - 48"
  have c: "48 \<le> unat c" "unat c \<le> 57" using assms by (simp_all add: digit_iff)
  have sub: "unat (c - 0x30) = ?d" using c by (subst unat_sub) (simp_all add: word_le_nat_alt)
  then have dig: "unat (ucast (c - 0x30) :: u64) = ?d" by simp
  have max: "unat UINT64_MAX = 2 ^ 64 - 1" by (simp add: unsigned_minus_1_eq_mask mask_eq_exp_minus_1)
  have q: "UINT64_MAX div 10 < v \<longleftrightarrow> 1844674407370955161 < unat v"
    unfolding word_less_nat_alt unat_div max by simp
  show ?thesis
  proof (cases "v = 0 \<and> seen \<or> UINT64_MAX div 10 < v")
    case True
    then have "v = 0 \<and> seen \<or> 2 ^ 64 \<le> unat v * 10 + ?d" using q by auto
    then show ?thesis using True assms by auto
  next
    case False
    then have v: "unat v \<le> 1844674407370955161" using q by simp
    then have m: "unat (v * 10) = unat v * 10" by (simp add: unat_word_ariths)
    have s: "unat (UINT64_MAX - ucast (c - 0x30)) = 2 ^ 64 - 1 - ?d"
      using dig c max by (subst unat_sub) (simp_all add: word_le_nat_alt)
    have lim: "UINT64_MAX - ucast (c - 0x30) < v * 10 \<longleftrightarrow> 2 ^ 64 \<le> unat v * 10 + ?d"
      using m s c v by (auto simp: word_less_nat_alt)
    have "v * 10 + ucast (c - 0x30) = word_of_nat (unat (v * 10)) + word_of_nat (unat (ucast (c - 0x30) :: u64))"
      by (simp only: word_of_nat_unat_id)
    then have "v * 10 + ucast (c - 0x30) = word_of_nat (unat v * 10 + ?d)" by (simp only: m dig of_nat_add)
    then show ?thesis using False assms lim by auto
  qed
qed

lemma decimal_single: "n < 10 \<Longrightarrow> decimal n = [word_of_nat (48 + n)]"
  by (simp add: decimal.simps)

lemma decimal_snoc: "0 < a \<Longrightarrow> e < 10 \<Longrightarrow> decimal (a * 10 + e) = decimal a @ [word_of_nat (48 + e)]"
  by (subst decimal.simps) simp

lemma digit_char: "e < 10 \<Longrightarrow> OPENSSL_isdigit (word_of_nat (48 + e)) \<and> unat (word_of_nat (48 + e) :: u8) - 48 = e"
  by (simp add: digit_iff unat_of_nat del: of_nat_add)

lemma read_decimal:
  "n < 2 ^ 64 \<Longrightarrow> u64_decimal_loop 0 False (decimal n @ s) = u64_decimal_loop (word_of_nat n) True s"
proof (induction n arbitrary: s rule: decimal.induct)
  case (1 n)
  show ?case
  proof (cases "n < 10")
    case True
    then show ?thesis using digit_char [OF True] by (simp add: decimal_single decimal_step del: of_nat_add u64_decimal_loop.simps)
  next
    case False
    let ?a = "n div 10" let ?e = "n mod 10"
    have n: "n = ?a * 10 + ?e" "0 < ?a" "?e < 10" "?a < 2 ^ 64" using False 1(2) by auto
    then have dec: "decimal n = decimal ?a @ [word_of_nat (48 + ?e)]" using decimal_snoc [of ?a ?e] by simp
    have ua: "unat (word_of_nat ?a :: u64) = ?a" using n(4) by (simp add: unat_of_nat)
    then have "(word_of_nat ?a :: u64) \<noteq> 0" using n(2) by (metis unat_0 less_numeral_extra(3))
    then have "u64_decimal_loop (word_of_nat ?a) True (word_of_nat (48 + ?e) # s) = u64_decimal_loop (word_of_nat n) True s"
      using digit_char [OF n(3)] 1(2) n(1) ua by (simp add: decimal_step del: of_nat_add u64_decimal_loop.simps)
    then show ?thesis using 1(1) [OF False n(4)] unfolding dec by simp
  qed
qed

lemma get_decimal: "n < 2 ^ 64 \<Longrightarrow> \<not> digit_first s \<Longrightarrow> CBS_get_u64_decimal (decimal n @ s) = (Some (word_of_nat n), s)"
  unfolding CBS_get_u64_decimal_def by (subst read_decimal) (cases s; auto simp: digit_first_def)+

lemma decimal_canonical:
  assumes "u64_decimal_loop v seen s = (Some x, r)" and "\<not> seen \<Longrightarrow> v = 0"
  shows "\<not> digit_first r \<and> (\<exists>p. s = p @ r \<and> (if seen then decimal (unat v) else []) @ p = decimal (unat x))"
  using assms
proof (induction s arbitrary: v seen)
  case Nil
  then show ?case by (auto simp: digit_first_def split: if_splits)
next
  case (Cons c s)
  show ?case
  proof (cases "OPENSSL_isdigit c")
    case False
    then show ?thesis using Cons.prems by (auto simp: digit_first_def split: if_splits)
  next
    case True
    let ?d = "unat c - 48" let ?w = "word_of_nat (unat v * 10 + ?d) :: u64"
    have ok: "\<not> (v = 0 \<and> seen)" "unat v * 10 + ?d < 2 ^ 64" and rest: "u64_decimal_loop ?w True s = (Some x, r)"
      using Cons.prems(1) unfolding decimal_step [OF True] by (auto split: if_splits)
    have "48 \<le> unat c" "unat c \<le> 57" using True by (simp_all add: digit_iff)
    then have c: "?d < 10" "word_of_nat (48 + ?d) = c" by (linarith, simp)
    have w: "unat ?w = unat v * 10 + ?d" using ok(2) by (intro unat_word_of_nat_less) simp
    obtain p where p: "\<not> digit_first r" "s = p @ r" "decimal (unat ?w) @ p = decimal (unat x)"
      using Cons.IH [OF rest] by auto
    have "(if seen then decimal (unat v) else []) @ [c] = decimal (unat ?w)"
    proof (cases seen)
      case True
      then have "0 < unat v" using ok(1) by (simp add: unat_gt_0)
      then show ?thesis using True decimal_snoc [of "unat v" ?d] c w by simp
    next
      case False
      then have "v = 0" by (rule Cons.prems(2))
      then show ?thesis using False decimal_single [of ?d] c w by simp
    qed
    then have "(if seen then decimal (unat v) else []) @ (c # p) = decimal (unat ?w) @ p"
      by (metis append.assoc append_Cons append_Nil)
    then have "(if seen then decimal (unat v) else []) @ (c # p) = decimal (unat x)" unfolding p(3) .
    then show ?thesis using p(1,2) by (intro conjI exI [of _ "c # p"]) auto
  qed
qed

lemma get_decimal_iff:
  "CBS_get_u64_decimal s = (Some v, r) \<longleftrightarrow> s = decimal (unat v) @ r \<and> \<not> digit_first r"
proof
  assume "CBS_get_u64_decimal s = (Some v, r)"
  then show "s = decimal (unat v) @ r \<and> \<not> digit_first r"
    using decimal_canonical [of 0 False s v r] by (auto simp: CBS_get_u64_decimal_def)
next
  assume "s = decimal (unat v) @ r \<and> \<not> digit_first r"
  then show "CBS_get_u64_decimal s = (Some v, r)"
    using get_decimal [of "unat v" r] unsigned_less [of v, where ?'a = nat] by simp
qed

section \<open>Texts and contents\<close>

fun dotted :: "u64 list \<Rightarrow> bytes" where
  "dotted [] = []"
| "dotted [v] = decimal (unat v)"
| "dotted (v # w # ws) = decimal (unat v) @ 0x2e # dotted (w # ws)"

definition arcs_contents :: "u64 list \<Rightarrow> bytes" where
  "arcs_contents vs = concat (map (\<lambda>v. base128 (unat v)) vs)"

text \<open>What the first two components may be.\<close>

definition valid_arcs :: "u64 \<Rightarrow> u64 \<Rightarrow> bool" where
  "valid_arcs a b = (a \<le> 2 \<and> (a < 2 \<longrightarrow> b \<le> 39) \<and> b \<le> UINT64_MAX - 80)"

lemma decimal_nonempty [simp]: "decimal n \<noteq> []"
  by (subst decimal.simps) simp

lemma dotted_empty [simp]: "dotted vs = [] \<longleftrightarrow> vs = []"
  by (cases vs rule: dotted.cases) auto

lemma dotted_Cons: "dotted (v # vs) = decimal (unat v) @ (if vs = [] then [] else 0x2e # dotted vs)"
  by (cases vs) auto

lemma parse_dotted_iff:
  "parse_dotted_decimal s = (Some v, r) \<longleftrightarrow> s = decimal (unat v) @ (if r = [] then [] else 0x2e # r)"
proof
  assume a: "parse_dotted_decimal s = (Some v, r)"
  then obtain x t where t: "CBS_get_u64_decimal s = (Some x, t)"
    by (auto simp: parse_dotted_decimal_def split: prod.splits option.splits)
  then show "s = decimal (unat v) @ (if r = [] then [] else 0x2e # r)"
    using a t [unfolded get_decimal_iff]
    by (cases t) (auto simp: parse_dotted_decimal_def t split: if_splits)
next
  assume s: "s = decimal (unat v) @ (if r = [] then [] else 0x2e # r)"
  have "\<not> digit_first (if r = [] then [] else 0x2e # r)" by (simp add: digit_first_def OPENSSL_isdigit_def)
  with s have "CBS_get_u64_decimal s = (Some v, if r = [] then [] else 0x2e # r)" by (simp add: get_decimal_iff)
  then show "parse_dotted_decimal s = (Some v, r)" by (simp add: parse_dotted_decimal_def)
qed

lemma writes_arcs: "writes A d (arcs_contents vs) (oid_arcs_loop A d (dotted vs))"
proof (induction vs)
  case Nil
  have "oid_arcs_loop A d [] = (\<lambda>st. (True, st))" by (rule ext) (simp add: oid_arcs_loop.simps)
  then show ?case using writes_nothing by (simp add: arcs_contents_def)
next
  case (Cons v vs)
  have p: "parse_dotted_decimal (dotted (v # vs)) = (Some v, dotted vs)"
    unfolding parse_dotted_iff by (simp add: dotted_Cons)
  have "oid_arcs_loop A d (dotted (v # vs)) = cbb_seq (add_base128_integer A d v) (oid_arcs_loop A d (dotted vs))"
    by (rule ext) (subst oid_arcs_loop.simps, simp add: p cbb_seq_def)
  then show ?case using writes_seq [OF writes_base128 Cons] by (simp add: arcs_contents_def)
qed

lemma arcs_loop_dotted: "oid_arcs_loop A d cbs st = (True, st') \<Longrightarrow> \<exists>vs. cbs = dotted vs"
proof (induction A d cbs st rule: oid_arcs_loop.induct)
  case (1 A d cbs st)
  show ?case
  proof (cases "cbs = []")
    case True
    then show ?thesis by (intro exI [of _ "[]"]) simp
  next
    case False
    then obtain v rest st1 where v: "parse_dotted_decimal cbs = (Some v, rest)"
      and st1: "add_base128_integer A d v st = (True, st1)" and more: "oid_arcs_loop A d rest st1 = (True, st')"
      using 1(2) by (subst (asm) oid_arcs_loop.simps) (auto split: prod.splits option.splits bool.splits)
    obtain vs where "rest = dotted vs" using 1(1) [OF False v [symmetric] refl st1 [symmetric] refl more] by blast
    then have "cbs = dotted (v # vs)" using v unfolding parse_dotted_iff by (simp add: dotted_Cons)
    then show ?thesis by blast
  qed
qed

lemma unat_first:
  assumes "valid_arcs a b"
  shows "unat (40 * a + b) = 40 * unat a + unat b" and "unat a \<le> 2" and "unat a < 2 \<Longrightarrow> unat b \<le> 39"
proof -
  have max: "unat (UINT64_MAX - 80) = 2 ^ 64 - 81"
    by (subst unat_sub) (simp_all add: word_le_nat_alt unsigned_minus_1_eq_mask mask_eq_exp_minus_1)
  have v: "unat a \<le> 2" "unat b \<le> 2 ^ 64 - 81" "unat a < 2 \<longrightarrow> unat b \<le> 39"
    using assms unfolding valid_arcs_def word_le_nat_alt word_less_nat_alt max by auto
  then show "unat (40 * a + b) = 40 * unat a + unat b" by (simp add: unat_word_ariths)
  show "unat a \<le> 2" "unat a < 2 \<Longrightarrow> unat b \<le> 39" using v by simp_all
qed

lemma writes_from_text:
  assumes "valid_arcs a b"
  shows "writes A d (arcs_contents ((40 * a + b) # vs)) (CBB_add_asn1_oid_from_text A d (dotted (a # b # vs)))"
proof -
  have p: "parse_dotted_decimal (dotted (a # b # vs)) = (Some a, dotted (b # vs))"
    "parse_dotted_decimal (dotted (b # vs)) = (Some b, dotted vs)"
    unfolding parse_dotted_iff by (simp_all add: dotted_Cons)
  have ok: "\<not> (2 < a \<or> (a < 2 \<and> 39 < b) \<or> UINT64_MAX - 80 < b)"
    using assms by (auto simp: valid_arcs_def not_less)
  have "CBB_add_asn1_oid_from_text A d (dotted (a # b # vs)) =
      cbb_seq (CBB_flush A d) (cbb_seq (add_base128_integer A d (40 * a + b)) (oid_arcs_loop A d (dotted vs)))"
    unfolding CBB_add_asn1_oid_from_text_def p prod.case option.case if_not_P [OF ok] ..
  then show ?thesis
    using writes_seq [OF writes_flush writes_seq [OF writes_base128 writes_arcs]] by (simp add: arcs_contents_def)
qed

lemma writes_text_loop:
  "writes A 0 (concat (map (\<lambda>v. 0x2e # decimal (unat v)) vs)) (oid_text_loop A (arcs_contents vs))"
proof (induction vs)
  case Nil
  have "oid_text_loop A [] = (\<lambda>st. (True, st))" by (rule ext) (simp add: oid_text_loop.simps)
  then show ?case using writes_nothing by (simp add: arcs_contents_def)
next
  case (Cons v vs)
  have p: "parse_base128_integer (arcs_contents (v # vs)) = (Some v, arcs_contents vs)"
    by (simp add: parse_base128_integer_eq_Some arcs_contents_def)
  have ne: "arcs_contents (v # vs) \<noteq> []" by (simp add: arcs_contents_def base128_def)
  have "oid_text_loop A (arcs_contents (v # vs)) =
      cbb_seq (cbb_seq (CBB_add_u8 A 0 0x2e) (add_decimal A 0 v)) (oid_text_loop A (arcs_contents vs))"
    by (rule ext) (subst oid_text_loop.simps, simp add: p ne cbb_seq_def)
  moreover have "writes A 0 ([0x2e] @ decimal (unat v)) (cbb_seq (CBB_add_u8 A 0 0x2e) (add_decimal A 0 v))"
    unfolding add_decimal_def by (intro writes_seq writes_add_u8 writes_add_bytes)
  ultimately show ?case using writes_seq [OF _ Cons] by fastforce
qed

section \<open>Valid contents\<close>

lemma top_cont: "word_of_nat (128 + e) AND (0x80 :: u8) \<noteq> 0" if "e < 128" for e
proof -
  have "unat (word_of_nat (128 + e) :: u8) = 128 + e" using that by (intro unat_word_of_nat_less) simp
  then show ?thesis unfolding and_top_bit by simp
qed

lemma base128_cont_bytes: "b \<in> set (base128_cont a) \<Longrightarrow> b AND 0x80 \<noteq> 0"
proof (induction a rule: base128_cont.induct)
  case (1 v)
  show ?case
  proof (cases "v = 0")
    case False
    then have "b \<in> set (base128_cont (v div 128)) \<or> b = word_of_nat (128 + v mod 128)"
      using 1(2) by (subst (asm) base128_cont.simps) auto
    then show ?thesis using 1(1) [OF False] top_cont [of "v mod 128"] by auto
  qed (use 1(2) in simp)
qed

lemma base128_last: "word_of_nat (v mod 128) AND (0x80 :: u8) = 0"
proof -
  have "unat (word_of_nat (v mod 128) :: u8) = v mod 128"
    using mod_less_divisor [of 128 v] by (intro unat_word_of_nat_less) simp
  then show ?thesis unfolding and_top_bit by simp
qed

lemma base128_prefix:
  assumes "base128 k @ x = base128 m @ y"
  shows "x = y"
proof -
  have t: "takeWhile (\<lambda>b. b AND 0x80 \<noteq> 0) (base128 n @ z) = base128_cont (n div 128)" for n and z :: bytes
    using base128_cont_bytes base128_last [of n] by (auto simp: base128_def takeWhile_append)
  have "length (base128 k) = length (base128 m)"
    using t [of k x] t [of m y] assms by (simp add: base128_def)
  then show ?thesis using assms by simp
qed

lemma hd_base128_cont: "0 < a \<Longrightarrow> base128_cont a \<noteq> [] \<and> hd (base128_cont a) \<noteq> 0x80"
proof (induction a rule: base128_cont.induct)
  case (1 a)
  have step: "base128_cont a = base128_cont (a div 128) @ [word_of_nat (128 + a mod 128)]"
    using 1(2) by (subst base128_cont.simps) simp
  show ?case
  proof (cases "a div 128 = 0")
    case True
    then have e: "a mod 128 = a" "a < 128" by (auto simp: div_eq_0_iff)
    then have "unat (word_of_nat (128 + a) :: u8) = 128 + a" by (intro unat_word_of_nat_less) simp
    then have "(word_of_nat (128 + a) :: u8) \<noteq> 0x80" using 1(2) by (metis add_cancel_left_right less_numeral_extra(3) unat_u8_80)
    moreover have "base128_cont a = [word_of_nat (128 + a)]" using step by (simp only: True e base128_cont_0 append_Nil)
    ultimately show ?thesis by (simp del: of_nat_add)
  next
    case False
    then show ?thesis using 1(1) 1(2) step by simp
  qed
qed

lemma hd_base128: "base128 n \<noteq> [] \<and> hd (base128 n) \<noteq> 0x80"
proof (cases "n div 128 = 0")
  case True
  have "(word_of_nat (n mod 128) :: u8) \<noteq> 0x80" using base128_last [of n] by (metis and.idem unat_0 unat_u8_80 zero_neq_numeral)
  then show ?thesis using True by (simp add: base128_def)
next
  case False
  then show ?thesis using hd_base128_cont [of "n div 128"] by (simp add: base128_def)
qed

lemma cont_not_end: "0 < a \<Longrightarrow> base128_cont a \<noteq> concat (map base128 ns)"
proof
  assume "0 < a" and eq: "base128_cont a = concat (map base128 ns)"
  then have "ns \<noteq> []" using hd_base128_cont by auto
  then obtain ms k where ns: "ns = ms @ [k]" by (meson rev_exhaust)
  have "word_of_nat (k mod 128) \<in> set (base128_cont a)" unfolding eq ns by (simp add: base128_def)
  then show False using base128_cont_bytes base128_last by blast
qed

lemma valid_oid_loop_iff:
  assumes "if a = 0 then prev AND 0x80 = 0 else prev AND 0x80 \<noteq> 0"
  shows "valid_oid_loop prev s \<longleftrightarrow> (\<exists>ns. base128_cont a @ s = concat (map base128 ns))"
  using assms
proof (induction s arbitrary: prev a)
  case Nil
  show ?case
  proof (cases "a = 0")
    case True
    then show ?thesis using Nil by (auto intro: exI [of _ "[]"])
  next
    case False
    then show ?thesis using Nil cont_not_end [of a] by auto
  qed
next
  case (Cons v s)
  show ?case
  proof (cases "a = 0 \<and> v = 0x80")
    case True
    have "0x80 # s \<noteq> concat (map base128 ns)" for ns
    proof (cases ns)
      case (Cons k ks)
      then show ?thesis using hd_base128 [of k] by (cases "base128 k") auto
    qed simp
    then show ?thesis using True Cons.prems by auto
  next
    case False
    then have step: "valid_oid_loop prev (v # s) = valid_oid_loop v s" using Cons.prems by (auto split: if_splits)
    show ?thesis
    proof (cases "v AND 0x80 = 0")
      case True
      then have v: "unat v < 128" by (simp add: and_top_bit)
      then have m: "base128_cont a @ [v] = base128 (a * 128 + unat v)"
        by (simp add: base128_def word_of_nat_unat_id)
      have eq: "base128_cont a @ v # s = base128 (a * 128 + unat v) @ s" unfolding m [symmetric] by simp
      have "(\<exists>ns. base128 (a * 128 + unat v) @ s = concat (map base128 ns)) \<longleftrightarrow> (\<exists>ns. s = concat (map base128 ns))"
      proof
        assume "\<exists>ns. base128 (a * 128 + unat v) @ s = concat (map base128 ns)"
        then obtain ns where ns: "base128 (a * 128 + unat v) @ s = concat (map base128 ns)" by blast
        then obtain k ks where "ns = k # ks" using hd_base128 by (cases ns) auto
        with ns have "s = concat (map base128 ks)" using base128_prefix by fastforce
        then show "\<exists>ns. s = concat (map base128 ns)" by blast
      next
        assume "\<exists>ns. s = concat (map base128 ns)"
        then obtain ns where "s = concat (map base128 ns)" by blast
        then show "\<exists>ns. base128 (a * 128 + unat v) @ s = concat (map base128 ns)"
          by (intro exI [of _ "(a * 128 + unat v) # ns"]) simp
      qed
      then show ?thesis unfolding step eq using Cons.IH [of 0 v] True by simp
    next
      case cont: False
      let ?e = "unat v - 128"
      have v: "128 \<le> unat v" "unat v < 256" using cont unat_u8_less [of v] by (simp_all only: and_top_bit not_less)
      then have e: "word_of_nat (128 + ?e) = v" "?e < 128" by (simp, linarith)
      have "a * 128 + ?e \<noteq> 0"
      proof
        assume "a * 128 + ?e = 0"
        then have "a = 0" "unat v = 128" using v by auto
        then have "v = 0x80" by (intro unsigned_word_eqI [where ?'a = nat]) simp
        then show False using False \<open>a = 0\<close> by simp
      qed
      then have "base128_cont (a * 128 + ?e) = base128_cont a @ [v]" using base128_cont_step [of a ?e] e by simp
      then show ?thesis unfolding step using Cons.IH [of "a * 128 + ?e" v] cont \<open>a * 128 + ?e \<noteq> 0\<close> by auto
    qed
  qed
qed

section \<open>Text and contents are inverse\<close>

lemma dotted_first:
  assumes "valid_arcs a b"
  shows "(if 80 \<le> 40 * a + b then [0x32, 0x2e] @ decimal (unat (40 * a + b - 80))
          else decimal (unat ((40 * a + b) div 40)) @ [0x2e] @ decimal (unat ((40 * a + b) mod 40))) =
    decimal (unat a) @ 0x2e # decimal (unat b)"
proof -
  let ?v = "40 * a + b"
  have v: "unat ?v = 40 * unat a + unat b" and a: "unat a \<le> 2" and b: "unat a < 2 \<Longrightarrow> unat b \<le> 39"
    using unat_first [OF assms] by blast+
  have le: "80 \<le> ?v \<longleftrightarrow> unat a = 2"
    using v a b unfolding word_le_nat_alt by (cases "unat a < 2") auto
  show ?thesis
  proof (cases "unat a = 2")
    case True
    then have "unat (?v - 80) = unat b" using le v by (subst unat_sub) simp_all
    moreover have "decimal 2 = [0x32]" by (simp add: decimal_single)
    ultimately show ?thesis using True le by simp
  next
    case False
    then have "unat (?v div 40) = unat a" "unat (?v mod 40) = unat b"
      using v a b by (simp_all add: unat_div unat_mod)
    then show ?thesis using False le by simp
  qed
qed

lemma dotted_Cons2: "dotted (a # b # vs) =
  (decimal (unat a) @ 0x2e # decimal (unat b)) @ concat (map (\<lambda>v. 0x2e # decimal (unat v)) vs)"
  by (induction vs arbitrary: a b) (simp_all add: dotted_Cons)

lemma writes_first_arcs:
  assumes "valid_arcs a b"
  shows "writes A 0 (decimal (unat a) @ 0x2e # decimal (unat b))
    (if 80 \<le> 40 * a + b
     then cbb_seq (CBB_add_bytes A 0 [0x32, 0x2e]) (add_decimal A 0 (40 * a + b - 80))
     else cbb_seq (add_decimal A 0 ((40 * a + b) div 40))
       (cbb_seq (CBB_add_u8 A 0 0x2e) (add_decimal A 0 ((40 * a + b) mod 40))))"
proof -
  have "writes A 0 ([0x32, 0x2e] @ decimal (unat (40 * a + b - 80)))
      (cbb_seq (CBB_add_bytes A 0 [0x32, 0x2e]) (add_decimal A 0 (40 * a + b - 80)))"
    unfolding add_decimal_def by (intro writes_seq writes_add_bytes)
  moreover have "writes A 0 (decimal (unat ((40 * a + b) div 40)) @ [0x2e] @ decimal (unat ((40 * a + b) mod 40)))
      (cbb_seq (add_decimal A 0 ((40 * a + b) div 40))
        (cbb_seq (CBB_add_u8 A 0 0x2e) (add_decimal A 0 ((40 * a + b) mod 40))))"
    unfolding add_decimal_def by (intro writes_seq writes_add_bytes writes_add_u8)
  ultimately show ?thesis unfolding dotted_first [OF assms, symmetric] by (auto split: if_split)
qed

lemma oid_to_text_dotted:
  assumes "valid_arcs a b" and "\<And>k. A k" and "length (dotted (a # b # vs)) + 1 < size_mod"
  shows "CBS_asn1_oid_to_text A (arcs_contents ((40 * a + b) # vs)) = Some (dotted (a # b # vs) @ [0])"
proof -
  let ?st = "snd (CBB_init A 32)" and ?v = "40 * a + b"
  let ?first = "if 80 \<le> ?v
     then cbb_seq (CBB_add_bytes A 0 [0x32, 0x2e]) (add_decimal A 0 (?v - 80))
     else cbb_seq (add_decimal A 0 (?v div 40))
       (cbb_seq (CBB_add_u8 A 0 0x2e) (add_decimal A 0 (?v mod 40)))"
  let ?op = "cbb_seq ?first (cbb_seq (oid_text_loop A (arcs_contents vs)) (CBB_add_u8 A 0 0))"
  have p: "parse_base128_integer (arcs_contents (?v # vs)) = (Some ?v, arcs_contents vs)"
    by (simp add: parse_base128_integer_eq_Some arcs_contents_def)
  have w: "writes A 0 (dotted (a # b # vs) @ [0]) ?op"
    using writes_seq [OF writes_first_arcs [OF assms(1)] writes_seq [OF writes_text_loop writes_add_u8]]
    unfolding dotted_Cons2 append_assoc .
  have ready: "cbb_ready A 0 (length (dotted (a # b # vs) @ [0])) ?st"
    using assms(2,3) by (intro init_growing_ready) (simp_all add: size_mod_def)
  have init: "CBB_init A 32 = (True, ?st)" "buf (base ?st) = []"
    using assms(2) by (simp_all add: CBB_init_def cbb_init_def)
  obtain st' where st': "?op ?st = (True, st')"
    using writesD [OF w ready] by auto
  have "fst (CBB_finish A False st') = Some (dotted (a # b # vs) @ [0])"
    using finish_wrote [OF w ready init(2)] st' by simp
  then show ?thesis
    unfolding CBS_asn1_oid_to_text_def p by (subst init(1)) (simp only: prod.case option.case bool.case st')
qed

section \<open>Properties\<close>

text \<open>
  C10: Object identifiers from text and back. With room in the builder,
  \<open>CBB_add_asn1_oid_from_text\<close> accepts the text of every sequence of 64-bit components whose
  first two it can pack into one arc, and \<open>CBS_asn1_oid_to_text\<close> prints the contents it wrote
  as the same text with the terminating zero, the split of the first arc included.
\<close>

theorem oid_text_roundtrip:
  assumes "valid_arcs a b" and "cbb_ready A d n st" and "length (arcs_contents ((40 * a + b) # vs)) \<le> n"
    and "\<And>k. B k" and "length (dotted (a # b # vs)) + 1 < size_mod"
  shows "\<exists>st'. CBB_add_asn1_oid_from_text A d (dotted (a # b # vs)) st = (True, st') \<and>
    CBS_asn1_oid_to_text B (appended st st') = Some (dotted (a # b # vs) @ [0])"
proof -
  obtain st' where "CBB_add_asn1_oid_from_text A d (dotted (a # b # vs)) st = (True, st')"
    and "appended st st' = arcs_contents ((40 * a + b) # vs)"
    using writes_appended [OF writes_from_text [OF assms(1)] assms(2,3)] by blast
  then show ?thesis using oid_to_text_dotted [OF assms(1,4,5)] by simp
qed

lemma oid_text_roundtrip_witness:
  "\<exists>st'. CBB_add_asn1_oid_from_text (\<lambda>_. True) 0 (dotted [2, 999, 3]) (snd (CBB_init_fixed 64)) = (True, st') \<and>
    CBS_asn1_oid_to_text (\<lambda>_. True) (appended (snd (CBB_init_fixed 64)) st') = Some (dotted [2, 999, 3] @ [0])"
proof (rule oid_text_roundtrip [where n = 64])
  show "valid_arcs 2 999" by (simp add: valid_arcs_def)
  show "cbb_ready (\<lambda>_. True) 0 64 (snd (CBB_init_fixed 64))" by (rule init_fixed_ready) (simp add: size_mod_def)
  show "length (arcs_contents ((40 * 2 + 999) # [3])) \<le> 64"
    by (simp add: arcs_contents_def base128_def base128_cont.simps)
  show "length (dotted (2 # 999 # [3])) + 1 < size_mod" by (simp add: decimal.simps size_mod_def)
qed simp

text \<open>
  C25: The texts that are accepted. When \<open>CBB_add_asn1_oid_from_text\<close> succeeds, the text was
  the canonical one of at least two components that fit 64 bits, the first two within their
  limits: no leading zeros, no empty component, no dot at the end.
\<close>

theorem oid_from_text_canonical:
  assumes "CBB_add_asn1_oid_from_text A d text st = (True, st')"
  shows "\<exists>a b vs. valid_arcs a b \<and> text = dotted (a # b # vs)"
proof -
  obtain a b r r' st1 st2 where a: "parse_dotted_decimal text = (Some a, r)"
    and b: "parse_dotted_decimal r = (Some b, r')"
    and ok: "\<not> (2 < a \<or> (a < 2 \<and> 39 < b) \<or> UINT64_MAX - 80 < b)"
    and loop: "oid_arcs_loop A d r' st1 = (True, st2)"
    using assms unfolding CBB_add_asn1_oid_from_text_def cbb_seq_def
    by (auto split: prod.splits option.splits bool.splits if_splits)
  obtain vs where "r' = dotted vs" using arcs_loop_dotted [OF loop] by blast
  then have "text = dotted (a # b # vs)" using a b unfolding parse_dotted_iff by (simp add: dotted_Cons)
  moreover have "valid_arcs a b" using ok by (auto simp: valid_arcs_def not_less)
  ultimately show ?thesis by blast
qed

lemma oid_from_text_canonical_witness:
  "\<exists>a b vs. valid_arcs a b \<and> [0x31, 0x2e, 0x32] = dotted (a # b # vs)"
proof -
  have "CBB_add_asn1_oid_from_text (\<lambda>_. True) 0 [0x31, 0x2e, 0x32] (snd (CBB_init_fixed 64)) =
      (True, snd (CBB_add_asn1_oid_from_text (\<lambda>_. True) 0 [0x31, 0x2e, 0x32] (snd (CBB_init_fixed 64))))"
    by code_simp
  then show ?thesis by (rule oid_from_text_canonical)
qed

text \<open>
  The validity check. \<open>CBS_is_valid_asn1_oid\<close>, which looks at one bit of each byte and at
  the byte before it, holds exactly of the contents that are one or more minimally encoded
  base-128 integers of any size, the last one complete.
\<close>

theorem valid_oid_exact:
  "CBS_is_valid_asn1_oid cbs \<longleftrightarrow> (\<exists>ns. ns \<noteq> [] \<and> cbs = concat (map base128 ns))"
proof -
  have "valid_oid_loop 0 cbs \<longleftrightarrow> (\<exists>ns. cbs = concat (map base128 ns))"
    using valid_oid_loop_iff [of 0 0 cbs] by simp
  moreover have "concat (map base128 ns) = [] \<longleftrightarrow> ns = []" for ns
    using hd_base128 by (cases ns) auto
  ultimately show ?thesis unfolding CBS_is_valid_asn1_oid_def length_0_conv by metis
qed

end
