(* ===== verification/Set_Of.thy ===== *)
theory Set_Of
  imports Asn1_Values "HOL-Library.List_Lexorder" "HOL-Library.Multiset"
begin

text \<open>
  \<open>CBB_flush_asn1_set_of\<close> of \<open>cbb.c\<close>: DER wants the elements of a SET OF in ascending order
  of their encodings. The function parses the elements the caller wrote, sorts them and
  writes them back in place. The order it sorts by is shown to be the lexicographic order
  of the library on byte strings, and the result the library's sorted list.
\<close>

section \<open>The functions\<close>

text \<open>\<open>OPENSSL_memcmp\<close>: only the sign of the result is specified by the C standard.\<close>

fun OPENSSL_memcmp :: "bytes \<Rightarrow> bytes \<Rightarrow> nat \<Rightarrow> int" where
  "OPENSSL_memcmp (x # xs) (y # ys) (Suc n) = (if x = y then OPENSSL_memcmp xs ys n else uint x - uint y)"
| "OPENSSL_memcmp _ _ _ = 0"

definition compare_set_of_element :: "bytes \<Rightarrow> bytes \<Rightarrow> int" where
  "compare_set_of_element a b =
     (let a_len = length a; b_len = length b;
          min_len = (if a_len < b_len then a_len else b_len);
          ret = OPENSSL_memcmp a b min_len
      in if ret \<noteq> 0 then ret
         else if a_len = b_len then 0
         else if a_len < b_len then -1 else 1)"

text \<open>
  \<open>qsort\<close> of the C library, here by insertion. The standard leaves the order of elements
  that compare equal open; \<open>compare_set_of_element\<close> gives zero on equal byte strings only.
\<close>

fun insert_by :: "('a \<Rightarrow> 'a \<Rightarrow> int) \<Rightarrow> 'a \<Rightarrow> 'a list \<Rightarrow> 'a list" where
  "insert_by cmp x [] = [x]"
| "insert_by cmp x (y # ys) = (if cmp x y \<le> 0 then x # y # ys else y # insert_by cmp x ys)"

definition qsort :: "('a \<Rightarrow> 'a \<Rightarrow> int) \<Rightarrow> 'a list \<Rightarrow> 'a list" where
  "qsort cmp xs = foldr (insert_by cmp) xs []"

lemma any_element_shorter: "CBS_get_any_asn1_element s = (Some x, r) \<Longrightarrow> length r < length s"
  by (cases x) (auto simp: CBS_get_any_asn1_element_eq_Some der_element_def der_length_def)

text \<open>The loop that counts the elements, \<open>None\<close> when one does not parse.\<close>

function count_children :: "bytes \<Rightarrow> nat option" where
  "count_children cbs =
     (if length cbs = 0 then Some 0
      else case CBS_get_any_asn1_element cbs of
             (None, cbs') \<Rightarrow> None
           | (Some _, cbs') \<Rightarrow> map_option Suc (count_children cbs'))"
  by pat_completeness auto

termination count_children
  by (relation "measure length") (auto dest: any_element_shorter [OF sym])

declare count_children.simps [simp del]

text \<open>The loop that fills the array of \<open>n\<close> elements.\<close>

fun parse_children :: "nat \<Rightarrow> bytes \<Rightarrow> bytes list option" where
  "parse_children 0 cbs = Some []"
| "parse_children (Suc n) cbs =
     (case CBS_get_any_asn1_element cbs of
        (None, cbs') \<Rightarrow> None
      | (Some (out, _, _), cbs') \<Rightarrow> map_option ((#) out) (parse_children n cbs'))"

text \<open>The loop that copies them to the buffer, from the position \<open>pos\<close> on.\<close>

fun write_children :: "bytes list \<Rightarrow> nat \<Rightarrow> bytes \<Rightarrow> bytes" where
  "write_children [] pos out = out"
| "write_children (c # cs) pos out = write_children cs (pos + length c) (put_bytes pos c out)"

text \<open>Where \<open>CBB_data\<close> points to in the buffer.\<close>

definition data_pos :: "nat \<Rightarrow> cbb \<Rightarrow> nat" where
  "data_pos d st =
     (if d = 0 then 0
      else let child = children st ! (length (children st) - d) in offset child + pending_len_len child)"

text \<open>\<open>OPENSSL_calloc (n, sizeof(CBS))\<close>: a CBS is a pointer and a length.\<close>

definition can_calloc_cbs :: "(nat \<Rightarrow> bool) \<Rightarrow> nat \<Rightarrow> bool" where
  "can_calloc_cbs can_alloc n = (if (size_mod - 1) div 16 < n then False else can_alloc (n * 16))"

definition CBB_flush_asn1_set_of :: "(nat \<Rightarrow> bool) \<Rightarrow> nat \<Rightarrow> cbb_op" where
  "CBB_flush_asn1_set_of can_alloc d =
     cbb_seq (CBB_flush can_alloc d)
       (\<lambda>st. case count_children (CBB_data d st) of
          None \<Rightarrow> (False, st)
        | Some num_children \<Rightarrow>
            if num_children < 2 then (True, st)
            else if \<not> can_alloc (CBB_len d st) \<or> \<not> can_calloc_cbs can_alloc num_children then (False, st)
            else (case parse_children num_children (CBB_data d st) of
                    None \<Rightarrow> (False, st)
                  | Some es \<Rightarrow>
                      (True, st\<lparr>base := (base st)\<lparr>buf :=
                         write_children (qsort compare_set_of_element es) (data_pos d st) (buf (base st))\<rparr>\<rparr>)))"

section \<open>The order\<close>

lemma uint_eq [simp]: "uint x = uint y \<longleftrightarrow> x = y"
  by (simp add: word_uint_eq_iff)

lemma compare_Nil: "compare_set_of_element [] b = (if b = [] then 0 else -1)"
  "compare_set_of_element a [] = (if a = [] then 0 else 1)"
  by (cases a; simp add: compare_set_of_element_def)+

lemma compare_Cons: "compare_set_of_element (x # a) (y # b) =
  (if x = y then compare_set_of_element a b else uint x - uint y)"
  by (simp add: compare_set_of_element_def Let_def)

lemma compare_le: "compare_set_of_element a b \<le> 0 \<longleftrightarrow> a \<le> b"
proof (induction a arbitrary: b)
  case (Cons x a)
  then show ?case by (cases b) (auto simp: compare_Nil compare_Cons word_less_def word_le_def less_le)
qed (simp add: compare_Nil)

lemma compare_equal: "compare_set_of_element a b = 0 \<longleftrightarrow> a = b"
proof (induction a arbitrary: b)
  case (Cons x a)
  then show ?case by (cases b) (simp_all add: compare_Nil compare_Cons)
qed (simp add: compare_Nil)

lemma insert_by_insort: "insert_by compare_set_of_element = insort"
proof (intro ext)
  show "insert_by compare_set_of_element x ys = insort x ys" for x ys
    by (induction ys) (simp_all add: compare_le)
qed

lemma qsort_sort: "qsort compare_set_of_element xs = sort xs"
  by (simp add: qsort_def insert_by_insort sort_key_def)

section \<open>The elements\<close>

definition is_der_element :: "bytes \<Rightarrow> bool" where
  "is_der_element e = (\<exists>t body. valid_tag t \<and> length body < 2 ^ 32 \<and> e = der_element t body)"

lemma any_element_some:
  "CBS_get_any_asn1_element s = (Some (e, t, hl), r) \<Longrightarrow> is_der_element e \<and> s = e @ r"
  by (auto simp: CBS_get_any_asn1_element_eq_Some is_der_element_def)

lemma any_element_append:
  assumes "is_der_element e"
  obtains t hl where "CBS_get_any_asn1_element (e @ r) = (Some (e, t, hl), r)"
proof -
  obtain t body where e: "valid_tag t" "length body < 2 ^ 32" "e = der_element t body"
    using assms by (auto simp: is_der_element_def)
  then have "length e - length body + length body = length e" by (simp add: der_element_def)
  then have "CBS_get_any_asn1_element (e @ r) = (Some (e, t, length e - length body), r)"
    unfolding CBS_get_any_asn1_element_eq_Some using e by blast
  then show thesis by (rule that)
qed

lemma der_element_nonempty: "is_der_element e \<Longrightarrow> e \<noteq> []"
  by (auto simp: is_der_element_def der_element_def der_length_def)

lemma count_elements: "list_all is_der_element es \<Longrightarrow> count_children (concat es) = Some (length es)"
proof (induction es)
  case (Cons e es)
  then obtain t hl where "CBS_get_any_asn1_element (e @ concat es) = (Some (e, t, hl), concat es)"
    using any_element_append [of e "concat es"] by auto
  then show ?case using Cons der_element_nonempty [of e] by (subst count_children.simps) auto
qed (simp add: count_children.simps)

lemma parse_elements: "list_all is_der_element es \<Longrightarrow> parse_children (length es) (concat es) = Some es"
proof (induction es)
  case (Cons e es)
  then obtain t hl where "CBS_get_any_asn1_element (e @ concat es) = (Some (e, t, hl), concat es)"
    using any_element_append [of e "concat es"] by auto
  then show ?case using Cons by simp
qed simp

lemma count_some: "count_children s = Some n \<Longrightarrow> \<exists>es. list_all is_der_element es \<and> s = concat es \<and> n = length es"
proof (induction s arbitrary: n rule: count_children.induct)
  case (1 s)
  show ?case
  proof (cases "s = []")
    case True
    then show ?thesis using 1(2) by (intro exI [of _ "[]"]) (simp add: count_children.simps)
  next
    case False
    then obtain e t hl r m where el: "CBS_get_any_asn1_element s = (Some (e, t, hl), r)"
      and m: "count_children r = Some m" "n = Suc m"
      using 1(2) by (subst (asm) count_children.simps) (auto split: prod.splits option.splits)
    then obtain es where "list_all is_der_element es" "r = concat es" "m = length es"
      using 1(1) [OF _ el [symmetric] refl m(1)] False by auto
    then show ?thesis using any_element_some [OF el] m(2) by (intro exI [of _ "e # es"]) simp
  qed
qed

lemma count_iff: "count_children s = Some n \<longleftrightarrow> (\<exists>es. list_all is_der_element es \<and> s = concat es \<and> n = length es)"
  using count_some count_elements by blast

lemma write_children_eq:
  "pos + length (concat cs) \<le> length out \<Longrightarrow>
   write_children cs pos out = take pos out @ concat cs @ drop (pos + length (concat cs)) out"
proof (induction cs arbitrary: pos out)
  case (Cons c cs)
  then have "write_children (c # cs) pos out =
      take (pos + length c) (put_bytes pos c out) @ concat cs @
      drop (pos + length c + length (concat cs)) (put_bytes pos c out)"
    by (simp add: length_put_bytes)
  then show ?case using Cons.prems by (simp add: put_bytes_def) (metis add.assoc add.commute)
qed simp

lemma elements_unique:
  assumes "list_all is_der_element es" and "list_all is_der_element es'" and "concat es = concat es'"
  shows "es = es'"
proof -
  have "length es = length es'"
    using count_elements [OF assms(1)] count_elements [OF assms(2)] assms(3) by (metis option.inject)
  then show ?thesis
    using parse_elements [OF assms(1)] parse_elements [OF assms(2)] assms(3) by (metis option.inject)
qed

lemma CBB_data_pos: "CBB_data d st = drop (data_pos d st) (buf (base st))"
  by (simp add: CBB_data_def data_pos_def Let_def)

lemma CBB_len_data: "CBB_len d st = length (CBB_data d st)"
  by (simp add: CBB_data_def CBB_len_def Let_def)

text \<open>The buffer with the contents of the CBB at depth \<open>d\<close> replaced.\<close>

definition with_contents :: "nat \<Rightarrow> bytes \<Rightarrow> cbb \<Rightarrow> cbb" where
  "with_contents d xs st = st\<lparr>base := (base st)\<lparr>buf := take (data_pos d st) (buf (base st)) @ xs\<rparr>\<rparr>"

lemma with_contents_same: "with_contents d (CBB_data d st) st = st"
  by (simp add: with_contents_def CBB_data_pos)

lemma sort_short: "length es < 2 \<Longrightarrow> sort es = (es :: bytes list)"
  by (cases es rule: list.exhaust; cases "tl es") auto

lemma length_concat_sort: "length (concat (sort es)) = length (concat (es :: bytes list))"
proof -
  have "mset (map length (sort es)) = mset (map length es)" by simp
  then show ?thesis unfolding length_concat by (metis sum_mset_sum_list)
qed

lemma write_sorted:
  assumes "CBB_data d st = concat es" and "es \<noteq> []" and "list_all is_der_element es"
  shows "write_children (sort es) (data_pos d st) (buf (base st)) =
    take (data_pos d st) (buf (base st)) @ concat (sort es)"
proof -
  have "concat es \<noteq> []" using assms(2,3) der_element_nonempty by (cases es) auto
  then have "data_pos d st + length (concat (sort es)) = length (buf (base st))"
    unfolding length_concat_sort assms(1) [symmetric] CBB_data_pos by simp
  then show ?thesis by (simp add: write_children_eq)
qed

text \<open>On contents that are DER elements, and on others.\<close>

lemma set_of_elements:
  assumes st: "cbb_ready A d n st" and es: "CBB_data d st = concat es" "list_all is_der_element es"
    and mem: "length es < 2 \<or> A (length (concat es)) \<and> can_calloc_cbs A (length es)"
  shows "CBB_flush_asn1_set_of A d st = (True, with_contents d (concat (sort es)) st)"
proof (cases "length es < 2")
  case True
  then have "with_contents d (concat (sort es)) st = st"
    using with_contents_same [of d st] es by (simp add: sort_short)
  then show ?thesis
    using True es by (simp add: CBB_flush_asn1_set_of_def cbb_seq_def flush_ready [OF st] count_elements)
next
  case False
  then have "es \<noteq> []" by auto
  then show ?thesis
    using False es mem write_sorted [OF es(1) _ es(2)]
    by (simp add: CBB_flush_asn1_set_of_def cbb_seq_def flush_ready [OF st] count_elements parse_elements
        CBB_len_data qsort_sort with_contents_def)
qed

section \<open>Properties\<close>

text \<open>
  C11: SET OF in DER order. On a CBB that is ready for writing, \<open>CBB_flush_asn1_set_of\<close>
  succeeds exactly when the contents are a sequence of DER elements (and, for two elements or
  more, the allocator grants the copy and the array); then it replaces them by the same
  elements in ascending lexicographic order and changes nothing else. A failed call leaves
  the builder as it was.
\<close>

theorem flush_set_of_exact:
  assumes "cbb_ready A d n st"
  shows "CBB_flush_asn1_set_of A d st = (ok, st') \<longleftrightarrow>
    (if ok then (\<exists>es. list_all is_der_element es \<and> CBB_data d st = concat es \<and>
        (length es < 2 \<or> A (length (concat es)) \<and> can_calloc_cbs A (length es)) \<and>
        st' = with_contents d (concat (sort es)) st)
     else st' = st \<and> \<not> (\<exists>es. list_all is_der_element es \<and> CBB_data d st = concat es \<and>
        (length es < 2 \<or> A (length (concat es)) \<and> can_calloc_cbs A (length es))))"
proof (cases "\<exists>es. list_all is_der_element es \<and> CBB_data d st = concat es \<and>
    (length es < 2 \<or> A (length (concat es)) \<and> can_calloc_cbs A (length es))")
  case True
  then obtain es where es: "list_all is_der_element es" "CBB_data d st = concat es"
    and mem: "length es < 2 \<or> A (length (concat es)) \<and> can_calloc_cbs A (length es)" by blast
  have "es' = es" if "list_all is_der_element es'" "CBB_data d st = concat es'" for es'
    using elements_unique [OF that(1) es(1)] that es by simp
  then show ?thesis using es mem set_of_elements [OF assms es(2,1) mem] by auto
next
  case False
  have "CBB_flush_asn1_set_of A d st = (False, st)"
  proof (cases "count_children (CBB_data d st)")
    case None
    then show ?thesis by (simp add: CBB_flush_asn1_set_of_def cbb_seq_def flush_ready [OF assms])
  next
    case (Some m)
    then obtain es where es: "list_all is_der_element es" "CBB_data d st = concat es" "m = length es"
      using count_some by blast
    then have "\<not> m < 2" "\<not> (A (length (concat es)) \<and> can_calloc_cbs A m)" using False by blast+
    then show ?thesis
      using es Some by (simp add: CBB_flush_asn1_set_of_def cbb_seq_def flush_ready [OF assms] CBB_len_data)
  qed
  then show ?thesis using False by auto
qed

text \<open>Two INTEGER elements in the wrong order.\<close>

definition two_integers :: cbb where
  "two_integers = (CBB_zero :: cbb)\<lparr>base := \<lparr>buf = [2, 1, 5, 2, 1, 3], cap = 6, can_resize = False, error = False\<rparr>\<rparr>"

lemma is_der_small_int: "is_der_element [2, 1, b]"
  unfolding is_der_element_def
  by (rule exI [of _ CBS_ASN1_INTEGER], rule exI [of _ "[b]"])
    (simp add: valid_tag_def der_element_def der_tag_def der_length_def tag_number_def tag_class_def)

lemma flush_set_of_exact_witness:
  "CBB_flush_asn1_set_of (\<lambda>_. True) 0 two_integers = (True, with_contents 0 [2, 1, 3, 2, 1, 5] two_integers)"
proof (subst flush_set_of_exact)
  show "cbb_ready (\<lambda>_. True) 0 0 two_integers"
    by (simp add: two_integers_def cbb_ready_def cbb_wf_def buffer_wf_def fits_def CBB_zero_def size_mod_def)
  have "CBB_data 0 two_integers = concat [[2, 1, 5], [2, 1, 3]]"
    by (simp add: two_integers_def CBB_data_def)
  moreover have "concat (sort [[2, 1, 5], [2, 1, 3 :: u8]]) = [2, 1, 3, 2, 1, 5]" by simp
  ultimately show "if True then (\<exists>es. list_all is_der_element es \<and> CBB_data 0 two_integers = concat es \<and>
        (length es < 2 \<or> True \<and> can_calloc_cbs (\<lambda>_. True) (length es)) \<and>
        with_contents 0 [2, 1, 3, 2, 1, 5] two_integers = with_contents 0 (concat (sort es)) two_integers)
     else with_contents 0 [2, 1, 3, 2, 1, 5] two_integers = two_integers \<and>
       \<not> (\<exists>es. list_all is_der_element es \<and> CBB_data 0 two_integers = concat es \<and>
        (length es < 2 \<or> True \<and> can_calloc_cbs (\<lambda>_. True) (length es)))"
    unfolding if_True
    by (intro exI [of _ "[[2, 1, 5], [2, 1, 3]]"])
      (simp add: is_der_small_int can_calloc_cbs_def size_mod_def)
qed

end
