(* ===== verification/Cbb_Safety.thy ===== *)
theory Cbb_Safety
  imports Oid Set_Of
begin

text \<open>
  Safety of the builder under every sequence of calls of its interface, failing ones
  included: the length stays within the capacity, a fixed buffer keeps its size, every
  new capacity was granted by the allocator, the open children stay inside the buffer,
  and an error is never forgotten.
\<close>

section \<open>What no operation breaks\<close>

definition safe_to :: "(nat \<Rightarrow> bool) \<Rightarrow> cbb \<Rightarrow> cbb \<Rightarrow> bool" where
  "safe_to A st st' =
     (cbb_wf st' \<and> can_resize (base st') = can_resize (base st) \<and>
      (cap (base st') = cap (base st) \<or> (can_resize (base st) \<and> A (cap (base st')))) \<and>
      (error (base st) \<longrightarrow> error (base st')))"

definition safe_op :: "(nat \<Rightarrow> bool) \<Rightarrow> cbb_op \<Rightarrow> bool" where
  "safe_op A f = (\<forall>st. cbb_wf st \<longrightarrow> safe_to A st (snd (f st)))"

lemma safe_to_refl: "cbb_wf st \<Longrightarrow> safe_to A st st"
  by (simp add: safe_to_def)

lemma safe_to_trans: "safe_to A st st1 \<Longrightarrow> safe_to A st1 st2 \<Longrightarrow> safe_to A st st2"
  by (auto simp: safe_to_def)

lemma safe_opD: "safe_op A f \<Longrightarrow> cbb_wf st \<Longrightarrow> safe_to A st (snd (f st))"
  by (simp add: safe_op_def)

lemma safe_op_return: "safe_op A (\<lambda>st. (b, st))"
  by (simp add: safe_op_def safe_to_refl)

lemma safe_to_wf: "safe_to A st st' \<Longrightarrow> cbb_wf st'"
  by (simp add: safe_to_def)

lemma safe_op_seq:
  assumes f: "safe_op A f" and g: "safe_op A g"
  shows "safe_op A (cbb_seq f g)"
  unfolding safe_op_def
proof (intro allI impI)
  fix st
  assume "cbb_wf st"
  with f have 1: "safe_to A st (snd (f st))" by (rule safe_opD)
  obtain ok st1 where eq: "f st = (ok, st1)" by (cases "f st")
  with 1 safe_opD [OF g, of st1] safe_to_wf [of A st st1]
  show "safe_to A st (snd (cbb_seq f g st))"
    by (cases ok) (auto simp: cbb_seq_def intro: safe_to_trans)
qed

lemma safe_on_error: "cbb_wf st \<Longrightarrow> safe_to A st (cbb_on_error d st)"
  by (auto simp: safe_to_def cbb_on_error_def cbb_wf_def buffer_wf_def intro: chain_wf_drop)

lemma safe_op_goto_err:
  assumes f: "safe_op A f"
  shows "safe_op A (cbb_goto_err d f)"
  unfolding safe_op_def
proof (intro allI impI)
  fix st
  assume "cbb_wf st"
  with f have 1: "safe_to A st (snd (f st))" by (rule safe_opD)
  obtain ok st1 where eq: "f st = (ok, st1)" by (cases "f st")
  with 1 safe_on_error [of st1 A d] safe_to_wf [of A st st1]
  show "safe_to A st (snd (cbb_goto_err d f st))"
    by (cases ok) (auto simp: cbb_goto_err_def intro: safe_to_trans)
qed

text \<open>Operations that only touch the buffer.\<close>

definition safe_buffer :: "(nat \<Rightarrow> bool) \<Rightarrow> cbb_buffer \<Rightarrow> cbb_buffer \<Rightarrow> bool" where
  "safe_buffer A b b' =
     (buffer_wf b' \<and> length (buf b) \<le> length (buf b') \<and> can_resize b' = can_resize b \<and>
      (cap b' = cap b \<or> (can_resize b \<and> A (cap b'))) \<and> (error b \<longrightarrow> error b'))"

lemma safe_to_buffer: "cbb_wf st \<Longrightarrow> safe_buffer A (base st) b \<Longrightarrow> safe_to A st (st\<lparr>base := b\<rparr>)"
  by (auto simp: safe_to_def safe_buffer_def cbb_wf_def intro: chain_wf_mono)

lemma safe_reserve: "buffer_wf b \<Longrightarrow> safe_buffer A b (snd (cbb_buffer_reserve A n b))"
  using size_add_less [of "length (buf b)" n] size_add_less [of "cap b" "cap b"]
  by (auto simp: cbb_buffer_reserve_def Let_def safe_buffer_def buffer_wf_def)

lemma safe_buffer_add:
  assumes wf: "buffer_wf b" and n: "n < size_mod"
  shows "safe_buffer A b (snd (cbb_buffer_add A n b))"
proof -
  obtain ok b' where eq: "cbb_buffer_reserve A n b = (ok, b')" by (cases "cbb_buffer_reserve A n b")
  have 1: "safe_buffer A b b'" using safe_reserve [OF wf, of A n] eq by simp
  have "length (buf b) + n \<le> cap b' \<and> buf b' = buf b" if ok
  proof -
    have "length (buf b) < size_mod" using wf by (simp add: buffer_wf_def)
    moreover have "\<not> size_add (length (buf b)) n < length (buf b)"
      using eq that by (auto simp: cbb_buffer_reserve_def Let_def)
    ultimately have "size_add (length (buf b)) n = length (buf b) + n"
      using n size_add_wraps size_add_small not_le by blast
    with eq that show ?thesis
      by (auto simp: cbb_buffer_reserve_def Let_def split: if_splits)
  qed
  with 1 eq show ?thesis
    by (cases ok) (auto simp: cbb_buffer_add_def safe_buffer_def buffer_wf_def)
qed

lemma safe_buffer_refl: "buffer_wf b \<Longrightarrow> safe_buffer A b b"
  by (simp add: safe_buffer_def)

lemma safe_buffer_trans: "safe_buffer A b b1 \<Longrightarrow> safe_buffer A b1 b2 \<Longrightarrow> safe_buffer A b b2"
  by (auto simp: safe_buffer_def)

lemma safe_buffer_wf: "safe_buffer A b b' \<Longrightarrow> buffer_wf b'"
  by (simp add: safe_buffer_def)

lemma safe_put_bytes:
  "buffer_wf b \<Longrightarrow> pos + length ys \<le> length (buf b) \<Longrightarrow>
   safe_buffer A b (b\<lparr>buf := put_bytes pos ys (buf b)\<rparr>)"
  by (simp add: safe_buffer_def buffer_wf_def length_put_bytes)

section \<open>Flushing\<close>

text \<open>The prefix of a child lies inside the buffer, so every store of \<open>CBB_flush\<close> does.\<close>

lemma flush_prefix_safe:
  assumes wf: "buffer_wf b" and start: "offset c + pending_len_len c = start"
    and len: "start + len = length (buf b)" and asn1: "pending_is_asn1 c \<longrightarrow> pending_len_len c = 1"
    and pre: "flush_asn1_prefix A c start len b = (res, b')"
  shows "safe_buffer A b b'"
    and "res = Some (off, n, len') \<Longrightarrow> off + n \<le> length (buf b')"
proof -
  obtain k ib len1 where form: "asn1_length_form len = (k, ib, len1)"
    by (metis prod_cases3)
  have k: "1 \<le> k" "k \<le> 5" "k \<noteq> 1 \<Longrightarrow> len1 = len"
    using form by (auto simp: asn1_length_form_def split: if_splits)
  have small: "k - 1 < size_mod" using k by (simp add: size_mod_def)
  obtain ok b1 where add: "cbb_buffer_add A (k - 1) b = (ok, b1)" by (cases "cbb_buffer_add A (k - 1) b")
  have b1: "safe_buffer A b b1" using safe_buffer_add [OF wf small, of A] add by simp
  have l1: "length (buf b1) = length (buf b) + (k - 1)" if ok
    using add that by (auto simp: cbb_buffer_add_def cbb_buffer_reserve_def Let_def split: prod.splits bool.splits if_splits)
  define moved where "moved = put_bytes (start + (k - 1)) (take len (drop start (buf b1))) (buf b1)"
  have lm: "length moved = length (buf b1)" if ok
    using l1 [OF that] len unfolding moved_def by (intro length_put_bytes) auto
  have "safe_buffer A b b' \<and> (\<forall>off n len'. res = Some (off, n, len') \<longrightarrow> off + n \<le> length (buf b'))"
  proof (cases "pending_is_asn1 c \<and> \<not> 0xfffffffe < len")
    case False
    then have "b' = b" "res = None \<or> res = Some (offset c, pending_len_len c, len)"
      using pre by (auto simp: flush_asn1_prefix_def split: if_splits)
    with start len wf show ?thesis by (auto simp: safe_buffer_refl)
  next
    case True
    then have room: "offset c + 1 \<le> length (buf b)" using asn1 start len by simp
    show ?thesis
    proof (cases "k = 1")
      case True
      then have "b' = b\<lparr>buf := put_bytes (offset c) [ib] (buf b)\<rparr>" "res = Some (offset c + 1, 0, len1)"
        using pre form \<open>pending_is_asn1 c \<and> _\<close> by (simp_all add: flush_asn1_prefix_def)
      with room wf show ?thesis by (auto intro: safe_put_bytes simp: length_put_bytes)
    next
      case False
      show ?thesis
      proof (cases ok)
        case True
        then have "b' = b1\<lparr>buf := put_bytes (offset c) [ib] moved\<rparr>" "res = Some (offset c + 1, k - 1, len1)"
          using pre form add k(3) False \<open>pending_is_asn1 c \<and> _\<close>
          by (auto simp: flush_asn1_prefix_def moved_def Let_def)
        with room lm [OF True] l1 [OF True] b1 show ?thesis
          by (auto simp: safe_buffer_def buffer_wf_def length_put_bytes)
      next
        assume "\<not> ok"
        with pre form add False \<open>pending_is_asn1 c \<and> _\<close> have "b' = b1" "res = None"
          by (simp_all add: flush_asn1_prefix_def)
        with b1 show ?thesis by simp
      qed
    qed
  qed
  then show "safe_buffer A b b'" and "res = Some (off, n, len') \<Longrightarrow> off + n \<le> length (buf b')"
    by auto
qed

lemma safe_flush_child: "safe_op A (flush_child A d)"
  unfolding safe_op_def
proof (intro allI impI)
  fix st
  assume wf: "cbb_wf st"
  show "safe_to A st (snd (flush_child A d st))"
  proof (cases "children st")
    case Nil
    with wf show ?thesis by (simp add: flush_child_def safe_to_refl)
  next
    case (Cons c outer)
    define start where "start = offset c + pending_len_len c"
    have bwf: "buffer_wf (base st)" and start: "start \<le> length (buf (base st))"
      and asn1: "pending_is_asn1 c \<longrightarrow> pending_len_len c = 1" and outer: "chain_wf (offset c) outer"
      using wf Cons by (auto simp: cbb_wf_def start_def)
    have add: "size_add (offset c) (pending_len_len c) = start"
      using start bwf by (auto simp: start_def buffer_wf_def intro!: size_add_small)
    obtain res b where pre: "flush_asn1_prefix A c start (length (buf (base st)) - start) (base st) = (res, b)"
      by (metis surj_pair)
    have safe: "safe_buffer A (base st) b"
      and inside: "\<And>off n len'. res = Some (off, n, len') \<Longrightarrow> off + n \<le> length (buf b)"
      using flush_prefix_safe [OF bwf _ _ asn1 pre] start by (auto simp: start_def)
    have st1: "safe_to A st (st\<lparr>base := b\<rparr>)" by (rule safe_to_buffer [OF wf safe])
    show ?thesis
    proof (cases res)
      case None
      then have "snd (flush_child A d st) = cbb_on_error d (st\<lparr>base := b\<rparr>)"
        using Cons add pre start by (simp add: flush_child_def start_def)
      with st1 show ?thesis by (metis safe_on_error safe_to_trans safe_to_wf)
    next
      case (Some t)
      then obtain off n len' where res: "res = Some (off, n, len')" by (cases t) auto
      define b2 where "b2 = b\<lparr>buf := put_bytes off (fst (be_store n len')) (buf b)\<rparr>"
      have "safe_buffer A b b2"
        using safe_buffer_wf [OF safe] inside [OF res] unfolding b2_def
        by (intro safe_put_bytes) (simp_all add: be_store_eq)
      then have safe2: "safe_buffer A (base st) b2" using safe by (rule safe_buffer_trans [rotated])
      have st2: "safe_to A st (st\<lparr>base := b2\<rparr>)" by (rule safe_to_buffer [OF wf safe2])
      have "safe_to A st (st\<lparr>base := b2, children := outer\<rparr>)"
        using st2 outer chain_wf_mono [of "offset c" outer "length (buf b2)"] safe2 start
        by (auto simp: safe_to_def cbb_wf_def safe_buffer_def start_def)
      moreover have "safe_to A st (cbb_on_error d (st\<lparr>base := b2\<rparr>))"
        using st2 by (metis safe_on_error safe_to_trans safe_to_wf)
      moreover have "snd (flush_child A d st) = cbb_on_error d (st\<lparr>base := b2\<rparr>) \<or>
          snd (flush_child A d st) = st\<lparr>base := b2, children := outer\<rparr>"
        using Cons add pre start res
        by (auto simp: flush_child_def start_def b2_def Let_def split: prod.splits)
      ultimately show ?thesis by auto
    qed
  qed
qed

lemma safe_flush_state: "cbb_wf st \<Longrightarrow> safe_to A st (snd (CBB_flush A d st))"
proof (induction A d st rule: CBB_flush.induct)
  case (1 A d st)
  show ?case
  proof (cases "length (children st) < d \<or> error (base st) \<or> length (children st) = d")
    case True
    with 1 show ?thesis by (subst CBB_flush.simps) (auto simp: safe_to_refl)
  next
    case False
    obtain ok st1 where eq: "CBB_flush A (Suc d) st = (ok, st1)" by (cases "CBB_flush A (Suc d) st")
    have st1: "safe_to A st st1" using 1 False eq by auto
    then have "safe_to A st (cbb_on_error d st1)" "safe_to A st (snd (flush_child A d st1))"
      by (metis safe_on_error safe_to_trans safe_to_wf)
        (metis st1 safe_opD safe_flush_child safe_to_trans safe_to_wf)
    with False eq show ?thesis by (subst CBB_flush.simps) (cases ok, auto)
  qed
qed

lemma safe_flush: "safe_op A (CBB_flush A d)"
  by (simp add: safe_op_def safe_flush_state)

section \<open>The other operations\<close>

lemma safe_op_buffer:
  assumes "\<And>b. buffer_wf b \<Longrightarrow> safe_buffer A b (snd (f b))"
  shows "safe_op A (\<lambda>st. case f (base st) of (ok, b) \<Rightarrow> (ok, st\<lparr>base := b\<rparr>))"
  using assms safe_to_buffer unfolding safe_op_def cbb_wf_def
  by (auto simp: cbb_wf_def split: prod.splits) (metis cbb_wf_def snd_conv)

lemma safe_reserve_op: "safe_op A (CBB_reserve A d n)"
  unfolding CBB_reserve_def by (intro safe_op_seq safe_flush safe_op_buffer safe_reserve)

lemma safe_add_space: "n < size_mod \<Longrightarrow> safe_op A (CBB_add_space A d n)"
  unfolding CBB_add_space_def by (intro safe_op_seq safe_flush safe_op_buffer safe_buffer_add)

lemma safe_add_child:
  assumes "ll < size_mod" and "asn1 \<longrightarrow> ll = 1"
  shows "safe_op A (cbb_add_child A ll asn1)"
  unfolding safe_op_def
proof (intro allI impI)
  fix st
  assume wf: "cbb_wf st"
  obtain ok b where add: "cbb_buffer_add A ll (base st) = (ok, b)"
    by (cases "cbb_buffer_add A ll (base st)")
  have safe: "safe_buffer A (base st) b"
    using safe_buffer_add [OF _ assms(1), of "base st" A] wf add by (simp add: cbb_wf_def)
  have len: "length (buf b) = length (buf (base st)) + ll" if ok
    using add that
    by (auto simp: cbb_buffer_add_def cbb_buffer_reserve_def Let_def split: prod.splits bool.splits if_splits)
  have put: "safe_buffer A b (b\<lparr>buf := put_bytes (length (buf (base st))) (replicate ll 0) (buf b)\<rparr>)" if ok
    using len [OF that] by (intro safe_put_bytes safe_buffer_wf [OF safe]) simp
  show "safe_to A st (snd (cbb_add_child A ll asn1 st))"
  proof (cases ok)
    case True
    define b1 where "b1 = b\<lparr>buf := put_bytes (length (buf (base st))) (replicate ll 0) (buf b)\<rparr>"
    have 1: "safe_buffer A (base st) b1"
      unfolding b1_def by (rule safe_buffer_trans [OF safe put [OF True]])
    moreover have "length (buf b1) = length (buf (base st)) + ll"
      using len [OF True] by (simp add: b1_def length_put_bytes)
    ultimately have "safe_to A st (st\<lparr>base := b1, children := \<lparr>offset = length (buf (base st)),
        pending_len_len = ll, pending_is_asn1 = asn1\<rparr> # children st\<rparr>)"
      using wf assms(2) by (auto simp: safe_to_def cbb_wf_def safe_buffer_def)
    with True add show ?thesis by (simp add: cbb_add_child_def Let_def b1_def)
  next
    case False
    with add safe_to_buffer [OF wf safe] show ?thesis by (simp add: cbb_add_child_def Let_def)
  qed
qed

text \<open>Filling the space just added stays inside the buffer.\<close>

lemma safe_add_fill:
  assumes n: "length xs < size_mod"
  shows "safe_op A (cbb_seq (CBB_add_space A d (length xs)) (fill_space xs))"
  unfolding safe_op_def
proof (intro allI impI)
  fix st
  assume wf: "cbb_wf st"
  obtain ok st1 where eq: "CBB_add_space A d (length xs) st = (ok, st1)"
    by (cases "CBB_add_space A d (length xs) st")
  have 1: "safe_to A st st1" using safe_opD [OF safe_add_space [OF n] wf, of A d] eq by simp
  show "safe_to A st (snd (cbb_seq (CBB_add_space A d (length xs)) (fill_space xs) st))"
  proof (cases ok)
    case True
    have len: "length xs \<le> length (buf (base st1))"
      using eq True
      by (auto simp: CBB_add_space_def cbb_seq_def cbb_buffer_add_def split: prod.splits bool.splits)
    have bwf: "buffer_wf (base st1)" using safe_to_wf [OF 1] by (simp add: cbb_wf_def)
    have "safe_buffer A (base st1) ((base st1)\<lparr>buf :=
        put_bytes (length (buf (base st1)) - length xs) xs (buf (base st1))\<rparr>)"
      using bwf len by (intro safe_put_bytes) simp_all
    then have "safe_to A st1 (snd (fill_space xs st1))"
      using safe_to_buffer [OF safe_to_wf [OF 1]] by (simp add: fill_space_def)
    with 1 eq True show ?thesis by (auto simp: cbb_seq_def intro: safe_to_trans)
  next
    case False
    with 1 eq show ?thesis by (simp add: cbb_seq_def)
  qed
qed

lemma safe_add_bytes: "length xs < size_mod \<Longrightarrow> safe_op A (CBB_add_bytes A d xs)"
  unfolding CBB_add_bytes_def by (rule safe_add_fill)

lemma safe_add_zeros: "n < size_mod \<Longrightarrow> safe_op A (CBB_add_zeros A d n)"
  using safe_add_fill [of "replicate n 0" A d] by (simp add: CBB_add_zeros_def)

lemma safe_op_check: "safe_op A (\<lambda>st. if b then (False, cbb_on_error d st) else (True, st))"
  by (simp add: safe_op_def safe_on_error safe_to_refl)

lemma safe_add_u: "n < size_mod \<Longrightarrow> safe_op A (cbb_add_u A d v n)"
proof -
  assume n: "n < size_mod"
  let ?bs = "be_bytes n (unat v)"
  have "cbb_add_u A d v n = cbb_seq (cbb_seq (CBB_add_space A d (length ?bs)) (fill_space ?bs))
      (\<lambda>st. if unat v div 256 ^ n \<noteq> 0 then (False, cbb_on_error d st) else (True, st))"
  proof (rule ext)
    fix st
    obtain ok st1 where "CBB_add_space A d n st = (ok, st1)" by (cases "CBB_add_space A d n st")
    then show "cbb_add_u A d v n st = cbb_seq (cbb_seq (CBB_add_space A d (length ?bs)) (fill_space ?bs))
        (\<lambda>st. if unat v div 256 ^ n \<noteq> 0 then (False, cbb_on_error d st) else (True, st)) st"
      unfolding cbb_add_u_def cbb_seq_def length_be_bytes be_store_eq Let_def fill_space_def
      by (cases ok) (simp_all only: prod.case bool.case snd_conv length_be_bytes)
  qed
  moreover have "safe_op A (cbb_seq (CBB_add_space A d (length ?bs)) (fill_space ?bs))"
    using n by (intro safe_add_fill) simp
  ultimately show ?thesis by (simp only: safe_op_seq safe_op_check)
qed

lemma safe_add_u8: "safe_op A (CBB_add_u8 A d b)"
  unfolding CBB_add_u8_def by (rule safe_add_u) (simp add: size_mod_def)

lemma safe_base128: "safe_op A (add_base128_integer A d v)"
proof -
  have "safe_op A (add_base128_loop A d v n)" for n
  proof (induction n)
    case (Suc n)
    then show ?case by (simp add: Let_def safe_op_seq safe_add_u8)
  qed (simp add: safe_op_return)
  then show ?thesis by (simp add: add_base128_integer_def Let_def)
qed

lemma safe_add_asn1: "safe_op A (CBB_add_asn1 A d t)"
proof -
  have one: "1 < size_mod" by (simp add: size_mod_def)
  show ?thesis
    unfolding CBB_add_asn1_def Let_def
    by (intro safe_op_seq safe_flush safe_add_child [OF one]) (simp_all add: safe_op_seq safe_add_u8 safe_base128)
qed

lemma safe_uint64_with_tag: "safe_op A (CBB_add_asn1_uint64_with_tag A d v t)"
proof -
  have "safe_op A (add_uint64_loop A d' started bs)" for d' started bs
    by (induction bs arbitrary: started) (simp_all add: safe_op_return safe_op_seq safe_add_u8)
  then show ?thesis
    unfolding CBB_add_asn1_uint64_with_tag_def
    by (intro safe_op_seq safe_op_goto_err safe_add_asn1 safe_flush)
qed

lemma safe_int64_with_tag: "safe_op A (CBB_add_asn1_int64_with_tag A d v t)"
proof -
  have "safe_op A (add_bytes_down A d' bs n)" for d' bs n
    by (induction n) (simp_all add: safe_op_seq safe_add_u8)
  then have "safe_op A (cbb_seq (cbb_goto_err d (cbb_seq (CBB_add_asn1 A d t)
      (add_bytes_down A (Suc d) (int64_image v) n))) (CBB_flush A d))" for n
    by (intro safe_op_seq safe_op_goto_err safe_add_asn1 safe_flush)
  then show ?thesis
    using safe_uint64_with_tag [of A d v t]
    by (simp add: CBB_add_asn1_int64_with_tag_def [abs_def] Let_def)
qed

lemma safe_octet_string: "length xs < size_mod \<Longrightarrow> safe_op A (CBB_add_asn1_octet_string A d xs)"
  unfolding CBB_add_asn1_octet_string_def
  by (intro safe_op_seq safe_op_goto_err safe_add_asn1 safe_flush safe_add_bytes)

lemma safe_bool: "safe_op A (CBB_add_asn1_bool A d v)"
  unfolding CBB_add_asn1_bool_def
  by (intro safe_op_seq safe_op_goto_err safe_add_asn1 safe_flush safe_add_u8)

lemma safe_did_write: "length xs < size_mod \<Longrightarrow> safe_op A (CBB_did_write d xs)"
  unfolding safe_op_def
proof (intro allI impI)
  fix st
  assume n: "length xs < size_mod" and wf: "cbb_wf st"
  let ?b = "base st"
  let ?new = "size_add (length (buf ?b)) (length xs)"
  show "safe_to A st (snd (CBB_did_write d xs st))"
  proof (cases "length (children st) \<noteq> d \<or> ?new < length (buf ?b) \<or> cap ?b < ?new")
    case True
    then have "snd (CBB_did_write d xs st) = st" by (simp add: CBB_did_write_def Let_def)
    with wf show ?thesis by (simp add: safe_to_refl)
  next
    case False
    then have eq: "snd (CBB_did_write d xs st) = st\<lparr>base := ?b\<lparr>buf := buf ?b @ xs\<rparr>\<rparr>"
      by (simp add: CBB_did_write_def Let_def)
    have "length (buf ?b) < size_mod" using wf by (simp add: cbb_wf_def buffer_wf_def)
    with False n have "?new = length (buf ?b) + length xs"
      using size_add_wraps size_add_small not_le by blast
    with False wf have "safe_buffer A ?b (?b\<lparr>buf := buf ?b @ xs\<rparr>)"
      by (simp add: safe_buffer_def cbb_wf_def buffer_wf_def)
    with wf show ?thesis unfolding eq by (rule safe_to_buffer)
  qed
qed

lemma safe_discard_child: "cbb_wf st \<Longrightarrow> safe_to A st (CBB_discard_child d st)"
proof -
  assume wf: "cbb_wf st"
  have drop: "chain_wf (offset (cs ! k)) (drop (Suc k) cs)" if "chain_wf n cs" "k < length cs" for n cs k
    using that
  proof (induction cs arbitrary: n k)
    case (Cons c cs)
    then show ?case by (cases k) fastforce+
  qed simp
  have small: "offset (cs ! k) \<le> n" if "chain_wf n cs" "k < length cs" for n cs k
    using that
  proof (induction cs arbitrary: n k)
    case (Cons c cs)
    then show ?case by (cases k) fastforce+
  qed simp
  show ?thesis
  proof (cases "length (children st) \<le> d")
    case True
    with wf show ?thesis by (simp add: CBB_discard_child_def safe_to_refl)
  next
    case False
    let ?k = "length (children st) - d"
    have "chain_wf (offset (children st ! (?k - 1))) (drop (Suc (?k - 1)) (children st))"
      using wf False by (intro drop) (auto simp: cbb_wf_def)
    moreover have "Suc (?k - 1) = ?k" using False by simp
    moreover have "offset (children st ! (?k - 1)) \<le> length (buf (base st))"
      using wf False by (intro small) (auto simp: cbb_wf_def)
    ultimately show ?thesis
      using wf False by (simp add: CBB_discard_child_def safe_to_def cbb_wf_def buffer_wf_def Let_def min_def)
  qed
qed

lemma safe_op_if: "safe_op A f \<Longrightarrow> safe_op A g \<Longrightarrow> safe_op A (\<lambda>st. if b then f st else g st)"
  by (cases b) simp_all

lemma safe_oid_arcs: "cbb_wf st \<Longrightarrow> safe_to A st (snd (oid_arcs_loop A d cbs st))"
proof (induction A d cbs st rule: oid_arcs_loop.induct)
  case (1 A d cbs st)
  show ?case
  proof (cases "cbs = [] \<or> fst (parse_dotted_decimal cbs) = None")
    case True
    then show ?thesis
      using 1(2) by (subst oid_arcs_loop.simps) (auto simp: safe_to_refl split: prod.splits option.splits)
  next
    case False
    then obtain a rest where a: "parse_dotted_decimal cbs = (Some a, rest)"
      by (cases "parse_dotted_decimal cbs") auto
    obtain ok st1 where st1: "add_base128_integer A d a st = (ok, st1)" by (cases "add_base128_integer A d a st")
    then have safe: "safe_to A st st1" using safe_opD [OF safe_base128 1(2), of A d a] by simp
    show ?thesis
    proof (cases ok)
      case True
      have "safe_to A st1 (snd (oid_arcs_loop A d rest st1))"
        using 1(1) [OF _ a [symmetric] refl st1 [symmetric] _ safe_to_wf [OF safe]] False True by simp
      then have "safe_to A st (snd (oid_arcs_loop A d rest st1))" by (rule safe_to_trans [OF safe])
      then show ?thesis using False a st1 True by (subst oid_arcs_loop.simps) simp
    next
      case False
      then show ?thesis using \<open>\<not> (cbs = [] \<or> _)\<close> a st1 safe by (subst oid_arcs_loop.simps) simp
    qed
  qed
qed

lemma safe_oid_from_text: "safe_op A (CBB_add_asn1_oid_from_text A d text)"
proof -
  have arcs: "safe_op A (oid_arcs_loop A d cbs)" for cbs by (simp add: safe_op_def safe_oid_arcs)
  obtain x cbs where x: "parse_dotted_decimal text = (x, cbs)" by (cases "parse_dotted_decimal text")
  obtain y cbs' where y: "parse_dotted_decimal cbs = (y, cbs')" by (cases "parse_dotted_decimal cbs")
  show ?thesis
    unfolding CBB_add_asn1_oid_from_text_def x prod.case
    by (intro safe_op_seq safe_flush; cases x; cases y;
        simp add: y safe_op_return safe_op_if safe_op_seq safe_base128 arcs)
qed

lemma safe_flush_asn1_set_of: "safe_op A (CBB_flush_asn1_set_of A d)"
  unfolding CBB_flush_asn1_set_of_def
proof (intro safe_op_seq safe_flush, unfold safe_op_def, intro allI impI)
  fix st
  assume wf: "cbb_wf st"
  show "safe_to A st (snd (case count_children (CBB_data d st) of
      None \<Rightarrow> (False, st)
    | Some num_children \<Rightarrow>
        if num_children < 2 then (True, st)
        else if \<not> A (CBB_len d st) \<or> \<not> can_calloc_cbs A num_children then (False, st)
        else (case parse_children num_children (CBB_data d st) of
                None \<Rightarrow> (False, st)
              | Some es \<Rightarrow>
                  (True, st\<lparr>base := (base st)\<lparr>buf :=
                     write_children (qsort compare_set_of_element es) (data_pos d st) (buf (base st))\<rparr>\<rparr>))))"
  proof (cases "count_children (CBB_data d st)")
    case (Some n)
    then obtain es where es: "list_all is_der_element es" "CBB_data d st = concat es" "n = length es"
      using count_some by blast
    show ?thesis
    proof (cases "n < 2")
      case False
      then have ne: "es \<noteq> []" using es(3) by auto
      then have "concat es \<noteq> []" using es(1) der_element_nonempty by (cases es) auto
      then have "length (take (data_pos d st) (buf (base st)) @ concat (sort es)) = length (buf (base st))"
        using length_concat_sort [of es] arg_cong [OF es(2), of length] unfolding CBB_data_pos
        by (cases "data_pos d st < length (buf (base st))") auto
      then show ?thesis
        using wf Some es ne write_sorted [OF es(2) ne es(1)] parse_elements [OF es(1)]
        by (auto simp: safe_to_refl qsort_sort intro!: safe_to_buffer)
          (auto simp: safe_buffer_def buffer_wf_def cbb_wf_def)
    qed (use Some wf in \<open>simp add: safe_to_refl\<close>)
  qed (use wf in \<open>simp add: safe_to_refl\<close>)
qed

section \<open>Sequences of calls\<close>

text \<open>
  The calls of the interface on the CBB at depth \<open>d\<close>; the numeric calls are grouped by
  the widths the code has. A \<open>size_t\<close> argument is below \<open>size_mod\<close>.
\<close>

datatype cbb_call =
    Flush nat | Finish bool
  | Add_length_prefixed nat nat | Add_asn1 nat u32
  | Add_bytes nat bytes | Add_zeros nat nat | Add_space nat nat
  | Reserve nat nat | Did_write nat bytes
  | Add_u nat u64 nat | Discard_child nat
  | Add_asn1_uint64 nat u64 u32 | Add_asn1_int64 nat u64 u32
  | Add_asn1_octet_string nat bytes | Add_asn1_bool nat int
  | Add_asn1_oid_from_text nat bytes | Flush_asn1_set_of nat

fun call_ok :: "cbb_call \<Rightarrow> bool" where
  "call_ok (Add_length_prefixed d ll) = (ll \<le> 3)"
| "call_ok (Add_bytes d xs) = (length xs < size_mod)"
| "call_ok (Add_zeros d n) = (n < size_mod)"
| "call_ok (Add_space d n) = (n < size_mod)"
| "call_ok (Did_write d xs) = (length xs < size_mod)"
| "call_ok (Add_u d v n) = (n \<le> 8)"
| "call_ok (Add_asn1_octet_string d xs) = (length xs < size_mod)"
| "call_ok _ = True"

fun cbb_exec :: "(nat \<Rightarrow> bool) \<Rightarrow> cbb_call \<Rightarrow> cbb_op" where
  "cbb_exec A (Flush d) = CBB_flush A d"
| "cbb_exec A (Finish out_null) = (\<lambda>st. case CBB_finish A out_null st of (r, st') \<Rightarrow> (r \<noteq> None, st'))"
| "cbb_exec A (Add_length_prefixed d ll) = cbb_add_length_prefixed A d ll"
| "cbb_exec A (Add_asn1 d t) = CBB_add_asn1 A d t"
| "cbb_exec A (Add_bytes d xs) = CBB_add_bytes A d xs"
| "cbb_exec A (Add_zeros d n) = CBB_add_zeros A d n"
| "cbb_exec A (Add_space d n) = CBB_add_space A d n"
| "cbb_exec A (Reserve d n) = CBB_reserve A d n"
| "cbb_exec A (Did_write d xs) = CBB_did_write d xs"
| "cbb_exec A (Add_u d v n) = cbb_add_u A d v n"
| "cbb_exec A (Discard_child d) = (\<lambda>st. (True, CBB_discard_child d st))"
| "cbb_exec A (Add_asn1_uint64 d v t) = CBB_add_asn1_uint64_with_tag A d v t"
| "cbb_exec A (Add_asn1_int64 d v t) = CBB_add_asn1_int64_with_tag A d v t"
| "cbb_exec A (Add_asn1_octet_string d xs) = CBB_add_asn1_octet_string A d xs"
| "cbb_exec A (Add_asn1_bool d v) = CBB_add_asn1_bool A d v"
| "cbb_exec A (Add_asn1_oid_from_text d text) = CBB_add_asn1_oid_from_text A d text"
| "cbb_exec A (Flush_asn1_set_of d) = CBB_flush_asn1_set_of A d"

inductive cbb_reach :: "(nat \<Rightarrow> bool) \<Rightarrow> cbb \<Rightarrow> cbb \<Rightarrow> bool" for A st0 where
  start: "cbb_reach A st0 st0"
| call: "cbb_reach A st0 st \<Longrightarrow> call_ok c \<Longrightarrow> cbb_reach A st0 (snd (cbb_exec A c st))"

text \<open>A given list of calls, one after the other.\<close>

fun cbb_run :: "(nat \<Rightarrow> bool) \<Rightarrow> cbb_call list \<Rightarrow> cbb \<Rightarrow> cbb" where
  "cbb_run A [] st = st"
| "cbb_run A (c # cs) st = cbb_run A cs (snd (cbb_exec A c st))"

lemma cbb_run_reach:
  assumes "list_all call_ok cs"
  shows "cbb_reach A st (cbb_run A cs st)"
proof -
  have "cbb_reach A st0 st' \<Longrightarrow> cbb_reach A st0 (cbb_run A cs st')" for st0 st'
    using assms by (induction cs arbitrary: st') (auto intro: cbb_reach.call)
  then show ?thesis using cbb_reach.start by blast
qed

lemma safe_exec:
  assumes "call_ok c"
  shows "safe_op A (cbb_exec A c)"
proof (cases c)
  case (Finish out_null)
  have "snd (cbb_exec A c st) = snd (CBB_flush A 0 st)" for st
    by (auto simp: Finish CBB_finish_def split: prod.splits bool.splits)
  then show ?thesis using safe_flush [of A 0] by (simp add: safe_op_def)
next
  case (Add_length_prefixed d ll)
  then have "ll < size_mod" using assms by (simp add: size_mod_def)
  then show ?thesis
    unfolding Add_length_prefixed cbb_exec.simps cbb_add_length_prefixed_def
    by (intro safe_op_seq safe_flush safe_add_child) simp_all
next
  case (Add_u d v n)
  then have "n < size_mod" using assms by (simp add: size_mod_def)
  then show ?thesis by (simp add: Add_u safe_add_u)
next
  case (Discard_child d)
  then show ?thesis by (simp add: safe_op_def safe_discard_child)
qed (use assms in \<open>simp_all add: safe_flush safe_add_asn1 safe_add_bytes safe_add_zeros safe_add_space
  safe_reserve_op safe_did_write safe_uint64_with_tag safe_int64_with_tag safe_octet_string safe_bool
  safe_oid_from_text safe_flush_asn1_set_of\<close>)

lemma reach_safe:
  assumes "cbb_reach A st0 st" and "cbb_wf st0"
  shows "safe_to A st0 st"
  using assms(1)
proof induction
  case start
  show ?case using assms(2) by (rule safe_to_refl)
next
  case (call st c)
  then have "safe_to A st (snd (cbb_exec A c st))"
    by (intro safe_opD safe_exec safe_to_wf)
  with call.IH show ?case by (rule safe_to_trans)
qed

lemma wf_init_fixed: "n < size_mod \<Longrightarrow> cbb_wf (snd (CBB_init_fixed n))"
  using init_fixed_ready [of n "\<lambda>_. True"] by (simp add: cbb_ready_def)


section \<open>Properties\<close>

text \<open>
  C3: Memory safety of a fixed buffer. After any sequence of calls on any open CBB,
  failing ones included, the buffer's capacity is the one given to \<open>CBB_init_fixed\<close>, its
  length stays within it, and every open child's prefix lies inside the contents.
\<close>

theorem fixed_buffer_safe:
  assumes "n < size_mod" and "cbb_reach A (snd (CBB_init_fixed n)) st"
  shows "cap (base st) = n \<and> length (buf (base st)) \<le> n \<and>
    chain_wf (length (buf (base st))) (children st)"
proof -
  have "safe_to A (snd (CBB_init_fixed n)) st"
    using assms by (intro reach_safe wf_init_fixed)
  then show ?thesis
    by (auto simp: safe_to_def CBB_init_fixed_def cbb_init_def cbb_wf_def buffer_wf_def)
qed

lemma fixed_buffer_safe_witness:
  "let st = cbb_run (\<lambda>_. True) [Add_asn1 0 0x20000010, Add_bytes 1 [1, 2, 3]] (snd (CBB_init_fixed 4))
   in cap (base st) = 4 \<and> length (buf (base st)) \<le> 4 \<and> chain_wf (length (buf (base st))) (children st)"
  unfolding Let_def
  by (rule fixed_buffer_safe [OF _ cbb_run_reach]) (simp_all add: size_mod_def)



text \<open>
  C21: A growing buffer. Whatever is called, its capacity stays below the range of
  \<open>size_t\<close>, its length within the capacity, and each capacity it ever has is the
  initial one or one the allocator granted.
\<close>

theorem growing_buffer_safe:
  assumes "n < size_mod" and "CBB_init A n = (True, st0)" and "cbb_reach A st0 st"
  shows "length (buf (base st)) \<le> cap (base st) \<and> cap (base st) < size_mod \<and>
    (cap (base st) = n \<or> A (cap (base st)))"
proof -
  have "cbb_wf st0" "cap (base st0) = n"
    using assms(1,2) by (auto simp: CBB_init_def cbb_init_def cbb_wf_def buffer_wf_def split: if_splits)
  then show ?thesis
    using reach_safe [OF assms(3)] by (auto simp: safe_to_def cbb_wf_def buffer_wf_def)
qed

lemma growing_buffer_safe_witness:
  "let st = cbb_run (\<lambda>m. m \<le> 8) [Add_bytes 0 [1, 2, 3], Reserve 0 20] (snd (CBB_init (\<lambda>m. m \<le> 8) 2))
   in length (buf (base st)) \<le> cap (base st) \<and> cap (base st) < size_mod \<and>
      (cap (base st) = 2 \<or> cap (base st) \<le> 8)"
proof -
  have "(2 :: nat) < size_mod" by (simp add: size_mod_def)
  moreover have "CBB_init (\<lambda>m. m \<le> 8) 2 = (True, snd (CBB_init (\<lambda>m. m \<le> 8) 2))"
    by (simp add: CBB_init_def)
  ultimately show ?thesis
    unfolding Let_def by (rule growing_buffer_safe [OF _ _ cbb_run_reach]) (simp add: size_mod_def)
qed

end
