(* ===== verification/Unicode.thy ===== *)
theory Unicode
  imports Asn1_Values
begin

text \<open>
  The text encodings of \<open>crypto/bytestring/unicode.c\<close>: UTF-8, Latin-1, UCS-2 and UTF-32.
  Each reader is shown to accept exactly what the writer of the same encoding produces, so
  overlong forms, surrogates, noncharacters and values past U+10FFFF are all rejected.
\<close>

section \<open>Operations\<close>

definition is_valid_code_point :: "u32 \<Rightarrow> bool" where
  "is_valid_code_point v =
     (if 0x10ffff < v \<or> v AND 0xfffe = 0xfffe \<or> (0xfdd0 \<le> v \<and> v \<le> 0xfdef) \<or>
         (0xd800 \<le> v \<and> v \<le> 0xdfff)
      then False else True)"

definition BOTTOM_BITS :: "nat \<Rightarrow> u8" where
  "BOTTOM_BITS n = push_bit n 1 - 1"

definition TOP_BITS :: "nat \<Rightarrow> u8" where
  "TOP_BITS n = NOT (BOTTOM_BITS (8 - n))"

text \<open>The loop over the continuation bytes.\<close>

fun utf8_loop :: "nat \<Rightarrow> u32 \<Rightarrow> u32 rd" where
  "utf8_loop 0 v = rd_return v"
| "utf8_loop (Suc len) v =
     rd_bind CBS_get_u8 (\<lambda>c.
       if c AND TOP_BITS 2 \<noteq> TOP_BITS 1 then rd_fail
       else utf8_loop len (push_bit 6 v OR ucast (c AND BOTTOM_BITS 6)))"

definition CBS_get_utf8 :: "u32 rd" where
  "CBS_get_utf8 =
     rd_bind CBS_get_u8 (\<lambda>c.
       if c \<le> 0x7f then rd_return (ucast c)
       else case (if c AND TOP_BITS 3 = TOP_BITS 2 then Some (ucast (c AND BOTTOM_BITS 5), 1, 0x80)
                  else if c AND TOP_BITS 4 = TOP_BITS 3 then Some (ucast (c AND BOTTOM_BITS 4), 2, 0x800)
                  else if c AND TOP_BITS 5 = TOP_BITS 4 then Some (ucast (c AND BOTTOM_BITS 3), 3, 0x10000)
                  else None) of
              None \<Rightarrow> rd_fail
            | Some (v, len, lower_bound) \<Rightarrow>
                rd_bind (utf8_loop len v) (\<lambda>v.
                  if \<not> is_valid_code_point v \<or> v < lower_bound then rd_fail else rd_return v))"

definition CBS_get_latin1 :: "u32 rd" where
  "CBS_get_latin1 = rd_bind CBS_get_u8 (\<lambda>c. rd_return (ucast c))"

definition CBS_get_ucs2_be :: "u32 rd" where
  "CBS_get_ucs2_be =
     rd_bind CBS_get_u16 (\<lambda>c. if \<not> is_valid_code_point (ucast c) then rd_fail else rd_return (ucast c))"

definition CBS_get_utf32_be :: "u32 rd" where
  "CBS_get_utf32_be =
     rd_bind CBS_get_u32 (\<lambda>v. if is_valid_code_point v then rd_return v else rd_fail)"

definition CBB_get_utf8_len :: "u32 \<Rightarrow> nat" where
  "CBB_get_utf8_len u = (if u \<le> 0x7f then 1 else if u \<le> 0x7ff then 2 else if u \<le> 0xffff then 3 else 4)"

definition CBB_add_utf8 :: "(nat \<Rightarrow> bool) \<Rightarrow> nat \<Rightarrow> u32 \<Rightarrow> cbb_op" where
  "CBB_add_utf8 can_alloc d u =
     (let add = (\<lambda>w :: u32. CBB_add_u8 can_alloc d (ucast w));
          top = (\<lambda>n. ucast (TOP_BITS n) :: u32);
          bottom6 = (ucast (BOTTOM_BITS 6) :: u32)
      in if \<not> is_valid_code_point u then (\<lambda>st. (False, st))
         else if u \<le> 0x7f then add u
         else if u \<le> 0x7ff then
           cbb_seq (add (top 2 OR drop_bit 6 u)) (add (top 1 OR (u AND bottom6)))
         else if u \<le> 0xffff then
           cbb_seq (add (top 3 OR drop_bit 12 u))
             (cbb_seq (add (top 1 OR (drop_bit 6 u AND bottom6))) (add (top 1 OR (u AND bottom6))))
         else if u \<le> 0x10ffff then
           cbb_seq (add (top 4 OR drop_bit 18 u))
             (cbb_seq (add (top 1 OR (drop_bit 12 u AND bottom6)))
               (cbb_seq (add (top 1 OR (drop_bit 6 u AND bottom6))) (add (top 1 OR (u AND bottom6)))))
         else (\<lambda>st. (False, st)))"

definition CBB_add_latin1 :: "(nat \<Rightarrow> bool) \<Rightarrow> nat \<Rightarrow> u32 \<Rightarrow> cbb_op" where
  "CBB_add_latin1 can_alloc d u =
     (if u \<le> 0xff then CBB_add_u8 can_alloc d (ucast u) else (\<lambda>st. (False, st)))"

definition CBB_add_ucs2_be :: "(nat \<Rightarrow> bool) \<Rightarrow> nat \<Rightarrow> u32 \<Rightarrow> cbb_op" where
  "CBB_add_ucs2_be can_alloc d u =
     (if u \<le> 0xffff \<and> is_valid_code_point u then CBB_add_u16 can_alloc d (ucast u)
      else (\<lambda>st. (False, st)))"

definition CBB_add_utf32_be :: "(nat \<Rightarrow> bool) \<Rightarrow> nat \<Rightarrow> u32 \<Rightarrow> cbb_op" where
  "CBB_add_utf32_be can_alloc d u =
     (if is_valid_code_point u then CBB_add_u32 can_alloc d u else (\<lambda>st. (False, st)))"

section \<open>UTF-8 in numbers\<close>

text \<open>The encoding of a scalar value: lead byte and continuation bytes.\<close>

fun utf8_tail :: "nat \<Rightarrow> nat \<Rightarrow> bytes" where
  "utf8_tail 0 n = []"
| "utf8_tail (Suc k) n = word_of_nat (128 + n div 64 ^ k mod 64) # utf8_tail k n"

definition utf8_bytes :: "nat \<Rightarrow> bytes" where
  "utf8_bytes n =
     (if n < 0x80 then [word_of_nat n]
      else if n < 0x800 then word_of_nat (192 + n div 64) # utf8_tail 1 n
      else if n < 0x10000 then word_of_nat (224 + n div 64 ^ 2) # utf8_tail 2 n
      else word_of_nat (240 + n div 64 ^ 3) # utf8_tail 3 n)"

lemma bits_values:
  "TOP_BITS 1 = 0x80" "TOP_BITS 2 = 0xc0" "TOP_BITS 3 = 0xe0" "TOP_BITS 4 = 0xf0" "TOP_BITS 5 = 0xf8"
  "BOTTOM_BITS 3 = 7" "BOTTOM_BITS 4 = 0xf" "BOTTOM_BITS 5 = 0x1f" "BOTTOM_BITS 6 = 0x3f"
  by (simp_all add: TOP_BITS_def BOTTOM_BITS_def)

lemma unat_top_bits: "unat (c AND NOT (mask k)) = unat c div 2 ^ k * 2 ^ k" for c :: u8
proof -
  have "c AND NOT (mask k) = push_bit k (drop_bit k c)"
    by (rule bit_word_eqI) (auto simp: bit_simps)
  then have "unat (c AND NOT (mask k)) = take_bit 8 (push_bit k (unat (drop_bit k c)))"
    using unsigned_push_bit_eq [of k "drop_bit k c", where ?'a = nat] by simp
  also have "\<dots> = take_bit 8 (unat c div 2 ^ k * 2 ^ k)"
    by (metis unat_drop_bit_eq drop_bit_eq_div push_bit_eq_mult)
  also have "\<dots> = unat c div 2 ^ k * 2 ^ k"
  proof -
    have "unat c div 2 ^ k * 2 ^ k \<le> unat c" by simp
    also have "unat c < 2 ^ 8" using unat_u8_less [of c] by (simp del: unat_u8_less)
    finally have "unat c div 2 ^ k * 2 ^ k < 2 ^ 8" .
    then show ?thesis by (simp only: take_bit_nat_eq_self)
  qed
  finally show ?thesis .
qed

lemma top_bits_eq_iff:
  "TOP_BITS n = NOT (mask (8 - n))"
  by (simp add: TOP_BITS_def BOTTOM_BITS_def mask_eq_exp_minus_1 push_bit_eq_mult)

lemma class_iff:
  fixes c :: u8
  shows "c AND TOP_BITS 2 = TOP_BITS 1 \<longleftrightarrow> unat c div 64 = 2"
    and "c AND TOP_BITS 3 = TOP_BITS 2 \<longleftrightarrow> unat c div 32 = 6"
    and "c AND TOP_BITS 4 = TOP_BITS 3 \<longleftrightarrow> unat c div 16 = 14"
    and "c AND TOP_BITS 5 = TOP_BITS 4 \<longleftrightarrow> unat c div 8 = 30"
proof -
  have iff: "c AND TOP_BITS n = w \<longleftrightarrow> unat c div 2 ^ (8 - n) * 2 ^ (8 - n) = unat w" for n and w :: u8
    unfolding top_bits_eq_iff unat_top_bits [symmetric] by (metis unsigned_word_eqI)
  show "c AND TOP_BITS 2 = TOP_BITS 1 \<longleftrightarrow> unat c div 64 = 2"
    using iff [of 2 "0x80"] unfolding bits_values(1) by simp
  show "c AND TOP_BITS 3 = TOP_BITS 2 \<longleftrightarrow> unat c div 32 = 6"
    using iff [of 3 "0xc0"] unfolding bits_values(2) by simp
  show "c AND TOP_BITS 4 = TOP_BITS 3 \<longleftrightarrow> unat c div 16 = 14"
    using iff [of 4 "0xe0"] unfolding bits_values(3) by simp
  show "c AND TOP_BITS 5 = TOP_BITS 4 \<longleftrightarrow> unat c div 8 = 30"
    using iff [of 5 "0xf0"] unfolding bits_values(4) by simp
qed

lemma bottom_bits_nat:
  fixes c :: u8
  shows "unat (c AND BOTTOM_BITS 3) = unat c mod 8" "unat (c AND BOTTOM_BITS 4) = unat c mod 16"
    "unat (c AND BOTTOM_BITS 5) = unat c mod 32" "unat (c AND BOTTOM_BITS 6) = unat c mod 64"
proof -
  have "BOTTOM_BITS n = mask n" for n
    by (simp add: BOTTOM_BITS_def mask_eq_exp_minus_1 push_bit_eq_mult)
  then show "unat (c AND BOTTOM_BITS 3) = unat c mod 8" "unat (c AND BOTTOM_BITS 4) = unat c mod 16"
    "unat (c AND BOTTOM_BITS 5) = unat c mod 32" "unat (c AND BOTTOM_BITS 6) = unat c mod 64"
    by (simp_all add: unat_and_mask)
qed

text \<open>What the continuation loop accepts: exactly the tail of the number it returns.\<close>

lemma utf8_loop_eq_Some:
  assumes "(unat v + 1) * 64 ^ k \<le> 2 ^ 32"
  shows "utf8_loop k v s = (Some w, r) \<longleftrightarrow>
    unat w div 64 ^ k = unat v \<and> s = utf8_tail k (unat w) @ r"
  using assms
proof (induction k arbitrary: v s)
  case 0
  then show ?case using unsigned_word_eqI [of v w, where ?'a = nat] by auto
next
  case (Suc k)
  have v26: "unat v < 2 ^ 26"
  proof -
    have "(unat v + 1) * 64 \<le> (unat v + 1) * 64 ^ Suc k" by (intro mult_le_mono2) simp
    with Suc.prems show ?thesis by simp
  qed
  have step: "unat (push_bit 6 v OR ucast (c AND BOTTOM_BITS 6)) = unat v * 64 + unat c mod 64" for c :: u8
    using push_or_nat [of v 26 6 "ucast (c AND BOTTOM_BITS 6)"] v26 by (simp add: bottom_bits_nat)
  have IH: "utf8_loop k (push_bit 6 v OR ucast (c AND BOTTOM_BITS 6)) s' = (Some w, r) \<longleftrightarrow>
      unat w div 64 ^ k = unat v * 64 + unat c mod 64 \<and> s' = utf8_tail k (unat w) @ r" for c s'
  proof -
    have "(unat v * 64 + unat c mod 64 + 1) * 64 ^ k \<le> ((unat v + 1) * 64) * 64 ^ k"
      using mod_less_divisor [of 64 "unat c"] by (intro mult_le_mono1) simp
    also have "\<dots> \<le> 2 ^ 32" using Suc.prems by (simp add: algebra_simps)
    finally show ?thesis
      using Suc.IH [of "push_bit 6 v OR ucast (c AND BOTTOM_BITS 6)" s'] unfolding step by simp
  qed
  have "utf8_loop (Suc k) v s = (Some w, r) \<longleftrightarrow>
    (\<exists>c s'. s = c # s' \<and> unat c div 64 = 2 \<and> unat w div 64 ^ k = unat v * 64 + unat c mod 64 \<and>
       s' = utf8_tail k (unat w) @ r)"
    by (auto simp: rd_bind_eq_Some CBS_get_u8_eq_Some class_iff IH simp del: One_nat_def split: if_splits)
  also have "\<dots> \<longleftrightarrow> unat w div 64 ^ Suc k = unat v \<and> s = utf8_tail (Suc k) (unat w) @ r"
    (is "?read \<longleftrightarrow> ?enc")
  proof
    assume ?read
    then obtain c where s: "s = c # utf8_tail k (unat w) @ r" and c: "unat c div 64 = 2"
      and w: "unat w div 64 ^ k = unat v * 64 + unat c mod 64" by blast
    have "unat w div 64 ^ Suc k = unat v"
      using w by (simp add: div_mult2_eq mult.commute [of 64])
    moreover have "unat c = 128 + unat c mod 64"
      using c div_mult_mod_eq [of "unat c" 64] by simp
    then have "128 + unat w div 64 ^ k mod 64 = unat c"
      unfolding w by simp
    then have "word_of_nat (128 + unat w div 64 ^ k mod 64) = c"
      by (simp only: word_of_nat_unat_id)
    ultimately show ?enc using s by simp
  next
    assume enc: ?enc
    define c :: u8 where "c = word_of_nat (128 + unat w div 64 ^ k mod 64)"
    have c: "unat c = 128 + unat w div 64 ^ k mod 64"
      unfolding c_def by (intro unat_word_of_nat_less) (simp add: less_trans [OF mod_less_divisor])
    have "unat w div 64 ^ k div 64 = unat v"
      using enc by (simp add: div_mult2_eq mult.commute [of 64])
    then have "unat w div 64 ^ k = unat v * 64 + unat w div 64 ^ k mod 64"
      by (metis div_mult_mod_eq)
    moreover have "unat c div 64 = 2" "unat c mod 64 = unat w div 64 ^ k mod 64"
    proof -
      define m where "m = unat w div 64 ^ k mod 64"
      have "m < 64" by (simp add: m_def)
      moreover from this have "(128 + m) div 64 = 2" by (intro div_nat_eqI) simp_all
      moreover have "(128 + m) mod 64 = m"
        using \<open>m < 64\<close> by (intro mod_nat_eqI) simp_all
      ultimately show "unat c div 64 = 2" "unat c mod 64 = unat w div 64 ^ k mod 64"
        unfolding c m_def [symmetric] by simp_all
    qed
    moreover have "s = c # utf8_tail k (unat w) @ r" using enc by (simp add: c_def)
    ultimately show ?read by metis
  qed
  finally show ?case .
qed

section \<open>Scalar values\<close>

definition scalar_value :: "nat \<Rightarrow> bool" where
  "scalar_value n =
     (n \<le> 0x10ffff \<and> n mod 0x10000 < 0xfffe \<and> \<not> (0xfdd0 \<le> n \<and> n \<le> 0xfdef) \<and>
      \<not> (0xd800 \<le> n \<and> n \<le> 0xdfff))"

lemma is_valid_code_point_iff: "is_valid_code_point v \<longleftrightarrow> scalar_value (unat v)"
proof -
  have m: "(0xfffe :: u32) = push_bit 1 (mask 15)" by (simp add: mask_eq_exp_minus_1)
  have "v AND 0xfffe = push_bit 1 (drop_bit 1 v AND mask 15)"
  proof -
    have "v AND push_bit n (mask 15) = push_bit n (drop_bit n v AND mask 15)" for n
      by (rule bit_word_eqI) (auto simp: bit_simps)
    then show ?thesis unfolding m by blast
  qed
  moreover have "unat (push_bit 1 (drop_bit 1 v AND mask 15)) = unat v div 2 mod 2 ^ 15 * 2"
  proof -
    have "unat (drop_bit 1 v AND mask 15) = unat v div 2 mod 2 ^ 15"
      unfolding unat_and_mask by (metis unat_drop_bit_eq drop_bit_eq_div power_one_right)
    moreover have "unat v div 2 mod 2 ^ 15 * 2 < 2 ^ 32"
      using mod_less_divisor [of "2 ^ 15" "unat v div 2"] by simp
    moreover have "unat (push_bit 1 (drop_bit 1 v AND mask 15)) =
        take_bit 32 (push_bit 1 (unat (drop_bit 1 v AND mask 15)))"
      by (simp only: unsigned_push_bit_eq) simp
    ultimately show ?thesis by (simp only: push_bit_eq_mult take_bit_nat_eq_self power_one_right)
  qed
  ultimately have "unat (v AND 0xfffe) = unat v div 2 mod 2 ^ 15 * 2" by simp
  then have "v AND 0xfffe = 0xfffe \<longleftrightarrow> unat v div 2 mod 2 ^ 15 * 2 = 0xfffe"
    using unsigned_word_eqI [of "v AND 0xfffe" "0xfffe", where ?'a = nat] by auto
  also have "\<dots> \<longleftrightarrow> \<not> unat v mod 0x10000 < 0xfffe"
  proof -
    define q where "q = unat v div 2 mod 2 ^ 15"
    have "unat v mod (2 * 2 ^ 15) = 2 * q + unat v mod 2"
      unfolding q_def by (rule mod_mult2_eq)
    then have "unat v mod 0x10000 = 2 * q + unat v mod 2" by simp
    moreover have "q < 2 ^ 15" "unat v mod 2 < 2" by (simp_all add: q_def)
    ultimately show ?thesis unfolding q_def [symmetric] by auto
  qed
  finally show ?thesis
    by (auto simp: is_valid_code_point_def scalar_value_def word_less_nat_alt word_le_nat_alt)
qed

lemma scalar_value_less: "scalar_value n \<Longrightarrow> n < 2 ^ 21"
  by (simp add: scalar_value_def)

lemma lead_byte: "v < 256 \<Longrightarrow> word_of_nat v = (c :: u8) \<longleftrightarrow> unat c = v"
  using unat_word_of_nat_less [of v, where ?'a = 8] word_of_nat_unat_id [of c] by auto

text \<open>The first byte of an encoding and the rest.\<close>

lemma utf8_bytes_Cons:
  assumes "scalar_value n"
  shows "utf8_bytes n = c # t \<longleftrightarrow>
    (n < 0x80 \<and> unat c = n \<and> t = []) \<or>
    (0x80 \<le> n \<and> n div 64 < 32 \<and> unat c = 192 + n div 64 \<and> t = utf8_tail 1 n) \<or>
    (0x800 \<le> n \<and> n div 64 ^ 2 < 16 \<and> unat c = 224 + n div 64 ^ 2 \<and> t = utf8_tail 2 n) \<or>
    (0x10000 \<le> n \<and> unat c = 240 + n div 64 ^ 3 \<and> t = utf8_tail 3 n)"
proof -
  have n: "n < 0x110000" using assms by (simp add: scalar_value_def)
  have d: "n div 64 < 32 \<longleftrightarrow> n < 0x800" "n div 64 ^ 2 < 16 \<longleftrightarrow> n < 0x10000" "n div 64 ^ 3 < 5"
    using n by (simp_all add: div_less_iff_less_mult)
  consider "n < 0x80" | "0x80 \<le> n" "n < 0x800" | "0x800 \<le> n" "n < 0x10000" | "0x10000 \<le> n"
    by linarith
  then show ?thesis
  proof cases
    case 1
    with lead_byte [of n c] show ?thesis by (auto simp: utf8_bytes_def)
  next
    case 2
    with lead_byte [of "192 + n div 64" c] d show ?thesis
      unfolding utf8_bytes_def d by (auto simp del: of_nat_add)
  next
    case 3
    with lead_byte [of "224 + n div 64 ^ 2" c] d show ?thesis
      unfolding utf8_bytes_def d by (auto simp del: of_nat_add)
  next
    case 4
    with lead_byte [of "240 + n div 64 ^ 3" c] d show ?thesis
      unfolding utf8_bytes_def d by (auto simp del: of_nat_add)
  qed
qed

lemma CBS_get_utf8_Cons:
  "CBS_get_utf8 (c # s) =
     (let x = unat c
      in if x < 128 then (Some (ucast c), s)
         else if x div 32 = 6 then
           rd_bind (utf8_loop 1 (ucast (c AND BOTTOM_BITS 5)))
             (\<lambda>v. if \<not> is_valid_code_point v \<or> v < 0x80 then rd_fail else rd_return v) s
         else if x div 16 = 14 then
           rd_bind (utf8_loop 2 (ucast (c AND BOTTOM_BITS 4)))
             (\<lambda>v. if \<not> is_valid_code_point v \<or> v < 0x800 then rd_fail else rd_return v) s
         else if x div 8 = 30 then
           rd_bind (utf8_loop 3 (ucast (c AND BOTTOM_BITS 3)))
             (\<lambda>v. if \<not> is_valid_code_point v \<or> v < 0x10000 then rd_fail else rd_return v) s
         else (None, s))"
proof -
  have "c \<le> 0x7f \<longleftrightarrow> unat c < 128" by (simp add: word_le_nat_alt) linarith
  then show ?thesis
    unfolding CBS_get_utf8_def rd_bind_Some [where m = CBS_get_u8 and s = "c # s", OF CBS_get_u8_simps(2)]
      class_iff Let_def by simp
qed

text \<open>One multi-byte form: the lead byte carries \<open>n div 64 ^ k\<close> above its class bits.\<close>

lemma utf8_form:
  fixes c B :: u8
  assumes k: "k \<le> 3" and x: "unat (c AND B) = unat c mod m" and m: "m * 64 ^ k \<le> 2 ^ 32" "0 < m"
  shows "rd_bind (utf8_loop k (ucast (c AND B)))
      (\<lambda>v. if \<not> is_valid_code_point v \<or> v < lo then rd_fail else rd_return v) s = (Some w, r) \<longleftrightarrow>
    unat w div 64 ^ k = unat c mod m \<and> s = utf8_tail k (unat w) @ r \<and>
    scalar_value (unat w) \<and> unat lo \<le> unat w"
proof -
  have "(unat (ucast (c AND B) :: u32) + 1) * 64 ^ k \<le> m * 64 ^ k"
    using x mod_less_divisor [OF m(2), of "unat c"] by (intro mult_le_mono1) simp
  then have "(unat (ucast (c AND B) :: u32) + 1) * 64 ^ k \<le> 2 ^ 32"
    using m(1) by linarith
  from utf8_loop_eq_Some [OF this] x show ?thesis
    by (auto simp: rd_bind_eq_Some is_valid_code_point_iff word_less_nat_alt not_less split: if_splits)
qed

lemma utf8_class:
  fixes x :: nat
  shows "x div 32 = 6 \<longleftrightarrow> 192 \<le> x \<and> x < 224" "x div 16 = 14 \<longleftrightarrow> 224 \<le> x \<and> x < 240"
    "x div 8 = 30 \<longleftrightarrow> 240 \<le> x \<and> x < 248"
    "192 \<le> x \<and> x < 224 \<Longrightarrow> x mod 32 = x - 192" "224 \<le> x \<and> x < 240 \<Longrightarrow> x mod 16 = x - 224"
    "240 \<le> x \<and> x < 248 \<Longrightarrow> x mod 8 = x - 240"
proof -
  have "x = 32 * (x div 32) + x mod 32" "x = 16 * (x div 16) + x mod 16" "x = 8 * (x div 8) + x mod 8"
    "x mod 32 < 32" "x mod 16 < 16" "x mod 8 < 8" by simp_all
  then show *: "x div 32 = 6 \<longleftrightarrow> 192 \<le> x \<and> x < 224" "x div 16 = 14 \<longleftrightarrow> 224 \<le> x \<and> x < 240"
    "x div 8 = 30 \<longleftrightarrow> 240 \<le> x \<and> x < 248"
    by linarith+
  show "192 \<le> x \<and> x < 224 \<Longrightarrow> x mod 32 = x - 192" "224 \<le> x \<and> x < 240 \<Longrightarrow> x mod 16 = x - 224"
    "240 \<le> x \<and> x < 248 \<Longrightarrow> x mod 8 = x - 240"
    using * by (simp_all add: modulo_nat_def)
qed

text \<open>The lead byte decides the form; \<open>q1\<close>, \<open>q2\<close> and \<open>q3\<close> are its payloads.\<close>

lemma utf8_lead_arith:
  fixes x n q1 q2 q3 :: nat
  assumes x: "x < 256"
    and cls: "d32 = 6 \<longleftrightarrow> 192 \<le> x \<and> x < 224" "d16 = 14 \<longleftrightarrow> 224 \<le> x \<and> x < 240" "d8 = 30 \<longleftrightarrow> 240 \<le> x \<and> x < 248"
      "192 \<le> x \<and> x < 224 \<Longrightarrow> m32 = x - 192" "224 \<le> x \<and> x < 240 \<Longrightarrow> m16 = x - 224"
      "240 \<le> x \<and> x < 248 \<Longrightarrow> m8 = x - 240"
    and sc: "n < 128 \<Longrightarrow> S" "S \<Longrightarrow> q3 < 5"
  shows "(if x < 128 then n = x \<and> P
     else if d32 = (6 :: nat) then q1 = m32 \<and> T1 \<and> S \<and> 0x80 \<le> n
     else if d16 = (14 :: nat) then q2 = m16 \<and> T2 \<and> S \<and> 0x800 \<le> n
     else if d8 = (30 :: nat) then q3 = m8 \<and> T3 \<and> S \<and> 0x10000 \<le> n
     else False) \<longleftrightarrow>
    S \<and> ((n < 0x80 \<and> x = n \<and> P) \<or> (0x80 \<le> n \<and> q1 < 32 \<and> x = 192 + q1 \<and> T1) \<or>
      (0x800 \<le> n \<and> q2 < 16 \<and> x = 224 + q2 \<and> T2) \<or> (0x10000 \<le> n \<and> x = 240 + q3 \<and> T3))"
proof -
  consider "x < 128" | "128 \<le> x" "x < 192" | "192 \<le> x" "x < 224" | "224 \<le> x" "x < 240"
    | "240 \<le> x" "x < 248" | "248 \<le> x" by linarith
  then show ?thesis
  proof cases
    case 6
    with cls sc show ?thesis by auto
  qed (use cls sc in auto)
qed

lemma CBS_get_utf8_iff:
  "CBS_get_utf8 s = (Some w, r) \<longleftrightarrow> scalar_value (unat w) \<and> s = utf8_bytes (unat w) @ r"
proof (cases s)
  case Nil
  then show ?thesis by (auto simp: CBS_get_utf8_def rd_bind_def utf8_bytes_def)
next
  case (Cons c s')
  define n x where "n = unat w" and "x = unat c"
  have rhs: "scalar_value n \<and> s = utf8_bytes n @ r \<longleftrightarrow>
      scalar_value n \<and> (\<exists>t. utf8_bytes n = c # t \<and> s' = t @ r)"
    unfolding Cons by (cases "utf8_bytes n") (auto simp: utf8_bytes_def split: if_splits)
  have x256: "x < 256" unfolding x_def by (rule unat_u8_less)
  have q: "n div 64 ^ 3 < 5" if "scalar_value n"
    using that by (simp add: scalar_value_def div_less_iff_less_mult)
  have b: "unat (c AND BOTTOM_BITS 5) = x mod 32" "unat (c AND BOTTOM_BITS 4) = x mod 16"
    "unat (c AND BOTTOM_BITS 3) = x mod 8"
    by (simp_all add: bottom_bits_nat x_def)
  have p: "(1 :: nat) \<le> 3" "(2 :: nat) \<le> 3" "(3 :: nat) \<le> 3"
    "(32 :: nat) * 64 ^ 1 \<le> 2 ^ 32" "(16 :: nat) * 64 ^ 2 \<le> 2 ^ 32" "(8 :: nat) * 64 ^ 3 \<le> 2 ^ 32"
    "(0 :: nat) < 32" "(0 :: nat) < 16" "(0 :: nat) < 8" by simp_all
  have u: "unat (0x80 :: u32) = 0x80" "unat (0x800 :: u32) = 0x800" "unat (0x10000 :: u32) = 0x10000"
    by simp_all
  note form =
    utf8_form [of 1 c "BOTTOM_BITS 5" 32 "0x80" s' w r, folded x_def n_def, unfolded u, OF p(1) b(1) p(4) p(7)]
    utf8_form [of 2 c "BOTTOM_BITS 4" 16 "0x800" s' w r, folded x_def n_def, unfolded u, OF p(2) b(2) p(5) p(8)]
    utf8_form [of 3 c "BOTTOM_BITS 3" 8 "0x10000" s' w r, folded x_def n_def, unfolded u, OF p(3) b(3) p(6) p(9)]
  have F: "CBS_get_utf8 s = (Some w, r) \<longleftrightarrow>
    (if x < 128 then ucast c = w \<and> s' = r
     else if x div 32 = 6 then n div 64 = x mod 32 \<and> s' = utf8_tail 1 n @ r \<and> scalar_value n \<and> 0x80 \<le> n
     else if x div 16 = 14 then n div 64 ^ 2 = x mod 16 \<and> s' = utf8_tail 2 n @ r \<and> scalar_value n \<and> 0x800 \<le> n
     else if x div 8 = 30 then n div 64 ^ 3 = x mod 8 \<and> s' = utf8_tail 3 n @ r \<and> scalar_value n \<and> 0x10000 \<le> n
     else False)"
    unfolding Cons CBS_get_utf8_Cons Let_def x_def [symmetric]
    by (simp only: form if_distrib [of "\<lambda>p. p = (Some w, r)"] prod.inject option.inject option.distinct
        power_one_right simp_thms)
  have R: "scalar_value n \<and> s = utf8_bytes n @ r \<longleftrightarrow> scalar_value n \<and>
    ((n < 0x80 \<and> x = n \<and> s' = r) \<or>
     (0x80 \<le> n \<and> n div 64 < 32 \<and> x = 192 + n div 64 \<and> s' = utf8_tail 1 n @ r) \<or>
     (0x800 \<le> n \<and> n div 64 ^ 2 < 16 \<and> x = 224 + n div 64 ^ 2 \<and> s' = utf8_tail 2 n @ r) \<or>
     (0x10000 \<le> n \<and> x = 240 + n div 64 ^ 3 \<and> s' = utf8_tail 3 n @ r))"
  proof (cases "scalar_value n")
    case True
    show ?thesis unfolding rhs utf8_bytes_Cons [OF True] x_def [symmetric] by blast
  qed blast
  have w: "ucast c = w \<longleftrightarrow> n = x"
    unfolding n_def x_def by (metis unat_ucast_u8_u32 unsigned_word_eqI)
  have small: "n < 128 \<Longrightarrow> scalar_value n" by (simp add: scalar_value_def)
  show ?thesis
    unfolding n_def [symmetric] F R w
    using utf8_lead_arith [OF x256 utf8_class, of n "scalar_value n" "n div 64 ^ 3"] small q by blast
qed

section \<open>The writers\<close>

lemma top_or:
  fixes u :: u32
  shows "unat u < 64 \<Longrightarrow> (ucast (ucast (TOP_BITS 1) OR u) :: u8) = word_of_nat (128 + unat u)"
    and "unat u < 32 \<Longrightarrow> (ucast (ucast (TOP_BITS 2) OR u) :: u8) = word_of_nat (192 + unat u)"
    and "unat u < 16 \<Longrightarrow> (ucast (ucast (TOP_BITS 3) OR u) :: u8) = word_of_nat (224 + unat u)"
    and "unat u < 8 \<Longrightarrow> (ucast (ucast (TOP_BITS 4) OR u) :: u8) = word_of_nat (240 + unat u)"
proof -
  have or: "(ucast (ucast a OR u) :: u8) = a OR ucast u" for a :: u8
    by (rule bit_word_eqI) (auto simp: bit_simps)
  have low: "unat (ucast u :: u8) = unat u" if "unat u < 256"
    using that by (simp add: unsigned_ucast_eq take_bit_nat_eq_self)
  have top: "TOP_BITS 1 = push_bit 7 1" "TOP_BITS 2 = push_bit 6 3" "TOP_BITS 3 = push_bit 5 7"
    "TOP_BITS 4 = push_bit 4 15"
    unfolding bits_values by simp_all
  show "unat u < 64 \<Longrightarrow> (ucast (ucast (TOP_BITS 1) OR u) :: u8) = word_of_nat (128 + unat u)"
    unfolding or top using low push_or_nat_eq [of "1 :: u8" 1 "ucast u" "unat u" 1 7] by simp
  show "unat u < 32 \<Longrightarrow> (ucast (ucast (TOP_BITS 2) OR u) :: u8) = word_of_nat (192 + unat u)"
    unfolding or top using low push_or_nat_eq [of "3 :: u8" 3 "ucast u" "unat u" 2 6] by simp
  show "unat u < 16 \<Longrightarrow> (ucast (ucast (TOP_BITS 3) OR u) :: u8) = word_of_nat (224 + unat u)"
    unfolding or top using low push_or_nat_eq [of "7 :: u8" 7 "ucast u" "unat u" 3 5] by simp
  show "unat u < 8 \<Longrightarrow> (ucast (ucast (TOP_BITS 4) OR u) :: u8) = word_of_nat (240 + unat u)"
    unfolding or top using low push_or_nat_eq [of "15 :: u8" 15 "ucast u" "unat u" 4 4] by simp
qed

lemma payload:
  "unat (drop_bit k (u :: u32)) = unat u div 2 ^ k"
  "unat (u AND ucast (BOTTOM_BITS 6)) = unat u mod 64"
proof -
  show "unat (drop_bit k u) = unat u div 2 ^ k"
    by (metis unat_drop_bit_eq drop_bit_eq_div)
  have "(ucast (BOTTOM_BITS 6) :: u32) = mask 6"
    by (simp add: bits_values mask_eq_exp_minus_1)
  then show "unat (u AND ucast (BOTTOM_BITS 6)) = unat u mod 64"
    using unat_and_mask [of u 6] by simp
qed

lemma cont_byte:
  "(ucast (ucast (TOP_BITS 1) OR ((u :: u32) AND ucast (BOTTOM_BITS 6))) :: u8) =
     word_of_nat (128 + unat u mod 64)"
  using top_or(1) [of "u AND ucast (BOTTOM_BITS 6)"] unfolding payload by simp

lemma writes_utf8:
  assumes "scalar_value (unat u)"
  shows "writes A d (utf8_bytes (unat u)) (CBB_add_utf8 A d u)"
proof -
  define n where "n = unat u"
  have valid: "is_valid_code_point u" using assms by (simp add: is_valid_code_point_iff)
  have le: "u \<le> w \<longleftrightarrow> n < Suc (unat w)" for w
    by (simp add: word_le_nat_alt n_def less_Suc_eq_le)
  have "u \<le> 0x7f \<longleftrightarrow> n < 0x80" "u \<le> 0x7ff \<longleftrightarrow> n < 0x800" "u \<le> 0xffff \<longleftrightarrow> n < 0x10000"
    "u \<le> 0x10ffff \<longleftrightarrow> n < 0x110000"
    using le [of "0x7f"] le [of "0x7ff"] le [of "0xffff"] le [of "0x10ffff"] by simp_all
  note le = this
  have n: "n < 0x110000" using assms by (simp add: scalar_value_def n_def)
  have d: "n < 0x800 \<Longrightarrow> n div 64 < 32" "n < 0x10000 \<Longrightarrow> n div 64 ^ 2 < 16" "n div 64 ^ 3 < 8"
    using n by (simp_all add: div_less_iff_less_mult)
  have cont: "(ucast (ucast (TOP_BITS 1) OR (u AND ucast (BOTTOM_BITS 6))) :: u8) = word_of_nat (128 + n div 64 ^ 0 mod 64)"
    "(ucast (ucast (TOP_BITS 1) OR (drop_bit 6 u AND ucast (BOTTOM_BITS 6))) :: u8) = word_of_nat (128 + n div 64 ^ 1 mod 64)"
    "(ucast (ucast (TOP_BITS 1) OR (drop_bit 12 u AND ucast (BOTTOM_BITS 6))) :: u8) = word_of_nat (128 + n div 64 ^ 2 mod 64)"
    unfolding cont_byte payload n_def by simp_all
  have tails: "utf8_tail 1 n = [word_of_nat (128 + n div 64 ^ 0 mod 64)]"
    "utf8_tail 2 n = [word_of_nat (128 + n div 64 ^ 1 mod 64)] @ [word_of_nat (128 + n div 64 ^ 0 mod 64)]"
    "utf8_tail 3 n = [word_of_nat (128 + n div 64 ^ 2 mod 64)] @ [word_of_nat (128 + n div 64 ^ 1 mod 64)] @
       [word_of_nat (128 + n div 64 ^ 0 mod 64)]"
    by (simp_all only: numeral_2_eq_2 numeral_3_eq_3 One_nat_def utf8_tail.simps append.simps)
  have bytes: "unat (drop_bit 6 u) = n div 64" "unat (drop_bit 12 u) = n div 64 ^ 2" "unat (drop_bit 18 u) = n div 64 ^ 3"
    unfolding payload n_def by simp_all
  note unf = CBB_add_utf8_def [of A d u, unfolded Let_def cont le valid not_True_eq_False if_False]
  consider "n < 0x80" | "\<not> n < 0x80" "n < 0x800" | "\<not> n < 0x80" "\<not> n < 0x800" "n < 0x10000"
    | "\<not> n < 0x80" "\<not> n < 0x800" "\<not> n < 0x10000"
    by linarith
  then have "writes A d (utf8_bytes n) (CBB_add_utf8 A d u)"
  proof cases
    case 1
    then have "unat (ucast u :: u8) = n"
      by (simp add: unsigned_ucast_eq take_bit_nat_eq_self n_def)
    with 1 have "word_of_nat n = (ucast u :: u8)" by (subst lead_byte) simp_all
    then have "utf8_bytes n = [ucast u]" using 1 by (simp only: utf8_bytes_def if_True)
    with 1 writes_add_u8 [of A d "ucast u"] show ?thesis
      unfolding unf by (simp only: if_True if_False valid not_True_eq_False)
  next
    case 2
    have lead: "(ucast (ucast (TOP_BITS 2) OR drop_bit 6 u) :: u8) = word_of_nat (192 + n div 64)"
      using top_or(2) [of "drop_bit 6 u"] d(1) 2 bytes(1) by metis
    have "utf8_bytes n = [word_of_nat (192 + n div 64)] @ utf8_tail 1 n"
      using 2 by (simp add: utf8_bytes_def)
    with 2 show ?thesis
      unfolding unf lead tails by (simp only: if_False if_True valid not_True_eq_False not_less [symmetric] writes_seq writes_add_u8)
  next
    case 3
    have lead: "(ucast (ucast (TOP_BITS 3) OR drop_bit 12 u) :: u8) = word_of_nat (224 + n div 64 ^ 2)"
      using top_or(3) [of "drop_bit 12 u"] d(2) 3 bytes(2) by metis
    have "utf8_bytes n = [word_of_nat (224 + n div 64 ^ 2)] @ utf8_tail 2 n"
      using 3 by (simp add: utf8_bytes_def)
    with 3 show ?thesis
      unfolding unf lead tails by (simp only: if_False if_True valid not_True_eq_False not_less [symmetric] writes_seq writes_add_u8)
  next
    case 4
    have lead: "(ucast (ucast (TOP_BITS 4) OR drop_bit 18 u) :: u8) = word_of_nat (240 + n div 64 ^ 3)"
      using top_or(4) [of "drop_bit 18 u"] d(3) bytes(3) by metis
    have "utf8_bytes n = [word_of_nat (240 + n div 64 ^ 3)] @ utf8_tail 3 n"
      using 4 by (simp add: utf8_bytes_def)
    with 4 n show ?thesis
      unfolding unf lead tails by (simp only: if_False if_True valid not_True_eq_False not_less [symmetric] writes_seq writes_add_u8)
  qed
  then show ?thesis by (simp only: n_def)
qed

section \<open>The fixed-width encodings\<close>

lemma CBS_get_latin1_iff: "CBS_get_latin1 s = (Some w, r) \<longleftrightarrow> unat w < 256 \<and> s = word_of_nat (unat w) # r"
proof -
  have "unat (ucast w :: u8) = unat w" if "unat w < 256"
    using that by (simp add: unsigned_ucast_eq take_bit_nat_eq_self)
  then have w: "unat w < 256 \<Longrightarrow> ucast (ucast w :: u8) = w"
    by (intro unsigned_word_eqI [where ?'a = nat]) simp
  show ?thesis
    by (auto simp: CBS_get_latin1_def rd_bind_eq_Some CBS_get_u8_eq_Some word_of_nat_unat_id ucast_up_down w)
qed

lemma CBS_get_ucs2_be_iff:
  "CBS_get_ucs2_be s = (Some w, r) \<longleftrightarrow>
     unat w < 0x10000 \<and> scalar_value (unat w) \<and> s = be_bytes 2 (unat w) @ r"
proof -
  have up: "unat (ucast (c :: u16) :: u32) = unat c" for c by (rule unat_ucast_up) simp
  have down: "unat (ucast w :: u16) = unat w" if "unat w < 0x10000"
    using that by (simp add: unsigned_ucast_eq take_bit_nat_eq_self)
  have less: "unat (c :: u16) < 0x10000" for c
    using unsigned_less [of c, where ?'a = nat] by simp
  show ?thesis
  proof
    assume "CBS_get_ucs2_be s = (Some w, r)"
    then show "unat w < 0x10000 \<and> scalar_value (unat w) \<and> s = be_bytes 2 (unat w) @ r"
      using less up by (auto simp: CBS_get_ucs2_be_def rd_bind_eq_Some CBS_get_u16_eq_Some
          is_valid_code_point_iff split: if_splits)
  next
    assume w: "unat w < 0x10000 \<and> scalar_value (unat w) \<and> s = be_bytes 2 (unat w) @ r"
    then have "CBS_get_u16 s = (Some (ucast w), r)"
      using down by (simp add: CBS_get_u16_eq_Some)
    moreover have "ucast (ucast w :: u16) = w"
      using w up down by (intro unsigned_word_eqI [where ?'a = nat]) simp
    ultimately show "CBS_get_ucs2_be s = (Some w, r)"
      using w by (simp add: CBS_get_ucs2_be_def rd_bind_Some is_valid_code_point_iff)
  qed
qed

lemma CBS_get_utf32_be_iff:
  "CBS_get_utf32_be s = (Some w, r) \<longleftrightarrow> scalar_value (unat w) \<and> s = be_bytes 4 (unat w) @ r"
  by (auto simp: CBS_get_utf32_be_def rd_bind_eq_Some CBS_get_u32_eq_Some is_valid_code_point_iff
      split: if_splits)

interpretation utf8_codec:
  canonical_codec "\<lambda>w. utf8_bytes (unat w)" CBS_get_utf8 "\<lambda>w. scalar_value (unat w)"
  by unfold_locales (auto simp: CBS_get_utf8_iff)

interpretation latin1_codec:
  canonical_codec "\<lambda>w. [word_of_nat (unat w)]" CBS_get_latin1 "\<lambda>w. unat w < 256"
  by unfold_locales (auto simp: CBS_get_latin1_iff)

interpretation ucs2_codec:
  canonical_codec "\<lambda>w. be_bytes 2 (unat w)" CBS_get_ucs2_be "\<lambda>w. unat w < 0x10000 \<and> scalar_value (unat w)"
  by unfold_locales (auto simp: CBS_get_ucs2_be_iff)

interpretation utf32_codec:
  canonical_codec "\<lambda>w. be_bytes 4 (unat w)" CBS_get_utf32_be "\<lambda>w. scalar_value (unat w)"
  by unfold_locales (auto simp: CBS_get_utf32_be_iff)

lemma writes_latin1: "unat u < 256 \<Longrightarrow> writes A d [word_of_nat (unat u)] (CBB_add_latin1 A d u)"
proof -
  assume u: "unat u < 256"
  then have "u \<le> 0xff" by (simp add: word_le_nat_alt)
  moreover have "unat (ucast u :: u8) = unat u"
    using u by (simp add: unsigned_ucast_eq take_bit_nat_eq_self)
  then have "word_of_nat (unat u) = (ucast u :: u8)" by (metis word_of_nat_unat_id)
  ultimately show ?thesis using writes_add_u8 by (simp add: CBB_add_latin1_def)
qed

lemma writes_ucs2:
  "unat u < 0x10000 \<Longrightarrow> scalar_value (unat u) \<Longrightarrow> writes A d (be_bytes 2 (unat u)) (CBB_add_ucs2_be A d u)"
proof -
  assume u: "unat u < 0x10000" and s: "scalar_value (unat u)"
  have "u \<le> 0xffff" using u by (simp add: word_le_nat_alt)
  moreover have "unat (ucast u :: u16) = unat u"
    using u by (simp add: unsigned_ucast_eq take_bit_nat_eq_self)
  ultimately show ?thesis
    using s writes_add_u16 [of A d "ucast u"] by (simp add: CBB_add_ucs2_be_def is_valid_code_point_iff)
qed

lemma writes_utf32:
  "scalar_value (unat u) \<Longrightarrow> writes A d (be_bytes 4 (unat u)) (CBB_add_utf32_be A d u)"
  using writes_add_u32 by (simp add: CBB_add_utf32_be_def is_valid_code_point_iff)

section \<open>Texts\<close>

text \<open>Adding the characters of a text one after the other.\<close>

fun add_text :: "(u32 \<Rightarrow> cbb_op) \<Rightarrow> u32 list \<Rightarrow> cbb_op" where
  "add_text add [] = (\<lambda>st. (True, st))"
| "add_text add (u # us) = cbb_seq (add u) (add_text add us)"

lemma writes_text:
  "(\<And>u. u \<in> set us \<Longrightarrow> writes A d (enc u) (add u)) \<Longrightarrow> writes A d (concat (map enc us)) (add_text add us)"
  by (induction us) (simp_all add: writes_nothing writes_seq)

lemma length_utf8_bytes: "length (utf8_bytes (unat u)) = CBB_get_utf8_len u"
proof -
  have "u \<le> w \<longleftrightarrow> unat u < Suc (unat w)" for w
    by (simp add: word_le_nat_alt less_Suc_eq_le)
  moreover have "length (utf8_tail k n) = k" for k n by (induction k) simp_all
  ultimately show ?thesis
    by (simp add: utf8_bytes_def CBB_get_utf8_len_def)
qed

section \<open>Properties\<close>

text \<open>
  C23: The UTF-8 reader. \<open>CBS_get_utf8\<close> accepts exactly the shortest encoding of a
  Unicode scalar value that is not a noncharacter: overlong forms, surrogates,
  noncharacters, values past U+10FFFF and truncated or stray continuation bytes are all
  rejected, and the value returned is the one encoded.
\<close>

theorem utf8_reader_exact:
  "CBS_get_utf8 s = (Some w, r) \<longleftrightarrow> is_valid_code_point w \<and> s = utf8_bytes (unat w) @ r"
  by (simp add: CBS_get_utf8_iff is_valid_code_point_iff)

text \<open>
  C24: UTF-8 texts. Adding any valid code points one after the other succeeds in exactly
  the bytes \<open>CBB_get_utf8_len\<close> announces for them, and reading that many characters
  gives the same text back.
\<close>

theorem utf8_text_roundtrip:
  assumes "\<And>u. u \<in> set us \<Longrightarrow> is_valid_code_point u" and "cbb_ready A d n st"
    and "sum_list (map CBB_get_utf8_len us) \<le> n"
  shows "\<exists>st'. add_text (CBB_add_utf8 A d) us st = (True, st') \<and>
    length (appended st st') = sum_list (map CBB_get_utf8_len us) \<and>
    rd_many CBS_get_utf8 (length us) (appended st st' @ r) = (Some us, r)"
proof -
  let ?enc = "concat (map (\<lambda>w. utf8_bytes (unat w)) us)"
  have valid: "\<And>u. u \<in> set us \<Longrightarrow> scalar_value (unat u)" using assms(1) is_valid_code_point_iff by blast
  have len: "length ?enc = sum_list (map CBB_get_utf8_len us)"
    by (simp add: length_concat comp_def length_utf8_bytes)
  have "writes A d ?enc (add_text (CBB_add_utf8 A d) us)"
    using valid by (intro writes_text writes_utf8)
  then obtain st' where "add_text (CBB_add_utf8 A d) us st = (True, st')" "appended st st' = ?enc"
    using writes_appended assms(2,3) len by metis
  then show ?thesis
    using len utf8_codec.dec_many [of us r] valid by simp
qed

lemma utf8_text_roundtrip_witness:
  "\<exists>st'. add_text (CBB_add_utf8 (\<lambda>_. True) 0) [0x48, 0xe9, 0x20ac, 0x1f600] (snd (CBB_init_fixed 10)) = (True, st') \<and>
    length (appended (snd (CBB_init_fixed 10)) st') = sum_list (map CBB_get_utf8_len [0x48, 0xe9, 0x20ac, 0x1f600]) \<and>
    rd_many CBS_get_utf8 (length [0x48, 0xe9, 0x20ac, 0x1f600 :: u32]) (appended (snd (CBB_init_fixed 10)) st' @ [1]) =
      (Some [0x48, 0xe9, 0x20ac, 0x1f600], [1])"
proof (rule utf8_text_roundtrip)
  have "list_all is_valid_code_point [0x48, 0xe9, 0x20ac, 0x1f600]" by code_simp
  then show "is_valid_code_point u" if "u \<in> set [0x48, 0xe9, 0x20ac, 0x1f600]" for u
    using that by (simp add: list_all_iff) blast
  show "cbb_ready (\<lambda>_. True) 0 10 (snd (CBB_init_fixed 10))"
    by (simp add: init_fixed_ready size_mod_def)
  show "sum_list (map CBB_get_utf8_len [0x48, 0xe9, 0x20ac, 0x1f600]) \<le> 10" by code_simp
qed

text \<open>
  The fixed-width encodings. A character a Latin-1, UCS-2 or UTF-32 writer accepts
  is read back by the reader of that encoding.
\<close>

theorem fixed_width_text_roundtrip:
  assumes "cbb_ready A d 4 st"
  shows "(unat u < 256 \<longrightarrow> (\<exists>st'. CBB_add_latin1 A d u st = (True, st') \<and>
       CBS_get_latin1 (appended st st' @ r) = (Some u, r))) \<and>
    (unat u < 0x10000 \<and> is_valid_code_point u \<longrightarrow> (\<exists>st'. CBB_add_ucs2_be A d u st = (True, st') \<and>
       CBS_get_ucs2_be (appended st st' @ r) = (Some u, r))) \<and>
    (is_valid_code_point u \<longrightarrow> (\<exists>st'. CBB_add_utf32_be A d u st = (True, st') \<and>
       CBS_get_utf32_be (appended st st' @ r) = (Some u, r)))"
proof (intro conjI impI)
  show "\<exists>st'. CBB_add_latin1 A d u st = (True, st') \<and> CBS_get_latin1 (appended st st' @ r) = (Some u, r)"
    if "unat u < 256"
    using writes_appended [OF writes_latin1 assms] that latin1_codec.dec_enc by fastforce
  show "\<exists>st'. CBB_add_ucs2_be A d u st = (True, st') \<and> CBS_get_ucs2_be (appended st st' @ r) = (Some u, r)"
    if "unat u < 0x10000 \<and> is_valid_code_point u"
    using writes_appended [OF writes_ucs2 assms] that ucs2_codec.dec_enc is_valid_code_point_iff by fastforce
  show "\<exists>st'. CBB_add_utf32_be A d u st = (True, st') \<and> CBS_get_utf32_be (appended st st' @ r) = (Some u, r)"
    if "is_valid_code_point u"
    using writes_appended [OF writes_utf32 assms] that utf32_codec.dec_enc is_valid_code_point_iff by fastforce
qed

lemma fixed_width_text_roundtrip_witness:
  "(\<exists>st'. CBB_add_latin1 (\<lambda>_. True) 0 0xe9 (snd (CBB_init_fixed 4)) = (True, st') \<and>
       CBS_get_latin1 (appended (snd (CBB_init_fixed 4)) st' @ []) = (Some 0xe9, [])) \<and>
    (\<exists>st'. CBB_add_ucs2_be (\<lambda>_. True) 0 0xe9 (snd (CBB_init_fixed 4)) = (True, st') \<and>
       CBS_get_ucs2_be (appended (snd (CBB_init_fixed 4)) st' @ []) = (Some 0xe9, [])) \<and>
    (\<exists>st'. CBB_add_utf32_be (\<lambda>_. True) 0 0xe9 (snd (CBB_init_fixed 4)) = (True, st') \<and>
       CBS_get_utf32_be (appended (snd (CBB_init_fixed 4)) st' @ []) = (Some 0xe9, []))"
proof -
  have "is_valid_code_point 0xe9" by code_simp
  moreover have "cbb_ready (\<lambda>_. True) 0 4 (snd (CBB_init_fixed 4))" by (simp add: init_fixed_ready size_mod_def)
  ultimately show ?thesis
    using fixed_width_text_roundtrip [of "\<lambda>_. True" 0 "snd (CBB_init_fixed 4)" "0xe9" "[]"] by simp
qed

end
