(* ===== verification/C_Lang.thy ===== *)
theory C_Lang
  imports Prelude
begin

text \<open>
  What the models of C functions that may be undefined share: outcomes, a state monad over
  them, the \<open>int\<close> operations that overflow, and a byte memory with the cursors that read
  it. Undefined behaviour and an access to an unmapped address are both \<open>Undef\<close>: in
  neither case does the C program promise anything.
\<close>

section \<open>Outcomes and operations\<close>

datatype 'a c_outcome = Undef | Ret 'a

definition INT_MAX :: int where "INT_MAX = 2 ^ 31 - 1"
definition INT_MIN :: int where "INT_MIN = - (2 ^ 31)"

type_synonym ('s, 'a) c_op = "'s \<Rightarrow> ('a \<times> 's) c_outcome"

definition c_return :: "'a \<Rightarrow> ('s, 'a) c_op" where
  "c_return x s = Ret (x, s)"

definition c_undef :: "('s, 'a) c_op" where
  "c_undef s = Undef"

definition c_bind :: "('s, 'a) c_op \<Rightarrow> ('a \<Rightarrow> ('s, 'b) c_op) \<Rightarrow> ('s, 'b) c_op" where
  "c_bind f g s = (case f s of Undef \<Rightarrow> Undef | Ret (x, s') \<Rightarrow> g x s')"

definition c_lift :: "'a c_outcome \<Rightarrow> ('s, 'a) c_op" where
  "c_lift r s = (case r of Undef \<Rightarrow> Undef | Ret x \<Rightarrow> Ret (x, s))"

lemma c_return_apply [simp]: "c_return x s = Ret (x, s)"
  by (simp add: c_return_def)

lemma c_undef_apply [simp]: "c_undef s = Undef"
  by (simp add: c_undef_def)

lemma c_lift_Ret [simp]: "c_lift (Ret x) s = Ret (x, s)"
  by (simp add: c_lift_def)

lemma c_lift_Undef [simp]: "c_lift Undef s = Undef"
  by (simp add: c_lift_def)

lemma c_bind_Ret [simp]: "f s = Ret (x, s') \<Longrightarrow> c_bind f g s = g x s'"
  by (simp add: c_bind_def)

lemma c_bind_Undef [simp]: "f s = Undef \<Longrightarrow> c_bind f g s = Undef"
  by (simp add: c_bind_def)

lemma c_bind_eq_Ret:
  "c_bind f g s = Ret r \<longleftrightarrow> (\<exists>x s'. f s = Ret (x, s') \<and> g x s' = Ret r)"
  by (auto simp: c_bind_def split: c_outcome.splits)

lemma c_lift_eq_Ret: "c_lift r s = Ret (x, s') \<longleftrightarrow> r = Ret x \<and> s' = s"
  by (auto simp: c_lift_def split: c_outcome.splits)

lemma c_bind_cong [fundef_cong]:
  assumes "f s = f' s'" and "\<And>x t. f' s' = Ret (x, t) \<Longrightarrow> g x t = g' x t"
  shows "c_bind f g s = c_bind f' g' s'"
  using assms by (auto simp: c_bind_def split: c_outcome.splits)

section \<open>Integers\<close>

text \<open>\<open>x << s\<close> for an \<open>int\<close> \<open>x\<close> that is not negative: C defines it when the result is an \<open>int\<close>.\<close>

definition int_shl :: "nat \<Rightarrow> nat \<Rightarrow> nat c_outcome" where
  "int_shl x s = (if s < 32 \<and> int (x * 2 ^ s) \<le> INT_MAX then Ret (x * 2 ^ s) else Undef)"

text \<open>\<open>x + y\<close> and \<open>x * y\<close> for \<open>int64_t\<close> values (as two's complement words).\<close>

definition fits_int64 :: "int \<Rightarrow> bool" where
  "fits_int64 x = (- (2 ^ 63) \<le> x \<and> x < 2 ^ 63)"

definition sadd64 :: "u64 \<Rightarrow> u64 \<Rightarrow> u64 c_outcome" where
  "sadd64 x y = (if fits_int64 (sint x + sint y) then Ret (x + y) else Undef)"

definition smul64 :: "u64 \<Rightarrow> u64 \<Rightarrow> u64 c_outcome" where
  "smul64 x y = (if fits_int64 (sint x * sint y) then Ret (x * y) else Undef)"

section \<open>Memory\<close>

text \<open>A byte memory: \<open>None\<close> at the addresses that are not mapped.\<close>

type_synonym mem = "u64 \<Rightarrow> u8 option"

definition load :: "mem \<Rightarrow> nat \<Rightarrow> u64 \<Rightarrow> bytes option" where
  "load m n a = (if 2 ^ 64 < unat a + n then None else those (map (\<lambda>i. m (a + word_of_nat i)) [0..<n]))"

text \<open>The memory holds the bytes \<open>bs\<close> from \<open>a\<close> on, and has an address after the last.\<close>

definition holds :: "mem \<Rightarrow> u64 \<Rightarrow> bytes \<Rightarrow> bool" where
  "holds m a bs = (unat a + length bs < 2 ^ 64 \<and> (\<forall>i < length bs. m (a + word_of_nat i) = Some (bs ! i)))"

lemma those_map_Some: "(\<And>i. i < length xs \<Longrightarrow> f i = Some (xs ! i)) \<Longrightarrow> those (map f [0..<length xs]) = Some xs"
proof (induction xs arbitrary: f)
  case Nil
  then show ?case by simp
next
  case (Cons x xs)
  have "those (map (f \<circ> Suc) [0..<length xs]) = Some xs"
    using Cons.prems by (intro Cons.IH) auto
  moreover have "f 0 = Some x" using Cons.prems by auto
  moreover have "[0..<length (x # xs)] = 0 # map Suc [0..<length xs]"
    by (simp only: length_Cons upt_conv_Cons map_Suc_upt zero_less_Suc)
  ultimately show ?case by (simp only: list.map map_map those.simps option.case option.map)
qed

lemma load_holds: "holds m a bs \<Longrightarrow> load m (length bs) a = Some bs"
  unfolding load_def holds_def by (simp add: those_map_Some)

lemma unat_add_offset: "unat a + n < 2 ^ 64 \<Longrightarrow> unat (a + word_of_nat n) = unat a + n" for a :: u64
  by (simp add: unat_word_ariths unat_of_nat)

lemma holds_append:
  "holds m a (xs @ ys) \<longleftrightarrow> unat a + length xs + length ys < 2 ^ 64 \<and> holds m a xs \<and> holds m (a + word_of_nat (length xs)) ys"
    (is "?lhs \<longleftrightarrow> ?rhs")
proof
  assume l: ?lhs
  then have len: "unat a + length xs + length ys < 2 ^ 64"
    and at: "\<And>i. i < length xs + length ys \<Longrightarrow> m (a + word_of_nat i) = Some ((xs @ ys) ! i)"
    by (auto simp: holds_def)
  have "m (a + word_of_nat (length xs) + word_of_nat i) = Some (ys ! i)" if "i < length ys" for i
    using at [of "length xs + i"] that by (simp add: nth_append add.assoc)
  moreover have "m (a + word_of_nat i) = Some (xs ! i)" if "i < length xs" for i
    using at [of i] that by (simp add: nth_append)
  ultimately show ?rhs
    using len by (simp add: holds_def unat_add_offset)
next
  assume r: ?rhs
  have "m (a + word_of_nat i) = Some ((xs @ ys) ! i)" if "i < length xs + length ys" for i
  proof (cases "i < length xs")
    case True
    with r show ?thesis by (simp add: holds_def nth_append)
  next
    case False
    then obtain j where "i = length xs + j" using le_Suc_ex not_less by blast
    with r that show ?thesis by (simp add: holds_def nth_append add.assoc)
  qed
  with r show ?lhs by (simp add: holds_def)
qed

lemma holds_Cons: "holds m a (x # xs) \<longleftrightarrow> unat a + length xs + 1 < 2 ^ 64 \<and> m a = Some x \<and> holds m (a + 1) xs"
  using holds_append [of m a "[x]" xs] by (auto simp: holds_def)

text \<open>The memory that holds \<open>bs\<close> at \<open>a\<close> and nothing else.\<close>

definition mem_at :: "u64 \<Rightarrow> bytes \<Rightarrow> mem" where
  "mem_at a bs p = (if unat (p - a) < length bs then Some (bs ! unat (p - a)) else None)"

lemma holds_mem_at: "unat a + length bs < 2 ^ 64 \<Longrightarrow> holds (mem_at a bs) a bs"
  by (auto simp: holds_def mem_at_def unat_of_nat)

section \<open>Cursors\<close>

text \<open>
  Advancing a pointer past the end of the address space is undefined. \<open>parse_le m n\<close>
  reads \<open>n\<close> bytes as a little-endian number, as the target reads an integer.
\<close>

definition c_advance :: "nat \<Rightarrow> (u64, unit) c_op" where
  "c_advance n cursor = (if unat cursor + n < 2 ^ 64 then Ret ((), cursor + word_of_nat n) else Undef)"

definition le_nat :: "bytes \<Rightarrow> nat" where
  "le_nat bs = be_nat (rev bs)"

definition parse_le :: "mem \<Rightarrow> nat \<Rightarrow> (u64, nat) c_op" where
  "parse_le m n cursor =
     (case load m n cursor of
        None \<Rightarrow> Undef
      | Some bs \<Rightarrow> c_bind (c_advance n) (\<lambda>_. c_return (le_nat bs)) cursor)"

text \<open>A cursor operation reads exactly the bytes \<open>bs\<close> and returns \<open>x\<close>.\<close>

definition reads :: "mem \<Rightarrow> (u64, 'a) c_op \<Rightarrow> bytes \<Rightarrow> 'a \<Rightarrow> bool" where
  "reads m f bs x = (\<forall>a. holds m a bs \<longrightarrow> f a = Ret (x, a + word_of_nat (length bs)))"

lemma readsD: "reads m f bs x \<Longrightarrow> holds m a bs \<Longrightarrow> f a = Ret (x, a + word_of_nat (length bs))"
  by (simp add: reads_def)

lemma reads_return [intro!]: "reads m (c_return x) [] x"
  by (simp add: reads_def)

lemma reads_bind:
  assumes "reads m f bs x" and "reads m (g x) cs y"
  shows "reads m (c_bind f g) (bs @ cs) y"
  using assms by (simp add: reads_def holds_append add.assoc)

lemma reads_parse_le: "length bs = n \<Longrightarrow> reads m (parse_le m n) bs (le_nat bs)"
  by (auto simp: reads_def parse_le_def c_advance_def load_holds holds_def)

text \<open>What an operation returns, it returns at a later cursor.\<close>

definition advances :: "(u64, 'a) c_op \<Rightarrow> nat \<Rightarrow> bool" where
  "advances f n = (\<forall>a x b. f a = Ret (x, b) \<longrightarrow> unat a + n \<le> unat b)"

lemma advancesD: "advances f n \<Longrightarrow> f a = Ret (x, b) \<Longrightarrow> unat a + n \<le> unat b"
  by (simp add: advances_def)

lemma advances_return: "advances (c_return x) 0"
  by (simp add: advances_def)

lemma advances_undef: "advances c_undef n"
  by (simp add: advances_def)

lemma advances_lift: "advances (c_lift r) 0"
  by (simp add: advances_def c_lift_eq_Ret)

lemma advances_mono: "advances f n \<Longrightarrow> k \<le> n \<Longrightarrow> advances f k"
  by (force simp: advances_def)

lemma advances_bind: "advances f n \<Longrightarrow> (\<And>x. advances (g x) k) \<Longrightarrow> advances (c_bind f g) (n + k)"
  unfolding advances_def c_bind_eq_Ret by (fastforce)

lemma advances_bind0: "advances f n \<Longrightarrow> (\<And>x. advances (g x) 0) \<Longrightarrow> advances (c_bind f g) n"
  using advances_bind [of f n g 0] by simp

lemma advances_c_advance: "advances (c_advance n) n"
  by (auto simp: advances_def c_advance_def unat_add_offset)

lemma advances_parse_le: "advances (parse_le m n) n"
  unfolding advances_def parse_le_def
  by (auto simp: c_bind_eq_Ret c_advance_def unat_add_offset split: option.splits)

end
