(* ===== verification/Posix_Time.thy ===== *)
theory Posix_Time
  imports C_Lang "HOL-Library.Signed_Division"
begin

text \<open>
  The calendar arithmetic of \<open>crypto/asn1/posix_time.c\<close>: conversion between dates and
  seconds since the epoch, and the \<open>struct tm\<close> functions built on it. The C arithmetic is
  on \<open>int\<close> and \<open>int64_t\<close>, with division that truncates towards zero (\<open>sdiv\<close>, \<open>smod\<close>); a
  sum outside the range of its type is undefined behaviour, which is the outcome \<open>Undef\<close>
  wherever the arguments can make it happen.
\<close>

section \<open>Validity\<close>

definition SECS_PER_HOUR :: int where "SECS_PER_HOUR = 60 * 60"
definition SECS_PER_DAY :: int where "SECS_PER_DAY = 24 * SECS_PER_HOUR"

definition is_valid_date :: "int \<Rightarrow> int \<Rightarrow> int \<Rightarrow> bool" where
  "is_valid_date year month day =
     (if day < 1 \<or> month < 1 \<or> year < 0 \<or> 9999 < year then False
      else if month \<in> {1, 3, 5, 7, 8, 10, 12} then 0 < day \<and> day \<le> 31
      else if month \<in> {4, 6, 9, 11} then 0 < day \<and> day \<le> 30
      else if month = 2 then
        (if (year smod 4 = 0 \<and> year smod 100 \<noteq> 0) \<or> year smod 400 = 0
         then 0 < day \<and> day \<le> 29 else 0 < day \<and> day \<le> 28)
      else False)"

definition is_valid_time :: "int \<Rightarrow> int \<Rightarrow> int \<Rightarrow> bool" where
  "is_valid_time hours minutes seconds =
     (if hours < 0 \<or> minutes < 0 \<or> seconds < 0 \<or> 23 < hours \<or> 59 < minutes \<or> 59 < seconds
      then False else True)"

definition is_valid_epoch_time :: "int \<Rightarrow> bool" where
  "is_valid_epoch_time time = (- 62167219200 \<le> time \<and> time \<le> 253402300799)"

section \<open>Conversion\<close>

type_synonym date_time = "int \<times> int \<times> int \<times> int \<times> int \<times> int"

definition posix_time_from_utc :: "int \<Rightarrow> int \<Rightarrow> int \<Rightarrow> int \<Rightarrow> int \<Rightarrow> int \<Rightarrow> int option" where
  "posix_time_from_utc year0 month day hours minutes seconds =
     (if \<not> is_valid_date year0 month day \<or> \<not> is_valid_time hours minutes seconds then None
      else let year = (if month \<le> 2 then year0 - 1 else year0);
               era = (if 0 \<le> year then year else year - 399) sdiv 400;
               year_of_era = year - era * 400;
               day_of_year = (153 * (if 2 < month then month - 3 else month + 9) + 2) sdiv 5 + day - 1;
               day_of_era = year_of_era * 365 + year_of_era sdiv 4 - year_of_era sdiv 100 + day_of_year;
               posix_days = era * 146097 + day_of_era - 719468
           in Some (posix_days * SECS_PER_DAY + hours * SECS_PER_HOUR + minutes * 60 + seconds))"

definition utc_from_posix_time :: "int \<Rightarrow> date_time option" where
  "utc_from_posix_time time =
     (if \<not> is_valid_epoch_time time then None
      else let days0 = time sdiv SECS_PER_DAY;
               leftover0 = time smod SECS_PER_DAY;
               days1 = (if leftover0 < 0 then days0 - 1 else days0);
               leftover_seconds = (if leftover0 < 0 then leftover0 + SECS_PER_DAY else leftover0);
               days = days1 + 719468;
               era = (if 0 < days then days else days - 146096) sdiv 146097;
               day_of_era = days - era * 146097;
               year_of_era = (day_of_era - day_of_era sdiv 1460 + day_of_era sdiv 36524
                              - day_of_era sdiv 146096) sdiv 365;
               out_year = year_of_era + era * 400;
               day_of_year = day_of_era - (365 * year_of_era + year_of_era sdiv 4 - year_of_era sdiv 100);
               month_of_year = (5 * day_of_year + 2) sdiv 153;
               out_month = (if month_of_year < 10 then month_of_year + 3 else month_of_year - 9)
           in Some (if out_month \<le> 2 then out_year + 1 else out_year,
                    out_month,
                    day_of_year - (153 * month_of_year + 2) sdiv 5 + 1,
                    leftover_seconds sdiv SECS_PER_HOUR,
                    leftover_seconds smod SECS_PER_HOUR sdiv 60,
                    leftover_seconds smod SECS_PER_HOUR smod 60))"

section \<open>Broken-down time\<close>

text \<open>
  The six fields of \<open>struct tm\<close> these functions compute and read. The others (\<open>tm_wday\<close>,
  \<open>tm_yday\<close>, \<open>tm_isdst\<close>) are only ever cleared, with the rest of the structure.
\<close>

record tm =
  tm_sec :: int
  tm_min :: int
  tm_hour :: int
  tm_mday :: int
  tm_mon :: int
  tm_year :: int

definition zero_tm :: tm where
  "zero_tm = \<lparr>tm_sec = 0, tm_min = 0, tm_hour = 0, tm_mday = 0, tm_mon = 0, tm_year = 0\<rparr>"

text \<open>\<open>tm_year + 1900\<close> and \<open>tm_mon + 1\<close> are \<open>int\<close> additions.\<close>

definition tm_sums_defined :: "tm \<Rightarrow> bool" where
  "tm_sums_defined tm = (tm_year tm + 1900 \<le> INT_MAX \<and> tm_mon tm + 1 \<le> INT_MAX)"

definition OPENSSL_tm_to_posix :: "tm \<Rightarrow> int option c_outcome" where
  "OPENSSL_tm_to_posix tm =
     (if \<not> tm_sums_defined tm then Undef
      else Ret (posix_time_from_utc (tm_year tm + 1900) (tm_mon tm + 1) (tm_mday tm)
                  (tm_hour tm) (tm_min tm) (tm_sec tm)))"

text \<open>What \<open>utc_from_posix_time\<close> and the adjustments after it store in a \<open>struct tm\<close>.\<close>

definition store_utc :: "date_time \<Rightarrow> tm" where
  "store_utc = (\<lambda>(y, mo, d, h, mi, s).
     \<lparr>tm_sec = s, tm_min = mi, tm_hour = h, tm_mday = d, tm_mon = mo - 1, tm_year = y - 1900\<rparr>)"

definition OPENSSL_posix_to_tm :: "int \<Rightarrow> bool \<times> tm" where
  "OPENSSL_posix_to_tm time =
     (case utc_from_posix_time time of
        None \<Rightarrow> (False, zero_tm)
      | Some u \<Rightarrow> (True, store_utc u))"

text \<open>\<open>time_bits\<close> is the width of \<open>time_t\<close>, 32 or 64.\<close>

definition OPENSSL_timegm :: "nat \<Rightarrow> tm \<Rightarrow> int option c_outcome" where
  "OPENSSL_timegm time_bits tm =
     (case OPENSSL_tm_to_posix tm of
        Undef \<Rightarrow> Undef
      | Ret None \<Rightarrow> Ret None
      | Ret (Some posix_time) \<Rightarrow>
          if time_bits = 32 \<and> (INT_MAX < posix_time \<or> posix_time < INT_MIN) then Ret None
          else Ret (Some posix_time))"

definition OPENSSL_gmtime :: "int \<Rightarrow> tm option \<times> tm" where
  "OPENSSL_gmtime time =
     (case OPENSSL_posix_to_tm time of
        (False, tm) \<Rightarrow> (None, tm)
      | (True, tm) \<Rightarrow> (Some tm, tm))"

text \<open>The sum of the time and the two offsets is an \<open>int64_t\<close>; it is computed left to right.\<close>

definition OPENSSL_gmtime_adj :: "tm \<Rightarrow> int \<Rightarrow> int \<Rightarrow> (bool \<times> tm) c_outcome" where
  "OPENSSL_gmtime_adj tm off_day offset_sec =
     (case OPENSSL_tm_to_posix tm of
        Undef \<Rightarrow> Undef
      | Ret None \<Rightarrow> Ret (False, tm)
      | Ret (Some posix_time) \<Rightarrow>
          let shifted = posix_time + off_day * SECS_PER_DAY
          in if \<not> fits_int64 shifted \<or> \<not> fits_int64 (shifted + offset_sec) then Undef
             else (case utc_from_posix_time (shifted + offset_sec) of
                     None \<Rightarrow> Ret (False, tm)
                   | Some u \<Rightarrow> Ret (True, store_utc u)))"

text \<open>The result has the days and the seconds.\<close>

definition OPENSSL_gmtime_diff :: "tm \<Rightarrow> tm \<Rightarrow> (int \<times> int) option c_outcome" where
  "OPENSSL_gmtime_diff from_tm to_tm =
     (case OPENSSL_tm_to_posix to_tm of
        Undef \<Rightarrow> Undef
      | Ret None \<Rightarrow> Ret None
      | Ret (Some time_to) \<Rightarrow>
          (case OPENSSL_tm_to_posix from_tm of
             Undef \<Rightarrow> Undef
           | Ret None \<Rightarrow> Ret None
           | Ret (Some time_from) \<Rightarrow>
               let timediff = time_to - time_from;
                   daydiff = timediff sdiv SECS_PER_DAY;
                   timediff = timediff smod SECS_PER_DAY
               in if INT_MAX < daydiff \<or> daydiff < INT_MIN then Ret None
                  else Ret (Some (daydiff, timediff))))"

section \<open>Truncating division of nonnegative numbers\<close>

lemma sdiv_nonneg: "0 \<le> a \<Longrightarrow> 0 < b \<Longrightarrow> a sdiv b = a div b" for a b :: int
  by (cases "a = 0") (simp_all add: signed_divide_int_def sgn_if)

lemma smod_nonneg: "0 \<le> a \<Longrightarrow> 0 < b \<Longrightarrow> a smod b = a mod b" for a b :: int
  by (simp add: signed_modulo_int_def sgn_if)

text \<open>The code's way of rounding towards minus infinity.\<close>

lemma smod_nonpos: "a \<le> 0 \<Longrightarrow> 0 < b \<Longrightarrow> - b < a smod b \<and> a smod b \<le> 0" for a b :: int
  using pos_mod_bound [of b "\<bar>a\<bar>"] pos_mod_sign [of b "\<bar>a\<bar>"]
  by (auto simp: signed_modulo_int_def sgn_if)

lemma era_of_year: "(if 0 \<le> y then y else y - 399) sdiv 400 = y div 400" for y :: int
proof (cases "0 \<le> y")
  case False
  define q r where "q = (y - 399) sdiv 400" and "r = (y - 399) smod 400"
  have "q * 400 + r = y - 399" "- 400 < r" "r \<le> 0"
    using sdiv_mult_smod_eq [of "y - 399" 400] smod_nonpos [of "y - 399" 400] False
    by (simp_all add: q_def r_def)
  then have "y div 400 = q" by (intro int_div_pos_eq [where r = "r + 399"]) simp_all
  with False show ?thesis by (simp add: q_def)
qed (simp add: sdiv_nonneg)

lemma era_of_days: "(if 0 < d then d else d - 146096) sdiv 146097 = d div 146097" for d :: int
proof (cases "0 < d")
  case False
  define q r where "q = (d - 146096) sdiv 146097" and "r = (d - 146096) smod 146097"
  have "q * 146097 + r = d - 146096" "- 146097 < r" "r \<le> 0"
    using sdiv_mult_smod_eq [of "d - 146096" 146097] smod_nonpos [of "d - 146096" 146097] False
    by (simp_all add: q_def r_def)
  then have "d div 146097 = q" by (intro int_div_pos_eq [where r = "r + 146096"]) simp_all
  with False show ?thesis by (simp add: q_def)
qed (simp add: sdiv_nonneg)

lemma day_split:
  "(if t smod SECS_PER_DAY < 0 then t sdiv SECS_PER_DAY - 1 else t sdiv SECS_PER_DAY) = t div 86400"
  "(if t smod SECS_PER_DAY < 0 then t smod SECS_PER_DAY + SECS_PER_DAY else t smod SECS_PER_DAY) = t mod 86400"
proof -
  have d: "SECS_PER_DAY = 86400" by (simp add: SECS_PER_DAY_def SECS_PER_HOUR_def)
  define q r where "q = t sdiv 86400" and "r = t smod 86400"
  have "q * 86400 + r = t" unfolding q_def r_def by (rule sdiv_mult_smod_eq)
  moreover have "- 86400 < r" "r < 86400"
    using pos_mod_bound [of 86400 "\<bar>t\<bar>"] by (auto simp: r_def signed_modulo_int_def sgn_if)
  ultimately have "t div 86400 = (if r < 0 then q - 1 else q) \<and> t mod 86400 = (if r < 0 then r + 86400 else r)"
    using int_div_pos_eq [of t 86400 "q - 1" "r + 86400"] int_mod_pos_eq [of t 86400 "q - 1" "r + 86400"]
      int_div_pos_eq [of t 86400 q r] int_mod_pos_eq [of t 86400 q r]
    by (cases "r < 0") auto
  then show "(if t smod SECS_PER_DAY < 0 then t sdiv SECS_PER_DAY - 1 else t sdiv SECS_PER_DAY) = t div 86400"
    "(if t smod SECS_PER_DAY < 0 then t smod SECS_PER_DAY + SECS_PER_DAY else t smod SECS_PER_DAY) = t mod 86400"
    unfolding d q_def r_def by auto
qed

section \<open>Days since March 1 of year 0\<close>

text \<open>The day number of a date whose year starts in March, in floor arithmetic.\<close>

definition year_days :: "int \<Rightarrow> int" where
  "year_days y = 365 * y + y div 4 - y div 100 + y div 400"

definition month_days :: "int \<Rightarrow> int" where
  "month_days mp = (153 * mp + 2) div 5"

definition day_number :: "int \<Rightarrow> int \<Rightarrow> int \<Rightarrow> int" where
  "day_number y m d =
     year_days (if m \<le> 2 then y - 1 else y) + month_days (if 2 < m then m - 3 else m + 9) + d - 1"

lemma era_year_days:
  "y div 400 * 146097 + (y mod 400 * 365 + y mod 400 div 4 - y mod 400 div 100) = year_days y"
proof -
  define q r where "q = y div 400" and "r = y mod 400"
  have y: "y = r + 400 * q" by (simp add: q_def r_def)
  have "(r + 4 * (100 * q)) div 4 = r div 4 + 100 * q" "(r + 100 * (4 * q)) div 100 = r div 100 + 4 * q"
    by simp_all
  then have "y div 4 = r div 4 + 100 * q" "y div 100 = r div 100 + 4 * q"
    unfolding y by simp_all
  then show ?thesis unfolding year_days_def q_def [symmetric] r_def [symmetric] using y by simp
qed

lemma posix_time_from_utc_eq:
  "posix_time_from_utc y m d h mi s =
     (if is_valid_date y m d \<and> is_valid_time h mi s
      then Some ((day_number y m d - 719468) * 86400 + h * 3600 + mi * 60 + s) else None)"
proof (cases "is_valid_date y m d \<and> is_valid_time h mi s")
  case True
  then have m: "1 \<le> m" "m \<le> 12" by (auto simp: is_valid_date_def split: if_splits)
  define yr where "yr = (if m \<le> 2 then y - 1 else y)"
  define mp where "mp = (if 2 < m then m - 3 else m + 9)"
  have mp: "0 \<le> mp" using m by (simp add: mp_def)
  have yoe: "yr - yr div 400 * 400 = yr mod 400" by (simp add: minus_div_mult_eq_mod)
  have "posix_time_from_utc y m d h mi s =
      Some ((yr div 400 * 146097 + (yr mod 400 * 365 + yr mod 400 div 4 - yr mod 400 div 100 +
         (month_days mp + d - 1)) - 719468) * 86400 + h * 3600 + mi * 60 + s)"
    using True mp
    unfolding posix_time_from_utc_def Let_def yr_def [symmetric] mp_def [symmetric] era_of_year yoe
    by (simp add: sdiv_nonneg month_days_def SECS_PER_DAY_def SECS_PER_HOUR_def)
  also have "yr div 400 * 146097 + (yr mod 400 * 365 + yr mod 400 div 4 - yr mod 400 div 100 +
         (month_days mp + d - 1)) - 719468 = day_number y m d - 719468"
    using era_year_days [of yr] by (simp add: day_number_def yr_def mp_def)
  finally show ?thesis using True by simp
qed (auto simp: posix_time_from_utc_def)

section \<open>The day of an era\<close>

text \<open>
  A day of a 400-year era as centuries, four-year cycles, years and days. Only the last
  year of a cycle has a 366th day, and the last cycle of a century only in the last
  century.
\<close>

definition era_parts :: "int \<Rightarrow> int \<Rightarrow> int \<Rightarrow> int \<Rightarrow> bool" where
  "era_parts c q r doy =
     (0 \<le> c \<and> c < 4 \<and> 0 \<le> q \<and> q < 25 \<and> 0 \<le> r \<and> r < 4 \<and> 0 \<le> doy \<and>
      (doy < 365 \<or> (doy = 365 \<and> r = 3 \<and> (q < 24 \<or> c = 3))))"

definition era_day :: "int \<Rightarrow> int \<Rightarrow> int \<Rightarrow> int \<Rightarrow> int" where
  "era_day c q r doy = 36524 * c + 1461 * q + 365 * r + doy"

lemma era_day_range:
  assumes "era_parts c q r doy"
  shows "0 \<le> era_day c q r doy" "era_day c q r doy < 146097"
  using assms by (auto simp: era_parts_def era_day_def)

lemma era_year_parts:
  assumes "era_parts c q r doy"
  defines "y \<equiv> 100 * c + 4 * q + r"
  shows "0 \<le> y" "y < 400" "365 * y + y div 4 - y div 100 = era_day c q r doy - doy"
proof -
  show "0 \<le> y" "y < 400" using assms by (auto simp: era_parts_def)
  have "y div 4 = 25 * c + q"
    using assms by (intro int_div_pos_eq [where r = r]) (auto simp: era_parts_def)
  moreover have "y div 100 = c"
    using assms by (intro int_div_pos_eq [where r = "4 * q + r"]) (auto simp: era_parts_def)
  ultimately show "365 * y + y div 4 - y div 100 = era_day c q r doy - doy"
    by (simp add: era_day_def y_def)
qed

lemma year_of_era_parts:
  assumes "era_parts c q r doy"
  defines "doe \<equiv> era_day c q r doy"
  shows "(doe - doe div 1460 + doe div 36524 - doe div 146096) div 365 = 100 * c + 4 * q + r"
proof -
  note p = assms(1) [unfolded era_parts_def]
  have cent: "doe div 36524 - doe div 146096 = c"
  proof (cases "doe = 146096")
    case True
    have "c = 3" using True p by (auto simp: doe_def era_day_def)
    with True show ?thesis by simp
  next
    case False
    have "doe < 146096" using False era_day_range(2) [OF assms(1)] by (simp add: doe_def)
    then have "doe div 146096 = 0" using era_day_range(1) [OF assms(1)] by (simp add: doe_def)
    moreover have "1461 * q + 365 * r + doy < 36524"
      using p False by (auto simp: doe_def era_day_def)
    then have "doe div 36524 = c"
      using p by (intro int_div_pos_eq [where r = "1461 * q + 365 * r + doy"]) (auto simp: doe_def era_day_def)
    ultimately show ?thesis by simp
  qed
  define m where "m = 24 * c + q + 365 * r + doy"
  define e :: int where "e = (if m < 1460 then 0 else 1)"
  have "doe = 1460 * (25 * c + q) + m" by (simp add: doe_def era_day_def m_def)
  moreover have "0 \<le> m" "m < 2920" using p by (auto simp: m_def)
  ultimately have q1460: "doe div 1460 = 25 * c + q + e"
    by (intro int_div_pos_eq [where r = "m - 1460 * e"]) (auto simp: e_def)
  have "0 \<le> doy - e" "doy - e < 365"
    using p by (auto simp: e_def m_def split: if_splits)
  moreover have "doe - doe div 1460 + (doe div 36524 - doe div 146096) =
      365 * (100 * c + 4 * q + r) + (doy - e)"
    unfolding cent q1460 by (simp add: doe_def era_day_def)
  ultimately show ?thesis
    by (intro int_div_pos_eq [where r = "doy - e"]) auto
qed

lemma era_parts_exist:
  assumes "0 \<le> doe" "doe < 146097"
  obtains c q r doy where "era_parts c q r doy" and "doe = era_day c q r doy"
proof -
  define c where "c = min 3 (doe div 36524)"
  define x where "x = doe - 36524 * c"
  define q where "q = x div 1461"
  define y where "y = x mod 1461"
  define r where "r = min 3 (y div 365)"
  define doy where "doy = y - 365 * r"
  have d: "doe = 36524 * (doe div 36524) + doe mod 36524" "0 \<le> doe mod 36524" "doe mod 36524 < 36524" by simp_all
  have c: "0 \<le> c" "c \<le> 3" "0 \<le> x" "x < 36524 \<or> (c = 3 \<and> x = 36524)"
    using assms d unfolding c_def x_def min_def by (auto simp: pos_imp_zdiv_nonneg_iff)
  have x: "x = 1461 * q + y" "0 \<le> y" "y < 1461" by (simp_all add: q_def y_def)
  have y: "y = 365 * (y div 365) + y mod 365" "0 \<le> y mod 365" "y mod 365 < 365" by simp_all
  have r: "0 \<le> r" "r \<le> 3" "0 \<le> doy" "doy < 365 \<or> (r = 3 \<and> doy = 365)"
    using x y unfolding r_def doy_def min_def by (auto simp: pos_imp_zdiv_nonneg_iff)
  have q: "0 \<le> q" "q < 25" using c x by auto
  have "doy = 365 \<Longrightarrow> q < 24 \<or> c = 3"
    using c x r q by (auto simp: doy_def)
  with c q r have "era_parts c q r doy" by (auto simp: era_parts_def)
  moreover have "doe = era_day c q r doy"
    using x by (simp add: era_day_def x_def doy_def)
  ultimately show ?thesis by (rule that)
qed

section \<open>Months and leap years\<close>

definition leap :: "int \<Rightarrow> bool" where
  "leap y = ((y mod 4 = 0 \<and> y mod 100 \<noteq> 0) \<or> y mod 400 = 0)"

lemma month_of_day:
  "month_days mp \<le> doy \<Longrightarrow> doy < month_days (mp + 1) \<Longrightarrow> (5 * doy + 2) div 153 = mp"
  by (intro int_div_pos_eq [where r = "5 * doy + 2 - 153 * mp"]) (auto simp: month_days_def)

lemma month_exists:
  assumes "0 \<le> doy" "doy \<le> 365"
  defines "mp \<equiv> (5 * doy + 2) div 153"
  shows "0 \<le> mp" "mp \<le> 11" "month_days mp \<le> doy" "doy < month_days (mp + 1)"
proof -
  have d: "5 * doy + 2 = 153 * mp + (5 * doy + 2) mod 153" "0 \<le> (5 * doy + 2) mod 153" "(5 * doy + 2) mod 153 < 153"
    by (simp_all add: mp_def)
  then show "0 \<le> mp" "mp \<le> 11" using assms(1,2) by linarith+
  show "month_days mp \<le> doy"
    using d unfolding month_days_def by linarith
  have "5 * doy < 153 * mp + 151" using d by linarith
  then show "doy < month_days (mp + 1)"
    unfolding month_days_def by presburger
qed

text \<open>The month and the shifted year of a date, and the length of the month.\<close>

definition mar_month :: "int \<Rightarrow> int" where
  "mar_month m = (if 2 < m then m - 3 else m + 9)"

definition mar_year :: "int \<Rightarrow> int \<Rightarrow> int" where
  "mar_year y m = (if m \<le> 2 then y - 1 else y)"

lemma month_days_values:
  "month_days 0 = 0" "month_days 1 = 31" "month_days 2 = 61" "month_days 3 = 92" "month_days 4 = 122"
  "month_days 5 = 153" "month_days 6 = 184" "month_days 7 = 214" "month_days 8 = 245"
  "month_days 9 = 275" "month_days 10 = 306" "month_days 11 = 337"
  by (simp_all add: month_days_def)

lemma month_cases:
  "1 \<le> m \<Longrightarrow> m \<le> 12 \<Longrightarrow> m = 1 \<or> m = 2 \<or> m = 3 \<or> m = 4 \<or> m = 5 \<or> m = 6 \<or> m = 7 \<or>
   m = 8 \<or> m = 9 \<or> m = 10 \<or> m = 11 \<or> m = 12" for m :: int
  by presburger

lemma is_valid_date_iff:
  "is_valid_date y m d \<longleftrightarrow>
     0 \<le> y \<and> y \<le> 9999 \<and> 1 \<le> m \<and> m \<le> 12 \<and> 1 \<le> d \<and>
     (if m = 2 then d \<le> (if leap y then 29 else 28)
      else d \<le> month_days (mar_month m + 1) - month_days (mar_month m))"
proof (cases "0 \<le> y \<and> y \<le> 9999 \<and> 1 \<le> m \<and> m \<le> 12 \<and> 1 \<le> d")
  case True
  have leap: "(y smod 4 = 0 \<and> y smod 100 \<noteq> 0) \<or> y smod 400 = 0 \<longleftrightarrow> leap y"
    using True by (simp add: leap_def smod_nonneg)
  have first: "\<not> (d < 1 \<or> m < 1 \<or> y < 0 \<or> 9999 < y)" using True by auto
  have "is_valid_date y m d \<longleftrightarrow>
    (if m = 2 then d \<le> (if leap y then 29 else 28)
      else d \<le> month_days (mar_month m + 1) - month_days (mar_month m))"
    unfolding is_valid_date_def leap if_not_P [OF first]
  proof -
    have "m = 1 \<or> m = 2 \<or> m = 3 \<or> m = 4 \<or> m = 5 \<or> m = 6 \<or> m = 7 \<or> m = 8 \<or> m = 9 \<or> m = 10 \<or>
        m = 11 \<or> m = 12" and "1 \<le> d"
      using month_cases [of m] True by auto
    then show "(if m \<in> {1, 3, 5, 7, 8, 10, 12} then 0 < d \<and> d \<le> 31
        else if m \<in> {4, 6, 9, 11} then 0 < d \<and> d \<le> 30
        else if m = 2 then if leap y then 0 < d \<and> d \<le> 29 else 0 < d \<and> d \<le> 28 else False) =
      (if m = 2 then d \<le> (if leap y then 29 else 28)
       else d \<le> month_days (mar_month m + 1) - month_days (mar_month m))"
      by (elim disjE) (simp_all add: mar_month_def month_days_values)
  qed
  with True show ?thesis by simp
next
  case False
  have "\<not> is_valid_date y m d"
  proof (cases "d < 1 \<or> m < 1 \<or> y < 0 \<or> 9999 < y")
    case True
    then show ?thesis unfolding is_valid_date_def by (simp only: if_True not_False_eq_True)
  next
    case range: False
    with False have "12 < m" by auto
    then have "m \<notin> {1, 3, 5, 7, 8, 10, 12}" "m \<notin> {4, 6, 9, 11}" "m \<noteq> 2" by auto
    with range show ?thesis unfolding is_valid_date_def by (simp only: if_False not_False_eq_True)
  qed
  with False show ?thesis by blast
qed

section \<open>The two conversions\<close>

lemma utc_from_parts:
  assumes t: "is_valid_epoch_time t" and days: "t div 86400 + 719468 = 146097 * era + era_day c q r doy"
    and parts: "era_parts c q r doy" and mp: "0 \<le> mp" "month_days mp \<le> doy" "doy < month_days (mp + 1)"
  defines "y \<equiv> 400 * era + 100 * c + 4 * q + r" and "m \<equiv> if mp < 10 then mp + 3 else mp - 9"
  shows "utc_from_posix_time t = Some (if m \<le> 2 then y + 1 else y, m, doy - month_days mp + 1,
     t mod 86400 div 3600, t mod 86400 mod 3600 div 60, t mod 86400 mod 3600 mod 60)"
proof -
  let ?doe = "era_day c q r doy"
  have "\<not> is_valid_epoch_time t \<longleftrightarrow> False" using t by simp
  note unf = utc_from_posix_time_def [of t, unfolded Let_def day_split days this if_False era_of_days]
  note range = era_day_range [OF parts]
  have era: "(146097 * era + ?doe) div 146097 = era"
    using range by (intro int_div_pos_eq [where r = ?doe]) auto
  then have doe: "146097 * era + ?doe - era * 146097 = ?doe" by simp
  have sd: "?doe sdiv 1460 = ?doe div 1460" "?doe sdiv 36524 = ?doe div 36524" "?doe sdiv 146096 = ?doe div 146096"
    using range by (simp_all add: sdiv_nonneg)
  define yoe where "yoe = 100 * c + 4 * q + r"
  note yoe = era_year_parts [OF parts, folded yoe_def]
  have f: "(?doe - ?doe div 1460 + ?doe div 36524 - ?doe div 146096) sdiv 365 = yoe"
  proof -
    have "(?doe - ?doe div 1460 + ?doe div 36524 - ?doe div 146096) div 365 = yoe"
      using year_of_era_parts [OF parts] by (simp add: yoe_def)
    moreover from this have "0 \<le> ?doe - ?doe div 1460 + ?doe div 36524 - ?doe div 146096"
      using yoe(1) by (metis pos_imp_zdiv_nonneg_iff zero_less_numeral)
    ultimately show ?thesis by (simp add: sdiv_nonneg)
  qed
  have doy: "?doe - (365 * yoe + yoe sdiv 4 - yoe sdiv 100) = doy"
    using yoe by (simp add: sdiv_nonneg)
  have doy0: "0 \<le> doy" using parts by (simp add: era_parts_def)
  have mon: "(5 * doy + 2) sdiv 153 = mp"
    using month_of_day [OF mp(2,3)] doy0 by (simp add: sdiv_nonneg)
  have md: "(153 * mp + 2) sdiv 5 = month_days mp"
    using mp(1) by (simp add: sdiv_nonneg month_days_def)
  have h: "SECS_PER_HOUR = 3600" by (simp add: SECS_PER_HOUR_def)
  have tm: "(t mod 86400) sdiv 3600 = t mod 86400 div 3600" "(t mod 86400) smod 3600 = t mod 86400 mod 3600"
    "(t mod 86400 mod 3600) sdiv 60 = t mod 86400 mod 3600 div 60"
    "(t mod 86400 mod 3600) smod 60 = t mod 86400 mod 3600 mod 60"
    by (simp_all add: sdiv_nonneg smod_nonneg)
  have "yoe + era * 400 = y" by (simp add: yoe_def y_def)
  then show ?thesis
    unfolding unf era doe sd f doy mon md h tm m_def by simp
qed

lemma day_number_alt:
  "day_number y m d = year_days (mar_year y m) + month_days (mar_month m) + d - 1"
  by (simp add: day_number_def mar_year_def mar_month_def)

text \<open>A valid date as the parts of a day of its era.\<close>

lemma parts_of_date:
  assumes "is_valid_date y m d"
  obtains e c q r doy where "era_parts c q r doy" and "day_number y m d = 146097 * e + era_day c q r doy"
    and "mar_year y m = 400 * e + 100 * c + 4 * q + r" and "doy = month_days (mar_month m) + d - 1"
    and "doy < month_days (mar_month m + 1)"
proof -
  define yr where "yr = mar_year y m"
  define yoe where "yoe = yr mod 400"
  define c where "c = yoe div 100"
  define q where "q = yoe mod 100 div 4"
  define r where "r = yoe mod 100 mod 4"
  define doy where "doy = month_days (mar_month m) + d - 1"
  define w where "w = yoe mod 100"
  have w: "yoe = 100 * c + w" "0 \<le> w" "w < 100" "w = 4 * q + r" "0 \<le> r" "r < 4"
    by (simp_all add: w_def c_def q_def r_def)
  have "0 \<le> yoe" "yoe < 400" by (simp_all add: yoe_def)
  with w have rng: "0 \<le> c" "c < 4" "0 \<le> q" "q < 25" "0 \<le> r" "r < 4"
    by linarith+
  have yoe: "0 \<le> yoe" "yoe < 400" "yoe = 100 * c + 4 * q + r"
    using w \<open>0 \<le> yoe\<close> \<open>yoe < 400\<close> by simp_all
  have v: "0 \<le> y" "y \<le> 9999" "1 \<le> m" "m \<le> 12" "1 \<le> d"
    "if m = 2 then d \<le> (if leap y then 29 else 28)
     else d \<le> month_days (mar_month m + 1) - month_days (mar_month m)"
    using assms unfolding is_valid_date_iff by auto
  have yr: "yr = 400 * (yr div 400) + yoe" by (simp add: yoe_def)
  have "0 \<le> doy \<and> doy < month_days (mar_month m + 1) \<and>
      (doy < 365 \<or> (doy = 365 \<and> m = 2 \<and> leap y))"
  proof -
    have "m = 1 \<or> m = 2 \<or> m = 3 \<or> m = 4 \<or> m = 5 \<or> m = 6 \<or> m = 7 \<or> m = 8 \<or> m = 9 \<or> m = 10 \<or>
        m = 11 \<or> m = 12"
      using month_cases v(3,4) by blast
    moreover have "month_days 12 = 367" by (simp add: month_days_def)
    ultimately show ?thesis
      using v(5,6) unfolding doy_def
      by (elim disjE) (simp_all add: mar_month_def month_days_values split: if_splits, presburger)
  qed
  moreover have "r = 3 \<and> (q < 24 \<or> c = 3)" if "m = 2" "leap y"
  proof -
    have "y = 400 * (yr div 400) + (100 * c + 4 * q + (r + 1))"
      using that(1) yr yoe(3) by (simp add: yr_def mar_year_def)
    then obtain k where y: "y = 400 * k + (100 * c + 4 * q + (r + 1))" by blast
    have "((r + 1) + 4 * (100 * k + 25 * c + q)) mod 4 = (r + 1) mod 4"
      "((4 * q + (r + 1)) + 100 * (4 * k + c)) mod 100 = (4 * q + (r + 1)) mod 100"
      "((100 * c + 4 * q + (r + 1)) + 400 * k) mod 400 = (100 * c + 4 * q + (r + 1)) mod 400"
      by (rule mod_mult_self2)+
    moreover have "y = (r + 1) + 4 * (100 * k + 25 * c + q)" "y = (4 * q + (r + 1)) + 100 * (4 * k + c)"
      "y = (100 * c + 4 * q + (r + 1)) + 400 * k"
      by (simp_all add: y)
    ultimately have mods: "y mod 4 = (r + 1) mod 4" "y mod 100 = (4 * q + (r + 1)) mod 100"
      "y mod 400 = (100 * c + 4 * q + (r + 1)) mod 400"
      by metis+
    have z4: "(r + 1) mod 4 = 0"
    proof -
      have "y mod 400 = 0 \<Longrightarrow> y mod 4 = 0" by (simp add: mod_eq_0_iff_dvd) (rule dvd_trans [of 4 400 y], simp_all)
      then show ?thesis using that(2) mods(1) unfolding leap_def by argo
    qed
    have r3: "r = 3"
    proof (rule ccontr)
      assume "r \<noteq> 3"
      then have "(r + 1) mod 4 = r + 1" using rng by (intro mod_pos_pos_trivial) auto
      with z4 rng show False by simp
    qed
    have "q < 24 \<or> c = 3"
    proof (rule ccontr)
      assume "\<not> (q < 24 \<or> c = 3)"
      then have qc: "q = 24" "c < 3" using rng by auto
      then have "y mod 100 = 0" "y mod 400 = 100 * c + 100"
        using mods rng r3 by (simp_all add: mod_pos_pos_trivial)
      with that(2) rng show False by (simp add: leap_def)
    qed
    with r3 show ?thesis by simp
  qed
  ultimately have "era_parts c q r doy" and small: "doy < month_days (mar_month m + 1)"
    using rng by (auto simp: era_parts_def)
  moreover have "day_number y m d = 146097 * (yr div 400) + era_day c q r doy"
  proof -
    have "year_days yr = yr div 400 * 146097 + (365 * yoe + yoe div 4 - yoe div 100)"
      using era_year_days [of yr] by (simp add: yoe_def mult.commute)
    also have "365 * yoe + yoe div 4 - yoe div 100 = era_day c q r doy - doy"
      using era_year_parts(3) [OF \<open>era_parts c q r doy\<close>] yoe(3) by simp
    finally show ?thesis by (simp add: day_number_alt yr_def doy_def)
  qed
  moreover have "mar_year y m = 400 * (yr div 400) + 100 * c + 4 * q + r"
    using yr yoe(3) unfolding yr_def by linarith
  ultimately show ?thesis using doy_def by (intro that)
qed

lemma time_of_day:
  assumes "is_valid_time h mi s" and "t = D * 86400 + h * 3600 + mi * 60 + s"
  shows "t div 86400 = D" "t mod 86400 div 3600 = h" "t mod 86400 mod 3600 div 60 = mi"
    "t mod 86400 mod 3600 mod 60 = s"
proof -
  have v: "0 \<le> h" "h \<le> 23" "0 \<le> mi" "mi \<le> 59" "0 \<le> s" "s \<le> 59"
    using assms(1) by (auto simp: is_valid_time_def split: if_splits)
  let ?x = "h * 3600 + mi * 60 + s" and ?y = "mi * 60 + s"
  show "t div 86400 = D"
    using v assms(2) by (intro int_div_pos_eq [where r = ?x]) auto
  have x: "t mod 86400 = ?x"
    using v assms(2) by (intro int_mod_pos_eq [where q = D]) auto
  show "t mod 86400 div 3600 = h"
    unfolding x using v by (intro int_div_pos_eq [where r = ?y]) auto
  have y: "t mod 86400 mod 3600 = ?y"
    unfolding x using v by (intro int_mod_pos_eq [where q = h]) auto
  show "t mod 86400 mod 3600 div 60 = mi"
    unfolding y using v by (intro int_div_pos_eq [where r = s]) auto
  show "t mod 86400 mod 3600 mod 60 = s"
    unfolding y using v by (intro int_mod_pos_eq [where q = mi]) auto
qed

lemma mar_month_range: "1 \<le> m \<Longrightarrow> m \<le> 12 \<Longrightarrow> 0 \<le> mar_month m \<and> mar_month m \<le> 11"
  by (auto simp: mar_month_def)

lemma utc_of_posix:
  assumes "posix_time_from_utc y m d h mi s = Some t"
  shows "is_valid_epoch_time t" and "utc_from_posix_time t = Some (y, m, d, h, mi, s)"
proof -
  have date: "is_valid_date y m d" and time: "is_valid_time h mi s"
    and t: "t = (day_number y m d - 719468) * 86400 + h * 3600 + mi * 60 + s"
    using assms by (auto simp: posix_time_from_utc_eq split: if_splits)
  have v: "0 \<le> y" "y \<le> 9999" "1 \<le> m" "m \<le> 12" "1 \<le> d"
    using date by (auto simp: is_valid_date_iff)
  have tv: "0 \<le> h" "h \<le> 23" "0 \<le> mi" "mi \<le> 59" "0 \<le> s" "s \<le> 59"
    using time by (auto simp: is_valid_time_def split: if_splits)
  obtain e c q r doy where parts: "era_parts c q r doy"
    and dn: "day_number y m d = 146097 * e + era_day c q r doy"
    and yr: "mar_year y m = 400 * e + 100 * c + 4 * q + r"
    and doy: "doy = month_days (mar_month m) + d - 1" "doy < month_days (mar_month m + 1)"
    using parts_of_date [OF date] by metis
  note p = parts [unfolded era_parts_def]
  note mm = mar_month_range [OF v(3,4)]
  have "- 60 \<le> day_number y m d \<and> day_number y m d \<le> 3652364"
  proof -
    have "m \<le> 2 \<Longrightarrow> 306 \<le> doy" and "2 < m \<Longrightarrow> doy \<le> 305"
      using doy v(3-5) mm by (auto simp: mar_month_def month_days_def)
    moreover have "e \<le> 24" using yr v p unfolding mar_year_def by (auto split: if_splits)
    ultimately show ?thesis
      using yr v p unfolding dn era_day_def mar_year_def
      by (cases "m \<le> 2"; cases "0 \<le> e"; cases "e = 24") auto
  qed
  then show valid: "is_valid_epoch_time t"
    using tv unfolding t is_valid_epoch_time_def by auto
  note tod = time_of_day [OF time t]
  have "(if mar_month m < 10 then mar_month m + 3 else mar_month m - 9) = m"
    using v by (auto simp: mar_month_def)
  moreover have "(if m \<le> 2 then 400 * e + 100 * c + 4 * q + r + 1 else 400 * e + 100 * c + 4 * q + r) = y"
    using yr by (auto simp: mar_year_def split: if_splits)
  moreover have "t div 86400 + 719468 = 146097 * e + era_day c q r doy"
    using dn tod(1) by simp
  moreover have "month_days (mar_month m) \<le> doy" "doy - month_days (mar_month m) + 1 = d"
    using doy v by auto
  ultimately show "utc_from_posix_time t = Some (y, m, d, h, mi, s)"
    using utc_from_parts [OF valid _ parts, of e "mar_month m"] mm doy(2) by (simp add: tod)
qed

lemma leap_of_parts:
  fixes e c q :: int
  assumes "0 \<le> c" "c < 4" "0 \<le> q" "q < 25" "q < 24 \<or> c = 3"
  shows "leap (400 * e + 100 * c + 4 * q + 4)"
proof -
  let ?y = "400 * e + 100 * c + 4 * q + 4"
  have y4: "?y mod 4 = 0" by (intro int_mod_pos_eq [where q = "100 * e + 25 * c + q + 1"]) simp_all
  show ?thesis
  proof (cases "q < 24")
    case True
    have "?y mod 100 = 4 * q + 4"
      using assms True by (intro int_mod_pos_eq [where q = "4 * e + c"]) simp_all
    with y4 assms show ?thesis by (simp add: leap_def)
  next
    case False
    then have "q = 24" "c = 3" using assms by auto
    then have "?y mod 400 = 0" by (intro int_mod_pos_eq [where q = "e + 1"]) simp_all
    then show ?thesis by (simp only: leap_def) simp
  qed
qed

lemma posix_of_utc:
  assumes valid: "is_valid_epoch_time t"
  obtains y m d h mi s where "utc_from_posix_time t = Some (y, m, d, h, mi, s)"
    and "posix_time_from_utc y m d h mi s = Some t"
proof -
  define days where "days = t div 86400 + 719468"
  define e where "e = days div 146097"
  have split: "days = 146097 * e + days mod 146097" "0 \<le> days mod 146097" "days mod 146097 < 146097"
    by (simp_all add: e_def)
  obtain c q r doy where parts: "era_parts c q r doy" and doe: "days mod 146097 = era_day c q r doy"
    using era_parts_exist split(2,3) by metis
  note p = parts [unfolded era_parts_def]
  have rng: "- 60 \<le> days" "days \<le> 3652364"
  proof -
    have "t = 86400 * (t div 86400) + t mod 86400" "0 \<le> t mod 86400" "t mod 86400 < 86400" by simp_all
    then show "- 60 \<le> days" "days \<le> 3652364"
      using valid unfolding days_def is_valid_epoch_time_def by linarith+
  qed
  have d: "t div 86400 + 719468 = 146097 * e + era_day c q r doy"
    using split(1) doe by (simp add: days_def)
  define mp where "mp = (5 * doy + 2) div 153"
  have doy: "0 \<le> doy" "doy \<le> 365" using p by auto
  note mp = month_exists [OF doy, folded mp_def]
  define yr where "yr = 400 * e + 100 * c + 4 * q + r"
  define m where "m = (if mp < 10 then mp + 3 else mp - 9)"
  define y where "y = (if m \<le> 2 then yr + 1 else yr)"
  define dd where "dd = doy - month_days mp + 1"
  define h where "h = t mod 86400 div 3600"
  define mi where "mi = t mod 86400 mod 3600 div 60"
  define s where "s = t mod 86400 mod 3600 mod 60"
  have utc: "utc_from_posix_time t = Some (y, m, dd, h, mi, s)"
    using utc_from_parts [OF valid d parts mp(1,3,4)]
    by (simp add: y_def m_def dd_def h_def mi_def s_def yr_def)
  have m: "1 \<le> m" "m \<le> 12" "mar_month m = mp" using mp by (auto simp: m_def mar_month_def)
  have yr: "mar_year y m = yr" by (simp add: mar_year_def y_def)
  have e: "- 1 \<le> e" "e \<le> 24" using split rng by linarith+
  have date: "is_valid_date y m dd"
  proof -
    have "0 \<le> y"
    proof (cases "0 \<le> e")
      case True
      then show ?thesis using p by (auto simp: y_def yr_def)
    next
      case False
      then have "146037 \<le> era_day c q r doy" using e rng split(1) doe by auto
      then have "c = 3" "q = 24" "r = 3" "306 \<le> doy"
        using p unfolding era_day_def by linarith+
      moreover have "10 \<le> mp" using \<open>306 \<le> doy\<close> mp(4) by (auto simp: month_days_def)
      ultimately show ?thesis using False e(1) mp(2) by (auto simp: y_def yr_def m_def)
    qed
    moreover have "y \<le> 9999"
    proof (cases "yr \<le> 9998")
      case True
      then show ?thesis by (simp add: y_def)
    next
      case False
      then have "e = 24" "c = 3" "q = 24" "r = 3" using e p unfolding yr_def by linarith+
      then have "doy \<le> 305" using rng(2) split(1) doe unfolding era_day_def by linarith
      then have "mp \<le> 9" using mp(3) by (auto simp: month_days_def)
      then show ?thesis using \<open>e = 24\<close> \<open>c = 3\<close> \<open>q = 24\<close> \<open>r = 3\<close> mp(1) by (auto simp: y_def m_def yr_def)
    qed
    moreover have "dd \<le> (if leap y then 29 else 28)" if "m = 2"
    proof -
      have mp11: "mp = 11" using that m(3) by (simp add: mar_month_def)
      have y: "y = yr + 1" using that by (simp add: y_def)
      have "leap y" if "doy = 365"
        using leap_of_parts [of c q e] p that y by (auto simp: yr_def add.assoc)
      then show ?thesis
        using doy(2) unfolding dd_def mp11 month_days_values by (cases "doy = 365") auto
    qed
    moreover have "1 \<le> dd" "dd \<le> month_days (mp + 1) - month_days mp" using mp by (auto simp: dd_def)
    ultimately show ?thesis using m unfolding is_valid_date_iff by simp
  qed
  have tod: "t mod 86400 = h * 3600 + mi * 60 + s" "0 \<le> h" "h < 24" "0 \<le> mi" "mi < 60" "0 \<le> s" "s < 60"
  proof -
    define x where "x = t mod 86400"
    have x: "0 \<le> x" "x < 86400" by (simp_all add: x_def)
    have h: "x = 3600 * h + x mod 3600" "0 \<le> x mod 3600" "x mod 3600 < 3600" by (simp_all add: h_def x_def)
    have ms: "x mod 3600 = 60 * mi + s" "0 \<le> s" "s < 60" by (simp_all add: mi_def s_def x_def)
    show "t mod 86400 = h * 3600 + mi * 60 + s" using h(1) ms(1) unfolding x_def by linarith
    show "0 \<le> h" "h < 24" "0 \<le> mi" "mi < 60" "0 \<le> s" "s < 60"
      using x h ms by linarith+
  qed
  have time: "is_valid_time h mi s" using tod by (simp add: is_valid_time_def)
  have "year_days yr = 146097 * e + (era_day c q r doy - doy)"
  proof -
    have k: "yr div 400 = e" "yr mod 400 = 100 * c + 4 * q + r"
      using p by (auto simp: yr_def intro!: int_div_pos_eq [where r = "100 * c + 4 * q + r"]
          int_mod_pos_eq [where q = e])
    show ?thesis using era_year_days [of yr] era_year_parts(3) [OF parts] unfolding k by simp
  qed
  then have "day_number y m dd = days"
    using d by (simp add: day_number_alt yr m(3) dd_def days_def)
  moreover have "t div 86400 * 86400 + h * 3600 + mi * 60 + s = t"
    using tod(1) div_mult_mod_eq [of t 86400] by linarith
  ultimately have "posix_time_from_utc y m dd h mi s = Some t"
    using date time by (simp add: posix_time_from_utc_eq days_def)
  with utc show ?thesis by (rule that)
qed

section \<open>The calendar\<close>

text \<open>The Gregorian calendar as a successor function on dates.\<close>

definition days_in_month :: "int \<Rightarrow> int \<Rightarrow> int" where
  "days_in_month y m =
     (if m = 2 then (if leap y then 29 else 28) else if m \<in> {4, 6, 9, 11} then 30 else 31)"

definition next_date :: "int \<Rightarrow> int \<Rightarrow> int \<Rightarrow> int \<times> int \<times> int" where
  "next_date y m d =
     (if d < days_in_month y m then (y, m, d + 1)
      else if m < 12 then (y, m + 1, 1) else (y + 1, 1, 1))"

lemma pred_div: "0 < n \<Longrightarrow> y div n = (y - 1) div n + (if y mod n = 0 then 1 else 0)" for y n :: int
proof -
  assume n: "0 < n"
  have y: "y = n * (y div n) + y mod n" "0 \<le> y mod n" "y mod n < n" using n by simp_all
  show ?thesis
  proof (cases "y mod n = 0")
    case True
    then have "(y - 1) div n = y div n - 1"
      using y n by (intro int_div_pos_eq [where r = "n - 1"]) (auto simp: algebra_simps)
    with True show ?thesis by simp
  next
    case False
    then have "(y - 1) div n = y div n"
      using y by (intro int_div_pos_eq [where r = "y mod n - 1"]) auto
    with False show ?thesis by simp
  qed
qed

lemma year_days_step: "year_days y = year_days (y - 1) + (if leap y then 366 else 365)"
proof -
  have m: "y mod 400 = 0 \<Longrightarrow> y mod 100 = 0" "y mod 100 = 0 \<Longrightarrow> y mod 4 = 0"
    using dvd_trans [of 100 400 y] dvd_trans [of 4 100 y] by (simp_all add: mod_eq_0_iff_dvd)
  have d: "y div n = (y - 1) div n + (if y mod n = 0 then 1 else 0)" if "0 < n" for n
    using that by (rule pred_div)
  have d4: "y div 4 = (y - 1) div 4 + (if y mod 4 = 0 then 1 else 0)"
    and d100: "y div 100 = (y - 1) div 100 + (if y mod 100 = 0 then 1 else 0)"
    and d400: "y div 400 = (y - 1) div 400 + (if y mod 400 = 0 then 1 else 0)"
    by (rule d; simp)+
  show ?thesis
    unfolding year_days_def leap_def d4 d100 d400
    using m by (cases "y mod 400 = 0"; cases "y mod 100 = 0"; cases "y mod 4 = 0") simp_all
qed

lemma is_valid_date_calendar:
  "is_valid_date y m d \<longleftrightarrow>
     0 \<le> y \<and> y \<le> 9999 \<and> 1 \<le> m \<and> m \<le> 12 \<and> 1 \<le> d \<and> d \<le> days_in_month y m"
proof -
  have "days_in_month y m = month_days (mar_month m + 1) - month_days (mar_month m)"
    if "m \<noteq> 2" "1 \<le> m" "m \<le> 12"
    using month_cases [OF that(2,3)] that(1)
    by (elim disjE) (simp_all add: days_in_month_def mar_month_def month_days_values)
  then show ?thesis unfolding is_valid_date_iff by (cases "m = 2") (auto simp: days_in_month_def)
qed

lemma day_number_next:
  assumes "is_valid_date y m d" and "next_date y m d = (y', m', d')"
  shows "day_number y' m' d' = day_number y m d + 1"
proof -
  have v: "1 \<le> m" "m \<le> 12" "1 \<le> d" "d \<le> days_in_month y m"
    using assms(1) by (auto simp: is_valid_date_calendar)
  show ?thesis
  proof (cases "d < days_in_month y m")
    case True
    with assms(2) show ?thesis by (auto simp: next_date_def day_number_def)
  next
    case False
    then have d: "d = days_in_month y m" using v by simp
    have "m = 1 \<or> m = 2 \<or> m = 3 \<or> m = 4 \<or> m = 5 \<or> m = 6 \<or> m = 7 \<or> m = 8 \<or> m = 9 \<or> m = 10 \<or>
        m = 11 \<or> m = 12"
      using month_cases v(1,2) by blast
    then show ?thesis
      using assms(2) False year_days_step [of y] unfolding next_date_def day_number_alt d
      by (elim disjE) (auto simp: days_in_month_def mar_month_def mar_year_def month_days_values)
  qed
qed

lemma next_date_valid:
  assumes "is_valid_date y m d" and "next_date y m d = (y', m', d')" and "y' \<le> 9999"
  shows "is_valid_date y' m' d'"
  using assms by (auto simp: is_valid_date_calendar next_date_def days_in_month_def split: if_splits)

section \<open>Broken-down time\<close>

lemma store_utc_fields:
  "posix_time_from_utc y m d h mi s = Some t \<Longrightarrow>
   OPENSSL_tm_to_posix (store_utc (y, m, d, h, mi, s)) = Ret (Some t)"
  by (auto simp: OPENSSL_tm_to_posix_def store_utc_def tm_sums_defined_def INT_MAX_def
      posix_time_from_utc_eq is_valid_date_calendar split: if_splits)

lemma tm_of_posix:
  assumes "is_valid_epoch_time t"
  obtains u where "utc_from_posix_time t = Some u" and "OPENSSL_tm_to_posix (store_utc u) = Ret (Some t)"
  using posix_of_utc [OF assms] store_utc_fields by metis

lemma posix_of_tm:
  assumes "OPENSSL_tm_to_posix tm = Ret (Some t)"
  obtains u where "is_valid_epoch_time t" and "utc_from_posix_time t = Some u" and "store_utc u = tm"
proof -
  have eq: "posix_time_from_utc (tm_year tm + 1900) (tm_mon tm + 1) (tm_mday tm)
      (tm_hour tm) (tm_min tm) (tm_sec tm) = Some t"
    using assms by (auto simp: OPENSSL_tm_to_posix_def split: if_splits)
  show ?thesis
    by (rule that [OF utc_of_posix [OF eq]]) (simp add: store_utc_def)
qed

lemma valid_epoch_range: "is_valid_epoch_time t \<Longrightarrow> - 62167219200 \<le> t \<and> t \<le> 253402300799"
  by (simp add: is_valid_epoch_time_def)

lemma posix_to_tm_iff:
  "OPENSSL_posix_to_tm t = (True, tm) \<longleftrightarrow> OPENSSL_tm_to_posix tm = Ret (Some t)"
proof
  assume to: "OPENSSL_posix_to_tm t = (True, tm)"
  then obtain u where u: "utc_from_posix_time t = Some u" "tm = store_utc u"
    by (auto simp: OPENSSL_posix_to_tm_def split: option.splits)
  then have "is_valid_epoch_time t"
    by (auto simp: utc_from_posix_time_def split: if_splits)
  with u show "OPENSSL_tm_to_posix tm = Ret (Some t)" by (metis tm_of_posix option.inject)
next
  assume "OPENSSL_tm_to_posix tm = Ret (Some t)"
  then show "OPENSSL_posix_to_tm t = (True, tm)"
    by (rule posix_of_tm) (simp add: OPENSSL_posix_to_tm_def)
qed

lemma gmtime_adj_eq:
  assumes "OPENSSL_tm_to_posix tm = Ret (Some t)"
    and "fits_int64 (t + off_day * 86400)" and "fits_int64 (t + off_day * 86400 + off_sec)"
  shows "OPENSSL_gmtime_adj tm off_day off_sec =
     Ret (case OPENSSL_posix_to_tm (t + off_day * 86400 + off_sec) of
            (True, tm') \<Rightarrow> (True, tm') | (False, _) \<Rightarrow> (False, tm))"
  using assms
  by (simp add: OPENSSL_gmtime_adj_def OPENSSL_posix_to_tm_def SECS_PER_DAY_def SECS_PER_HOUR_def
      split: option.splits)

section \<open>Properties\<close>

text \<open>
  C26: The two conversions are inverse. A broken-down time and a second count correspond
  under \<open>OPENSSL_tm_to_posix\<close> exactly when they do under \<open>OPENSSL_posix_to_tm\<close>: every
  valid \<open>struct tm\<close> comes back field by field, every time the latter converts is
  converted back to the same second, and neither accepts what the other rejects.
\<close>

theorem posix_tm_inverse:
  "OPENSSL_posix_to_tm t = (True, tm) \<longleftrightarrow> OPENSSL_tm_to_posix tm = Ret (Some t)"
  by (rule posix_to_tm_iff)

text \<open>
  C27: The seconds follow the Gregorian calendar. From a valid date the next date of the
  calendar (leap years by the rules of 4, 100 and 400) is exactly 86400 seconds later,
  at every time of day, across months, years, centuries and the eras of the algorithm;
  with the epoch at 0 (the second part) this fixes every value the function returns.
\<close>

theorem posix_time_follows_calendar:
  assumes "is_valid_date y m d" and "is_valid_time h mi s"
    and "next_date y m d = (y', m', d')" and "y' \<le> 9999"
  shows "(\<exists>t. posix_time_from_utc y m d h mi s = Some t \<and>
      posix_time_from_utc y' m' d' h mi s = Some (t + 86400)) \<and>
    posix_time_from_utc 1970 1 1 0 0 0 = Some 0"
proof -
  have "posix_time_from_utc 1970 1 1 0 0 0 = Some 0" by code_simp
  then show ?thesis
    using assms next_date_valid [OF assms(1,3,4)] day_number_next [OF assms(1,3)]
    by (simp add: posix_time_from_utc_eq)
qed

lemma posix_time_follows_calendar_witness:
  "(\<exists>t. posix_time_from_utc 2000 2 29 23 59 59 = Some t \<and>
      posix_time_from_utc 2000 3 1 23 59 59 = Some (t + 86400)) \<and>
    posix_time_from_utc 1970 1 1 0 0 0 = Some 0"
proof -
  have "is_valid_date 2000 2 29" and "is_valid_time 23 59 59" and "next_date 2000 2 29 = (2000, 3, 1)"
    by code_simp+
  then show ?thesis by (rule posix_time_follows_calendar) simp
qed

text \<open>
  C28: Adjusting and taking differences. Between any two valid times
  \<open>OPENSSL_gmtime_diff\<close> succeeds; its days and seconds have the sign of the difference,
  fewer than a day of seconds is left, and \<open>OPENSSL_gmtime_adj\<close> by them takes the first
  time to the second.
\<close>

theorem gmtime_diff_adj:
  assumes "OPENSSL_tm_to_posix from_tm = Ret (Some t1)" and "OPENSSL_tm_to_posix to_tm = Ret (Some t2)"
  shows "\<exists>days secs. OPENSSL_gmtime_diff from_tm to_tm = Ret (Some (days, secs)) \<and>
     t2 = t1 + days * 86400 + secs \<and> \<bar>secs\<bar> < 86400 \<and>
     (t1 \<le> t2 \<longrightarrow> 0 \<le> days \<and> 0 \<le> secs) \<and> (t2 \<le> t1 \<longrightarrow> days \<le> 0 \<and> secs \<le> 0) \<and>
     OPENSSL_gmtime_adj from_tm days secs = Ret (True, to_tm)"
proof -
  define diff where "diff = t2 - t1"
  define days where "days = diff sdiv 86400"
  define secs where "secs = diff smod 86400"
  have v: "- 62167219200 \<le> t1" "t1 \<le> 253402300799" "- 62167219200 \<le> t2" "t2 \<le> 253402300799"
    using assms posix_of_tm valid_epoch_range by metis+
  have eq: "days * 86400 + secs = diff"
    unfolding days_def secs_def by (rule sdiv_mult_smod_eq)
  have sgn: "0 \<le> diff \<Longrightarrow> 0 \<le> days \<and> 0 \<le> secs \<and> secs < 86400"
    by (auto simp: days_def secs_def sdiv_nonneg smod_nonneg pos_imp_zdiv_nonneg_iff)
  have sgn': "diff \<le> 0 \<Longrightarrow> days \<le> 0 \<and> - 86400 < secs \<and> secs \<le> 0"
    using smod_nonpos [of diff 86400] eq by (auto simp: secs_def)
  have rng: "- 4000000 \<le> days" "days \<le> 4000000"
    using v eq sgn sgn' unfolding diff_def by (cases "t1 \<le> t2"; simp)+
  have "OPENSSL_gmtime_diff from_tm to_tm = Ret (Some (days, secs))"
    using assms rng by (simp add: OPENSSL_gmtime_diff_def SECS_PER_DAY_def SECS_PER_HOUR_def
        diff_def days_def secs_def INT_MAX_def INT_MIN_def Let_def)
  moreover have "t1 + days * 86400 + secs = t2" using eq by (simp add: diff_def)
  moreover have "OPENSSL_gmtime_adj from_tm days secs = Ret (True, to_tm)"
    using gmtime_adj_eq [OF assms(1), of days secs] posix_to_tm_iff [of t2 to_tm] assms(2) v rng
      \<open>t1 + days * 86400 + secs = t2\<close> by (simp add: fits_int64_def)
  moreover have "\<bar>secs\<bar> < 86400" using sgn sgn' by (cases "0 \<le> diff") auto
  ultimately show ?thesis using sgn sgn' by (auto simp: diff_def)
qed

lemma gmtime_diff_adj_witness:
  "\<exists>days secs. OPENSSL_gmtime_diff (store_utc (1999, 12, 31, 23, 59, 59)) (store_utc (2024, 2, 29, 0, 0, 0)) =
       Ret (Some (days, secs)) \<and>
     1709164800 = 946684799 + days * 86400 + secs \<and> \<bar>secs\<bar> < 86400 \<and> 0 \<le> days \<and> 0 \<le> secs \<and>
     OPENSSL_gmtime_adj (store_utc (1999, 12, 31, 23, 59, 59)) days secs =
       Ret (True, store_utc (2024, 2, 29, 0, 0, 0))"
proof -
  have "OPENSSL_tm_to_posix (store_utc (1999, 12, 31, 23, 59, 59)) = Ret (Some 946684799)"
    and "OPENSSL_tm_to_posix (store_utc (2024, 2, 29, 0, 0, 0)) = Ret (Some 1709164800)"
    by code_simp+
  from gmtime_diff_adj [OF this] show ?thesis by simp
qed

text \<open>
  C29: The adjustment can leave \<open>int64_t\<close>. The code adds \<open>offset_sec\<close> without a check, so
  for a valid time after the epoch an offset near \<open>LONG_MAX\<close> is a signed overflow, which
  C leaves undefined, where a failing return was meant; an offset of at most \<open>2 ^ 62\<close>
  never does this, whatever the day offset.
\<close>

theorem gmtime_adj_overflow:
  assumes "OPENSSL_tm_to_posix tm = Ret (Some t)" and "INT_MIN \<le> off_day" and "off_day \<le> INT_MAX"
  shows "(0 < t \<longrightarrow> OPENSSL_gmtime_adj tm 0 (2 ^ 63 - 1) = Undef) \<and>
    (\<bar>off_sec\<bar> \<le> 2 ^ 62 \<longrightarrow> OPENSSL_gmtime_adj tm off_day off_sec =
      Ret (case OPENSSL_posix_to_tm (t + off_day * 86400 + off_sec) of
            (True, tm') \<Rightarrow> (True, tm') | (False, _) \<Rightarrow> (False, tm)))"
proof (intro conjI impI)
  have v: "- 62167219200 \<le> t" "t \<le> 253402300799"
    using assms(1) posix_of_tm valid_epoch_range by metis+
  show "OPENSSL_gmtime_adj tm 0 (2 ^ 63 - 1) = Undef" if "0 < t"
    using that assms(1) by (simp add: OPENSSL_gmtime_adj_def fits_int64_def)
  show "OPENSSL_gmtime_adj tm off_day off_sec =
      Ret (case OPENSSL_posix_to_tm (t + off_day * 86400 + off_sec) of
            (True, tm') \<Rightarrow> (True, tm') | (False, _) \<Rightarrow> (False, tm))" if "\<bar>off_sec\<bar> \<le> 2 ^ 62"
    using that v assms(2,3)
    by (intro gmtime_adj_eq assms(1)) (auto simp: fits_int64_def INT_MIN_def INT_MAX_def)
qed

lemma gmtime_adj_overflow_witness:
  "OPENSSL_gmtime_adj (store_utc (1970, 1, 1, 0, 0, 1)) 0 (2 ^ 63 - 1) = Undef \<and>
   OPENSSL_gmtime_adj (store_utc (1970, 1, 1, 0, 0, 1)) 1 60 =
      Ret (case OPENSSL_posix_to_tm (1 + 1 * 86400 + 60) of
            (True, tm') \<Rightarrow> (True, tm')
          | (False, _) \<Rightarrow> (False, store_utc (1970, 1, 1, 0, 0, 1)))"
proof -
  have "OPENSSL_tm_to_posix (store_utc (1970, 1, 1, 0, 0, 1)) = Ret (Some 1)"
    by code_simp
  moreover have "INT_MIN \<le> 1" "1 \<le> INT_MAX" by (simp_all add: INT_MIN_def INT_MAX_def)
  ultimately have w: "((0 :: int) < 1 \<longrightarrow> OPENSSL_gmtime_adj (store_utc (1970, 1, 1, 0, 0, 1)) 0 (2 ^ 63 - 1) = Undef) \<and>
    (\<bar>60 :: int\<bar> \<le> 2 ^ 62 \<longrightarrow> OPENSSL_gmtime_adj (store_utc (1970, 1, 1, 0, 0, 1)) 1 60 =
      Ret (case OPENSSL_posix_to_tm (1 + 1 * 86400 + 60) of
            (True, tm') \<Rightarrow> (True, tm')
          | (False, _) \<Rightarrow> (False, store_utc (1970, 1, 1, 0, 0, 1))))"
    by (rule gmtime_adj_overflow)
  show ?thesis
    by (intro conjI w [THEN conjunct1, THEN mp] w [THEN conjunct2, THEN mp]) simp_all
qed

end
