(* ===== verification/Cbs_Time.thy ===== *)
theory Cbs_Time
  imports Cbs Posix_Time
begin

text \<open>
  The UTCTime and GeneralizedTime parser of \<open>crypto/bytestring/cbs.c\<close>. Without time zone
  offsets it is shown to accept exactly the RFC 5280 forms; with them, the result is the
  written time moved by the offset.
\<close>

section \<open>Operations\<close>

definition cbs_get_two_digits :: "int rd" where
  "cbs_get_two_digits =
     rd_bind CBS_get_u8 (\<lambda>first_digit.
       if \<not> OPENSSL_isdigit first_digit then rd_fail
       else rd_bind CBS_get_u8 (\<lambda>second_digit.
         if \<not> OPENSSL_isdigit second_digit then rd_fail
         else rd_return ((int (unat first_digit) - 0x30) * 10 + (int (unat second_digit) - 0x30))))"

definition is_valid_day :: "int \<Rightarrow> int \<Rightarrow> int \<Rightarrow> bool" where
  "is_valid_day year month day =
     (if day < 1 then False
      else if month \<in> {1, 3, 5, 7, 8, 10, 12} then day \<le> 31
      else if month \<in> {4, 6, 9, 11} then day \<le> 30
      else if month = 2 then
        (if (year smod 4 = 0 \<and> year smod 100 \<noteq> 0) \<or> year smod 400 = 0 then day \<le> 29 else day \<le> 28)
      else False)"

definition parse_year :: "bool \<Rightarrow> int rd" where
  "parse_year is_gentime =
     (if is_gentime then
        rd_bind cbs_get_two_digits (\<lambda>tmp1. rd_bind cbs_get_two_digits (\<lambda>tmp2.
          rd_return (tmp1 * 100 + tmp2)))
      else
        rd_bind cbs_get_two_digits (\<lambda>tmp.
          let year = 1900 + tmp;
              year = (if year < 1950 then year + 100 else year)
          in if 2050 \<le> year then rd_fail else rd_return year))"

text \<open>The fields before the time zone, each checked when it is read.\<close>

definition parse_fields :: "bool \<Rightarrow> date_time rd" where
  "parse_fields is_gentime =
     rd_bind (parse_year is_gentime) (\<lambda>year.
     rd_bind cbs_get_two_digits (\<lambda>month. if month < 1 \<or> 12 < month then rd_fail else
     rd_bind cbs_get_two_digits (\<lambda>day. if \<not> is_valid_day year month day then rd_fail else
     rd_bind cbs_get_two_digits (\<lambda>hour. if 23 < hour then rd_fail else
     rd_bind cbs_get_two_digits (\<lambda>min. if 59 < min then rd_fail else
     rd_bind cbs_get_two_digits (\<lambda>sec. if 59 < sec then rd_fail else
     rd_return (year, month, day, hour, min, sec)))))))"

text \<open>The time zone: \<open>Z\<close>, or a signed offset where offsets are allowed.\<close>

definition parse_zone :: "bool \<Rightarrow> int rd" where
  "parse_zone allow_timezone_offset =
     rd_bind CBS_get_u8 (\<lambda>tz.
       if tz \<noteq> 0x5a \<and> tz \<noteq> 0x2b \<and> tz \<noteq> 0x2d then rd_fail
       else let offset_sign = (if tz = 0x5a then 0 else if tz = 0x2b then 1 else - 1)
            in if offset_sign \<noteq> 0 then
                 if \<not> allow_timezone_offset then rd_fail
                 else rd_bind cbs_get_two_digits (\<lambda>offset_hours. if 23 < offset_hours then rd_fail else
                      rd_bind cbs_get_two_digits (\<lambda>offset_minutes. if 59 < offset_minutes then rd_fail else
                      rd_return (offset_sign * (offset_hours * 3600 + offset_minutes * 60))))
               else rd_return 0)"

text \<open>
  \<open>out_tm\<close> is \<open>None\<close> for a NULL argument. The result has the return value and \<open>*out_tm\<close>
  afterwards, which a failing adjustment leaves filled in.
\<close>

definition CBS_parse_rfc5280_time_internal ::
    "bytes \<Rightarrow> bool \<Rightarrow> bool \<Rightarrow> tm option \<Rightarrow> (bool \<times> tm option) c_outcome" where
  "CBS_parse_rfc5280_time_internal cbs is_gentime allow_timezone_offset out_tm =
     (case rd_bind (parse_fields is_gentime) (\<lambda>f.
             rd_bind (parse_zone allow_timezone_offset) (\<lambda>offset_seconds.
               rd_return (f, offset_seconds))) cbs of
        (None, _) \<Rightarrow> Ret (False, out_tm)
      | (Some (f, offset_seconds), copy) \<Rightarrow>
          if length copy \<noteq> 0 then Ret (False, out_tm)
          else (case out_tm of
                  None \<Rightarrow> Ret (True, None)
                | Some _ \<Rightarrow>
                    if offset_seconds = 0 then Ret (True, Some (store_utc f))
                    else (case OPENSSL_gmtime_adj (store_utc f) 0 offset_seconds of
                            Undef \<Rightarrow> Undef
                          | Ret (ok, tm) \<Rightarrow> Ret (ok, Some tm))))"

definition CBS_parse_generalized_time :: "bytes \<Rightarrow> tm option \<Rightarrow> bool \<Rightarrow> (bool \<times> tm option) c_outcome" where
  "CBS_parse_generalized_time cbs out_tm allow_timezone_offset =
     CBS_parse_rfc5280_time_internal cbs True allow_timezone_offset out_tm"

definition CBS_parse_utc_time :: "bytes \<Rightarrow> tm option \<Rightarrow> bool \<Rightarrow> (bool \<times> tm option) c_outcome" where
  "CBS_parse_utc_time cbs out_tm allow_timezone_offset =
     CBS_parse_rfc5280_time_internal cbs False allow_timezone_offset out_tm"

section \<open>Two digits\<close>

definition two_digits :: "int \<Rightarrow> bytes" where
  "two_digits n = [word_of_nat (48 + nat n div 10), word_of_nat (48 + nat n mod 10)]"

lemma isdigit_iff: "OPENSSL_isdigit c \<longleftrightarrow> 48 \<le> unat c \<and> unat c \<le> 57"
  by (simp add: OPENSSL_isdigit_def word_le_nat_alt)

lemma cbs_get_two_digits_eq_Some:
  "cbs_get_two_digits s = (Some n, r) \<longleftrightarrow> 0 \<le> n \<and> n < 100 \<and> s = two_digits n @ r"
proof
  assume "cbs_get_two_digits s = (Some n, r)"
  then obtain a b where s: "s = a # b # r" and d: "48 \<le> unat a" "unat a \<le> 57" "48 \<le> unat b" "unat b \<le> 57"
    and n: "n = (int (unat a) - 48) * 10 + (int (unat b) - 48)"
    by (auto simp: cbs_get_two_digits_def rd_bind_eq_Some CBS_get_u8_eq_Some isdigit_iff split: if_splits)
  obtain i j where ij: "unat a = 48 + i" "unat b = 48 + j" using d by (metis le_Suc_ex)
  have k: "nat n = (unat a - 48) * 10 + (unat b - 48)"
    using n unfolding ij by simp
  have "nat n = i * 10 + j" "j < 10" using k ij d by simp_all
  then have "nat n div 10 = unat a - 48" "nat n mod 10 = unat b - 48"
    using ij by simp_all
  then have "two_digits n = [a, b]"
    using d unfolding two_digits_def by (simp only: le_add_diff_inverse word_of_nat_unat_id)
  moreover have "0 \<le> n" "n < 100" using n d unfolding ij by simp_all
  ultimately show "0 \<le> n \<and> n < 100 \<and> s = two_digits n @ r" using s by simp
next
  assume n: "0 \<le> n \<and> n < 100 \<and> s = two_digits n @ r"
  define a :: u8 where "a = word_of_nat (48 + nat n div 10)"
  define b :: u8 where "b = word_of_nat (48 + nat n mod 10)"
  have "nat n < 100" using n by (simp add: nat_less_iff)
  then have "nat n div 10 < 10" by (simp add: div_less_iff_less_mult)
  then have a: "unat a = 48 + nat n div 10" and "nat n div 10 \<le> 9"
    unfolding a_def by (simp_all add: unat_word_of_nat_less del: of_nat_add)
  have "nat n mod 10 < 10" by simp
  then have b: "unat b = 48 + nat n mod 10" and "nat n mod 10 \<le> 9"
    unfolding b_def by (simp_all add: unat_word_of_nat_less del: of_nat_add)
  have "int (nat n div 10) * 10 + int (nat n mod 10) = n"
    using n div_mult_mod_eq [of "nat n" 10] by (metis int_nat_eq of_nat_add of_nat_mult of_nat_numeral)
  moreover have "s = a # b # r" using n by (simp add: two_digits_def a_def b_def)
  ultimately show "cbs_get_two_digits s = (Some n, r)"
    using a b \<open>nat n div 10 \<le> 9\<close> \<open>nat n mod 10 \<le> 9\<close>
    by (simp add: cbs_get_two_digits_def rd_bind_def isdigit_iff)
qed

interpretation two_digits_codec: canonical_codec two_digits cbs_get_two_digits "\<lambda>n. 0 \<le> n \<and> n < 100"
  by unfold_locales (auto simp: cbs_get_two_digits_eq_Some)

section \<open>The written forms\<close>

definition written_year :: "bool \<Rightarrow> int \<Rightarrow> bytes" where
  "written_year is_gentime y =
     (if is_gentime then two_digits (y div 100) @ two_digits (y mod 100) else two_digits (y mod 100))"

definition written_fields :: "bool \<Rightarrow> date_time \<Rightarrow> bytes" where
  "written_fields is_gentime = (\<lambda>(y, m, d, h, mi, s).
     written_year is_gentime y @ two_digits m @ two_digits d @ two_digits h @ two_digits mi @ two_digits s)"

definition valid_fields :: "bool \<Rightarrow> date_time \<Rightarrow> bool" where
  "valid_fields is_gentime = (\<lambda>(y, m, d, h, mi, s).
     is_valid_date y m d \<and> is_valid_time h mi s \<and> (is_gentime \<or> (1950 \<le> y \<and> y < 2050)))"

lemma is_valid_day_iff:
  "0 \<le> y \<Longrightarrow> y \<le> 9999 \<Longrightarrow> 1 \<le> m \<Longrightarrow> m \<le> 12 \<Longrightarrow> is_valid_day y m d \<longleftrightarrow> is_valid_date y m d"
  unfolding is_valid_day_def is_valid_date_def by (simp only: not_less [symmetric]) auto

lemma parse_year_eq_Some:
  "parse_year g s = (Some y, r) \<longleftrightarrow>
     0 \<le> y \<and> y \<le> 9999 \<and> (g \<or> (1950 \<le> y \<and> y < 2050)) \<and> s = written_year g y @ r"
proof (cases g)
  case True
  show ?thesis
  proof
    assume "parse_year g s = (Some y, r)"
    then obtain a b where "0 \<le> a" "a < 100" "0 \<le> b" "b < 100" "s = two_digits a @ two_digits b @ r" "y = a * 100 + b"
      using True by (auto simp: parse_year_def rd_bind_eq_Some cbs_get_two_digits_eq_Some)
    then show "0 \<le> y \<and> y \<le> 9999 \<and> (g \<or> (1950 \<le> y \<and> y < 2050)) \<and> s = written_year g y @ r"
      using True by (simp add: written_year_def)
  next
    assume y: "0 \<le> y \<and> y \<le> 9999 \<and> (g \<or> (1950 \<le> y \<and> y < 2050)) \<and> s = written_year g y @ r"
    then have "y = 100 * (y div 100) + y mod 100" "0 \<le> y mod 100" "y mod 100 < 100" "0 \<le> y" "y \<le> 9999"
      by simp_all
    then have "0 \<le> y div 100" "y div 100 < 100" by linarith+
    then have "cbs_get_two_digits (two_digits (y div 100) @ two_digits (y mod 100) @ r) =
        (Some (y div 100), two_digits (y mod 100) @ r)"
      and "cbs_get_two_digits (two_digits (y mod 100) @ r) = (Some (y mod 100), r)"
      by (simp_all add: two_digits_codec.dec_enc)
    with y True show "parse_year g s = (Some y, r)"
      by (simp add: parse_year_def rd_bind_def written_year_def)
  qed
next
  case False
  show ?thesis
  proof
    assume "parse_year g s = (Some y, r)"
    then obtain a where a: "0 \<le> a" "a < 100" "s = two_digits a @ r"
        "y = 100 * 20 + a \<and> a < 50 \<or> y = 100 * 19 + a \<and> 50 \<le> a"
      using False by (fastforce simp: parse_year_def rd_bind_eq_Some cbs_get_two_digits_eq_Some Let_def split: if_splits)
    moreover have "y mod 100 = a"
      using a int_mod_pos_eq [of y 100 20 a] int_mod_pos_eq [of y 100 19 a] by auto
    ultimately show "0 \<le> y \<and> y \<le> 9999 \<and> (g \<or> (1950 \<le> y \<and> y < 2050)) \<and> s = written_year g y @ r"
      using False by (auto simp: written_year_def)
  next
    assume y: "0 \<le> y \<and> y \<le> 9999 \<and> (g \<or> (1950 \<le> y \<and> y < 2050)) \<and> s = written_year g y @ r"
    then have rng: "1950 \<le> y" "y < 2050" "s = two_digits (y mod 100) @ r"
      using False by (auto simp: written_year_def)
    define a where "a = (if 2000 \<le> y then y - 2000 else y - 1900)"
    have a: "y mod 100 = a"
      using rng by (intro int_mod_pos_eq [where q = "if 2000 \<le> y then 20 else 19"]) (auto simp: a_def)
    have "0 \<le> a" "a < 100" "y = (if 1900 + a < 1950 then 1900 + a + 100 else 1900 + a)"
      using rng by (auto simp: a_def)
    then have "cbs_get_two_digits s = (Some a, r)"
      using rng(3) a by (simp add: cbs_get_two_digits_eq_Some)
    with False rng \<open>y = _\<close> show "parse_year g s = (Some y, r)"
      by (simp add: parse_year_def rd_bind_def Let_def)
  qed
qed

lemma two_digits_step:
  "rd_bind cbs_get_two_digits f s = (Some x, r) \<longleftrightarrow>
     (\<exists>n s'. 0 \<le> n \<and> n < 100 \<and> s = two_digits n @ s' \<and> f n s' = (Some x, r))"
  by (auto simp: rd_bind_eq_Some cbs_get_two_digits_eq_Some)

lemma guard_step: "(if b then rd_fail else m) s = (Some x, r) \<longleftrightarrow> \<not> b \<and> m s = (Some x, r)"
  by simp

lemma parse_fields_eq_Some:
  "parse_fields g s = (Some f, r) \<longleftrightarrow> valid_fields g f \<and> s = written_fields g f @ r"
proof -
  obtain y m d h mi sec where f: "f = (y, m, d, h, mi, sec)" by (metis prod_cases6)
  have "parse_fields g s = (Some f, r) \<longleftrightarrow>
    0 \<le> y \<and> y \<le> 9999 \<and> (g \<or> (1950 \<le> y \<and> y < 2050)) \<and> 0 \<le> m \<and> m < 100 \<and> \<not> (m < 1 \<or> 12 < m) \<and>
    0 \<le> d \<and> d < 100 \<and> is_valid_day y m d \<and> 0 \<le> h \<and> h < 100 \<and> \<not> 23 < h \<and>
    0 \<le> mi \<and> mi < 100 \<and> \<not> 59 < mi \<and> 0 \<le> sec \<and> sec < 100 \<and> \<not> 59 < sec \<and>
    s = written_fields g f @ r" (is "_ \<longleftrightarrow> ?spec")
  proof
    assume "parse_fields g s = (Some f, r)"
    then show ?spec
      unfolding parse_fields_def rd_bind_eq_Some [of "parse_year g"] parse_year_eq_Some two_digits_step guard_step
        rd_return_apply written_fields_def f prod.inject option.inject prod.case append_assoc
      by (elim exE conjE) simp
  next
    assume spec: ?spec
    then have "parse_year g s = (Some y, two_digits m @ two_digits d @ two_digits h @ two_digits mi @ two_digits sec @ r)"
      unfolding parse_year_eq_Some written_fields_def f by simp
    with spec show "parse_fields g s = (Some f, r)"
      by (simp add: parse_fields_def rd_bind_def f two_digits_codec.dec_enc)
  qed
  also have "\<dots> \<longleftrightarrow> valid_fields g f \<and> s = written_fields g f @ r"
  proof -
    have "d \<le> 31" if "is_valid_day y m d"
      using that by (auto simp: is_valid_day_def split: if_splits)
    then show ?thesis
      using is_valid_day_iff [of y m d]
      by (auto simp: valid_fields_def f is_valid_time_def is_valid_date_calendar split: if_splits)
  qed
  finally show ?thesis .
qed

interpretation generalized_fields_codec:
  canonical_codec "written_fields True" "parse_fields True" "valid_fields True"
  by unfold_locales (auto simp: parse_fields_eq_Some)

interpretation utc_fields_codec:
  canonical_codec "written_fields False" "parse_fields False" "valid_fields False"
  by unfold_locales (auto simp: parse_fields_eq_Some)

text \<open>The zone: \<open>Z\<close>, or a sign and an offset below a day.\<close>

definition written_offset :: "bool \<Rightarrow> int \<Rightarrow> int \<Rightarrow> bytes" where
  "written_offset west hours minutes = (if west then 0x2d else 0x2b) # two_digits hours @ two_digits minutes"

lemma parse_zone_eq_Some:
  "parse_zone allow s = (Some off, r) \<longleftrightarrow>
     (s = 0x5a # r \<and> off = 0) \<or>
     (allow \<and> (\<exists>west h m. 0 \<le> h \<and> h \<le> 23 \<and> 0 \<le> m \<and> m \<le> 59 \<and>
        s = written_offset west h m @ r \<and> off = (if west then - 1 else 1) * (h * 3600 + m * 60)))"
    (is "_ \<longleftrightarrow> ?spec")
proof
  assume "parse_zone allow s = (Some off, r)"
  then obtain tz s' where s: "s = tz # s'" and rest: "parse_zone allow (tz # s') = (Some off, r)"
    by (cases s) (auto simp: parse_zone_def rd_bind_def)
  from rest have tz: "tz = 0x5a \<or> tz = 0x2b \<or> tz = 0x2d" and z: "tz = 0x5a \<Longrightarrow> off = 0 \<and> s' = r"
    by (auto simp: parse_zone_def rd_bind_def [of CBS_get_u8] Let_def split: if_splits)
  have o: "allow \<and> (\<exists>h m. 0 \<le> h \<and> h \<le> 23 \<and> 0 \<le> m \<and> m \<le> 59 \<and>
       s' = two_digits h @ two_digits m @ r \<and> off = (if tz = 0x2b then 1 else - 1) * (h * 3600 + m * 60))"
    if "tz \<noteq> 0x5a"
  proof -
    have "allow" and "rd_bind cbs_get_two_digits (\<lambda>offset_hours. if 23 < offset_hours then rd_fail else
        rd_bind cbs_get_two_digits (\<lambda>offset_minutes. if 59 < offset_minutes then rd_fail else
        rd_return ((if tz = 0x2b then 1 else - 1) * (offset_hours * 3600 + offset_minutes * 60)))) s' = (Some off, r)"
      using rest that tz by (auto simp: parse_zone_def rd_bind_def [of CBS_get_u8] Let_def split: if_splits)
    then show ?thesis unfolding two_digits_step guard_step by (auto simp: not_less)
  qed
  show ?spec
  proof (cases "tz = 0x5a")
    case True
    with s z show ?thesis by simp
  next
    case False
    with o obtain h m where "allow" "0 \<le> h" "h \<le> 23" "0 \<le> m" "m \<le> 59" "s' = two_digits h @ two_digits m @ r"
      "off = (if tz = 0x2b then 1 else - 1) * (h * 3600 + m * 60)" by blast
    with False s tz show ?thesis
      by (intro disjI2 conjI exI [of _ "tz = 0x2d"] exI [of _ h] exI [of _ m]) (auto simp: written_offset_def)
  qed
next
  assume ?spec
  then show "parse_zone allow s = (Some off, r)"
    by (auto simp: parse_zone_def rd_bind_def written_offset_def two_digits_codec.dec_enc Let_def)
qed

section \<open>The parser\<close>

lemma rfc5280_reject:
  assumes "\<And>f z off. valid_fields g f \<Longrightarrow> s = written_fields g f @ z \<Longrightarrow> parse_zone allow z \<noteq> (Some off, [])"
  shows "CBS_parse_rfc5280_time_internal s g allow (Some t0) = Ret (False, Some t0)"
proof -
  obtain res copy where eq: "rd_bind (parse_fields g) (\<lambda>f. rd_bind (parse_zone allow)
      (\<lambda>off. rd_return (f, off))) s = (res, copy)" by (rule prod.exhaust)
  show ?thesis
  proof (cases res)
    case None
    with eq show ?thesis by (simp add: CBS_parse_rfc5280_time_internal_def)
  next
    case (Some x)
    then obtain f off s' where "parse_fields g s = (Some f, s')" "parse_zone allow s' = (Some off, copy)"
      using eq by (auto simp: rd_bind_eq_Some)
    then have "copy \<noteq> []" using assms parse_fields_eq_Some by metis
    with eq Some show ?thesis by (auto simp: CBS_parse_rfc5280_time_internal_def split: prod.splits)
  qed
qed

lemma rfc5280_written:
  assumes f: "valid_fields g f" and z: "parse_zone allow z = (Some off, [])"
  shows "CBS_parse_rfc5280_time_internal (written_fields g f @ z) g allow (Some t0) =
     (if off = 0 then Ret (True, Some (store_utc f))
      else case OPENSSL_gmtime_adj (store_utc f) 0 off of
             Undef \<Rightarrow> Undef | Ret (ok, tm) \<Rightarrow> Ret (ok, Some tm))"
proof -
  have "parse_fields g (written_fields g f @ z) = (Some f, z)"
    using f by (simp add: parse_fields_eq_Some)
  with z show ?thesis by (simp add: CBS_parse_rfc5280_time_internal_def rd_bind_def)
qed

lemma valid_fields_time:
  assumes "valid_fields g f"
  obtains t where "OPENSSL_tm_to_posix (store_utc f) = Ret (Some t)"
proof -
  obtain y m d h mi s where f: "f = (y, m, d, h, mi, s)" by (metis prod_cases6)
  then have "posix_time_from_utc y m d h mi s \<noteq> None"
    using assms by (simp add: valid_fields_def posix_time_from_utc_eq)
  then show ?thesis using that store_utc_fields f by blast
qed

lemma adjusted_by_offset:
  assumes "OPENSSL_tm_to_posix tm = Ret (Some t)" and "\<bar>off\<bar> \<le> 86400"
  shows "OPENSSL_gmtime_adj tm 0 off =
    Ret (case OPENSSL_posix_to_tm (t + off) of (True, tm') \<Rightarrow> (True, tm') | (False, _) \<Rightarrow> (False, tm))"
proof -
  have "- 62167219200 \<le> t" "t \<le> 253402300799"
    using assms(1) posix_of_tm valid_epoch_range by metis+
  then have "fits_int64 (t + 0 * 86400)" "fits_int64 (t + 0 * 86400 + off)"
    using assms(2) by (simp_all add: fits_int64_def abs_le_iff)
  from gmtime_adj_eq [OF assms(1) this] show ?thesis by simp
qed

section \<open>Properties\<close>

text \<open>
  C30: RFC 5280 times. Without time zone offsets the two parsers accept exactly the forms
  YYYYMMDDHHMMSSZ and, for 1950 to 2049, YYMMDDHHMMSSZ of a valid date and time, store
  that date and time, and on every other input leave the caller's \<open>struct tm\<close> alone.
\<close>

theorem rfc5280_time_exact:
  "CBS_parse_rfc5280_time_internal s g False (Some t0) = Ret (ok, Some tm) \<longleftrightarrow>
     (if \<exists>f. valid_fields g f \<and> s = written_fields g f @ [0x5a]
      then ok \<and> (\<exists>f. valid_fields g f \<and> s = written_fields g f @ [0x5a] \<and> tm = store_utc f)
      else \<not> ok \<and> tm = t0)"
proof (cases "\<exists>f. valid_fields g f \<and> s = written_fields g f @ [0x5a]")
  case True
  then obtain f where f: "valid_fields g f" "s = written_fields g f @ [0x5a]" by blast
  have z: "parse_zone False [0x5a] = (Some 0, [])" by (simp add: parse_zone_eq_Some)
  have uniq: "f' = f" if "valid_fields g f'" "s = written_fields g f' @ [0x5a]" for f'
    using f that parse_fields_eq_Some by (metis option.inject prod.inject)
  have "CBS_parse_rfc5280_time_internal s g False (Some t0) = Ret (True, Some (store_utc f))"
    using rfc5280_written [OF f(1) z] f(2) by simp
  moreover have "(\<exists>f'. valid_fields g f' \<and> s = written_fields g f' @ [0x5a] \<and> tm = store_utc f') \<longleftrightarrow>
      tm = store_utc f"
    using f uniq by blast
  ultimately show ?thesis using True by (simp add: eq_commute [of "store_utc f"])
next
  case False
  then have "CBS_parse_rfc5280_time_internal s g False (Some t0) = Ret (False, Some t0)"
    by (intro rfc5280_reject) (metis parse_zone_eq_Some)
  then show ?thesis unfolding if_not_P [OF False] by auto
qed

text \<open>
  C31: Time zone offsets. Where they are allowed, a written offset of \<open>+hhmm\<close> adds hh:mm to
  the written time and \<open>-hhmm\<close> subtracts it, and the result is never undefined. The
  standards the parser follows define the offset the other way round (a time written with
  \<open>+0100\<close> is one hour ahead of UTC), so the stored UTC time is wrong by twice the offset.
\<close>

theorem offset_is_added:
  assumes "valid_fields g f" and "0 \<le> h \<and> h \<le> 23" and "0 \<le> m \<and> m \<le> 59" and "0 < h \<or> 0 < m"
    and "OPENSSL_tm_to_posix (store_utc f) = Ret (Some t)"
    and "is_valid_epoch_time (t + (if west then - 1 else 1) * (h * 3600 + m * 60))"
  shows "\<exists>tm. CBS_parse_rfc5280_time_internal (written_fields g f @ written_offset west h m) g True (Some t0) =
      Ret (True, Some tm) \<and>
    OPENSSL_tm_to_posix tm = Ret (Some (t + (if west then - 1 else 1) * (h * 3600 + m * 60)))"
proof -
  define off where "off = (if west then - 1 else 1) * (h * 3600 + m * 60)"
  have z: "parse_zone True (written_offset west h m) = (Some off, [])"
    using assms(2,3) unfolding parse_zone_eq_Some off_def by (intro disjI2 conjI exI) auto
  have "0 < h * 3600 + m * 60" "h * 3600 + m * 60 \<le> 86400" using assms(2-4) by linarith+
  then have off: "off \<noteq> 0" "\<bar>off\<bar> \<le> 86400" by (simp_all add: off_def)
  obtain u where "utc_from_posix_time (t + off) = Some u" "OPENSSL_tm_to_posix (store_utc u) = Ret (Some (t + off))"
    using tm_of_posix assms(6) off_def by metis
  then show ?thesis
    using rfc5280_written [OF assms(1) z, of t0] off adjusted_by_offset [OF assms(5) off(2)]
    by (simp add: OPENSSL_posix_to_tm_def off_def [symmetric])
qed

lemma offset_is_added_witness:
  "\<exists>tm. CBS_parse_rfc5280_time_internal
        (written_fields False (1985, 11, 6, 21, 6, 27) @ written_offset True 5 0) False True (Some zero_tm) =
      Ret (True, Some tm) \<and>
    OPENSSL_tm_to_posix tm = Ret (Some (500159187 + (if True then - 1 else 1) * (5 * 3600 + 0 * 60)))"
proof -
  have "valid_fields False (1985, 11, 6, 21, 6, 27)" by code_simp
  moreover have "OPENSSL_tm_to_posix (store_utc (1985, 11, 6, 21, 6, 27)) = Ret (Some 500159187)" by code_simp
  ultimately show ?thesis
    using offset_is_added [of False "(1985, 11, 6, 21, 6, 27)" 5 0 500159187 True zero_tm]
    by (simp add: is_valid_epoch_time_def)
qed

end
