(* ===== verification/Bio_Pair.thy ===== *)
theory Bio_Pair
  imports C_Lang
begin

text \<open>
  BIO pairs, \<open>crypto/bio/pair.c\<close>, and the functions of \<open>crypto/bio/bio.c\<close> they are used
  through. The two ends of a pair point to each other, and reading from one end takes bytes
  out of the ring buffer of the other, so BIOs live in a heap: a list of BIOs named by their
  position, \<open>None\<close> once freed. A failed \<open>assert\<close>, an access to a freed BIO and \<open>abort\<close> are
  \<open>Undef\<close>. The error queue is not modelled; chains of filter BIOs (\<open>BIO_push\<close>) are not
  either, so \<open>next_bio\<close> is NULL.
\<close>

section \<open>State\<close>

record bio_bio =
  b_peer :: "nat option"
  b_closed :: bool
  b_len :: nat
  b_offset :: nat
  b_size :: nat
  b_buf :: "bytes option"
  b_request :: nat

record bio =
  bio_init :: bool
  bio_shutdown :: int
  bio_flags :: u32
  bio_retry_reason :: int
  bio_references :: u32
  bio_ptr :: bio_bio
  bio_num_read :: nat
  bio_num_write :: nat

type_synonym bio_heap = "bio option list"

definition get_bio :: "nat \<Rightarrow> (bio_heap, bio) c_op" where
  "get_bio i h =
     (if i < length h then (case h ! i of None \<Rightarrow> Undef | Some bio \<Rightarrow> Ret (bio, h)) else Undef)"

definition set_bio :: "nat \<Rightarrow> bio \<Rightarrow> (bio_heap, unit) c_op" where
  "set_bio i bio h = Ret ((), h[i := Some bio])"

definition update_bio :: "nat \<Rightarrow> (bio \<Rightarrow> bio) \<Rightarrow> (bio_heap, unit) c_op" where
  "update_bio i f = c_bind (get_bio i) (\<lambda>bio. set_bio i (f bio))"

definition update_ptr :: "nat \<Rightarrow> (bio_bio \<Rightarrow> bio_bio) \<Rightarrow> (bio_heap, unit) c_op" where
  "update_ptr i f = update_bio i (\<lambda>bio. bio\<lparr>bio_ptr := f (bio_ptr bio)\<rparr>)"

text \<open>Conversions: \<open>(long)\<close> of a \<open>size_t\<close> and \<open>(int)\<close> of a \<open>long\<close>.\<close>

definition to_long :: "nat \<Rightarrow> int" where
  "to_long n = signed_take_bit 63 (int n)"

definition to_int :: "int \<Rightarrow> int" where
  "to_int l = signed_take_bit 31 l"

section \<open>Flags and reference counts\<close>

definition BIO_FLAGS_READ :: u32 where "BIO_FLAGS_READ = 0x01"
definition BIO_FLAGS_WRITE :: u32 where "BIO_FLAGS_WRITE = 0x02"
definition BIO_FLAGS_IO_SPECIAL :: u32 where "BIO_FLAGS_IO_SPECIAL = 0x04"
definition BIO_FLAGS_RWS :: u32 where
  "BIO_FLAGS_RWS = BIO_FLAGS_READ OR BIO_FLAGS_WRITE OR BIO_FLAGS_IO_SPECIAL"
definition BIO_FLAGS_SHOULD_RETRY :: u32 where "BIO_FLAGS_SHOULD_RETRY = 0x08"
definition kRetryFlags :: u32 where "kRetryFlags = BIO_FLAGS_RWS OR BIO_FLAGS_SHOULD_RETRY"

lemmas bio_flag_defs = BIO_FLAGS_READ_def BIO_FLAGS_WRITE_def BIO_FLAGS_IO_SPECIAL_def
  BIO_FLAGS_RWS_def BIO_FLAGS_SHOULD_RETRY_def kRetryFlags_def

definition BIO_set_flags :: "u32 \<Rightarrow> bio \<Rightarrow> bio" where
  "BIO_set_flags fl bio = bio\<lparr>bio_flags := bio_flags bio OR fl\<rparr>"

definition BIO_clear_flags :: "u32 \<Rightarrow> bio \<Rightarrow> bio" where
  "BIO_clear_flags fl bio = bio\<lparr>bio_flags := bio_flags bio AND NOT fl\<rparr>"

definition BIO_test_flags :: "bio \<Rightarrow> u32 \<Rightarrow> u32" where
  "BIO_test_flags bio fl = bio_flags bio AND fl"

definition BIO_should_read :: "bio \<Rightarrow> u32" where
  "BIO_should_read bio = BIO_test_flags bio BIO_FLAGS_READ"

definition BIO_should_write :: "bio \<Rightarrow> u32" where
  "BIO_should_write bio = BIO_test_flags bio BIO_FLAGS_WRITE"

definition BIO_should_retry :: "bio \<Rightarrow> u32" where
  "BIO_should_retry bio = BIO_test_flags bio BIO_FLAGS_SHOULD_RETRY"

definition BIO_set_retry_read :: "bio \<Rightarrow> bio" where
  "BIO_set_retry_read bio = bio\<lparr>bio_flags := bio_flags bio OR (BIO_FLAGS_READ OR BIO_FLAGS_SHOULD_RETRY)\<rparr>"

definition BIO_set_retry_write :: "bio \<Rightarrow> bio" where
  "BIO_set_retry_write bio = bio\<lparr>bio_flags := bio_flags bio OR (BIO_FLAGS_WRITE OR BIO_FLAGS_SHOULD_RETRY)\<rparr>"

definition BIO_clear_retry_flags :: "bio \<Rightarrow> bio" where
  "BIO_clear_retry_flags bio = bio\<lparr>bio_flags := bio_flags bio AND NOT kRetryFlags, bio_retry_reason := 0\<rparr>"

definition BIO_get_retry_flags :: "bio \<Rightarrow> u32" where
  "BIO_get_retry_flags bio = bio_flags bio AND kRetryFlags"

definition CRYPTO_REFCOUNT_MAX :: u32 where "CRYPTO_REFCOUNT_MAX = 0xffffffff"

text \<open>The counts saturate; a count at the maximum is never released.\<close>

definition CRYPTO_refcount_inc :: "u32 \<Rightarrow> u32" where
  "CRYPTO_refcount_inc count = (if count \<noteq> CRYPTO_REFCOUNT_MAX then count + 1 else count)"

definition CRYPTO_refcount_dec_and_test_zero :: "u32 \<Rightarrow> (bool \<times> u32) c_outcome" where
  "CRYPTO_refcount_dec_and_test_zero expected =
     (if expected = 0 then Undef
      else if expected = CRYPTO_REFCOUNT_MAX then Ret (False, expected)
      else let new_value = expected - 1 in Ret (new_value = 0, new_value))"

section \<open>The methods of a pair\<close>

text \<open>
  \<open>can_alloc k n\<close> says whether the \<open>k\<close>-th allocation of a call, of \<open>n\<close> bytes, succeeds. The
  sizes of the two structures are those of the 64-bit platforms.
\<close>

definition sizeof_BIO :: nat where "sizeof_BIO = 72"
definition sizeof_bio_bio :: nat where "sizeof_bio_bio = 56"

definition bio_new :: "(nat \<Rightarrow> nat \<Rightarrow> bool) \<Rightarrow> nat \<Rightarrow> bio_bio option" where
  "bio_new can_alloc k =
     (if \<not> can_alloc k sizeof_bio_bio then None
      else Some \<lparr>b_peer = None, b_closed = False, b_len = 0, b_offset = 0, b_size = 17 * 1024,
                 b_buf = None, b_request = 0\<rparr>)"

definition bio_destroy_pair :: "nat \<Rightarrow> (bio_heap, unit) c_op" where
  "bio_destroy_pair i =
     c_bind (get_bio i) (\<lambda>bio.
       case b_peer (bio_ptr bio) of
         None \<Rightarrow> c_return ()
       | Some j \<Rightarrow>
           c_bind (get_bio j) (\<lambda>peer_bio.
             if b_peer (bio_ptr peer_bio) \<noteq> Some i \<or> b_buf (bio_ptr peer_bio) = None then c_undef
             else
               c_bind (update_bio j (\<lambda>c. c\<lparr>bio_init := False,
                   bio_ptr := (bio_ptr c)\<lparr>b_peer := None, b_len := 0, b_offset := 0\<rparr>\<rparr>)) (\<lambda>_.
               c_bind (get_bio i) (\<lambda>bio.
                 if b_buf (bio_ptr bio) = None then c_undef
                 else update_bio i (\<lambda>c. c\<lparr>bio_init := False,
                   bio_ptr := (bio_ptr c)\<lparr>b_peer := None, b_len := 0, b_offset := 0\<rparr>\<rparr>)))))"

text \<open>\<open>bio_free\<close>; the release of the memory is the caller's \<open>None\<close> in the heap.\<close>

definition bio_free :: "nat \<Rightarrow> (bio_heap, int) c_op" where
  "bio_free i =
     c_bind (get_bio i) (\<lambda>bio.
       c_bind (if b_peer (bio_ptr bio) \<noteq> None then bio_destroy_pair i else c_return ()) (\<lambda>_. c_return 1))"

text \<open>
  The do-while loop of \<open>bio_read\<close> on the peer's state: \<open>rest\<close> bytes are still to be copied,
  \<open>out\<close> was copied already. \<open>None\<close> when an assertion fails or the loop does not end.
\<close>

partial_function (option) read_loop :: "bio_bio \<Rightarrow> nat \<Rightarrow> bytes \<Rightarrow> (bio_bio \<times> bytes) option" where
  "read_loop b rest out =
     (let chunk = (if size_add (b_offset b) rest \<le> b_size b then rest else b_size b - b_offset b)
      in if b_len b < rest \<or> b_size b < b_offset b + chunk then None
         else case b_buf b of None \<Rightarrow> None | Some data \<Rightarrow>
           (let out = out @ take chunk (drop (b_offset b) data);
                b_len' = b_len b - chunk
            in if b_len' = 0 \<and> chunk \<noteq> rest then None
               else
                 let offset' = (if b_len' = 0 then 0
                                else if b_offset b + chunk = b_size b then 0 else b_offset b + chunk);
                     b = b\<lparr>b_len := b_len', b_offset := offset'\<rparr>;
                     rest = rest - chunk
                 in if rest = 0 then Some (b, out) else read_loop b rest out))"

text \<open>\<open>buf_null\<close> tells that the caller's buffer is NULL. The result is the return value and
  the bytes stored in the buffer.\<close>

definition bio_read :: "nat \<Rightarrow> bool \<Rightarrow> nat \<Rightarrow> (bio_heap, int \<times> bytes) c_op" where
  "bio_read i buf_null len =
     c_bind (update_bio i BIO_clear_retry_flags) (\<lambda>_.
     c_bind (get_bio i) (\<lambda>bio.
       if \<not> bio_init bio then c_return (0, [])
       else case b_peer (bio_ptr bio) of
         None \<Rightarrow> c_undef
       | Some j \<Rightarrow>
           c_bind (get_bio j) (\<lambda>peer_bio.
             if b_buf (bio_ptr peer_bio) = None then c_undef
             else
               c_bind (update_ptr j (\<lambda>b. b\<lparr>b_request := 0\<rparr>)) (\<lambda>_.
                 if buf_null \<or> len = 0 then c_return (0, [])
                 else
                   c_bind (get_bio j) (\<lambda>peer_bio.
                     let peer_b = bio_ptr peer_bio
                     in if b_len peer_b = 0 then
                          (if b_closed peer_b then c_return (0, [])
                           else
                             c_bind (update_bio i BIO_set_retry_read) (\<lambda>_.
                             c_bind (update_ptr j (\<lambda>b. b\<lparr>b_request :=
                                 (if len \<le> b_size b then len else b_size b)\<rparr>)) (\<lambda>_.
                               c_return (-1, []))))
                        else
                          let n = (if b_len peer_b < len then b_len peer_b else len)
                          in case read_loop peer_b n [] of
                               None \<Rightarrow> c_undef
                             | Some (peer_b', out) \<Rightarrow>
                                 c_bind (update_ptr j (\<lambda>_. peer_b')) (\<lambda>_. c_return (int n, out)))))))"

text \<open>The loop of \<open>bio_write\<close>: \<open>rest\<close> bytes of \<open>src\<close> are still to be copied.\<close>

partial_function (option) write_loop :: "bio_bio \<Rightarrow> bytes \<Rightarrow> nat \<Rightarrow> bio_bio option" where
  "write_loop b src rest =
     (if b_size b < b_len b + rest then None
      else case b_buf b of None \<Rightarrow> None | Some data \<Rightarrow>
        (let end_offset = size_add (b_offset b) (b_len b);
             write_offset = (if b_size b \<le> end_offset then end_offset - b_size b else end_offset);
             chunk = (if size_add write_offset rest \<le> b_size b then rest else b_size b - write_offset)
         in if length data < write_offset + chunk then None
            else
              let b = b\<lparr>b_buf := Some (put_bytes write_offset (take chunk src) data), b_len := b_len b + chunk\<rparr>;
                  rest = rest - chunk
              in if rest = 0 then Some b else write_loop b (drop chunk src) rest))"

text \<open>\<open>buf\<close> is \<open>None\<close> for NULL; otherwise it holds at least \<open>num\<close> bytes.\<close>

definition bio_write :: "nat \<Rightarrow> bytes option \<Rightarrow> nat \<Rightarrow> (bio_heap, int) c_op" where
  "bio_write i buf num =
     c_bind (update_bio i BIO_clear_retry_flags) (\<lambda>_.
     c_bind (get_bio i) (\<lambda>bio.
       if \<not> bio_init bio \<or> buf = None \<or> num = 0 then c_return 0
       else if b_peer (bio_ptr bio) = None \<or> b_buf (bio_ptr bio) = None then c_undef
       else
         c_bind (update_ptr i (\<lambda>b. b\<lparr>b_request := 0\<rparr>)) (\<lambda>_.
         c_bind (get_bio i) (\<lambda>bio.
           let b = bio_ptr bio
           in if b_closed b then c_return (-1)
              else if b_size b < b_len b then c_undef
              else if b_len b = b_size b then c_bind (update_bio i BIO_set_retry_write) (\<lambda>_. c_return (-1))
              else
                let n = (if b_size b - b_len b < num then b_size b - b_len b else num)
                in case write_loop b (the buf) n of
                     None \<Rightarrow> c_undef
                   | Some b' \<Rightarrow> c_bind (update_ptr i (\<lambda>_. b')) (\<lambda>_. c_return (int n))))))"

text \<open>Giving one end its buffer; the contents are uninitialised until written, zero here.\<close>

definition make_buffer :: "(nat \<Rightarrow> nat \<Rightarrow> bool) \<Rightarrow> nat \<Rightarrow> nat \<Rightarrow> nat \<Rightarrow> (bio_heap, bool) c_op" where
  "make_buffer can_alloc k i writebuf_len =
     c_bind (get_bio i) (\<lambda>bio.
       if b_buf (bio_ptr bio) \<noteq> None then c_return True
       else
         c_bind (update_ptr i (\<lambda>b. if writebuf_len \<noteq> 0 then b\<lparr>b_size := writebuf_len\<rparr> else b)) (\<lambda>_.
         c_bind (get_bio i) (\<lambda>bio.
           if \<not> can_alloc k (b_size (bio_ptr bio)) then c_return False
           else c_bind (update_ptr i (\<lambda>b. b\<lparr>b_buf := Some (replicate (b_size b) 0), b_len := 0, b_offset := 0\<rparr>))
                  (\<lambda>_. c_return True))))"

definition bio_make_pair :: "(nat \<Rightarrow> nat \<Rightarrow> bool) \<Rightarrow> nat \<Rightarrow> nat \<Rightarrow> nat \<Rightarrow> nat \<Rightarrow> nat \<Rightarrow> (bio_heap, int) c_op" where
  "bio_make_pair can_alloc k i j writebuf1_len writebuf2_len =
     c_bind (get_bio i) (\<lambda>bio1.
     c_bind (get_bio j) (\<lambda>bio2.
       if b_peer (bio_ptr bio1) \<noteq> None \<or> b_peer (bio_ptr bio2) \<noteq> None then c_return 0
       else
         c_bind (make_buffer can_alloc k i writebuf1_len) (\<lambda>ok1.
           if \<not> ok1 then c_return 0
           else
             c_bind (make_buffer can_alloc (Suc k) j writebuf2_len) (\<lambda>ok2.
               if \<not> ok2 then c_return 0
               else
                 c_bind (update_ptr i (\<lambda>b. b\<lparr>b_peer := Some j, b_closed := False, b_request := 0\<rparr>)) (\<lambda>_.
                 c_bind (update_ptr j (\<lambda>b. b\<lparr>b_peer := Some i, b_closed := False, b_request := 0\<rparr>)) (\<lambda>_.
                 c_bind (update_bio i (\<lambda>c. c\<lparr>bio_init := True\<rparr>)) (\<lambda>_.
                 c_bind (update_bio j (\<lambda>c. c\<lparr>bio_init := True\<rparr>)) (\<lambda>_. c_return 1))))))))"

section \<open>Control commands\<close>

abbreviation (input) "BIO_CTRL_RESET \<equiv> (1 :: int)"
abbreviation (input) "BIO_CTRL_EOF \<equiv> (2 :: int)"
abbreviation (input) "BIO_CTRL_GET_CLOSE \<equiv> (8 :: int)"
abbreviation (input) "BIO_CTRL_SET_CLOSE \<equiv> (9 :: int)"
abbreviation (input) "BIO_CTRL_PENDING \<equiv> (10 :: int)"
abbreviation (input) "BIO_CTRL_FLUSH \<equiv> (11 :: int)"
abbreviation (input) "BIO_CTRL_WPENDING \<equiv> (13 :: int)"
abbreviation (input) "BIO_C_GET_WRITE_BUF_SIZE \<equiv> (137 :: int)"
abbreviation (input) "BIO_C_GET_WRITE_GUARANTEE \<equiv> (140 :: int)"
abbreviation (input) "BIO_C_GET_READ_REQUEST \<equiv> (141 :: int)"
abbreviation (input) "BIO_C_SHUTDOWN_WR \<equiv> (142 :: int)"
abbreviation (input) "BIO_C_RESET_READ_REQUEST \<equiv> (147 :: int)"

text \<open>\<open>ptr\<close> is the BIO a pointer argument names.\<close>

definition bio_ctrl :: "nat \<Rightarrow> int \<Rightarrow> int \<Rightarrow> nat option \<Rightarrow> (bio_heap, int) c_op" where
  "bio_ctrl i cmd num ptr =
     c_bind (get_bio i) (\<lambda>bio.
       let b = bio_ptr bio
       in if cmd = BIO_C_GET_WRITE_BUF_SIZE then c_return (to_long (b_size b))
          else if cmd = BIO_C_GET_WRITE_GUARANTEE then
            c_return (if b_peer b = None \<or> b_closed b then 0 else to_long (b_size b - b_len b))
          else if cmd = BIO_C_GET_READ_REQUEST then c_return (to_long (b_request b))
          else if cmd = BIO_C_RESET_READ_REQUEST then
            c_bind (update_ptr i (\<lambda>b. b\<lparr>b_request := 0\<rparr>)) (\<lambda>_. c_return 1)
          else if cmd = BIO_C_SHUTDOWN_WR then
            c_bind (update_ptr i (\<lambda>b. b\<lparr>b_closed := True\<rparr>)) (\<lambda>_. c_return 1)
          else if cmd = BIO_CTRL_GET_CLOSE then c_return (bio_shutdown bio)
          else if cmd = BIO_CTRL_SET_CLOSE then
            c_bind (update_bio i (\<lambda>c. c\<lparr>bio_shutdown := to_int num\<rparr>)) (\<lambda>_. c_return 1)
          else if cmd = BIO_CTRL_PENDING then
            (case b_peer b of
               None \<Rightarrow> c_return 0
             | Some j \<Rightarrow> c_bind (get_bio j) (\<lambda>peer_bio. c_return (to_long (b_len (bio_ptr peer_bio)))))
          else if cmd = BIO_CTRL_WPENDING then c_return (if b_buf b \<noteq> None then to_long (b_len b) else 0)
          else if cmd = BIO_CTRL_FLUSH then c_return 1
          else if cmd = BIO_CTRL_EOF then
            (case ptr of
               None \<Rightarrow> c_return 1
             | Some j \<Rightarrow> c_bind (get_bio j) (\<lambda>other_bio.
                 c_return (if b_len (bio_ptr other_bio) = 0 \<and> b_closed (bio_ptr other_bio) then 1 else 0)))
          else c_return 0)"

section \<open>The functions of the interface\<close>

text \<open>The new BIO takes the next position of the heap.\<close>

definition BIO_new :: "(nat \<Rightarrow> nat \<Rightarrow> bool) \<Rightarrow> nat \<Rightarrow> (bio_heap, nat option) c_op" where
  "BIO_new can_alloc k h =
     (if \<not> can_alloc k sizeof_BIO then Ret (None, h)
      else case bio_new can_alloc (Suc k) of
             None \<Rightarrow> Ret (None, h)
           | Some b \<Rightarrow>
               Ret (Some (length h), h @ [Some \<lparr>bio_init = False, bio_shutdown = 1, bio_flags = 0,
                 bio_retry_reason = 0, bio_references = 1, bio_ptr = b, bio_num_read = 0, bio_num_write = 0\<rparr>]))"

definition BIO_free :: "nat option \<Rightarrow> (bio_heap, int) c_op" where
  "BIO_free ref =
     (case ref of
        None \<Rightarrow> c_return 1
      | Some i \<Rightarrow>
          c_bind (get_bio i) (\<lambda>bio.
          c_bind (c_lift (CRYPTO_refcount_dec_and_test_zero (bio_references bio))) (\<lambda>(zero, count).
          c_bind (set_bio i (bio\<lparr>bio_references := count\<rparr>)) (\<lambda>_.
            if \<not> zero then c_return 0
            else c_bind (bio_free i) (\<lambda>_ h. Ret (1, h[i := None]))))))"

definition BIO_up_ref :: "nat \<Rightarrow> (bio_heap, int) c_op" where
  "BIO_up_ref i =
     c_bind (update_bio i (\<lambda>c. c\<lparr>bio_references := CRYPTO_refcount_inc (bio_references c)\<rparr>)) (\<lambda>_. c_return 1)"

definition BIO_new_bio_pair ::
    "(nat \<Rightarrow> nat \<Rightarrow> bool) \<Rightarrow> nat \<Rightarrow> nat \<Rightarrow> (bio_heap, int \<times> nat option \<times> nat option) c_op" where
  "BIO_new_bio_pair can_alloc writebuf1_len writebuf2_len =
     c_bind (BIO_new can_alloc 0) (\<lambda>bio1.
     c_bind (BIO_new can_alloc 2) (\<lambda>bio2.
     c_bind (case (bio1, bio2) of
               (Some i, Some j) \<Rightarrow> bio_make_pair can_alloc 4 i j writebuf1_len writebuf2_len
             | _ \<Rightarrow> c_return 0) (\<lambda>ok.
       if ok = 0 then
         c_bind (BIO_free bio1) (\<lambda>_. c_bind (BIO_free bio2) (\<lambda>_. c_return (0, None, None)))
       else c_return (1, bio1, bio2))))"

definition BIO_read :: "nat option \<Rightarrow> bool \<Rightarrow> int \<Rightarrow> (bio_heap, int \<times> bytes) c_op" where
  "BIO_read ref buf_null len =
     (case ref of
        None \<Rightarrow> c_return (-2, [])
      | Some i \<Rightarrow>
          c_bind (get_bio i) (\<lambda>bio.
            if \<not> bio_init bio then c_return (-2, [])
            else if len \<le> 0 then c_return (0, [])
            else c_bind (bio_read i buf_null (nat len)) (\<lambda>(ret, out).
              c_bind (if 0 < ret
                      then update_bio i (\<lambda>c. c\<lparr>bio_num_read := size_add (bio_num_read c) (nat ret)\<rparr>)
                      else c_return ()) (\<lambda>_. c_return (ret, out)))))"

definition BIO_write :: "nat option \<Rightarrow> bytes option \<Rightarrow> int \<Rightarrow> (bio_heap, int) c_op" where
  "BIO_write ref inp inl =
     (case ref of
        None \<Rightarrow> c_return (-2)
      | Some i \<Rightarrow>
          c_bind (get_bio i) (\<lambda>bio.
            if \<not> bio_init bio then c_return (-2)
            else if inl \<le> 0 then c_return 0
            else c_bind (bio_write i inp (nat inl)) (\<lambda>ret.
              c_bind (if 0 < ret
                      then update_bio i (\<lambda>c. c\<lparr>bio_num_write := size_add (bio_num_write c) (nat ret)\<rparr>)
                      else c_return ()) (\<lambda>_. c_return ret))))"

text \<open>\<open>None\<close> when an operation is undefined or the loop does not end.\<close>

partial_function (option) write_all_loop :: "nat option \<Rightarrow> bytes \<Rightarrow> bio_heap \<Rightarrow> (int \<times> bio_heap) option" where
  "write_all_loop ref data h =
     (if length data = 0 then Some (1, h)
      else case BIO_write ref (Some data) (if INT_MAX < int (length data) then INT_MAX else int (length data)) h of
             Undef \<Rightarrow> None
           | Ret (ret, h') \<Rightarrow> if ret \<le> 0 then Some (0, h') else write_all_loop ref (drop (nat ret) data) h')"

definition BIO_write_all :: "nat option \<Rightarrow> bytes \<Rightarrow> (bio_heap, int) c_op" where
  "BIO_write_all ref data h = (case write_all_loop ref data h of None \<Rightarrow> Undef | Some r \<Rightarrow> Ret r)"

text \<open>The string without its terminating zero.\<close>

definition BIO_puts :: "nat option \<Rightarrow> bytes \<Rightarrow> (bio_heap, int) c_op" where
  "BIO_puts ref str =
     (if INT_MAX < int (length str) then c_return (-1) else BIO_write ref (Some str) (int (length str)))"

definition BIO_ctrl :: "nat option \<Rightarrow> int \<Rightarrow> int \<Rightarrow> nat option \<Rightarrow> (bio_heap, int) c_op" where
  "BIO_ctrl ref cmd larg parg = (case ref of None \<Rightarrow> c_return 0 | Some i \<Rightarrow> bio_ctrl i cmd larg parg)"

definition BIO_flush :: "nat option \<Rightarrow> (bio_heap, int) c_op" where
  "BIO_flush ref = c_bind (BIO_ctrl ref BIO_CTRL_FLUSH 0 None) (\<lambda>r. c_return (to_int r))"

definition BIO_reset :: "nat option \<Rightarrow> (bio_heap, int) c_op" where
  "BIO_reset ref = c_bind (BIO_ctrl ref BIO_CTRL_RESET 0 None) (\<lambda>r. c_return (to_int r))"

definition BIO_eof :: "nat option \<Rightarrow> (bio_heap, int) c_op" where
  "BIO_eof ref = c_bind (BIO_ctrl ref BIO_CTRL_EOF 0 None) (\<lambda>r. c_return (to_int r))"

text \<open>Both assert that the command's result is not negative.\<close>

definition BIO_pending :: "nat option \<Rightarrow> (bio_heap, nat) c_op" where
  "BIO_pending ref =
     c_bind (BIO_ctrl ref BIO_CTRL_PENDING 0 None) (\<lambda>r. if r < 0 then c_undef else c_return (nat r))"

definition BIO_wpending :: "nat option \<Rightarrow> (bio_heap, nat) c_op" where
  "BIO_wpending ref =
     c_bind (BIO_ctrl ref BIO_CTRL_WPENDING 0 None) (\<lambda>r. if r < 0 then c_undef else c_return (nat r))"

definition BIO_set_close :: "nat option \<Rightarrow> int \<Rightarrow> (bio_heap, int) c_op" where
  "BIO_set_close ref close_flag =
     c_bind (BIO_ctrl ref BIO_CTRL_SET_CLOSE close_flag None) (\<lambda>r. c_return (to_int r))"

text \<open>A \<open>long\<close> returned as a \<open>size_t\<close> is taken modulo \<open>2 ^ 64\<close>.\<close>

definition BIO_ctrl_get_read_request :: "nat option \<Rightarrow> (bio_heap, nat) c_op" where
  "BIO_ctrl_get_read_request ref =
     c_bind (BIO_ctrl ref BIO_C_GET_READ_REQUEST 0 None) (\<lambda>r. c_return (nat (r mod 2 ^ 64)))"

definition BIO_ctrl_get_write_guarantee :: "nat option \<Rightarrow> (bio_heap, nat) c_op" where
  "BIO_ctrl_get_write_guarantee ref =
     c_bind (BIO_ctrl ref BIO_C_GET_WRITE_GUARANTEE 0 None) (\<lambda>r. c_return (nat (r mod 2 ^ 64)))"

definition BIO_shutdown_wr :: "nat option \<Rightarrow> (bio_heap, int) c_op" where
  "BIO_shutdown_wr ref = c_bind (BIO_ctrl ref BIO_C_SHUTDOWN_WR 0 None) (\<lambda>r. c_return (to_int r))"

section \<open>Calls\<close>

text \<open>The calls of the interface that change state, on live BIOs.\<close>

datatype bio_call =
    New_pair nat nat | Free nat | Up_ref nat | Read nat bool int | Write nat "bytes option" int
  | Write_all nat bytes | Ctrl nat int int "nat option"

fun bio_exec :: "(nat \<Rightarrow> nat \<Rightarrow> bool) \<Rightarrow> bio_call \<Rightarrow> (bio_heap, int) c_op" where
  "bio_exec A (New_pair m n) = c_bind (BIO_new_bio_pair A m n) (\<lambda>(ok, _). c_return ok)"
| "bio_exec A (Free i) = BIO_free (Some i)"
| "bio_exec A (Up_ref i) = BIO_up_ref i"
| "bio_exec A (Read i null len) = c_bind (BIO_read (Some i) null len) (\<lambda>(ret, _). c_return ret)"
| "bio_exec A (Write i inp inl) = BIO_write (Some i) inp inl"
| "bio_exec A (Write_all i data) = BIO_write_all (Some i) data"
| "bio_exec A (Ctrl i cmd num ptr) = BIO_ctrl (Some i) cmd num ptr"

end
