(* ===== verification/Bio_Ring.thy ===== *)
theory Bio_Ring
  imports Bio_Pair
begin

text \<open>
  The ring buffer of one end of a BIO pair, read as the list of the bytes that were written
  and not yet read: the two copying loops take bytes off its front and put bytes at its end.
\<close>

section \<open>Contents\<close>

definition ring_ok :: "bio_bio \<Rightarrow> bool" where
  "ring_ok b =
     (\<exists>data. b_buf b = Some data \<and> length data = b_size b \<and> 0 < b_size b \<and> b_size b < 2 ^ 63 \<and>
        b_len b \<le> b_size b \<and> b_offset b < b_size b \<and> (b_len b = 0 \<longrightarrow> b_offset b = 0))"

definition contents :: "bio_bio \<Rightarrow> bytes" where
  "contents b = map (\<lambda>i. the (b_buf b) ! ((b_offset b + i) mod b_size b)) [0..<b_len b]"

lemma length_contents [simp]: "length (contents b) = b_len b"
  by (simp add: contents_def)

lemma contents_empty: "contents b = [] \<longleftrightarrow> b_len b = 0"
  by (simp add: contents_def)

lemma contents_fields [simp]:
  "contents (b\<lparr>b_peer := p\<rparr>) = contents b" "contents (b\<lparr>b_closed := c\<rparr>) = contents b"
  "contents (b\<lparr>b_request := r\<rparr>) = contents b"
  by (simp_all add: contents_def)

lemma ring_fields [simp]:
  "ring_ok (b\<lparr>b_peer := p\<rparr>) = ring_ok b" "ring_ok (b\<lparr>b_closed := c\<rparr>) = ring_ok b"
  "ring_ok (b\<lparr>b_request := r\<rparr>) = ring_ok b"
  by (simp_all add: ring_ok_def)

lemma wrap_mod: "a < 2 * n \<Longrightarrow> a mod n = (if a < n then a else a - n)"
  for a n :: nat
  by (simp add: mod_if)

text \<open>Taking a chunk off the front.\<close>

definition skip_front :: "nat \<Rightarrow> bio_bio \<Rightarrow> bio_bio" where
  "skip_front n b =
     b\<lparr>b_len := b_len b - n,
       b_offset := (if b_len b = n then 0 else (b_offset b + n) mod b_size b)\<rparr>"

lemma skip_front_fields [simp]:
  "b_buf (skip_front n b) = b_buf b" "b_size (skip_front n b) = b_size b" "b_len (skip_front n b) = b_len b - n"
  "b_peer (skip_front n b) = b_peer b" "b_closed (skip_front n b) = b_closed b"
  "b_request (skip_front n b) = b_request b"
  by (simp_all add: skip_front_def)

lemma ring_skip_front:
  assumes "ring_ok b" and "n \<le> b_len b"
  shows "ring_ok (skip_front n b)"
  using assms by (auto simp: ring_ok_def skip_front_def)

lemma contents_skip_front:
  assumes "ring_ok b" and "n \<le> b_len b"
  shows "contents (skip_front n b) = drop n (contents b)"
proof (rule nth_equalityI)
  show "length (contents (skip_front n b)) = length (drop n (contents b))" by simp
  show "contents (skip_front n b) ! i = drop n (contents b) ! i" if "i < length (contents (skip_front n b))" for i
    using that assms by (auto simp: contents_def skip_front_def mod_add_left_eq add.assoc)
qed

lemma skip_front_skip_front:
  assumes "m + n \<le> b_len b" and "ring_ok b"
  shows "skip_front n (skip_front m b) = skip_front (m + n) b"
  using assms by (auto simp: skip_front_def mod_add_left_eq add.assoc)

lemma chunk_contents:
  assumes "ring_ok b" and "n \<le> b_len b" and "b_offset b + n \<le> b_size b"
  shows "take n (drop (b_offset b) (the (b_buf b))) = take n (contents b)"
proof (rule nth_equalityI)
  show "length (take n (drop (b_offset b) (the (b_buf b)))) = length (take n (contents b))"
    using assms by (auto simp: ring_ok_def)
  show "take n (drop (b_offset b) (the (b_buf b))) ! i = take n (contents b) ! i"
    if "i < length (take n (drop (b_offset b) (the (b_buf b))))" for i
    using that assms by (auto simp: contents_def ring_ok_def)
qed

text \<open>One pass of the reading loop, and the whole loop: at most two passes.\<close>

definition read_chunk :: "bio_bio \<Rightarrow> nat \<Rightarrow> nat" where
  "read_chunk b rest = (if b_offset b + rest \<le> b_size b then rest else b_size b - b_offset b)"

lemma ring_small: "ring_ok b \<Longrightarrow> n \<le> b_size b \<Longrightarrow> m \<le> b_size b \<Longrightarrow> size_add m n = m + n"
  by (intro size_add_small) (auto simp: ring_ok_def size_mod_def)

lemma read_pass:
  assumes b: "ring_ok b" and rest: "0 < rest" "rest \<le> b_len b"
  shows "read_loop b rest out =
    (let n = read_chunk b rest in
     if n = rest then Some (skip_front n b, out @ take n (contents b))
     else read_loop (skip_front n b) (rest - n) (out @ take n (contents b)))"
proof -
  let ?n = "read_chunk b rest"
  obtain data where data: "b_buf b = Some data" and sz: "b_len b \<le> b_size b" "b_offset b < b_size b"
    using b by (auto simp: ring_ok_def)
  have chunk: "(if size_add (b_offset b) rest \<le> b_size b then rest else b_size b - b_offset b) = ?n"
    using ring_small [OF b, of rest "b_offset b"] rest sz by (simp add: read_chunk_def)
  have n: "?n \<le> rest" "b_offset b + ?n \<le> b_size b" using sz by (auto simp: read_chunk_def)
  have bytes: "take ?n (drop (b_offset b) data) = take ?n (contents b)"
    using chunk_contents [OF b _ n(2)] n rest data by simp
  have skip: "b\<lparr>b_len := b_len b - ?n, b_offset := (if b_len b - ?n = 0 then 0
      else if b_offset b + ?n = b_size b then 0 else b_offset b + ?n)\<rparr> = skip_front ?n b"
    using n rest sz by (auto simp: skip_front_def)
  have "\<not> (b_len b < rest \<or> b_size b < b_offset b + ?n)" "\<not> (b_len b - ?n = 0 \<and> ?n \<noteq> rest)"
    using n rest by auto
  moreover have "rest - ?n = 0 \<longleftrightarrow> ?n = rest" using n by auto
  ultimately show ?thesis
    unfolding read_loop.simps [of b rest out] chunk Let_def data option.case bytes skip
    by simp
qed

lemma read_loop_ring:
  assumes b: "ring_ok b" and rest: "0 < rest" "rest \<le> b_len b"
  shows "read_loop b rest out = Some (skip_front rest b, out @ take rest (contents b))"
proof (cases "read_chunk b rest = rest")
  case True
  then show ?thesis using read_pass [OF assms] by simp
next
  case False
  let ?n = "read_chunk b rest" let ?b = "skip_front ?n b"
  have sz: "b_len b \<le> b_size b" "b_offset b < b_size b" using b by (auto simp: ring_ok_def)
  have n: "?n = b_size b - b_offset b" "?n < rest" using False sz by (auto simp: read_chunk_def split: if_splits)
  have b': "ring_ok ?b" using ring_skip_front [OF b] n rest by simp
  have "b_offset ?b = 0" using n rest sz by (simp add: skip_front_def)
  then have last: "read_chunk ?b (rest - ?n) = rest - ?n" using rest sz by (simp add: read_chunk_def)
  have le: "rest - ?n \<le> b_len ?b" using rest by simp
  have "read_loop ?b (rest - ?n) (out @ take ?n (contents b)) =
      Some (skip_front (rest - ?n) ?b, (out @ take ?n (contents b)) @ take (rest - ?n) (contents ?b))"
    using read_pass [OF b' _ le] n last by (simp add: Let_def)
  also have "skip_front (rest - ?n) ?b = skip_front rest b"
    using skip_front_skip_front [of ?n "rest - ?n" b] n rest b by simp
  also have "take (rest - ?n) (contents ?b) = take (rest - ?n) (drop ?n (contents b))"
    using contents_skip_front [OF b] n rest by simp
  finally show ?thesis
    using read_pass [OF assms] False n take_add [of ?n "rest - ?n" "contents b"] by (simp add: Let_def)
qed

section \<open>Writing\<close>

definition write_pos :: "bio_bio \<Rightarrow> nat" where
  "write_pos b = (b_offset b + b_len b) mod b_size b"

definition put_end :: "bytes \<Rightarrow> bio_bio \<Rightarrow> bio_bio" where
  "put_end xs b =
     b\<lparr>b_buf := Some (put_bytes (write_pos b) xs (the (b_buf b))), b_len := b_len b + length xs\<rparr>"

lemma put_end_fields [simp]:
  "b_size (put_end xs b) = b_size b" "b_len (put_end xs b) = b_len b + length xs"
  "b_peer (put_end xs b) = b_peer b" "b_closed (put_end xs b) = b_closed b"
  "b_request (put_end xs b) = b_request b" "b_offset (put_end xs b) = b_offset b"
  by (simp_all add: put_end_def)

lemma ring_put_end:
  assumes "ring_ok b" and "b_len b + length xs \<le> b_size b" and "write_pos b + length xs \<le> b_size b"
  shows "ring_ok (put_end xs b)"
  using assms by (auto simp: ring_ok_def put_end_def length_put_bytes)

lemma contents_put_end:
  assumes b: "ring_ok b" and fit: "b_len b + length xs \<le> b_size b" "write_pos b + length xs \<le> b_size b"
  shows "contents (put_end xs b) = contents b @ xs"
proof (rule nth_equalityI)
  show "length (contents (put_end xs b)) = length (contents b @ xs)" by simp
  fix i assume i: "i < length (contents (put_end xs b))"
  obtain data where data: "b_buf b = Some data" "length data = b_size b"
    and sz: "b_len b \<le> b_size b" "b_offset b < b_size b" using b by (auto simp: ring_ok_def)
  let ?p = "(b_offset b + i) mod b_size b"
  have p: "?p < b_size b" using sz by simp
  have nth: "contents (put_end xs b) ! i =
      (if write_pos b \<le> ?p \<and> ?p < write_pos b + length xs then xs ! (?p - write_pos b) else data ! ?p)"
    using i data fit p by (simp add: contents_def put_end_def nth_put_bytes)
  have pos: "write_pos b = (if b_offset b + b_len b < b_size b then b_offset b + b_len b
      else b_offset b + b_len b - b_size b)"
    unfolding write_pos_def using sz by (intro wrap_mod) simp
  have wrap: "?p = (if b_offset b + i < b_size b then b_offset b + i else b_offset b + i - b_size b)"
    using sz i fit(1) by (intro wrap_mod) simp
  show "contents (put_end xs b) ! i = (contents b @ xs) ! i"
  proof (cases "i < b_len b")
    case True
    then have "\<not> (write_pos b \<le> ?p \<and> ?p < write_pos b + length xs)"
      using fit sz unfolding wrap pos by (auto split: if_splits)
    then have "contents (put_end xs b) ! i = data ! ?p" unfolding nth by (rule if_not_P)
    then show ?thesis using True data by (simp add: nth_append contents_def)
  next
    case False
    then have "write_pos b \<le> ?p \<and> ?p < write_pos b + length xs \<and> ?p - write_pos b = i - b_len b"
      using fit sz i unfolding wrap pos by (auto split: if_splits)
    then show ?thesis using False unfolding nth by (simp add: nth_append)
  qed
qed

text \<open>The loop of \<open>bio_write\<close>.\<close>

definition write_chunk :: "bio_bio \<Rightarrow> nat \<Rightarrow> nat" where
  "write_chunk b rest = (if write_pos b + rest \<le> b_size b then rest else b_size b - write_pos b)"

lemma write_pos_less: "ring_ok b \<Longrightarrow> write_pos b < b_size b"
  by (auto simp: ring_ok_def write_pos_def)

lemma write_pass:
  assumes b: "ring_ok b" and rest: "0 < rest" "b_len b + rest \<le> b_size b" "rest \<le> length src"
  shows "write_loop b src rest =
    (let n = write_chunk b rest; b' = put_end (take n src) b in
     if n = rest then Some b' else write_loop b' (drop n src) (rest - n))"
proof -
  let ?n = "write_chunk b rest"
  obtain data where data: "b_buf b = Some data" "length data = b_size b"
    and sz: "b_len b \<le> b_size b" "b_offset b < b_size b" using b by (auto simp: ring_ok_def)
  have pos: "(if b_size b \<le> size_add (b_offset b) (b_len b) then size_add (b_offset b) (b_len b) - b_size b
      else size_add (b_offset b) (b_len b)) = write_pos b"
    using ring_small [OF b, of "b_len b" "b_offset b"] sz wrap_mod [of "b_offset b + b_len b" "b_size b"]
    by (simp add: write_pos_def)
  have less: "write_pos b < b_size b" using b by (rule write_pos_less)
  have chunk: "(if size_add (write_pos b) rest \<le> b_size b then rest else b_size b - write_pos b) = ?n"
    using ring_small [OF b, of rest "write_pos b"] rest less by (simp add: write_chunk_def)
  have n: "?n \<le> rest" "write_pos b + ?n \<le> b_size b" using less by (auto simp: write_chunk_def)
  have put: "b\<lparr>b_buf := Some (put_bytes (write_pos b) (take ?n src) data), b_len := b_len b + ?n\<rparr> = put_end (take ?n src) b"
    using n rest data by (simp add: put_end_def min_def)
  have "\<not> b_size b < b_len b + rest" "\<not> length data < write_pos b + ?n" using n rest data by auto
  moreover have "rest - ?n = 0 \<longleftrightarrow> ?n = rest" using n by auto
  ultimately show ?thesis
    unfolding write_loop.simps [of b src rest] Let_def pos chunk data(1) option.case put by simp
qed

lemma write_loop_ring:
  assumes b: "ring_ok b" and rest: "0 < rest" "b_len b + rest \<le> b_size b" "rest \<le> length src"
  shows "\<exists>b'. write_loop b src rest = Some b' \<and> ring_ok b' \<and> contents b' = contents b @ take rest src \<and>
    b_size b' = b_size b \<and> b_peer b' = b_peer b \<and> b_closed b' = b_closed b \<and> b_request b' = b_request b"
proof -
  let ?n = "write_chunk b rest" let ?b = "put_end (take ?n src) b"
  have less: "write_pos b < b_size b" using b by (rule write_pos_less)
  have n: "?n \<le> rest" "write_pos b + ?n \<le> b_size b" using less by (auto simp: write_chunk_def)
  have b': "ring_ok ?b" "contents ?b = contents b @ take ?n src"
    using ring_put_end [OF b] contents_put_end [OF b] n rest by (simp_all add: min_def)
  show ?thesis
  proof (cases "?n = rest")
    case True
    then show ?thesis using write_pass [OF assms] b' by (simp add: Let_def)
  next
    case False
    then have wrap: "?n = b_size b - write_pos b" by (auto simp: write_chunk_def split: if_splits)
    have len: "b_len ?b = b_len b + ?n" using n rest by simp
    have "(b_offset b + b_len b + ?n) mod b_size b = (write_pos b + ?n) mod b_size b"
      by (simp add: write_pos_def mod_add_left_eq)
    also have "\<dots> = 0" using wrap less by simp
    finally have pos: "write_pos ?b = 0" using len by (simp add: write_pos_def add.assoc)
    let ?m = "rest - ?n"
    have m: "0 < ?m" "b_len ?b + ?m \<le> b_size ?b" "?m \<le> length (drop ?n src)" using n rest False len by auto
    then have last: "write_chunk ?b ?m = ?m" using pos by (simp add: write_chunk_def)
    let ?c = "put_end (take ?m (drop ?n src)) ?b"
    have "write_loop b src rest = Some ?c"
      using write_pass [OF assms] write_pass [OF b'(1) m] False last by (simp add: Let_def)
    moreover have "ring_ok ?c" "contents ?c = contents ?b @ take ?m (drop ?n src)"
      using ring_put_end [OF b'(1)] contents_put_end [OF b'(1)] m pos by (simp_all add: min_def)
    moreover have "take ?n src @ take ?m (drop ?n src) = take rest src"
      using n take_add [of ?n ?m src] by simp
    ultimately show ?thesis using b'(2) by simp
  qed
qed

end
