(* ===== verification/Bio_Queue.thy ===== *)
theory Bio_Queue
  imports Bio_Ring
begin

text \<open>
  A BIO pair as two queues of bytes. The invariant of the heap of BIOs is kept by every call
  of the interface and makes every call on live BIOs defined; reads and writes on the two ends
  of a pair are the operations of two bounded queues.
\<close>

section \<open>The invariant of the heap\<close>

definition bio_at :: "bio_heap \<Rightarrow> nat \<Rightarrow> bio option" where
  "bio_at h i = (if i < length h then h ! i else None)"

definition end_ok :: "bio \<Rightarrow> bool" where
  "end_ok bio =
     (let b = bio_ptr bio in
      bio_references bio \<noteq> 0 \<and> (bio_init bio \<longleftrightarrow> b_peer b \<noteq> None) \<and>
      (if b_buf b = None then b_peer b = None \<and> b_len b = 0 else ring_ok b) \<and>
      b_request b \<le> b_size b \<and> (b_len b \<noteq> 0 \<longrightarrow> b_request b = 0))"

definition linked :: "bio_heap \<Rightarrow> nat \<Rightarrow> nat \<Rightarrow> bool" where
  "linked h i j =
     (i \<noteq> j \<and> (\<exists>c. bio_at h i = Some c \<and> b_peer (bio_ptr c) = Some j) \<and>
      (\<exists>c. bio_at h j = Some c \<and> b_peer (bio_ptr c) = Some i))"

definition heap_ok :: "bio_heap \<Rightarrow> bool" where
  "heap_ok h =
     (\<forall>i c. bio_at h i = Some c \<longrightarrow> end_ok c \<and> (\<forall>j. b_peer (bio_ptr c) = Some j \<longrightarrow> linked h i j))"

lemma get_bio_at [simp]: "bio_at h i = Some c \<Longrightarrow> get_bio i h = Ret (c, h)"
  by (simp add: get_bio_def bio_at_def split: if_splits)

lemma update_bio_at [simp]: "bio_at h i = Some c \<Longrightarrow> update_bio i f h = Ret ((), h[i := Some (f c)])"
  by (simp add: update_bio_def set_bio_def)

lemma update_ptr_at [simp]:
  "bio_at h i = Some c \<Longrightarrow> update_ptr i f h = Ret ((), h[i := Some (c\<lparr>bio_ptr := f (bio_ptr c)\<rparr>)])"
  by (simp add: update_ptr_def)

lemma bio_at_update [simp]:
  "bio_at h i = Some c \<Longrightarrow> bio_at (h[i := x]) j = (if j = i then x else bio_at h j)"
  by (auto simp: bio_at_def split: if_splits)

lemma heap_okD: "heap_ok h \<Longrightarrow> bio_at h i = Some c \<Longrightarrow> end_ok c"
  by (simp add: heap_ok_def)

lemma heap_ok_linked: "heap_ok h \<Longrightarrow> bio_at h i = Some c \<Longrightarrow> b_peer (bio_ptr c) = Some j \<Longrightarrow> linked h i j"
  by (simp add: heap_ok_def)

lemma linked_sym: "linked h i j \<Longrightarrow> linked h j i"
  by (auto simp: linked_def)

text \<open>Changing a BIO without its peer pointer.\<close>

lemma linked_update:
  assumes "bio_at h k = Some c" and "b_peer (bio_ptr c') = b_peer (bio_ptr c)"
  shows "linked (h[k := Some c']) i j = linked h i j"
  using assms by (auto simp: linked_def)

lemma heap_ok_update:
  assumes "heap_ok h" and "bio_at h k = Some c" and "end_ok c'" and "b_peer (bio_ptr c') = b_peer (bio_ptr c)"
  shows "heap_ok (h[k := Some c'])"
  using assms linked_update [OF assms(2,4)] unfolding heap_ok_def by (auto split: if_splits)

lemma end_ok_header [simp]:
  "end_ok (c\<lparr>bio_flags := fl\<rparr>) = end_ok c" "end_ok (c\<lparr>bio_retry_reason := r\<rparr>) = end_ok c"
  "end_ok (c\<lparr>bio_num_read := n\<rparr>) = end_ok c" "end_ok (c\<lparr>bio_num_write := n\<rparr>) = end_ok c"
  "end_ok (c\<lparr>bio_shutdown := s\<rparr>) = end_ok c"
  by (simp_all add: end_ok_def)

lemma retry_flags_header [simp]:
  "end_ok (BIO_clear_retry_flags c) = end_ok c" "bio_ptr (BIO_clear_retry_flags c) = bio_ptr c"
  "bio_init (BIO_clear_retry_flags c) = bio_init c"
  "end_ok (BIO_set_retry_read c) = end_ok c" "bio_ptr (BIO_set_retry_read c) = bio_ptr c"
  "bio_init (BIO_set_retry_read c) = bio_init c"
  "end_ok (BIO_set_retry_write c) = end_ok c" "bio_ptr (BIO_set_retry_write c) = bio_ptr c"
  "bio_init (BIO_set_retry_write c) = bio_init c"
  "bio_num_read (BIO_clear_retry_flags c) = bio_num_read c"
  "bio_num_write (BIO_clear_retry_flags c) = bio_num_write c"
  by (simp_all add: BIO_clear_retry_flags_def BIO_set_retry_read_def BIO_set_retry_write_def)

section \<open>Two queues\<close>

record pipe =
  queue :: bytes
  capacity :: nat
  shut :: bool

definition pipe_write :: "bytes \<Rightarrow> pipe \<Rightarrow> int \<times> pipe" where
  "pipe_write xs p =
     (if xs = [] then (0, p)
      else if shut p \<or> length (queue p) = capacity p then (-1, p)
      else let n = min (length xs) (capacity p - length (queue p)) in (int n, p\<lparr>queue := queue p @ take n xs\<rparr>))"

definition pipe_read :: "nat \<Rightarrow> pipe \<Rightarrow> (int \<times> bytes) \<times> pipe" where
  "pipe_read n p =
     (if n = 0 then ((0, []), p)
      else if queue p = [] then ((if shut p then 0 else -1, []), p)
      else let m = min n (length (queue p)) in ((int m, take m (queue p)), p\<lparr>queue := drop m (queue p)\<rparr>))"

definition pipe_of :: "bio \<Rightarrow> pipe" where
  "pipe_of c = \<lparr>queue = contents (bio_ptr c), capacity = b_size (bio_ptr c), shut = b_closed (bio_ptr c)\<rparr>"

definition pipe_at :: "bio_heap \<Rightarrow> nat \<Rightarrow> pipe" where
  "pipe_at h i = pipe_of (the (bio_at h i))"

definition others_kept :: "nat set \<Rightarrow> bio_heap \<Rightarrow> bio_heap \<Rightarrow> bool" where
  "others_kept I h h' = (length h' = length h \<and> (\<forall>k. k \<notin> I \<longrightarrow> bio_at h' k = bio_at h k))"

lemma pipe_of_fields [simp]:
  "queue (pipe_of c) = contents (bio_ptr c)" "capacity (pipe_of c) = b_size (bio_ptr c)"
  "shut (pipe_of c) = b_closed (bio_ptr c)"
  by (simp_all add: pipe_of_def)

text \<open>What a call on one end leaves: the invariant, the link and the other BIOs.\<close>

definition pair_kept :: "nat \<Rightarrow> nat \<Rightarrow> bio_heap \<Rightarrow> bio_heap \<Rightarrow> bool" where
  "pair_kept i j h h' = (heap_ok h' \<and> linked h' i j \<and> others_kept {i, j} h h')"

lemma linkedE:
  assumes "heap_ok h" and "linked h i j"
  obtains c d where "bio_at h i = Some c" and "bio_at h j = Some d" and "i \<noteq> j"
    and "b_peer (bio_ptr c) = Some j" and "b_peer (bio_ptr d) = Some i" and "end_ok c" and "end_ok d"
    and "bio_init c" and "ring_ok (bio_ptr c)" and "ring_ok (bio_ptr d)"
proof -
  obtain c d where c: "bio_at h i = Some c" "b_peer (bio_ptr c) = Some j"
    and d: "bio_at h j = Some d" "b_peer (bio_ptr d) = Some i" and "i \<noteq> j"
    using assms(2) by (auto simp: linked_def)
  moreover have "end_ok c" "end_ok d" using assms(1) c d by (auto dest: heap_okD)
  moreover from this have "bio_init c" "ring_ok (bio_ptr c)" "ring_ok (bio_ptr d)"
    using c(2) d(2) by (auto simp: end_ok_def Let_def split: if_splits)
  ultimately show thesis using that by blast
qed

lemma pair_kept_update:
  assumes "heap_ok h" and "linked h i j" and "bio_at h i = Some c" and "bio_at h j = Some d"
    and "end_ok c'" and "b_peer (bio_ptr c') = b_peer (bio_ptr c)"
    and "end_ok d'" and "b_peer (bio_ptr d') = b_peer (bio_ptr d)"
  shows "pair_kept i j h (h[i := Some c', j := Some d'])"
proof -
  have ij: "i \<noteq> j" using assms(2) by (simp add: linked_def)
  have 1: "heap_ok (h[i := Some c'])" "linked (h[i := Some c']) i j"
    using heap_ok_update [OF assms(1,3,5,6)] linked_update [OF assms(3,6)] assms(2) by auto
  have d: "bio_at (h[i := Some c']) j = Some d" using assms(3,4) ij by simp
  have "heap_ok (h[i := Some c', j := Some d'])" "linked (h[i := Some c', j := Some d']) i j"
    using heap_ok_update [OF 1(1) d assms(7,8)] linked_update [OF d assms(8)] 1(2) by auto
  moreover have "others_kept {i, j} h (h[i := Some c', j := Some d'])"
    using assms(3,4) d by (auto simp: others_kept_def)
  ultimately show ?thesis by (simp add: pair_kept_def)
qed

section \<open>Reading and writing are the queue operations\<close>

lemma update_again: "i \<noteq> j \<Longrightarrow> xs[i := a, j := b, i := c] = xs[i := c, j := b]"
  by (simp add: list_update_swap)

lemma pipe_at_update:
  "bio_at h i = Some c \<Longrightarrow> bio_at h j = Some d \<Longrightarrow> i \<noteq> j \<Longrightarrow>
   pipe_at (h[i := Some c', j := Some d']) i = pipe_of c' \<and> pipe_at (h[i := Some c', j := Some d']) j = pipe_of d'"
  by (simp add: pipe_at_def)

lemma end_ok_no_request: "end_ok c \<Longrightarrow> end_ok (c\<lparr>bio_ptr := (bio_ptr c)\<lparr>b_request := 0\<rparr>\<rparr>)"
  by (simp add: end_ok_def Let_def)

lemma end_ok_ring:
  assumes "end_ok c" and "ring_ok b" and "b_peer b = b_peer (bio_ptr c)" and "b_request b = 0"
  shows "end_ok (c\<lparr>bio_ptr := b\<rparr>)"
proof -
  obtain data where "b_buf b = Some data" using assms(2) by (auto simp: ring_ok_def)
  then show ?thesis using assms by (simp add: end_ok_def Let_def)
qed

text \<open>The result of a successful call with the two ends it leaves.\<close>

definition pair_result :: "nat \<Rightarrow> nat \<Rightarrow> bio_heap \<Rightarrow> 'a \<Rightarrow> pipe \<Rightarrow> pipe \<Rightarrow> ('a \<times> bio_heap) c_outcome \<Rightarrow> bool" where
  "pair_result i j h r p q res =
     (\<exists>h'. res = Ret (r, h') \<and> pair_kept i j h h' \<and> pipe_at h' i = p \<and> pipe_at h' j = q)"

lemma pair_resultI:
  assumes "heap_ok h" and "linked h i j" and "bio_at h i = Some c" and "bio_at h j = Some d"
    and "res = Ret (r', h[i := Some c', j := Some d'])" and "r' = r"
    and "end_ok c'" and "b_peer (bio_ptr c') = b_peer (bio_ptr c)"
    and "end_ok d'" and "b_peer (bio_ptr d') = b_peer (bio_ptr d)"
    and "pipe_of c' = p" and "pipe_of d' = q"
  shows "pair_result i j h r p q res"
proof -
  have "i \<noteq> j" using assms(2) by (simp add: linked_def)
  then have "pipe_at (h[i := Some c', j := Some d']) i = p \<and> pipe_at (h[i := Some c', j := Some d']) j = q"
    using pipe_at_update [OF assms(3,4)] assms(11,12) by simp
  then show ?thesis
    using pair_kept_update [OF assms(1-4,7-10)] assms(5,6) by (auto simp: pair_result_def)
qed

lemma pair_same:
  assumes "heap_ok h" and "linked h i j"
  shows "pair_result i j h r (pipe_at h i) (pipe_at h j) (Ret (r, h))"
  using assms by (simp add: pair_result_def pair_kept_def others_kept_def)

lemma BIO_read_pair:
  assumes h: "heap_ok h" "linked h i j"
  shows "pair_result i j h (fst (pipe_read n (pipe_at h j))) (pipe_at h i) (snd (pipe_read n (pipe_at h j)))
    (BIO_read (Some i) False (int n) h)"
proof -
  obtain c d where c: "bio_at h i = Some c" "b_peer (bio_ptr c) = Some j" "bio_init c" "end_ok c"
    and d: "bio_at h j = Some d" "end_ok d" "ring_ok (bio_ptr d)" and ij: "i \<noteq> j"
    using linkedE [OF h] by metis
  have buf: "b_buf (bio_ptr d) \<noteq> None" using d(3) by (auto simp: ring_ok_def)
  have p: "pipe_at h j = pipe_of d" "pipe_at h i = pipe_of c" using c d by (simp_all add: pipe_at_def)
  let ?c = "BIO_clear_retry_flags c" let ?b = "(bio_ptr d)\<lparr>b_request := 0\<rparr>" let ?len = "b_len (bio_ptr d)"
  note eqs = c d buf p ij ij [symmetric]
  show ?thesis
  proof (cases "n = 0")
    case True
    then show ?thesis using pair_same [OF h] eqs by (simp add: BIO_read_def pipe_read_def)
  next
    case n: False
    show ?thesis
    proof (cases "?len = 0")
      case empty: True
      then have q: "queue (pipe_of d) = []" by (simp add: contents_empty)
      show ?thesis
      proof (cases "b_closed (bio_ptr d)")
        case True
        have eq: "BIO_read (Some i) False (int n) h =
            Ret ((0, []), h[i := Some ?c, j := Some (d\<lparr>bio_ptr := ?b\<rparr>)])"
          using eqs n empty True by (simp add: update_again [OF ij] BIO_read_def bio_read_def c_bind_def del: c_bind_Ret c_bind_Undef)
        show ?thesis
          by (rule pair_resultI [OF h c(1) d(1) eq])
            (use n q True in \<open>simp_all add: p pipe_read_def c d end_ok_no_request pipe_of_def\<close>)
      next
        case False
        let ?r = "if n \<le> b_size (bio_ptr d) then n else b_size (bio_ptr d)"
        have eq: "BIO_read (Some i) False (int n) h =
            Ret ((-1, []), h[i := Some (BIO_set_retry_read ?c), j := Some (d\<lparr>bio_ptr := (bio_ptr d)\<lparr>b_request := ?r\<rparr>\<rparr>)])"
          using eqs n empty False by (simp add: update_again [OF ij] BIO_read_def bio_read_def c_bind_def del: c_bind_Ret c_bind_Undef)
        have "end_ok (d\<lparr>bio_ptr := (bio_ptr d)\<lparr>b_request := ?r\<rparr>\<rparr>)"
          using d(2) empty by (auto simp: end_ok_def Let_def)
        then show ?thesis
          by (intro pair_resultI [OF h c(1) d(1) eq])
            (use n q False in \<open>simp_all add: p pipe_read_def c d pipe_of_def\<close>)
      qed
    next
      case full: False
      let ?m = "min n ?len" let ?d = "d\<lparr>bio_ptr := skip_front ?m ?b\<rparr>"
      have q: "queue (pipe_of d) \<noteq> []" using full by (simp add: contents_empty)
      have "read_loop ?b ?m [] = Some (skip_front ?m ?b, take ?m (contents (bio_ptr d)))"
        using read_loop_ring [of ?b ?m "[]"] d(3) n full by simp
      then have eq: "BIO_read (Some i) False (int n) h = Ret ((int ?m, take ?m (contents (bio_ptr d))),
          h[i := Some (?c\<lparr>bio_num_read := size_add (bio_num_read ?c) ?m\<rparr>), j := Some ?d])"
        using eqs n full
        by (cases "?len < n")
          (simp_all add: update_again [OF ij] BIO_read_def bio_read_def Let_def c_bind_def min_def del: c_bind_Ret c_bind_Undef)
      have "end_ok ?d"
        using d(2,3) by (intro end_ok_ring ring_skip_front) simp_all
      then show ?thesis
        by (intro pair_resultI [OF h c(1) d(1) eq])
          (use n q in \<open>simp_all add: p pipe_read_def c d pipe_of_def contents_skip_front Let_def\<close>)
    qed
  qed
qed

lemma BIO_write_pair:
  assumes h: "heap_ok h" "linked h i j" and num: "num \<le> length xs"
  shows "pair_result i j h (fst (pipe_write (take num xs) (pipe_at h i))) (snd (pipe_write (take num xs) (pipe_at h i)))
    (pipe_at h j) (BIO_write (Some i) (Some xs) (int num) h)"
proof -
  obtain c d where c: "bio_at h i = Some c" "b_peer (bio_ptr c) = Some j" "bio_init c" "end_ok c" "ring_ok (bio_ptr c)"
    and d: "bio_at h j = Some d" "end_ok d" and ij: "i \<noteq> j"
    using linkedE [OF h] by metis
  have buf: "b_buf (bio_ptr c) \<noteq> None" and len: "b_len (bio_ptr c) \<le> b_size (bio_ptr c)"
    using c(5) by (auto simp: ring_ok_def)
  have p: "pipe_at h j = pipe_of d" "pipe_at h i = pipe_of c" using c d by (simp_all add: pipe_at_def)
  have dj: "h[i := x, j := Some d] = h[i := x]" for x
    using d(1) ij by (intro nth_equalityI) (auto simp: bio_at_def nth_list_update split: if_splits)
  let ?b = "(bio_ptr c)\<lparr>b_request := 0\<rparr>" let ?c = "(BIO_clear_retry_flags c)\<lparr>bio_ptr := ?b\<rparr>"
  let ?room = "b_size (bio_ptr c) - b_len (bio_ptr c)"
  have diff: "nat (int a - int b) = a - b" for a b :: nat by simp
  note eqs = c d buf len p ij ij [symmetric]
  have okc: "end_ok ?c" using end_ok_no_request [of "BIO_clear_retry_flags c"] c(4) by simp
  consider (none) "num = 0" | (closed) "0 < num" "b_closed (bio_ptr c)"
    | (full) "0 < num" "\<not> b_closed (bio_ptr c)" "?room = 0" | (room) "0 < num" "\<not> b_closed (bio_ptr c)" "0 < ?room"
    by fastforce
  then show ?thesis
  proof cases
    case none
    then show ?thesis using pair_same [OF h] eqs by (simp add: BIO_write_def pipe_write_def)
  next
    case closed
    have res: "BIO_write (Some i) (Some xs) (int num) h = Ret (-1, h[i := Some ?c, j := Some d])"
      unfolding dj using eqs closed by (simp add: BIO_write_def bio_write_def)
    show ?thesis
      by (rule pair_resultI [OF h c(1) d(1) res])
        (use closed okc num in \<open>auto simp: p pipe_write_def c d pipe_of_def\<close>)
  next
    case full
    then have eq: "b_len (bio_ptr c) = b_size (bio_ptr c)" using len by simp
    have res: "BIO_write (Some i) (Some xs) (int num) h = Ret (-1, h[i := Some (BIO_set_retry_write ?c), j := Some d])"
      unfolding dj using eqs full eq by (simp add: BIO_write_def bio_write_def)
    show ?thesis
      by (rule pair_resultI [OF h c(1) d(1) res])
        (use full okc eq num in \<open>auto simp: p pipe_write_def c d pipe_of_def\<close>)
  next
    case room
    let ?n = "min num ?room"
    have n: "0 < ?n" "b_len ?b + ?n \<le> b_size ?b" "?n \<le> length xs" using room len num by auto
    obtain b' where b': "write_loop ?b xs ?n = Some b'" "ring_ok b'" "contents b' = contents (bio_ptr c) @ take ?n xs"
      and same: "b_size b' = b_size (bio_ptr c)" "b_peer b' = b_peer (bio_ptr c)" "b_closed b' = b_closed (bio_ptr c)" "b_request b' = 0"
      using write_loop_ring [of ?b ?n xs] n c(5) by auto
    have res: "BIO_write (Some i) (Some xs) (int num) h = Ret (int ?n,
        h[i := Some (?c\<lparr>bio_ptr := b', bio_num_write := size_add (bio_num_write c) ?n\<rparr>), j := Some d])"
      unfolding dj using eqs room b' n
      by (cases "?room < num")
        (simp_all add: diff BIO_write_def bio_write_def Let_def c_bind_def min_def del: c_bind_Ret c_bind_Undef)
    have "end_ok (?c\<lparr>bio_ptr := b'\<rparr>)"
      using okc c(4,5) b' same by (intro end_ok_ring) simp_all
    then show ?thesis
      by (intro pair_resultI [OF h c(1) d(1) res])
        (use room b' same n num in \<open>auto simp: p pipe_write_def c d pipe_of_def Let_def min_def\<close>)
  qed
qed

end
