(* ===== verification/Bio_Calls.thy ===== *)
theory Bio_Calls
  imports Bio_Queue
begin

text \<open>
  Every call of the interface on live BIOs, from the creation of pairs to their release, is
  defined and keeps the invariant of the heap; and a sequence of calls on the two ends of a
  pair returns what two bounded queues return.
\<close>

section \<open>Creating and releasing BIOs\<close>

definition fresh_bio :: bio where
  "fresh_bio = \<lparr>bio_init = False, bio_shutdown = 1, bio_flags = 0, bio_retry_reason = 0, bio_references = 1,
     bio_ptr = \<lparr>b_peer = None, b_closed = False, b_len = 0, b_offset = 0, b_size = 17 * 1024, b_buf = None,
       b_request = 0\<rparr>,
     bio_num_read = 0, bio_num_write = 0\<rparr>"

lemma fresh_fields [simp]:
  "bio_init fresh_bio = False" "bio_references fresh_bio = 1" "b_peer (bio_ptr fresh_bio) = None"
  "b_len (bio_ptr fresh_bio) = 0" "b_buf (bio_ptr fresh_bio) = None" "b_request (bio_ptr fresh_bio) = 0"
  "b_closed (bio_ptr fresh_bio) = False" "b_offset (bio_ptr fresh_bio) = 0" "b_size (bio_ptr fresh_bio) = 17 * 1024"
  by (simp_all add: fresh_bio_def)

lemma BIO_new_eq:
  "BIO_new A k h =
    Ret (if A k sizeof_BIO \<and> A (Suc k) sizeof_bio_bio then (Some (length h), h @ [Some fresh_bio]) else (None, h))"
  by (simp add: BIO_new_def bio_new_def fresh_bio_def)

lemma bio_at_new [simp]: "bio_at (h @ [x]) i = (if i = length h then x else bio_at h i)"
  by (auto simp: bio_at_def nth_append)

lemma bio_at_None: "bio_at h i = Some c \<Longrightarrow> i < length h"
  by (simp add: bio_at_def split: if_splits)

lemma unlinked_not_peer:
  assumes "heap_ok h" and "bio_at h i = Some c" and "b_peer (bio_ptr c) = None"
  shows "\<not> linked h k i" "\<not> linked h i k"
  using assms by (auto simp: linked_def)

lemma heap_ok_remove:
  assumes h: "heap_ok h" and c: "bio_at h i = Some c" "b_peer (bio_ptr c) = None"
  shows "heap_ok (h[i := None])"
  using assms unlinked_not_peer [OF assms] unfolding heap_ok_def linked_def
  by (fastforce split: if_splits)

lemma heap_ok_new: "heap_ok h \<Longrightarrow> end_ok c \<Longrightarrow> b_peer (bio_ptr c) = None \<Longrightarrow> heap_ok (h @ [Some c])"
  unfolding heap_ok_def linked_def by (auto split: if_splits dest: bio_at_None)

lemma fresh_ok [simp]: "end_ok fresh_bio"
  by (simp add: end_ok_def Let_def)

lemma BIO_free_unlinked:
  assumes "bio_at h i = Some c" and "b_peer (bio_ptr c) = None" and "bio_references c = 1"
  shows "BIO_free (Some i) h = Ret (1, h[i := None])"
  using assms by (simp add: BIO_free_def CRYPTO_refcount_dec_and_test_zero_def CRYPTO_REFCOUNT_MAX_def
      set_bio_def bio_free_def)

lemma BIO_free_NULL: "BIO_free None h = Ret (1, h)"
  by (simp add: BIO_free_def)

lemma refcount_inc_nonzero: "count \<noteq> 0 \<Longrightarrow> CRYPTO_refcount_inc count \<noteq> 0"
proof -
  assume "count \<noteq> 0"
  moreover have "CRYPTO_REFCOUNT_MAX = - 1" by (simp add: CRYPTO_REFCOUNT_MAX_def)
  ultimately show ?thesis by (auto simp: CRYPTO_refcount_inc_def add_eq_0_iff2)
qed

section \<open>Making a pair\<close>

definition sized :: "nat \<Rightarrow> bio \<Rightarrow> bio" where
  "sized n c = c\<lparr>bio_ptr := (bio_ptr c)\<lparr>b_size := (if n \<noteq> 0 then n else b_size (bio_ptr c))\<rparr>\<rparr>"

definition buffered :: "nat \<Rightarrow> bio" where
  "buffered n = (let c = sized n fresh_bio; b = bio_ptr c in
     c\<lparr>bio_ptr := b\<lparr>b_buf := Some (replicate (b_size b) 0)\<rparr>\<rparr>)"

definition paired :: "nat \<Rightarrow> nat \<Rightarrow> bio" where
  "paired n j = (buffered n)\<lparr>bio_init := True, bio_ptr := (bio_ptr (buffered n))\<lparr>b_peer := Some j\<rparr>\<rparr>"

definition pair_size :: "nat \<Rightarrow> nat" where
  "pair_size n = (if n \<noteq> 0 then n else 17 * 1024)"

lemma make_buffer_fresh:
  assumes "bio_at h i = Some fresh_bio"
  shows "make_buffer A k i n h = Ret (if A k (pair_size n) then (True, h[i := Some (buffered n)])
    else (False, h[i := Some (sized n fresh_bio)]))"
  using assms
  by (simp add: make_buffer_def c_bind_def Let_def buffered_def sized_def pair_size_def fresh_bio_def
      del: c_bind_Ret c_bind_Undef)

lemma paired_fields [simp]:
  "b_peer (bio_ptr (paired n j)) = Some j" "contents (bio_ptr (paired n j)) = []"
  "b_size (bio_ptr (paired n j)) = pair_size n" "b_closed (bio_ptr (paired n j)) = False"
  by (simp_all add: paired_def buffered_def sized_def pair_size_def contents_def Let_def)

lemma paired_ok: "pair_size n < 2 ^ 63 \<Longrightarrow> end_ok (paired n j)"
  by (cases "n = 0") (simp_all add: paired_def buffered_def sized_def pair_size_def end_ok_def ring_ok_def Let_def)

lemma make_pair_fresh:
  assumes "bio_at h i = Some fresh_bio" and "bio_at h j = Some fresh_bio" and "i \<noteq> j"
  shows "bio_make_pair A k i j m n h = Ret
    (if \<not> A k (pair_size m) then (0, h[i := Some (sized m fresh_bio)])
     else if \<not> A (Suc k) (pair_size n) then (0, h[i := Some (buffered m), j := Some (sized n fresh_bio)])
     else (1, h[i := Some (paired m j), j := Some (paired n i)]))"
proof -
  have f: "b_peer (bio_ptr (buffered x)) = None" "b_closed (bio_ptr (buffered x)) = False"
    "b_request (bio_ptr (buffered x)) = 0" for x
    by (simp_all add: buffered_def sized_def Let_def)
  have p: "(buffered x)\<lparr>bio_ptr := (bio_ptr (buffered x))\<lparr>b_peer := Some y, b_closed := False, b_request := 0\<rparr>, bio_init := True\<rparr>
      = paired x y" for x y
    by (simp add: paired_def buffered_def sized_def fresh_bio_def Let_def)
  show ?thesis
    using assms assms(3) [symmetric]
    by (simp add: bio_make_pair_def c_bind_def make_buffer_fresh update_again [OF assms(3)]
        update_again [OF assms(3) [symmetric]] f p del: c_bind_Ret c_bind_Undef)
qed

text \<open>No object is larger than half the address space: what every allocator guarantees.\<close>

definition small_allocs :: "(nat \<Rightarrow> nat \<Rightarrow> bool) \<Rightarrow> bool" where
  "small_allocs A = (\<forall>k n. A k n \<longrightarrow> n < 2 ^ 63)"

text \<open>A new pair: two empty queues of the sizes asked for, or nothing.\<close>

lemma heap_ok_pair:
  assumes h: "heap_ok h" and size: "pair_size m < 2 ^ 63" "pair_size n < 2 ^ 63"
    and H: "H = h @ [Some (paired m (Suc (length h))), Some (paired n (length h))]"
  shows "heap_ok H" and "linked H (length h) (Suc (length h))"
proof -
  have at: "bio_at H k = (if k = length h then Some (paired m (Suc (length h)))
      else if k = Suc (length h) then Some (paired n (length h)) else bio_at h k)" for k
    unfolding H by (auto simp: bio_at_def nth_append nth_Cons split: nat.splits)
  have old: "k < length h" if "bio_at h k = Some c" for k c using that by (rule bio_at_None)
  have link: "linked h k l \<Longrightarrow> linked H k l" for k l
    unfolding linked_def at by (auto dest: old)
  show new: "linked H (length h) (Suc (length h))" unfolding linked_def at by simp
  show "heap_ok H"
    unfolding heap_ok_def at
    using h new linked_sym [OF new] link paired_ok [OF size(1)] paired_ok [OF size(2)]
    by (auto simp: heap_ok_def split: if_splits)
qed

lemma BIO_new_bio_pair_result:
  assumes h: "heap_ok h" and A: "small_allocs A"
  shows "\<exists>h'. heap_ok h' \<and> length h \<le> length h' \<and> (\<forall>k<length h. bio_at h' k = bio_at h k) \<and>
    (BIO_new_bio_pair A m n h = Ret ((0, None, None), h') \<or>
     BIO_new_bio_pair A m n h = Ret ((1, Some (length h), Some (Suc (length h))), h') \<and>
       linked h' (length h) (Suc (length h)) \<and>
       pipe_at h' (length h) = \<lparr>queue = [], capacity = pair_size m, shut = False\<rparr> \<and>
       pipe_at h' (Suc (length h)) = \<lparr>queue = [], capacity = pair_size n, shut = False\<rparr>)"
proof -
  let ?i = "length h" let ?j = "Suc (length h)"
  let ?a = "A 0 sizeof_BIO \<and> A (Suc 0) sizeof_bio_bio" let ?b = "A 2 sizeof_BIO \<and> A 3 sizeof_bio_bio"
  have fail: "heap_ok (h @ ns) \<and> ?i \<le> length (h @ ns) \<and> (\<forall>k<?i. bio_at (h @ ns) k = bio_at h k)"
    if "set ns \<subseteq> {None}" for ns
  proof -
    have "ns ! k = None" if "k < length ns" for k using that \<open>set ns \<subseteq> {None}\<close> nth_mem by blast
    then have "bio_at (h @ ns) k = bio_at h k" for k by (auto simp: bio_at_def nth_append)
    then show ?thesis using h by (simp add: heap_ok_def linked_def)
  qed
  have free: "BIO_free (Some ?i) (h @ [Some c]) = Ret (1, h @ [None])"
    if "b_peer (bio_ptr c) = None" "bio_references c = 1" for c
    using that by (subst BIO_free_unlinked) simp_all
  have free2: "BIO_free (Some ?i) (h @ [Some c, Some d]) = Ret (1, h @ [None, Some d])"
    "BIO_free (Some ?j) (h @ [None, Some c]) = Ret (1, h @ [None, None])"
    if "b_peer (bio_ptr c) = None" "bio_references c = 1" for c d
    using that BIO_free_unlinked [of "h @ [Some c, Some d]" ?i c] BIO_free_unlinked [of "h @ [None, Some c]" ?j c]
    by (simp_all add: bio_at_def nth_append list_update_append)
  have fields: "b_peer (bio_ptr (sized x fresh_bio)) = None" "bio_references (sized x fresh_bio) = 1"
    "b_peer (bio_ptr (buffered x)) = None" "bio_references (buffered x) = 1" for x
    by (simp_all add: sized_def buffered_def Let_def)
  have new: "BIO_new_bio_pair A m n h = (if ?a \<and> ?b
      then c_bind (bio_make_pair A 4 ?i ?j m n) (\<lambda>ok.
        if ok = 0 then c_bind (BIO_free (Some ?i)) (\<lambda>_. c_bind (BIO_free (Some ?j)) (\<lambda>_. c_return (0, None, None)))
        else c_return (1, Some ?i, Some ?j)) (h @ [Some fresh_bio, Some fresh_bio])
      else Ret ((0, None, None), h @ (if ?a \<or> ?b then [None] else [])))"
    by (simp add: BIO_new_bio_pair_def BIO_new_eq c_bind_def free BIO_free_NULL numeral_3_eq_3 del: c_bind_Ret c_bind_Undef)
  show ?thesis
  proof (cases "?a \<and> ?b")
    case False
    let ?ns = "if ?a \<or> ?b then [None] else []"
    have "heap_ok (h @ ?ns) \<and> ?i \<le> length (h @ ?ns) \<and> (\<forall>k<?i. bio_at (h @ ?ns) k = bio_at h k)"
      by (rule fail) auto
    then show ?thesis unfolding new if_not_P [OF False] by blast
  next
    case True
    let ?h = "h @ [Some fresh_bio, Some fresh_bio]"
    have at: "bio_at ?h ?i = Some fresh_bio" "bio_at ?h ?j = Some fresh_bio" by (simp_all add: bio_at_def nth_append)
    have ij: "?i \<noteq> ?j" by simp
    have upd: "?h[?i := x] = h @ [x, Some fresh_bio]" "?h[?i := x, ?j := y] = h @ [x, y]"
      "(h @ [x, z])[?j := y] = h @ [x, y]" for x y z
      by (simp_all add: list_update_append)
    show ?thesis
    proof (cases "A 4 (pair_size m) \<and> A 5 (pair_size n)")
      case fine: True
      let ?H = "h @ [Some (paired m ?j), Some (paired n ?i)]"
      have "BIO_new_bio_pair A m n h = Ret ((1, Some ?i, Some ?j), ?H)"
        using True fine unfolding new by (simp add: c_bind_def make_pair_fresh [OF at ij] upd del: c_bind_Ret c_bind_Undef)
      moreover have "heap_ok ?H" "linked ?H ?i ?j"
        using heap_ok_pair [OF h _ _ refl, of m n] fine A unfolding small_allocs_def by blast+
      moreover have "bio_at ?H ?i = Some (paired m ?j)" "bio_at ?H ?j = Some (paired n ?i)"
        "\<forall>k<?i. bio_at ?H k = bio_at h k"
        by (simp_all add: bio_at_def nth_append)
      ultimately show ?thesis by (intro exI [of _ ?H]) (simp add: pipe_at_def pipe_of_def)
    next
      case bad: False
      have "BIO_new_bio_pair A m n h = Ret ((0, None, None), h @ [None, None])"
        using True bad unfolding new
        by (auto simp: c_bind_def make_pair_fresh [OF at ij] upd free2 fields simp del: c_bind_Ret c_bind_Undef)
      then show ?thesis using fail [of "[None, None]"] by (intro exI [of _ "h @ [None, None]"]) simp
    qed
  qed
qed

section \<open>Every call is defined\<close>

definition defined_ok :: "('a \<times> bio_heap) c_outcome \<Rightarrow> bool" where
  "defined_ok res = (\<exists>r h'. res = Ret (r, h') \<and> heap_ok h')"

lemma defined_Ret [simp]: "defined_ok (Ret (r, h)) = heap_ok h"
  by (simp add: defined_ok_def)

lemma defined_bind:
  "defined_ok (f h) \<Longrightarrow> (\<And>r h'. f h = Ret (r, h') \<Longrightarrow> heap_ok h' \<Longrightarrow> defined_ok (g r h')) \<Longrightarrow> defined_ok (c_bind f g h)"
  by (auto simp: defined_ok_def)

lemma defined_pair_result: "pair_result i j h r p q res \<Longrightarrow> defined_ok res"
  by (auto simp: pair_result_def pair_kept_def defined_ok_def)

lemma live_peer:
  assumes "heap_ok h" and "bio_at h i = Some c" and "bio_init c"
  obtains j where "linked h i j"
  using assms by (auto simp: heap_ok_def end_ok_def Let_def)

lemma heap_ok_update_same:
  "heap_ok h \<Longrightarrow> bio_at h i = Some c \<Longrightarrow> end_ok (f c) \<Longrightarrow> b_peer (bio_ptr (f c)) = b_peer (bio_ptr c) \<Longrightarrow>
   defined_ok (update_bio i f h)"
  by (simp add: heap_ok_update)

text \<open>Releasing one end of a pair unlinks the other.\<close>

lemma bio_free_linked:
  assumes h: "heap_ok h" and c: "bio_at h i = Some c" "end_ok (c\<lparr>bio_references := r\<rparr>)"
  shows "\<exists>h'. bio_free i (h[i := Some (c\<lparr>bio_references := 0\<rparr>)]) = Ret (1, h') \<and> heap_ok (h'[i := None])"
proof (cases "b_peer (bio_ptr c)")
  case None
  then show ?thesis
    using c heap_ok_remove [OF h c(1)] by (simp add: bio_free_def)
next
  case (Some j)
  then have link: "linked h i j" using h c(1) by (simp add: heap_ok_linked)
  then obtain d where d: "bio_at h j = Some d" "b_peer (bio_ptr d) = Some i" "end_ok d" "ring_ok (bio_ptr d)"
    and buf: "ring_ok (bio_ptr c)" and ij: "i \<noteq> j"
    using linkedE [OF h link] c(1) by (metis option.inject)
  obtain data1 data2 where bufs: "b_buf (bio_ptr c) = Some data1" "b_buf (bio_ptr d) = Some data2"
    using buf d(4) by (auto simp: ring_ok_def)
  let ?d = "d\<lparr>bio_init := False, bio_ptr := (bio_ptr d)\<lparr>b_peer := None, b_len := 0, b_offset := 0\<rparr>\<rparr>"
  let ?c = "c\<lparr>bio_references := 0, bio_init := False, bio_ptr := (bio_ptr c)\<lparr>b_peer := None, b_len := 0, b_offset := 0\<rparr>\<rparr>"
  let ?H = "h[i := Some ?c, j := Some ?d]"
  have run: "bio_free i (h[i := Some (c\<lparr>bio_references := 0\<rparr>)]) = Ret (1, ?H)"
    using c(1) d Some bufs ij ij [symmetric]
    by (simp add: bio_free_def bio_destroy_pair_def c_bind_def update_again [OF ij] del: c_bind_Ret c_bind_Undef)
  have at: "bio_at (?H[i := None]) k = (if k = i then None else if k = j then Some ?d else bio_at h k)" for k
    using c(1) d(1) ij by simp
  have "end_ok ?d" using d(3,4) by (simp add: end_ok_def ring_ok_def Let_def bufs)
  moreover have "linked (?H[i := None]) k l" if "linked h k l" "k \<noteq> i" "k \<noteq> j" for k l
    using that c(1) d(1,2) Some unfolding linked_def at by auto
  ultimately have "heap_ok (?H[i := None])"
    using h unfolding heap_ok_def at by auto
  then show ?thesis using run by blast
qed

lemma BIO_free_ok:
  assumes h: "heap_ok h" and c: "bio_at h i = Some c"
  shows "defined_ok (BIO_free (Some i) h)"
proof -
  have ok: "end_ok c" using h c by (rule heap_okD)
  then have ref: "bio_references c \<noteq> 0" by (simp add: end_ok_def Let_def)
  let ?r = "bio_references c" let ?set = "\<lambda>n. h[i := Some (c\<lparr>bio_references := n\<rparr>)]"
  have set: "set_bio i (c\<lparr>bio_references := n\<rparr>) h = Ret ((), ?set n)" for n by (simp add: set_bio_def)
  have keep: "heap_ok (?set n)" if "n \<noteq> 0" for n
    using that ok by (intro heap_ok_update [OF h c]) (simp_all add: end_ok_def Let_def)
  consider "?r = CRYPTO_REFCOUNT_MAX" | "?r \<noteq> CRYPTO_REFCOUNT_MAX" "?r - 1 \<noteq> 0" | "?r \<noteq> CRYPTO_REFCOUNT_MAX" "?r = 1"
    by fastforce
  then show ?thesis
  proof cases
    case 1
    have "BIO_free (Some i) h = Ret (0, ?set ?r)"
      using 1 ref c by (simp add: BIO_free_def CRYPTO_refcount_dec_and_test_zero_def c_bind_def set del: c_bind_Ret c_bind_Undef)
    then show ?thesis using keep [OF ref] by simp
  next
    case 2
    have "BIO_free (Some i) h = Ret (0, ?set (?r - 1))"
      using 2 ref c by (simp add: BIO_free_def CRYPTO_refcount_dec_and_test_zero_def c_bind_def set Let_def del: c_bind_Ret c_bind_Undef)
    then show ?thesis using keep [OF 2(2)] by simp
  next
    case 3
    obtain h' where h': "bio_free i (?set 0) = Ret (1, h')" "heap_ok (h'[i := None])"
      using bio_free_linked [OF h c, of ?r] ok by auto
    have "BIO_free (Some i) h = Ret (1, h'[i := None])"
      using 3 c h'(1) by (simp add: BIO_free_def CRYPTO_refcount_dec_and_test_zero_def c_bind_def set Let_def del: c_bind_Ret c_bind_Undef)
    then show ?thesis using h'(2) by simp
  qed
qed

lemma BIO_up_ref_ok:
  assumes "heap_ok h" and "bio_at h i = Some c"
  shows "defined_ok (BIO_up_ref i h)"
  using assms heap_okD [OF assms] refcount_inc_nonzero [of "bio_references c"]
  by (simp add: BIO_up_ref_def heap_ok_update end_ok_def Let_def)

lemma BIO_read_ok:
  assumes h: "heap_ok h" and c: "bio_at h i = Some c"
  shows "defined_ok (BIO_read (Some i) buf_null len h)"
proof (cases "bio_init c \<and> 0 < len")
  case False
  then show ?thesis using h c by (auto simp: BIO_read_def)
next
  case True
  then obtain j where link: "linked h i j" using live_peer [OF h c] by blast
  show ?thesis
  proof (cases buf_null)
    case False
    then show ?thesis
      using defined_pair_result [OF BIO_read_pair [OF h link, of "nat len"]] True by simp
  next
    case null: True
    obtain d where d: "bio_at h j = Some d" "end_ok d" "ring_ok (bio_ptr d)" "b_peer (bio_ptr c) = Some j" "end_ok c" "i \<noteq> j"
      using linkedE [OF h link] c by (metis option.inject)
    then obtain data where "b_buf (bio_ptr d) = Some data" by (auto simp: ring_ok_def)
    then have "BIO_read (Some i) buf_null len h = Ret ((0, []),
        h[i := Some (BIO_clear_retry_flags c), j := Some (d\<lparr>bio_ptr := (bio_ptr d)\<lparr>b_request := 0\<rparr>\<rparr>)])"
      using True null c d d(6) [symmetric]
      by (simp add: BIO_read_def bio_read_def c_bind_def del: c_bind_Ret c_bind_Undef)
    then show ?thesis
      using pair_kept_update [OF h link c d(1)] d end_ok_no_request [OF d(2)] by (simp add: pair_kept_def)
  qed
qed

lemma BIO_write_ok:
  assumes h: "heap_ok h" and c: "bio_at h i = Some c" and xs: "\<And>xs. inp = Some xs \<Longrightarrow> inl \<le> int (length xs)"
  shows "defined_ok (BIO_write (Some i) inp inl h)"
proof (cases "bio_init c \<and> 0 < inl")
  case False
  then show ?thesis using h c by (auto simp: BIO_write_def)
next
  case True
  then obtain j where link: "linked h i j" using live_peer [OF h c] by blast
  show ?thesis
  proof (cases inp)
    case None
    then have "BIO_write (Some i) inp inl h = Ret (0, h[i := Some (BIO_clear_retry_flags c)])"
      using True c by (simp add: BIO_write_def bio_write_def c_bind_def del: c_bind_Ret c_bind_Undef)
    then show ?thesis using h c by (simp add: heap_ok_update heap_okD)
  next
    case (Some ys)
    then show ?thesis
      using defined_pair_result [OF BIO_write_pair [OF h link, of "nat inl" ys]] True xs [OF Some] by simp
  qed
qed

lemma end_ok_closed: "end_ok c \<Longrightarrow> end_ok (c\<lparr>bio_ptr := (bio_ptr c)\<lparr>b_closed := x\<rparr>\<rparr>)"
  by (simp add: end_ok_def Let_def)

lemma bio_ctrl_ok:
  assumes h: "heap_ok h" and c: "bio_at h i = Some c" and ptr: "\<And>j. ptr = Some j \<Longrightarrow> bio_at h j \<noteq> None"
  shows "defined_ok (BIO_ctrl (Some i) cmd num ptr h)"
proof -
  have ok: "end_ok c" using h c by (rule heap_okD)
  have "defined_ok (update_ptr i (\<lambda>b. b\<lparr>b_request := 0\<rparr>) h)" "defined_ok (update_ptr i (\<lambda>b. b\<lparr>b_closed := True\<rparr>) h)"
    "defined_ok (update_bio i (\<lambda>c. c\<lparr>bio_shutdown := x\<rparr>) h)" for x
    using c ok end_ok_no_request [OF ok] end_ok_closed [OF ok] by (simp_all add: heap_ok_update [OF h c])
  moreover have "\<exists>d. bio_at h j = Some d" if "b_peer (bio_ptr c) = Some j" for j
    using heap_ok_linked [OF h c that] by (auto simp: linked_def)
  ultimately show ?thesis
    using h c ptr unfolding BIO_ctrl_def bio_ctrl_def option.case
    by (auto simp: c_bind_def Let_def defined_ok_def split: option.split simp del: c_bind_Ret c_bind_Undef)
qed

text \<open>The loop of \<open>BIO_write_all\<close> ends: every pass but the last accepts a byte.\<close>

lemma BIO_write_progress:
  assumes h: "heap_ok h" and c: "bio_at h i = Some c" and n: "n \<le> length xs"
    and res: "BIO_write (Some i) (Some xs) (int n) h = Ret (ret, h')"
  shows "ret \<le> int n \<and> heap_ok h' \<and> (\<exists>c'. bio_at h' i = Some c')"
proof (cases "bio_init c \<and> 0 < n")
  case False
  then show ?thesis using h c res by (cases "bio_init c") (auto simp: BIO_write_def split: if_splits)
next
  case True
  then obtain j where link: "linked h i j" using live_peer [OF h c] by blast
  have "pair_result i j h (fst (pipe_write (take n xs) (pipe_at h i)))
      (snd (pipe_write (take n xs) (pipe_at h i))) (pipe_at h j) (Ret (ret, h'))"
    using BIO_write_pair [OF h link n] unfolding res .
  moreover have "fst (pipe_write (take n xs) p) \<le> int n" for p
    by (auto simp: pipe_write_def Let_def)
  ultimately show ?thesis by (auto simp: pair_result_def pair_kept_def linked_def)
qed

lemma BIO_write_all_ok: "heap_ok h \<Longrightarrow> bio_at h i \<noteq> None \<Longrightarrow> defined_ok (BIO_write_all (Some i) xs h)"
proof (induction "length xs" arbitrary: xs h rule: less_induct)
  case less
  obtain c where c: "bio_at h i = Some c" using less.prems(2) by blast
  show ?case
  proof (cases "xs = []")
    case True
    then show ?thesis using less.prems(1) by (simp add: BIO_write_all_def write_all_loop.simps)
  next
    case False
    let ?n = "if INT_MAX < int (length xs) then nat INT_MAX else length xs"
    have n: "?n \<le> length xs" "int ?n = (if INT_MAX < int (length xs) then INT_MAX else int (length xs))"
      by (auto simp: INT_MAX_def)
    obtain ret h' where w: "BIO_write (Some i) (Some xs) (int ?n) h = Ret (ret, h')"
      using BIO_write_ok [OF less.prems(1) c, of "Some xs" "int ?n"] n(1) by (auto simp: defined_ok_def)
    have h': "ret \<le> int ?n" "heap_ok h'" "bio_at h' i \<noteq> None"
      using BIO_write_progress [OF less.prems(1) c n(1) w] by auto
    have step: "write_all_loop (Some i) xs h =
        (if ret \<le> 0 then Some (0, h') else write_all_loop (Some i) (drop (nat ret) xs) h')"
      using False w n(2) by (subst write_all_loop.simps) simp
    show ?thesis
    proof (cases "ret \<le> 0")
      case True
      then show ?thesis using step h' by (simp add: BIO_write_all_def)
    next
      case pos: False
      then have "length (drop (nat ret) xs) < length xs" using False by simp
      then have "defined_ok (BIO_write_all (Some i) (drop (nat ret) xs) h')"
        using less.hyps h' by blast
      then show ?thesis using step pos by (simp add: BIO_write_all_def)
    qed
  qed
qed

text \<open>The callers' side of the contract: live BIOs, and as many bytes as the length says.\<close>

fun call_live :: "bio_heap \<Rightarrow> bio_call \<Rightarrow> bool" where
  "call_live h (New_pair m n) = True"
| "call_live h (Free i) = (bio_at h i \<noteq> None)"
| "call_live h (Up_ref i) = (bio_at h i \<noteq> None)"
| "call_live h (Read i null len) = (bio_at h i \<noteq> None)"
| "call_live h (Write i inp inl) =
     (bio_at h i \<noteq> None \<and> (case inp of None \<Rightarrow> True | Some xs \<Rightarrow> inl \<le> int (length xs)))"
| "call_live h (Write_all i xs) = (bio_at h i \<noteq> None)"
| "call_live h (Ctrl i cmd num ptr) =
     (bio_at h i \<noteq> None \<and> (case ptr of None \<Rightarrow> True | Some j \<Rightarrow> bio_at h j \<noteq> None))"

inductive bio_reach :: "(nat \<Rightarrow> nat \<Rightarrow> bool) \<Rightarrow> bio_heap \<Rightarrow> bool" for A where
  start: "bio_reach A []"
| call: "bio_reach A h \<Longrightarrow> call_live h c \<Longrightarrow> bio_exec A c h = Ret (r, h') \<Longrightarrow> bio_reach A h'"

lemma exec_defined:
  assumes h: "heap_ok h" and A: "small_allocs A" and live: "call_live h c"
  shows "defined_ok (bio_exec A c h)"
proof (cases c)
  case (New_pair m n)
  then show ?thesis using BIO_new_bio_pair_result [OF h A, of m n] by auto
next
  case (Free i)
  then show ?thesis using BIO_free_ok [OF h] live by auto
next
  case (Up_ref i)
  then show ?thesis using BIO_up_ref_ok [OF h] live by auto
next
  case (Read i null len)
  then have "defined_ok (BIO_read (Some i) null len h)" using BIO_read_ok [OF h] live by auto
  then show ?thesis by (auto simp: Read defined_ok_def)
next
  case (Write i inp inl)
  then show ?thesis using live by (auto intro!: BIO_write_ok [OF h])
next
  case (Write_all i xs)
  then show ?thesis using BIO_write_all_ok [OF h] live by auto
next
  case (Ctrl i cmd num ptr)
  then show ?thesis using live by (auto intro!: bio_ctrl_ok [OF h] split: option.splits)
qed

lemma empty_ok: "heap_ok []"
  by (simp add: heap_ok_def bio_at_def)

lemma reach_ok:
  assumes "bio_reach A h" and "small_allocs A"
  shows "heap_ok h"
  using assms
proof (induction rule: bio_reach.induct)
  case (call h c r h')
  then show ?case using exec_defined [of h A c] by (auto simp: defined_ok_def)
qed (simp add: empty_ok)

end
