(* ===== verification/Bio_Transfer.thy ===== *)
theory Bio_Transfer
  imports Bio_Calls
begin

text \<open>
  What the users of a BIO pair rely on: a sequence of calls on its two ends returns what two
  queues return, and a sender and a receiver that take turns get every byte across, in order,
  however small the buffer. The second is proved once for every byte pipe that keeps the
  contract of the locale, which both directions of a pair do.
\<close>

section \<open>Runs on the two ends\<close>

text \<open>The flag of a call tells the end it is made on: \<open>True\<close> for the first.\<close>

datatype pair_call = Put bool bytes | Get bool nat | Close bool

fun pair_exec :: "nat \<Rightarrow> nat \<Rightarrow> pair_call \<Rightarrow> (bio_heap, int \<times> bytes) c_op" where
  "pair_exec i j (Put e xs) =
     c_bind (BIO_write (Some (if e then i else j)) (Some xs) (int (length xs))) (\<lambda>r. c_return (r, []))"
| "pair_exec i j (Get e n) = BIO_read (Some (if e then i else j)) False (int n)"
| "pair_exec i j (Close e) = c_bind (BIO_shutdown_wr (Some (if e then i else j))) (\<lambda>r. c_return (r, []))"

fun pair_run :: "nat \<Rightarrow> nat \<Rightarrow> pair_call list \<Rightarrow> (bio_heap, (int \<times> bytes) list) c_op" where
  "pair_run i j [] = c_return []"
| "pair_run i j (c # cs) = c_bind (pair_exec i j c) (\<lambda>r. c_bind (pair_run i j cs) (\<lambda>rs. c_return (r # rs)))"

text \<open>The same calls on two queues: what the first end writes and what the second writes.\<close>

fun queue_exec :: "pair_call \<Rightarrow> pipe \<times> pipe \<Rightarrow> (int \<times> bytes) \<times> pipe \<times> pipe" where
  "queue_exec (Put e xs) (p, q) =
     (if e then let (r, p') = pipe_write xs p in ((r, []), p', q)
      else let (r, q') = pipe_write xs q in ((r, []), p, q'))"
| "queue_exec (Get e n) (p, q) =
     (if e then let (r, q') = pipe_read n q in (r, p, q') else let (r, p') = pipe_read n p in (r, p', q))"
| "queue_exec (Close e) (p, q) =
     ((1, []), (if e then p\<lparr>shut := True\<rparr> else p), (if e then q else q\<lparr>shut := True\<rparr>))"

fun queue_run :: "pair_call list \<Rightarrow> pipe \<times> pipe \<Rightarrow> (int \<times> bytes) list \<times> pipe \<times> pipe" where
  "queue_run [] s = ([], s)"
| "queue_run (c # cs) s = (let (r, s') = queue_exec c s; (rs, s'') = queue_run cs s' in (r # rs, s''))"

lemma pair_result_sym: "pair_result j i h r q p res \<Longrightarrow> pair_result i j h r p q res"
  by (auto simp: pair_result_def pair_kept_def linked_sym insert_commute)

lemma pair_result_bind:
  assumes "pair_result i j h r p q (f h)"
  shows "pair_result i j h (g r) p q (c_bind f (\<lambda>r. c_return (g r)) h)"
  using assms by (auto simp: pair_result_def)

lemma BIO_shutdown_wr_pair:
  assumes h: "heap_ok h" "linked h i j"
  shows "pair_result i j h 1 ((pipe_at h i)\<lparr>shut := True\<rparr>) (pipe_at h j) (BIO_shutdown_wr (Some i) h)"
proof -
  obtain c d where c: "bio_at h i = Some c" "end_ok c" and d: "bio_at h j = Some d" "end_ok d" and ij: "i \<noteq> j"
    using linkedE [OF h] by metis
  let ?c = "c\<lparr>bio_ptr := (bio_ptr c)\<lparr>b_closed := True\<rparr>\<rparr>"
  have "h[i := x, j := Some d] = h[i := x]" for x
    using d(1) ij by (intro nth_equalityI) (auto simp: bio_at_def nth_list_update split: if_splits)
  then have eq: "BIO_shutdown_wr (Some i) h = Ret (1, h[i := Some ?c, j := Some d])"
    using c(1) by (simp add: BIO_shutdown_wr_def BIO_ctrl_def bio_ctrl_def Let_def to_int_def)
  show ?thesis
    by (rule pair_resultI [OF h c(1) d(1) eq])
      (use c d in \<open>simp_all add: end_ok_closed pipe_at_def pipe_of_def\<close>)
qed

text \<open>Each call from the end that makes it.\<close>

lemma end_calls:
  assumes h: "heap_ok h" "linked h i j"
  shows put_end_call: "pair_result i j h (fst (pipe_write xs (pipe_at h i)), []) (snd (pipe_write xs (pipe_at h i)))
      (pipe_at h j) (c_bind (BIO_write (Some i) (Some xs) (int (length xs))) (\<lambda>r. c_return (r, [])) h)"
    and close_end_call: "pair_result i j h (1, []) ((pipe_at h i)\<lparr>shut := True\<rparr>)
      (pipe_at h j) (c_bind (BIO_shutdown_wr (Some i)) (\<lambda>r. c_return (r, [])) h)"
  using pair_result_bind [where g = "\<lambda>r. (r, [])" and f = "BIO_write (Some i) (Some xs) (int (length xs))",
      OF BIO_write_pair [OF h order_refl, of xs]]
    pair_result_bind [where g = "\<lambda>r. (r, [])" and f = "BIO_shutdown_wr (Some i)", OF BIO_shutdown_wr_pair [OF h]]
  by simp_all

lemma pair_exec_queue:
  assumes h: "heap_ok h" "linked h i j"
  shows "pair_result i j h (fst (queue_exec c (pipe_at h i, pipe_at h j)))
    (fst (snd (queue_exec c (pipe_at h i, pipe_at h j)))) (snd (snd (queue_exec c (pipe_at h i, pipe_at h j))))
    (pair_exec i j c h)"
proof -
  have h': "heap_ok h" "linked h j i" using h by (simp_all add: linked_sym)
  show ?thesis
  proof (cases c)
    case (Put e xs)
    then show ?thesis
      using put_end_call [OF h, of xs] pair_result_sym [OF put_end_call [OF h', of xs]]
      by (cases e) (simp_all add: Let_def split_beta)
  next
    case (Get e n)
    then show ?thesis
      using BIO_read_pair [OF h, of n] pair_result_sym [OF BIO_read_pair [OF h', of n]]
      by (cases e) (simp_all add: Let_def split_beta)
  next
    case (Close e)
    then show ?thesis
      using close_end_call [OF h] pair_result_sym [OF close_end_call [OF h']] by (cases e) simp_all
  qed
qed

lemma pair_run_queue:
  assumes "heap_ok h" and "linked h i j" and "queue_run cs (pipe_at h i, pipe_at h j) = (rs, p, q)"
  shows "pair_result i j h rs p q (pair_run i j cs h)"
  using assms
proof (induction cs arbitrary: h rs)
  case Nil
  then show ?case using pair_same by fastforce
next
  case (Cons c cs)
  obtain r s where exec: "queue_exec c (pipe_at h i, pipe_at h j) = (r, s)"
    by (cases "queue_exec c (pipe_at h i, pipe_at h j)")
  then obtain rs' where run: "queue_run cs s = (rs', p, q)" and rs: "rs = r # rs'"
    using Cons.prems(3) by (auto split: prod.splits)
  obtain h' where h': "pair_exec i j c h = Ret (r, h')" "pair_kept i j h h'" "s = (pipe_at h' i, pipe_at h' j)"
    using pair_exec_queue [OF Cons.prems(1,2), of c] exec by (auto simp: pair_result_def)
  then obtain h'' where "pair_run i j cs h' = Ret (rs', h'')" "pair_kept i j h' h''" "pipe_at h'' i = p" "pipe_at h'' j = q"
    using Cons.IH [of h' rs'] run by (auto simp: pair_result_def pair_kept_def)
  then show ?case
    using h' rs by (auto simp: pair_result_def pair_kept_def others_kept_def)
qed

section \<open>A byte pipe\<close>

text \<open>
  The contract of one direction: \<open>put\<close> and \<open>get\<close> accept and deliver as much as there is room
  for and data of, and tell by a result of at most zero that there was none.
\<close>

locale byte_pipe =
  fixes inv :: "'s \<Rightarrow> bool" and held :: "'s \<Rightarrow> bytes" and room :: "'s \<Rightarrow> nat"
    and put :: "bytes \<Rightarrow> 's \<Rightarrow> (int \<times> 's) c_outcome"
    and get :: "nat \<Rightarrow> 's \<Rightarrow> ((int \<times> bytes) \<times> 's) c_outcome"
  assumes capacity: "inv s \<Longrightarrow> 0 < length (held s) + room s"
    and put_law: "inv s \<Longrightarrow> xs \<noteq> [] \<Longrightarrow> \<exists>r s'. put xs s = Ret (r, s') \<and> inv s' \<and>
      nat r = min (length xs) (room s) \<and> held s' = held s @ take (nat r) xs"
    and get_law: "inv s \<Longrightarrow> 0 < k \<Longrightarrow> \<exists>r s'. get k s = Ret ((r, take k (held s)), s') \<and> inv s' \<and>
      nat r = min k (length (held s)) \<and> held s' = drop k (held s)"

text \<open>
  A sender of \<open>xs\<close> and a receiver of pieces of up to \<open>k\<close> bytes take turns; the receiver stops
  when the sender is done and nothing comes any more. \<open>None\<close> when the rounds run out.
\<close>

fun transfer :: "(bytes \<Rightarrow> 's \<Rightarrow> (int \<times> 's) c_outcome) \<Rightarrow> (nat \<Rightarrow> 's \<Rightarrow> ((int \<times> bytes) \<times> 's) c_outcome) \<Rightarrow>
    nat \<Rightarrow> nat \<Rightarrow> bytes \<Rightarrow> bytes \<Rightarrow> 's \<Rightarrow> (bytes \<times> 's) option" where
  "transfer put get 0 k xs received s = None"
| "transfer put get (Suc rounds) k xs received s =
     (case (if xs = [] then Ret (0, s) else put xs s) of
        Undef \<Rightarrow> None
      | Ret (sent, s) \<Rightarrow>
          (case get k s of
             Undef \<Rightarrow> None
           | Ret ((r, out), s) \<Rightarrow>
               let xs' = drop (nat sent) xs
               in if xs' = [] \<and> r \<le> 0 then Some (received, s)
                  else transfer put get rounds k xs' (received @ out) s))"

context byte_pipe
begin

lemma put_step:
  assumes "inv s"
  shows "\<exists>sent s'. (if xs = [] then Ret (0, s) else put xs s) = Ret (sent, s') \<and> inv s' \<and>
    nat sent \<le> length xs \<and> held s' = held s @ take (nat sent) xs \<and> (xs \<noteq> [] \<longrightarrow> held s' \<noteq> [])"
proof (cases "xs = []")
  case True
  then show ?thesis using assms by simp
next
  case False
  obtain r s' where put: "put xs s = Ret (r, s')" "inv s'" "nat r = min (length xs) (room s)"
    "held s' = held s @ take (nat r) xs" using put_law [OF assms False] by blast
  then have "held s' \<noteq> []" using capacity [OF assms] False by auto
  then show ?thesis using put False by simp
qed

lemma transfer_all:
  assumes "inv s" and "0 < k" and "length xs + length (held s) < rounds"
  shows "\<exists>s'. transfer put get rounds k xs received s = Some (received @ held s @ xs, s') \<and> inv s' \<and> held s' = []"
  using assms(1,3)
proof (induction rounds arbitrary: xs received s)
  case (Suc rounds)
  obtain sent s1 where put: "(if xs = [] then Ret (0, s) else put xs s) = Ret (sent, s1)" "inv s1" "nat sent \<le> length xs"
    and held: "held s1 = held s @ take (nat sent) xs" "xs \<noteq> [] \<longrightarrow> held s1 \<noteq> []"
    using put_step [OF Suc.prems(1), of xs] by blast
  obtain r s2 where get: "get k s1 = Ret ((r, take k (held s1)), s2)" "inv s2"
    "nat r = min k (length (held s1))" "held s2 = drop k (held s1)"
    using get_law [OF put(2) assms(2)] by blast
  let ?xs = "drop (nat sent) xs"
  have all: "held s1 @ ?xs = held s @ xs" using held(1) by simp
  have step: "transfer put get (Suc rounds) k xs received s =
      (if ?xs = [] \<and> r \<le> 0 then Some (received, s2) else transfer put get rounds k ?xs (received @ take k (held s1)) s2)"
    using put(1) get(1) by (simp add: Let_def)
  show ?case
  proof (cases "?xs = [] \<and> r \<le> 0")
    case True
    then have "held s1 = []" using get(3) assms(2) by (cases "held s1") auto
    then have "held s2 = []" "held s = []" "xs = []" using get(4) all True by auto
    then show ?thesis unfolding step using True get(2) by simp
  next
    case False
    have "held s1 \<noteq> []"
    proof
      assume "held s1 = []"
      then have "xs = []" "nat r = 0" using held(2) get(3) by auto
      then show False using False by auto
    qed
    then have "length ?xs + length (held s2) < rounds"
      using arg_cong [OF all, of length] get(4) assms(2) Suc.prems(2) by (cases "held s1") auto
    from Suc.IH [OF get(2) this, of "received @ take k (held s1)"]
    moreover have "take k (held s1) @ held s2 @ ?xs = held s @ xs" using get(4) all by (metis append_assoc append_take_drop_id)
    ultimately show ?thesis unfolding step if_not_P [OF False] by simp
  qed
qed simp

end

text \<open>Both directions of a pair are such pipes, while the sending end is open.\<close>

definition open_pair :: "nat \<Rightarrow> nat \<Rightarrow> bio_heap \<Rightarrow> bool" where
  "open_pair i j h = (heap_ok h \<and> linked h i j \<and> \<not> shut (pipe_at h i))"

definition pipe_room :: "nat \<Rightarrow> bio_heap \<Rightarrow> nat" where
  "pipe_room i h = capacity (pipe_at h i) - length (queue (pipe_at h i))"

lemma pipe_bounds:
  assumes "heap_ok h" and "linked h i j"
  shows "length (queue (pipe_at h i)) \<le> capacity (pipe_at h i)" and "0 < capacity (pipe_at h i)"
proof -
  obtain c where "bio_at h i = Some c" "ring_ok (bio_ptr c)" using linkedE [OF assms] by metis
  then show "length (queue (pipe_at h i)) \<le> capacity (pipe_at h i)" and "0 < capacity (pipe_at h i)"
    by (auto simp: pipe_at_def ring_ok_def)
qed

interpretation direction: byte_pipe "open_pair i j" "\<lambda>h. queue (pipe_at h i)" "pipe_room i"
  "\<lambda>xs. BIO_write (Some i) (Some xs) (int (length xs))" "\<lambda>k. BIO_read (Some j) False (int k)" for i j
proof (unfold_locales, goal_cases)
  case (1 s)
  then show ?case using pipe_bounds [of s i j] by (simp add: open_pair_def pipe_room_def)
next
  case (2 s xs)
  then have h: "heap_ok s" "linked s i j" "\<not> shut (pipe_at s i)" by (simp_all add: open_pair_def)
  obtain h' where "BIO_write (Some i) (Some xs) (int (length xs)) s = Ret (fst (pipe_write xs (pipe_at s i)), h')"
    and "heap_ok h'" "linked h' i j" "pipe_at h' i = snd (pipe_write xs (pipe_at s i))"
    using BIO_write_pair [OF h(1,2) order_refl, of xs] by (auto simp: pair_result_def pair_kept_def)
  then show ?case
    using h(3) 2(2) pipe_bounds [OF h(1,2)]
    by (auto simp: open_pair_def pipe_write_def pipe_room_def Let_def)
next
  case (3 s k)
  then have h: "heap_ok s" "linked s j i" "\<not> shut (pipe_at s i)" by (simp_all add: open_pair_def linked_sym)
  obtain h' where "BIO_read (Some j) False (int k) s = Ret (fst (pipe_read k (pipe_at s i)), h')"
    and "heap_ok h'" "linked h' i j" "pipe_at h' i = snd (pipe_read k (pipe_at s i))"
    using BIO_read_pair [OF h(1,2), of k] by (auto simp: pair_result_def pair_kept_def linked_sym)
  then show ?case
    using h(3) 3(2) by (auto simp: open_pair_def pipe_read_def Let_def min_def)
qed

section \<open>Properties\<close>

text \<open>
  C12: Calls on BIO pairs are defined. From an empty heap, after any calls of the interface on
  live BIOs (creating pairs, reading, writing, control commands, reference counts, releasing
  either end in any order), with an allocator that may refuse any request: the next such call
  ends, no assertion fails, no freed BIO or byte outside a ring buffer is touched, and the
  invariant of the pair structures holds again: the ends point to each other or to nothing,
  a BIO is initialised exactly while it has a peer, the ring buffer's length and offset are in
  range, and a read request is only noted while the buffer is empty.
\<close>

theorem bio_calls_defined:
  assumes "bio_reach A h" and "small_allocs A" and "call_live h c"
  shows "\<exists>r h'. bio_exec A c h = Ret (r, h') \<and> heap_ok h'"
  using exec_defined [OF reach_ok [OF assms(1,2)] assms(2,3)] by (simp add: defined_ok_def)

text \<open>A pair with buffers of four bytes, made in an empty heap.\<close>

definition kilobyte :: "nat \<Rightarrow> nat \<Rightarrow> bool" where
  "kilobyte k n = (n \<le> 1024)"

definition sample_pair :: bio_heap where
  "sample_pair = [Some (paired 4 1), Some (paired 4 0)]"

lemma small_kilobyte: "small_allocs kilobyte"
  by (simp add: small_allocs_def kilobyte_def)

lemma sample_new: "BIO_new_bio_pair kilobyte 4 4 [] = Ret ((1, Some 0, Some 1), sample_pair)"
  by code_simp

lemma sample_reach: "bio_reach kilobyte sample_pair"
  by (rule bio_reach.call [OF bio_reach.start, where c = "New_pair 4 4" and r = 1]) (simp_all add: sample_new)

lemma sample_linked: "linked sample_pair 0 1"
  by (simp add: linked_def sample_pair_def bio_at_def)

lemma bio_calls_defined_witness:
  "\<exists>r h'. bio_exec kilobyte (Write 0 (Some [1, 2, 3]) 3) sample_pair = Ret (r, h') \<and> heap_ok h'"
  by (rule bio_calls_defined [OF sample_reach small_kilobyte]) (simp add: sample_pair_def bio_at_def)

text \<open>
  C13: A pair is two queues. Whatever reads, writes and shutdowns are made on the two ends of a
  new pair, in any order, they return what two bounded queues return that start empty with the
  sizes asked for (17 KiB for 0): the same counts, the same bytes, -1 for a full or shut queue
  and for an empty one, 0 at its end; and no other BIO changes.
\<close>

theorem pair_refines_queues:
  assumes "bio_reach A h" and "small_allocs A" and "BIO_new_bio_pair A m n h = Ret ((1, Some i, Some j), h0)"
    and "queue_run cs (\<lparr>queue = [], capacity = pair_size m, shut = False\<rparr>,
      \<lparr>queue = [], capacity = pair_size n, shut = False\<rparr>) = (rs, p, q)"
  shows "\<exists>h'. pair_run i j cs h0 = Ret (rs, h') \<and> pipe_at h' i = p \<and> pipe_at h' j = q \<and>
    heap_ok h' \<and> others_kept {i, j} h0 h'"
proof -
  have "heap_ok h0" "linked h0 i j" "pipe_at h0 i = \<lparr>queue = [], capacity = pair_size m, shut = False\<rparr>"
    "pipe_at h0 j = \<lparr>queue = [], capacity = pair_size n, shut = False\<rparr>"
    using BIO_new_bio_pair_result [OF reach_ok [OF assms(1,2)] assms(2), of m n] assms(3) by auto
  then show ?thesis
    using pair_run_queue [of h0 i j cs rs p q] assms(4) by (auto simp: pair_result_def pair_kept_def)
qed

lemma pair_refines_queues_witness:
  "\<exists>h'. pair_run 0 1 [Put True [1, 2, 3], Get False 2, Put True [4, 5, 6], Get False 9] sample_pair =
      Ret ([(3, []), (2, [1, 2]), (3, []), (4, [3, 4, 5, 6])], h') \<and>
    pipe_at h' 0 = \<lparr>queue = [], capacity = 4, shut = False\<rparr> \<and>
    pipe_at h' 1 = \<lparr>queue = [], capacity = 4, shut = False\<rparr> \<and> heap_ok h' \<and> others_kept {0, 1} sample_pair h'"
  by (rule pair_refines_queues [OF bio_reach.start small_kilobyte sample_new])
    (simp add: pair_size_def pipe_write_def pipe_read_def Let_def)

text \<open>
  C14: Everything arrives. On an open pair, a sender that keeps calling \<open>BIO_write\<close> with what is
  left and a receiver that keeps calling \<open>BIO_read\<close> for up to \<open>k\<close> bytes need no more rounds than
  there are bytes: the receiver gets what was held already and then all the bytes sent, in
  order, although the ring buffer may be much smaller and wrap around.
\<close>

theorem pair_transfers_all:
  assumes "bio_reach A h" and "small_allocs A" and "linked h i j" and "\<not> shut (pipe_at h i)" and "0 < k"
    and "length xs + length (queue (pipe_at h i)) < rounds"
  shows "\<exists>h'. transfer (\<lambda>xs. BIO_write (Some i) (Some xs) (int (length xs))) (\<lambda>k. BIO_read (Some j) False (int k))
      rounds k xs [] h = Some (queue (pipe_at h i) @ xs, h') \<and> queue (pipe_at h' i) = []"
proof -
  have "open_pair i j h" using reach_ok [OF assms(1,2)] assms(3,4) by (simp add: open_pair_def)
  then show ?thesis using direction.transfer_all [of i j h k xs rounds "[]"] assms(5,6) by auto
qed

lemma pair_transfers_all_witness:
  "\<exists>h'. transfer (\<lambda>xs. BIO_write (Some 0) (Some xs) (int (length xs))) (\<lambda>k. BIO_read (Some 1) False (int k))
      8 3 [1, 2, 3, 4, 5, 6, 7] [] sample_pair = Some ([1, 2, 3, 4, 5, 6, 7], h') \<and> queue (pipe_at h' 0) = []"
proof -
  have "pipe_at sample_pair 0 = \<lparr>queue = [], capacity = 4, shut = False\<rparr>"
    by (simp add: pipe_at_def sample_pair_def bio_at_def pipe_of_def pair_size_def)
  then show ?thesis
    using pair_transfers_all [OF sample_reach small_kilobyte sample_linked, of 3 "[1, 2, 3, 4, 5, 6, 7]" 8] by simp
qed

end
