(* ===== verification/Dwarf_Data.thy ===== *)
theory Dwarf_Data
  imports C_Lang
begin

text \<open>
  The cursor parser of the crash unwinder (\<open>Crashlytics/Unwind/Dwarf/FIRCLSDataParsing.c\<close>),
  on a 64-bit little-endian target. Each function takes the memory and is an operation on
  the cursor; the log calls are left out. The LEB128 readers shift an \<open>int\<close>, so they are
  shown to be right for exactly the values below \<open>2 ^ 31\<close>, and undefined from there on.
\<close>

section \<open>Operations\<close>

definition FIRCLSParseUint8AndAdvance :: "mem \<Rightarrow> (u64, u8) c_op" where
  "FIRCLSParseUint8AndAdvance m = c_bind (parse_le m 1) (\<lambda>v. c_return (word_of_nat v))"

definition FIRCLSParseUint16AndAdvance :: "mem \<Rightarrow> (u64, u16) c_op" where
  "FIRCLSParseUint16AndAdvance m = c_bind (parse_le m 2) (\<lambda>v. c_return (word_of_nat v))"

definition FIRCLSParseInt16AndAdvance :: "mem \<Rightarrow> (u64, u16) c_op" where
  "FIRCLSParseInt16AndAdvance m = c_bind (parse_le m 2) (\<lambda>v. c_return (word_of_nat v))"

definition FIRCLSParseUint32AndAdvance :: "mem \<Rightarrow> (u64, u32) c_op" where
  "FIRCLSParseUint32AndAdvance m = c_bind (parse_le m 4) (\<lambda>v. c_return (word_of_nat v))"

definition FIRCLSParseInt32AndAdvance :: "mem \<Rightarrow> (u64, u32) c_op" where
  "FIRCLSParseInt32AndAdvance m = c_bind (parse_le m 4) (\<lambda>v. c_return (word_of_nat v))"

definition FIRCLSParseUint64AndAdvance :: "mem \<Rightarrow> (u64, u64) c_op" where
  "FIRCLSParseUint64AndAdvance m = c_bind (parse_le m 8) (\<lambda>v. c_return (word_of_nat v))"

definition FIRCLSParseInt64AndAdvance :: "mem \<Rightarrow> (u64, u64) c_op" where
  "FIRCLSParseInt64AndAdvance m = c_bind (parse_le m 8) (\<lambda>v. c_return (word_of_nat v))"

definition FIRCLSParsePointerAndAdvance :: "mem \<Rightarrow> (u64, u64) c_op" where
  "FIRCLSParsePointerAndAdvance m = c_bind (parse_le m 8) (\<lambda>v. c_return (word_of_nat v))"

text \<open>
  The two LEB128 loops read at most eight bytes, the first argument counting those left.
  \<open>(0x7F & byte) << shift\<close> is an \<open>int\<close>; the signed loop also returns the final shift and
  the last byte.
\<close>

fun uleb128_loop :: "mem \<Rightarrow> nat \<Rightarrow> u64 \<Rightarrow> nat \<Rightarrow> (u64, u64) c_op" where
  "uleb128_loop m 0 result shift = c_return result"
| "uleb128_loop m (Suc k) result shift =
     c_bind (FIRCLSParseUint8AndAdvance m) (\<lambda>byte.
     c_bind (c_lift (int_shl (unat (0x7f AND byte)) shift)) (\<lambda>v.
       let result = result OR word_of_nat v
       in if 0x80 AND byte = 0 then c_return result else uleb128_loop m k result (shift + 7)))"

definition FIRCLSParseULEB128AndAdvance :: "mem \<Rightarrow> (u64, u64) c_op" where
  "FIRCLSParseULEB128AndAdvance m = uleb128_loop m 8 0 0"

fun leb128_loop :: "mem \<Rightarrow> nat \<Rightarrow> u64 \<Rightarrow> nat \<Rightarrow> u8 \<Rightarrow> (u64, u64 \<times> nat \<times> u8) c_op" where
  "leb128_loop m 0 result shift byte = c_return (result, shift, byte)"
| "leb128_loop m (Suc k) result shift byte =
     c_bind (FIRCLSParseUint8AndAdvance m) (\<lambda>byte.
     c_bind (c_lift (int_shl (unat (0x7f AND byte)) shift)) (\<lambda>v.
       let result = result OR word_of_nat v;
           shift = shift + 7
       in if 0x80 AND byte = 0 then c_return (result, shift, byte)
          else leb128_loop m k result shift byte))"

definition FIRCLSParseLEB128AndAdvance :: "mem \<Rightarrow> (u64, u64) c_op" where
  "FIRCLSParseLEB128AndAdvance m =
     c_bind (leb128_loop m 8 0 0 0) (\<lambda>(result, shift, byte).
       if shift < 64 \<and> 0x40 AND byte \<noteq> 0
       then c_bind (c_lift (int_shl 1 shift)) (\<lambda>v. c_return (result OR - word_of_nat v))
       else c_return result)"

text \<open>\<open>strlen\<close>: undefined when no terminator follows in mapped memory.\<close>

function c_strlen :: "mem \<Rightarrow> u64 \<Rightarrow> nat c_outcome" where
  "c_strlen m a =
     (case m a of
        None \<Rightarrow> Undef
      | Some b \<Rightarrow>
          if b = 0 then Ret 0
          else if a = - 1 then Undef
          else (case c_strlen m (a + 1) of Undef \<Rightarrow> Undef | Ret n \<Rightarrow> Ret (Suc n)))"
  by pat_completeness auto

lemma unat_less_max: "a \<noteq> - 1 \<Longrightarrow> unat a + 1 < 2 ^ 64" for a :: u64
proof -
  assume "a \<noteq> - 1"
  then have "unat a \<noteq> unat (- 1 :: u64)" by (simp only: word_unat_eq_iff not_False_eq_True)
  then show ?thesis
    using unsigned_less [of a, where ?'a = nat] by (simp add: unsigned_minus_1_eq_mask mask_eq_exp_minus_1)
qed

termination c_strlen
  by (relation "measure (\<lambda>(m, a). 2 ^ 64 - unat a)") (auto dest: unat_less_max simp: unat_add_offset [of _ 1, simplified])

declare c_strlen.simps [simp del]

definition FIRCLSParseStringAndAdvance :: "mem \<Rightarrow> (u64, u64) c_op" where
  "FIRCLSParseStringAndAdvance m cursor =
     c_bind (c_lift (c_strlen m cursor)) (\<lambda>n.
     c_bind (c_advance (n + 1)) (\<lambda>_. c_return cursor)) cursor"

definition FIRCLSParseRecordLengthAndAdvance :: "mem \<Rightarrow> (u64, u64) c_op" where
  "FIRCLSParseRecordLengthAndAdvance m =
     c_bind (FIRCLSParseUint32AndAdvance m) (\<lambda>length.
       if length = 0xffffffff then FIRCLSParseUint64AndAdvance m else c_return (ucast length))"

definition CLS_INVALID_ADDRESS :: u64 where
  "CLS_INVALID_ADDRESS = 0xffffffffffffffff"

text \<open>
  The cursor argument is the address of a local variable in every call, so only \<open>*cursor\<close>
  can be NULL. The value is an \<open>intptr_t\<close>, so adding the input address to it may overflow.
\<close>

definition parse_encoded_value :: "mem \<Rightarrow> u8 \<Rightarrow> (u64, u64 option) c_op" where
  "parse_encoded_value m encoding =
     (let value_kind = encoding AND 0x0f;
          some = (\<lambda>p. c_bind p (\<lambda>v. c_return (Some v)))
      in if value_kind = 0x00 then some (FIRCLSParsePointerAndAdvance m)
         else if value_kind = 0x01 then some (FIRCLSParseULEB128AndAdvance m)
         else if value_kind = 0x02 then c_bind (FIRCLSParseUint16AndAdvance m) (\<lambda>v. c_return (Some (ucast v)))
         else if value_kind = 0x03 then c_bind (FIRCLSParseUint32AndAdvance m) (\<lambda>v. c_return (Some (ucast v)))
         else if value_kind = 0x04 then some (FIRCLSParseUint64AndAdvance m)
         else if value_kind = 0x09 then some (FIRCLSParseLEB128AndAdvance m)
         else if value_kind = 0x0a then c_bind (FIRCLSParseInt16AndAdvance m) (\<lambda>v. c_return (Some (scast v)))
         else if value_kind = 0x0b then c_bind (FIRCLSParseInt32AndAdvance m) (\<lambda>v. c_return (Some (scast v)))
         else if value_kind = 0x0c then some (FIRCLSParseInt64AndAdvance m)
         else c_return None)"

definition FIRCLSParseAddressWithEncodingAndAdvance :: "mem \<Rightarrow> u8 \<Rightarrow> (u64, u64) c_op" where
  "FIRCLSParseAddressWithEncodingAndAdvance m encoding cursor =
     (if encoding = 0xff then c_return 0
      else if cursor = 0 then c_return CLS_INVALID_ADDRESS
      else c_bind (parse_encoded_value m encoding) (\<lambda>r.
        case r of
          None \<Rightarrow> c_return CLS_INVALID_ADDRESS
        | Some addr \<Rightarrow>
            if encoding AND 0x70 \<noteq> 0x00 \<and> encoding AND 0x70 \<noteq> 0x10 then c_return CLS_INVALID_ADDRESS
            else c_bind (if encoding AND 0x70 = 0x10 then c_lift (sadd64 addr cursor) else c_return addr) (\<lambda>addr.
              if encoding AND 0x80 \<noteq> 0 then
                (if addr = 0 then c_return CLS_INVALID_ADDRESS
                 else (case load m 8 addr of
                         None \<Rightarrow> c_undef
                       | Some bs \<Rightarrow> c_return (word_of_nat (le_nat bs))))
              else c_return addr))) cursor"

section \<open>Reading and advancing\<close>

named_theorems adv_intros \<open>how far an operation moves the cursor at least\<close>

lemma advances_uint8 [adv_intros]: "advances (FIRCLSParseUint8AndAdvance m) 1"
  unfolding FIRCLSParseUint8AndAdvance_def by (intro advances_bind0 advances_parse_le advances_return)

lemma advances_uint16 [adv_intros]: "advances (FIRCLSParseUint16AndAdvance m) 2"
  unfolding FIRCLSParseUint16AndAdvance_def by (intro advances_bind0 advances_parse_le advances_return)

lemma advances_uint32 [adv_intros]: "advances (FIRCLSParseUint32AndAdvance m) 4"
  unfolding FIRCLSParseUint32AndAdvance_def by (intro advances_bind0 advances_parse_le advances_return)

lemma advances_uint64 [adv_intros]: "advances (FIRCLSParseUint64AndAdvance m) 8"
  unfolding FIRCLSParseUint64AndAdvance_def by (intro advances_bind0 advances_parse_le advances_return)

lemma advances_lift_bind: "(\<And>x. advances (g x) n) \<Longrightarrow> advances (c_bind (c_lift r) g) n"
  by (auto simp: advances_def c_bind_eq_Ret c_lift_eq_Ret)

lemma advances_uleb128_loop: "advances (uleb128_loop m k result shift) 0"
proof (induction k arbitrary: result shift)
  case 0
  then show ?case by (simp only: uleb128_loop.simps leb128_loop.simps advances_return)
next
  case (Suc k)
  then show ?case
    by (auto simp: Let_def intro!: advances_bind0 advances_mono [OF advances_uint8] advances_lift_bind advances_return)
qed

lemma advances_uleb128 [adv_intros]: "advances (FIRCLSParseULEB128AndAdvance m) 0"
  unfolding FIRCLSParseULEB128AndAdvance_def by (rule advances_uleb128_loop)

lemma advances_leb128_loop: "advances (leb128_loop m k result shift byte) 0"
proof (induction k arbitrary: result shift byte)
  case 0
  then show ?case by (simp only: uleb128_loop.simps leb128_loop.simps advances_return)
next
  case (Suc k)
  then show ?case
    by (auto simp: Let_def intro!: advances_bind0 advances_mono [OF advances_uint8] advances_lift_bind advances_return)
qed

lemma advances_leb128 [adv_intros]: "advances (FIRCLSParseLEB128AndAdvance m) 0"
  unfolding FIRCLSParseLEB128AndAdvance_def
  by (intro advances_bind0 advances_leb128_loop)
    (auto intro!: advances_lift_bind advances_return split: prod.split)

lemma reads_parsed:
  "length bs = n \<Longrightarrow> f (le_nat bs) = x \<Longrightarrow> reads m (c_bind (parse_le m n) (\<lambda>v. c_return (f v))) bs x"
  unfolding reads_def by (auto dest!: readsD [OF reads_parse_le [OF refl]])

lemma reads_uint8 [intro]: "reads m (FIRCLSParseUint8AndAdvance m) [b] b"
  unfolding FIRCLSParseUint8AndAdvance_def by (rule reads_parsed) (simp_all add: le_nat_def)

section \<open>LEB128\<close>

text \<open>The signed encoding of the DWARF standard; the unsigned one is \<open>uleb128\<close>.\<close>

function sleb128 :: "int \<Rightarrow> bytes" where
  "sleb128 v =
     (if - 64 \<le> v \<and> v < 64 then [word_of_int (v mod 128)]
      else word_of_int (128 + v mod 128) # sleb128 (v div 128))"
  by pat_completeness auto

lemma sleb128_decreases: "\<not> (- 64 \<le> v \<and> v < 64) \<Longrightarrow> nat \<bar>v div 128\<bar> < nat \<bar>v\<bar>" for v :: int
proof -
  assume "\<not> (- 64 \<le> v \<and> v < 64)"
  moreover have "128 * (v div 128) \<le> v" "v < 128 * (v div 128) + 128" by simp_all
  ultimately show ?thesis by linarith
qed

termination sleb128
  by (relation "measure (\<lambda>v. nat \<bar>v\<bar>)") (rule wf_measure, unfold in_measure, rule sleb128_decreases)

declare sleb128.simps [simp del]

lemma low7: "unat (0x7f AND b) = unat b mod 128" for b :: u8
  using unat_and_7f [of b] by (simp only: and.commute)

lemma high_bit: "0x80 AND b = 0 \<longleftrightarrow> unat b < 128" for b :: u8
  using and_top_bit [of b] by (simp only: and.commute)

text \<open>
  One round of either loop: the byte is read, its shifted bits are defined when they fit an
  \<open>int\<close>, and they are added to the result, whose bits are all below.
\<close>

lemma or_shifted:
  fixes result :: u64
  assumes "unat result < 2 ^ s" and "x < 128" and "s \<le> 28"
  shows "result OR word_of_nat (x * 2 ^ s) = word_of_nat (unat result + x * 2 ^ s)"
proof -
  have x: "unat (word_of_nat x :: u64) = x" using assms(2) by (simp add: unat_of_nat)
  have "unat (push_bit s (word_of_nat x) OR result) = x * 2 ^ s + unat result"
    using push_or_nat [of "word_of_nat x :: u64" 7 s result] assms x by simp
  then have "push_bit s (word_of_nat x) OR result = word_of_nat (x * 2 ^ s + unat result)"
    by (metis word_of_nat_unat_id)
  moreover have "push_bit s (word_of_nat x :: u64) = word_of_nat (x * 2 ^ s)"
    by (simp add: push_bit_eq_mult)
  ultimately show ?thesis by (simp only: or.commute add.commute)
qed

lemma round_bound: "unat result < 2 ^ s \<Longrightarrow> x < 128 \<Longrightarrow> unat result + x * 2 ^ s < 2 ^ (s + 7)" for result :: u64
proof -
  assume "unat result < 2 ^ s" "x < 128"
  then have "unat result + x * 2 ^ s < (x + 1) * 2 ^ s" by simp
  also have "\<dots> \<le> 128 * 2 ^ s" using \<open>x < 128\<close> by (intro mult_right_mono) simp_all
  finally show ?thesis by (simp add: power_add)
qed

lemma unat_round:
  fixes result :: u64
  assumes "unat result < 2 ^ s" and "x < 128" and "s \<le> 28"
  shows "unat (result OR word_of_nat (x * 2 ^ s)) = unat result + x * 2 ^ s"
proof -
  have "unat result + x * 2 ^ s < 2 ^ 64"
    using round_bound [OF assms(1,2)] power_increasing [of "s + 7" 64 "2 :: nat"] assms(3) by linarith
  then show ?thesis by (simp only: or_shifted [OF assms] unat_of_nat) simp
qed

lemma read_byte: "holds m a (b # bs) \<Longrightarrow> FIRCLSParseUint8AndAdvance m a = Ret (b, a + 1)"
  using readsD [OF reads_uint8, of m a b] holds_append [of m a "[b]" bs] by simp

lemma holds_tail: "holds m a (b # bs) \<Longrightarrow> holds m (a + 1) bs"
  by (simp add: holds_Cons)

lemma int_shl_eq: "int_shl x s = (if s < 32 \<and> x * 2 ^ s < 2 ^ 31 then Ret (x * 2 ^ s) else Undef)"
proof -
  have le: "int n \<le> INT_MAX \<longleftrightarrow> n < 2 ^ 31" for n by (simp add: INT_MAX_def) linarith
  show ?thesis unfolding int_shl_def le ..
qed

definition uleb_fits :: "nat \<Rightarrow> nat \<Rightarrow> bool" where
  "uleb_fits s v = (s \<le> 28 \<and> v * 2 ^ s < 2 ^ 31)"

lemma shifts:
  fixes s i :: nat
  assumes "s = 7 * i" and "s \<le> 28"
  obtains "s = 0" | "s = 7" | "s = 14" | "s = 21" | "s = 28"
proof -
  have "i = 0 \<or> i = 1 \<or> i = 2 \<or> i = 3 \<or> i = 4" using assms by linarith
  then show ?thesis using assms(1) that by auto
qed

lemma uleb_fits_step:
  assumes "s = 7 * i" and "s \<le> 28" and "128 \<le> v"
  shows "uleb_fits s v \<longleftrightarrow> v mod 128 * 2 ^ s < 2 ^ 31 \<and> uleb_fits (s + 7) (v div 128)"
proof -
  define q r where "q = v div 128" and "r = v mod 128"
  have v: "v = 128 * q + r" "r < 128" "1 \<le> q" using assms(3) by (simp_all add: q_def r_def)
  show ?thesis
    unfolding q_def [symmetric] r_def [symmetric] uleb_fits_def v(1)
    using assms(1,2) by (rule shifts) (use v in auto)
qed

lemma uleb128_loop_eq:
  assumes "holds m a (uleb128 v)" and "s = 7 * i" and "k + i = 8" and "i \<le> 5"
    and "unat result < 2 ^ s" and "s = 35 \<longrightarrow> 0 < v"
  shows "uleb128_loop m k result s a =
     (if uleb_fits s v then Ret (word_of_nat (unat result + v * 2 ^ s), a + word_of_nat (length (uleb128 v)))
      else Undef)"
  using assms
proof (induction v arbitrary: a k i s result rule: uleb128.induct)
  case (1 v)
  obtain k' where k: "k = Suc k'" using \<open>k + i = 8\<close> \<open>i \<le> 5\<close> by (cases k) auto
  define b :: u8 where "b = (if v < 128 then word_of_nat v else word_of_nat (128 + v mod 128))"
  have ub: "unat b = (if v < 128 then v else 128 + v mod 128)"
    using mod_less_divisor [of 128 v] by (simp add: b_def unat_of_nat del: of_nat_add)
  have enc: "uleb128 v = b # (if v < 128 then [] else uleb128 (v div 128))"
    by (subst uleb128.simps) (simp add: b_def)
  have rd: "FIRCLSParseUint8AndAdvance m a = Ret (b, a + 1)"
    using 1(2) unfolding enc by (rule read_byte)
  have bits: "unat (0x7f AND b) = v mod 128" and hi: "0x80 AND b = 0 \<longleftrightarrow> v < 128"
    unfolding low7 high_bit ub by auto
  have step: "uleb128_loop m k result s a =
     c_bind (c_lift (int_shl (v mod 128) s)) (\<lambda>w.
       if v < 128 then c_return (result OR word_of_nat w) else uleb128_loop m k' (result OR word_of_nat w) (s + 7)) (a + 1)"
    using rd unfolding k by (simp add: bits hi Let_def)
  show ?case
  proof (cases "s \<le> 28")
    case False
    then have "s = 35" using \<open>s = 7 * i\<close> \<open>i \<le> 5\<close> by simp
    then have "int_shl (v mod 128) s = Undef" by (simp add: int_shl_eq)
    then show ?thesis using False by (simp add: step uleb_fits_def)
  next
    case s: True
    note sum = unat_round [OF 1(6) _ s, of "v mod 128"] or_shifted [OF 1(6) _ s, of "v mod 128"]
    show ?thesis
    proof (cases "v mod 128 * 2 ^ s < 2 ^ 31")
      case False
      then have "int_shl (v mod 128) s = Undef" by (simp add: int_shl_eq)
      moreover have "\<not> uleb_fits s v"
        using False s uleb_fits_step [OF \<open>s = 7 * i\<close> s, of v] by (cases "v < 128") (auto simp: uleb_fits_def)
      ultimately show ?thesis by (simp add: step)
    next
      case True
      then have shl: "int_shl (v mod 128) s = Ret (v mod 128 * 2 ^ s)"
        using s by (simp add: int_shl_eq)
      show ?thesis
      proof (cases "v < 128")
        case small: True
        then have "uleb_fits s v" using True s by (simp add: uleb_fits_def)
        then show ?thesis using small shl sum by (simp add: step enc)
      next
        case big: False
        let ?r = "result OR word_of_nat (v mod 128 * 2 ^ s)"
        have "uleb128_loop m k' ?r (s + 7) (a + 1) =
          (if uleb_fits (s + 7) (v div 128)
           then Ret (word_of_nat (unat ?r + v div 128 * 2 ^ (s + 7)), a + 1 + word_of_nat (length (uleb128 (v div 128))))
           else Undef)"
        proof (rule 1(1) [OF big])
          show "holds m (a + 1) (uleb128 (v div 128))" using 1(2) big by (simp add: enc holds_tail)
          show "s + 7 = 7 * (i + 1)" "k' + (i + 1) = 8" "i + 1 \<le> 5"
            using \<open>s = 7 * i\<close> \<open>k + i = 8\<close> k s by simp_all
          show "unat ?r < 2 ^ (s + 7)" using sum round_bound [OF 1(6), of "v mod 128"] by simp
          show "s + 7 = 35 \<longrightarrow> 0 < v div 128" using big by (simp add: div_greater_zero_iff)
        qed
        moreover have "unat ?r + v div 128 * 2 ^ (s + 7) = unat result + v * 2 ^ s"
        proof -
          have "v * 2 ^ s = (v div 128 * 128 + v mod 128) * 2 ^ s" by simp
          also have "\<dots> = v div 128 * 2 ^ (s + 7) + v mod 128 * 2 ^ s"
            by (simp only: add_mult_distrib power_add) simp
          finally show ?thesis using sum by simp
        qed
        ultimately show ?thesis
          using big shl True uleb_fits_step [OF \<open>s = 7 * i\<close> s, of v] by (simp add: step enc add.assoc)
      qed
    qed
  qed
qed

lemma uleb128_eq:
  "holds m a (uleb128 v) \<Longrightarrow> FIRCLSParseULEB128AndAdvance m a =
     (if v < 2 ^ 31 then Ret (word_of_nat v, a + word_of_nat (length (uleb128 v))) else Undef)"
  using uleb128_loop_eq [of m a v 0 0 8 0] by (simp add: FIRCLSParseULEB128AndAdvance_def uleb_fits_def)

text \<open>The signed reader: the loop followed by the sign extension.\<close>

definition leb128_finish :: "u64 \<times> nat \<times> u8 \<Rightarrow> (u64, u64) c_op" where
  "leb128_finish = (\<lambda>(result, shift, byte).
     if shift < 64 \<and> 0x40 AND byte \<noteq> 0
     then c_bind (c_lift (int_shl 1 shift)) (\<lambda>v. c_return (result OR - word_of_nat v))
     else c_return result)"

definition leb_fits :: "nat \<Rightarrow> int \<Rightarrow> bool" where
  "leb_fits s v = (s \<le> 28 \<and> - (2 ^ 27) \<le> v * 2 ^ s \<and> v * 2 ^ s < 2 ^ 31)"

lemma leb_fits_step:
  assumes "s = 7 * i" and "s \<le> 28" and "\<not> (- 64 \<le> v \<and> v < 64)"
  shows "leb_fits s v \<longleftrightarrow> nat (v mod 128) * 2 ^ s < 2 ^ 31 \<and> leb_fits (s + 7) (v div 128)"
proof -
  define q where "q = v div 128"
  define r where "r = nat (v mod 128)"
  have v: "v = 128 * q + int r" "r < 128" by (simp_all add: q_def r_def nat_less_iff)
  show ?thesis
    unfolding q_def [symmetric] r_def [symmetric] leb_fits_def v(1)
    using assms(1,2) by (rule shifts) (use v assms(3) in auto)
qed

lemma mod128_small: "- 64 \<le> v \<Longrightarrow> v < 64 \<Longrightarrow> v mod 128 = (if 0 \<le> v then v else v + 128)" for v :: int
  by (auto intro: int_mod_pos_eq [where q = "-1"] int_mod_pos_eq [where q = 0])

lemma leb_fits_last:
  assumes "s = 7 * i" and "s \<le> 28" and "- 64 \<le> v" and "v < 64"
  shows "leb_fits s v \<longleftrightarrow> nat (v mod 128) * 2 ^ s < 2 ^ 31"
  unfolding leb_fits_def mod128_small [OF assms(3,4)] using assms(1,2)
  by (rule shifts) (use assms(3,4) in \<open>auto split: if_splits\<close>)

lemma or_sign:
  fixes r :: u64
  assumes "unat r < 2 ^ n" and "n < 64"
  shows "r OR - word_of_nat (2 ^ n) = r - word_of_nat (2 ^ n)"
proof -
  have neg: "- word_of_nat (2 ^ n) = (push_bit n (- 1) :: u64)"
    by (simp add: push_bit_eq_mult)
  have low: "k < n" if "bit r k" for k
  proof -
    have "take_bit n r = r"
      using assms by (intro unsigned_word_eqI [where ?'a = nat]) (simp add: unsigned_take_bit_eq take_bit_nat_eq_self)
    then show ?thesis using that by (metis bit_take_bit_iff not_less)
  qed
  have "r + push_bit n (- 1) = r OR push_bit n (- 1)"
    by (intro disjunctive_add_eq_or) (auto simp: bit_eq_iff bit_simps dest: low)
  then show ?thesis unfolding diff_conv_add_uminus neg by (rule sym)
qed

lemma bit6: "0x40 AND b = 0 \<longleftrightarrow> unat b mod 128 < 64" for b :: u8
proof -
  have "0x40 AND b = 0 \<longleftrightarrow> \<not> bit b 6"
    using and_exp_eq_0_iff_not_bit [of b 6] by (simp add: and.commute)
  also have "\<dots> \<longleftrightarrow> even (unat b div 64)"
    using bit_unsigned_iff [of b 6, where ?'a = nat] by (simp add: bit_iff_odd)
  also have "\<dots> \<longleftrightarrow> unat b mod 128 < 64"
    using mod_mult2_eq [of "unat b" 64 2] by (auto simp: even_iff_mod_2_eq_zero)
  finally show ?thesis .
qed

lemma leb128_loop_eq:
  assumes "holds m a (sleb128 v)" and "s = 7 * i" and "k + i = 8" and "i \<le> 5"
    and "unat result < 2 ^ s" and "s = 35 \<longrightarrow> v \<noteq> 0"
  shows "c_bind (leb128_loop m k result s byte0) leb128_finish a =
     (if leb_fits s v then Ret (result + word_of_int (v * 2 ^ s), a + word_of_nat (length (sleb128 v)))
      else Undef)"
  using assms
proof (induction v arbitrary: a k i s result byte0 rule: sleb128.induct)
  case (1 v)
  obtain k' where k: "k = Suc k'" using \<open>k + i = 8\<close> \<open>i \<le> 5\<close> by (cases k) auto
  define x where "x = nat (v mod 128)"
  have x: "x < 128" "int x = v mod 128" by (simp_all add: x_def nat_less_iff)
  define fin where "fin \<longleftrightarrow> - 64 \<le> v \<and> v < 64"
  define b :: u8 where "b = (if fin then word_of_int (v mod 128) else word_of_int (128 + v mod 128))"
  have "b = word_of_nat (if fin then x else 128 + x)"
    unfolding b_def x(2) [symmetric] by simp
  then have ub: "unat b = (if fin then x else 128 + x)"
    using x(1) by (simp add: unat_of_nat del: of_nat_add)
  have enc: "sleb128 v = b # (if fin then [] else sleb128 (v div 128))"
    by (subst sleb128.simps) (simp add: b_def fin_def)
  have rd: "FIRCLSParseUint8AndAdvance m a = Ret (b, a + 1)"
    using 1(2) unfolding enc by (rule read_byte)
  have bits: "unat (0x7f AND b) = x" and hi: "0x80 AND b = 0 \<longleftrightarrow> fin" and sgn: "0x40 AND b \<noteq> 0 \<longleftrightarrow> 64 \<le> x"
    using x(1) unfolding low7 high_bit bit6 ub by auto
  have step: "c_bind (leb128_loop m k result s byte0) leb128_finish a =
     c_bind (c_lift (int_shl x s)) (\<lambda>w.
       if fin then leb128_finish (result OR word_of_nat w, s + 7, b)
       else c_bind (leb128_loop m k' (result OR word_of_nat w) (s + 7) b) leb128_finish) (a + 1)"
    using rd unfolding k by (simp add: bits hi Let_def c_bind_def split: c_outcome.split)
  show ?case
  proof (cases "s \<le> 28 \<and> x * 2 ^ s < 2 ^ 31")
    case False
    have "s \<le> 28 \<or> s = 35" using \<open>s = 7 * i\<close> \<open>i \<le> 5\<close> by presburger
    then have "int_shl x s = Undef" using False by (auto simp: int_shl_eq)
    moreover have "\<not> leb_fits s v"
      using False leb_fits_step [OF \<open>s = 7 * i\<close>, of v] leb_fits_last [OF \<open>s = 7 * i\<close>, of v]
      by (auto simp: x_def leb_fits_def)
    ultimately show ?thesis by (simp add: step)
  next
    case True
    then have s: "s \<le> 28" and shl: "int_shl x s = Ret (x * 2 ^ s)" by (simp_all add: int_shl_eq)
    let ?r = "result OR word_of_nat (x * 2 ^ s)"
    note sum = unat_round [OF 1(6) x(1) s] or_shifted [OF 1(6) x(1) s]
    have bound: "unat ?r < 2 ^ (s + 7)" using sum round_bound [OF 1(6) x(1)] by simp
    have r_eq: "?r = result + word_of_int (int x * 2 ^ s)"
      using sum(2) by (simp add: word_of_nat_unat_id)
    show ?thesis
    proof (cases fin)
      case small: True
      have fits: "leb_fits s v"
        using leb_fits_last [OF \<open>s = 7 * i\<close> s, of v] small True by (simp add: fin_def x_def)
      have "leb128_finish (?r, s + 7, b) (a + 1) = Ret (result + word_of_int (v * 2 ^ s), a + 1)"
      proof (cases "64 \<le> x")
        case neg: True
        then have v: "v = int x - 128"
          using small x mod128_small [of v] by (auto simp: fin_def split: if_splits)
        have "s \<le> 21"
          by (rule shifts [OF \<open>s = 7 * i\<close> s]) (use neg True in auto)
        then have "int_shl 1 (s + 7) = Ret (2 ^ (s + 7))"
          using power_increasing [of "s + 7" 28 "2 :: nat"] by (simp add: int_shl_eq)
        moreover have "?r - word_of_nat (2 ^ (s + 7)) = result + word_of_int (v * 2 ^ s)"
          unfolding r_eq v by (simp add: left_diff_distrib power_add)
        ultimately show ?thesis
          using neg s or_sign [OF bound] by (simp add: leb128_finish_def sgn)
      next
        case False
        then have "v = int x" using small x mod128_small [of v] by (auto simp: fin_def split: if_splits)
        then show ?thesis using False r_eq by (simp add: leb128_finish_def sgn)
      qed
      then show ?thesis using small shl fits by (simp add: step enc)
    next
      case big: False
      have "c_bind (leb128_loop m k' ?r (s + 7) b) leb128_finish (a + 1) =
          (if leb_fits (s + 7) (v div 128)
           then Ret (?r + word_of_int (v div 128 * 2 ^ (s + 7)), a + 1 + word_of_nat (length (sleb128 (v div 128))))
           else Undef)"
      proof (rule 1(1))
        show "\<not> (- 64 \<le> v \<and> v < 64)" using big by (simp add: fin_def)
        show "holds m (a + 1) (sleb128 (v div 128))" using 1(2) big by (simp add: enc holds_tail)
        show "s + 7 = 7 * (i + 1)" "k' + (i + 1) = 8" "i + 1 \<le> 5"
          using \<open>s = 7 * i\<close> \<open>k + i = 8\<close> k s by simp_all
        show "unat ?r < 2 ^ (s + 7)" by (rule bound)
        have "v = v div 128 * 128 + int x" unfolding x(2) by simp
        then show "s + 7 = 35 \<longrightarrow> v div 128 \<noteq> 0" using big True by (auto simp: fin_def)
      qed
      moreover have "?r + word_of_int (v div 128 * 2 ^ (s + 7)) = result + word_of_int (v * 2 ^ s)"
      proof -
        have "v * 2 ^ s = (v div 128 * 128 + v mod 128) * 2 ^ s" by simp
        also have "\<dots> = v div 128 * 2 ^ (s + 7) + int x * 2 ^ s"
          unfolding x(2) by (simp only: distrib_right power_add) simp
        finally have "word_of_int (v * 2 ^ s) = (word_of_int (v div 128 * 2 ^ (s + 7) + int x * 2 ^ s) :: u64)"
          by (rule arg_cong)
        then show ?thesis unfolding r_eq by simp
      qed
      moreover have "leb_fits s v \<longleftrightarrow> leb_fits (s + 7) (v div 128)"
        using leb_fits_step [OF \<open>s = 7 * i\<close> s, of v] big True by (simp add: fin_def x_def)
      ultimately show ?thesis
        using big shl by (simp add: step enc add.assoc del: of_nat_mult of_int_mult of_nat_power of_int_power)
    qed
  qed
qed

lemma leb128_eq:
  "holds m a (sleb128 v) \<Longrightarrow> FIRCLSParseLEB128AndAdvance m a =
     (if - (2 ^ 27) \<le> v \<and> v < 2 ^ 31 then Ret (word_of_int v, a + word_of_nat (length (sleb128 v))) else Undef)"
  using leb128_loop_eq [of m a v 0 0 8 0 0]
  by (simp add: FIRCLSParseLEB128AndAdvance_def leb128_finish_def [symmetric] leb_fits_def)

section \<open>Properties\<close>

text \<open>
  C35: Unsigned LEB128. Where the memory holds the encoding of a value below \<open>2 ^ 31\<close> the
  reader returns the value and moves the cursor past the encoding; for every larger value,
  which the eight-byte loop and the 64-bit result are there to read, the shift of an \<open>int\<close>
  is undefined.
\<close>

theorem uleb128_exact:
  assumes "holds m a (uleb128 v)"
  shows "FIRCLSParseULEB128AndAdvance m a =
    (if v < 2 ^ 31 then Ret (word_of_nat v, a + word_of_nat (length (uleb128 v))) else Undef)"
  using assms by (rule uleb128_eq)

lemma uleb128_exact_witness:
  "FIRCLSParseULEB128AndAdvance (mem_at 0x1000 (uleb128 624485)) 0x1000 = Ret (624485, 0x1003) \<and>
   FIRCLSParseULEB128AndAdvance (mem_at 0x1000 (uleb128 (2 ^ 31))) 0x1000 = Undef"
proof -
  have len: "length (uleb128 624485) = 3" "length (uleb128 (2 ^ 31)) = 5" by code_simp+
  then have "holds (mem_at 0x1000 (uleb128 624485)) 0x1000 (uleb128 624485)"
    and "holds (mem_at 0x1000 (uleb128 (2 ^ 31))) 0x1000 (uleb128 (2 ^ 31))"
    by (simp_all add: holds_mem_at)
  from this [THEN uleb128_exact] show ?thesis using len by simp
qed

text \<open>
  Signed LEB128. The reader returns exactly the values from \<open>- 2 ^ 27\<close> below \<open>2 ^ 31\<close>,
  negative ones sign extended to 64 bits, and is undefined on the encodings of all others.
\<close>

theorem leb128_exact:
  assumes "holds m a (sleb128 v)"
  shows "FIRCLSParseLEB128AndAdvance m a =
    (if - (2 ^ 27) \<le> v \<and> v < 2 ^ 31 then Ret (word_of_int v, a + word_of_nat (length (sleb128 v))) else Undef)"
  using assms by (rule leb128_eq)

lemma leb128_exact_witness:
  "FIRCLSParseLEB128AndAdvance (mem_at 0x1000 (sleb128 (- 123456))) 0x1000 = Ret (- 123456, 0x1003)"
proof -
  have len: "length (sleb128 (- 123456)) = 3" by code_simp
  then have "holds (mem_at 0x1000 (sleb128 (- 123456))) 0x1000 (sleb128 (- 123456))"
    by (simp add: holds_mem_at)
  from leb128_exact [OF this] show ?thesis using len by simp
qed

end
