(* ===== verification/Crash_Thread.thy ===== *)
theory Crash_Thread
  imports C_Lang
begin

text \<open>
  The register state the crash unwinder works on (\<open>Crashlytics/Helpers/FIRCLSThreadState.c\<close>
  and the register access of \<open>Crashlytics/Unwind/FIRCLSUnwind_x86.c\<close>), for x86-64, the
  64-bit target whose unwinding code is all in the repository. A context is passed by
  value and returned updated; the pointer to it is that of a live object in every call.
\<close>

record thread_context =
  rax :: u64
  rbx :: u64
  rcx :: u64
  rdx :: u64
  rdi :: u64
  rsi :: u64
  rbp :: u64
  rsp :: u64
  r8 :: u64
  r9 :: u64
  r10 :: u64
  r11 :: u64
  r12 :: u64
  r13 :: u64
  r14 :: u64
  r15 :: u64
  rip :: u64

definition zero_context :: thread_context where
  "zero_context = \<lparr>rax = 0, rbx = 0, rcx = 0, rdx = 0, rdi = 0, rsi = 0, rbp = 0, rsp = 0, r8 = 0, r9 = 0,
     r10 = 0, r11 = 0, r12 = 0, r13 = 0, r14 = 0, r15 = 0, rip = 0\<rparr>"

definition FIRCLSIsValidPointer :: "u64 \<Rightarrow> bool" where
  "FIRCLSIsValidPointer x = (4096 \<le> x)"

text \<open>\<open>vm_read_overwrite\<close> fails where any of the bytes is not mapped.\<close>

definition FIRCLSReadMemory :: "mem \<Rightarrow> u64 \<Rightarrow> nat \<Rightarrow> bytes option" where
  "FIRCLSReadMemory m src len = (if \<not> FIRCLSIsValidPointer src then None else load m len src)"

definition read_pointer :: "mem \<Rightarrow> u64 \<Rightarrow> u64 option" where
  "read_pointer m src = map_option (\<lambda>bs. word_of_nat (le_nat bs)) (FIRCLSReadMemory m src 8)"

definition FIRCLSThreadContextGetPC :: "thread_context \<Rightarrow> u64" where
  "FIRCLSThreadContextGetPC registers = rip registers"

definition FIRCLSThreadContextGetStackPointer :: "thread_context \<Rightarrow> u64" where
  "FIRCLSThreadContextGetStackPointer registers = rsp registers"

definition FIRCLSThreadContextSetStackPointer :: "thread_context \<Rightarrow> u64 \<Rightarrow> thread_context" where
  "FIRCLSThreadContextSetStackPointer registers value = registers\<lparr>rsp := value\<rparr>"

definition FIRCLSThreadContextSetPC :: "thread_context \<Rightarrow> u64 \<Rightarrow> thread_context" where
  "FIRCLSThreadContextSetPC registers value = registers\<lparr>rip := value\<rparr>"

definition FIRCLSThreadContextGetFramePointer :: "thread_context \<Rightarrow> u64" where
  "FIRCLSThreadContextGetFramePointer registers = rbp registers"

definition FIRCLSThreadContextSetFramePointer :: "thread_context \<Rightarrow> u64 \<Rightarrow> thread_context" where
  "FIRCLSThreadContextSetFramePointer registers value = registers\<lparr>rbp := value\<rparr>"

text \<open>The DWARF numbering of the registers.\<close>

definition CLS_DWARF_MAX_REGISTER_NUM :: nat where "CLS_DWARF_MAX_REGISTER_NUM = 16"
definition CLS_DWARF_INVALID_REGISTER_NUM :: nat where "CLS_DWARF_INVALID_REGISTER_NUM = 17"
definition CLS_DWARF_REG_SP :: nat where "CLS_DWARF_REG_SP = 7"
definition CLS_DWARF_REG_RETURN :: nat where "CLS_DWARF_REG_RETURN = 16"

definition FIRCLSDwarfUnwindGetRegisterValue :: "thread_context \<Rightarrow> nat \<Rightarrow> u64" where
  "FIRCLSDwarfUnwindGetRegisterValue registers num =
     (if num = 0 then rax registers
      else if num = 1 then rdx registers
      else if num = 2 then rcx registers
      else if num = 3 then rbx registers
      else if num = 4 then rsi registers
      else if num = 5 then rdi registers
      else if num = 6 then rbp registers
      else if num = 7 then rsp registers
      else if num = 8 then r8 registers
      else if num = 9 then r9 registers
      else if num = 10 then r10 registers
      else if num = 11 then r11 registers
      else if num = 12 then r12 registers
      else if num = 13 then r13 registers
      else if num = 14 then r14 registers
      else if num = 15 then r15 registers
      else if num = 16 then rip registers
      else 0)"

definition FIRCLSDwarfUnwindSetRegisterValue :: "thread_context \<Rightarrow> nat \<Rightarrow> u64 \<Rightarrow> thread_context option" where
  "FIRCLSDwarfUnwindSetRegisterValue registers num value =
     (if num = 0 then Some (registers\<lparr>rax := value\<rparr>)
      else if num = 1 then Some (registers\<lparr>rdx := value\<rparr>)
      else if num = 2 then Some (registers\<lparr>rcx := value\<rparr>)
      else if num = 3 then Some (registers\<lparr>rbx := value\<rparr>)
      else if num = 4 then Some (registers\<lparr>rsi := value\<rparr>)
      else if num = 5 then Some (registers\<lparr>rdi := value\<rparr>)
      else if num = 6 then Some (registers\<lparr>rbp := value\<rparr>)
      else if num = 7 then Some (registers\<lparr>rsp := value\<rparr>)
      else if num = 8 then Some (registers\<lparr>r8 := value\<rparr>)
      else if num = 9 then Some (registers\<lparr>r9 := value\<rparr>)
      else if num = 10 then Some (registers\<lparr>r10 := value\<rparr>)
      else if num = 11 then Some (registers\<lparr>r11 := value\<rparr>)
      else if num = 12 then Some (registers\<lparr>r12 := value\<rparr>)
      else if num = 13 then Some (registers\<lparr>r13 := value\<rparr>)
      else if num = 14 then Some (registers\<lparr>r14 := value\<rparr>)
      else if num = 15 then Some (registers\<lparr>r15 := value\<rparr>)
      else if num = 16 then Some (registers\<lparr>rip := value\<rparr>)
      else None)"

section \<open>The registers as an array\<close>

lemma reg_cases:
  assumes "num \<le> 16"
  obtains "num = 0" | "num = 1" | "num = 2" | "num = 3" | "num = 4" | "num = 5" | "num = 6" | "num = 7"
    | "num = 8" | "num = 9" | "num = 10" | "num = 11" | "num = 12" | "num = 13" | "num = 14" | "num = 15" | "num = (16 :: nat)"
proof -
  have "num = 0 \<or> num = 1 \<or> num = 2 \<or> num = 3 \<or> num = 4 \<or> num = 5 \<or> num = 6 \<or> num = 7 \<or>
    num = 8 \<or> num = 9 \<or> num = 10 \<or> num = 11 \<or> num = 12 \<or> num = 13 \<or> num = 14 \<or> num = 15 \<or> num = 16"
    using assms by presburger
  then show ?thesis using that by blast
qed

lemma set_register_defined: "FIRCLSDwarfUnwindSetRegisterValue regs num v = None \<longleftrightarrow> 16 < num"
proof (cases "num \<le> 16")
  case True
  then show ?thesis by (rule reg_cases) (simp_all add: FIRCLSDwarfUnwindSetRegisterValue_def)
next
  case False
  then show ?thesis by (auto simp: FIRCLSDwarfUnwindSetRegisterValue_def)
qed

lemma get_set_register:
  assumes "FIRCLSDwarfUnwindSetRegisterValue regs num v = Some regs'"
  shows "FIRCLSDwarfUnwindGetRegisterValue regs' k = (if k = num then v else FIRCLSDwarfUnwindGetRegisterValue regs k)"
proof -
  have "num \<le> 16" using assms set_register_defined [of regs num v] by (metis not_le option.distinct(1))
  then show ?thesis
    by (rule reg_cases) (use assms in \<open>auto simp: FIRCLSDwarfUnwindSetRegisterValue_def FIRCLSDwarfUnwindGetRegisterValue_def\<close>)
qed

lemma registers_eqI:
  assumes "\<And>k. k \<le> 16 \<Longrightarrow> FIRCLSDwarfUnwindGetRegisterValue a k = FIRCLSDwarfUnwindGetRegisterValue b k"
  shows "a = b"
  by (rule thread_context.equality)
    (use assms [of 0] assms [of 1] assms [of 2] assms [of 3] assms [of 4] assms [of 5] assms [of 6] assms [of 7] assms [of 8]
      assms [of 9] assms [of 10] assms [of 11] assms [of 12] assms [of 13] assms [of 14] assms [of 15] assms [of 16]
     in \<open>simp_all add: FIRCLSDwarfUnwindGetRegisterValue_def\<close>)

end
