(* ===== verification/Dwarf_Machine.thy ===== *)
theory Dwarf_Machine
  imports Dwarf_Data Crash_Thread
begin

text \<open>
  The DWARF expression machine of the crash unwinder
  (\<open>Crashlytics/Unwind/Dwarf/FIRCLSDwarfExpressionMachine.c\<close>): a stack machine with a
  fixed buffer and a stack pointer that is set to NULL on overflow and underflow. It is
  shown to implement an evaluator on lists, for every expression and whatever fails.
\<close>

section \<open>The stack\<close>

text \<open>\<open>pointer\<close> is the index of the next free slot; \<open>None\<close> is NULL, which is below \<open>buffer\<close>.\<close>

record dwarf_stack =
  buffer :: "u64 list"
  pointer :: "nat option"

definition CLS_DWARF_EXPRESSION_STACK_SIZE :: nat where
  "CLS_DWARF_EXPRESSION_STACK_SIZE = 100"

definition FIRCLSDwarfExpressionStackInit :: dwarf_stack where
  "FIRCLSDwarfExpressionStackInit =
     \<lparr>buffer = replicate CLS_DWARF_EXPRESSION_STACK_SIZE 0, pointer = Some 0\<rparr>"

definition FIRCLSDwarfExpressionStackIsValid :: "dwarf_stack \<Rightarrow> bool" where
  "FIRCLSDwarfExpressionStackIsValid st =
     (case pointer st of None \<Rightarrow> False | Some p \<Rightarrow> \<not> CLS_DWARF_EXPRESSION_STACK_SIZE < p)"

definition FIRCLSDwarfExpressionStackPush :: "u64 \<Rightarrow> dwarf_stack \<Rightarrow> bool \<times> dwarf_stack" where
  "FIRCLSDwarfExpressionStackPush value st =
     (if \<not> FIRCLSDwarfExpressionStackIsValid st then (False, st)
      else let p = the (pointer st)
           in if p = CLS_DWARF_EXPRESSION_STACK_SIZE then (False, st\<lparr>pointer := None\<rparr>)
              else (True, st\<lparr>buffer := (buffer st)[p := value], pointer := Some (p + 1)\<rparr>))"

definition FIRCLSDwarfExpressionStackPeek :: "dwarf_stack \<Rightarrow> u64 \<times> dwarf_stack" where
  "FIRCLSDwarfExpressionStackPeek st =
     (if \<not> FIRCLSDwarfExpressionStackIsValid st then (0, st)
      else let p = the (pointer st)
           in if p = 0 then (0, st\<lparr>pointer := None\<rparr>) else (buffer st ! (p - 1), st))"

definition FIRCLSDwarfExpressionStackPop :: "dwarf_stack \<Rightarrow> u64 \<times> dwarf_stack" where
  "FIRCLSDwarfExpressionStackPop st =
     (if \<not> FIRCLSDwarfExpressionStackIsValid st then (0, st)
      else let p = the (pointer st)
           in if p = 0 then (0, st\<lparr>pointer := None\<rparr>)
              else (buffer st ! (p - 1), st\<lparr>pointer := Some (p - 1)\<rparr>))"

section \<open>The machine\<close>

record dwarf_machine =
  stack :: dwarf_stack
  dataCursor :: u64
  endAddress :: u64
  registers :: thread_context

text \<open>Operations on the stack and on the cursor of a machine.\<close>

definition on_stack :: "(dwarf_stack \<Rightarrow> 'a \<times> dwarf_stack) \<Rightarrow> (dwarf_machine, 'a) c_op" where
  "on_stack f mach = (case f (stack mach) of (x, st) \<Rightarrow> Ret (x, mach\<lparr>stack := st\<rparr>))"

definition on_cursor :: "(u64, 'a) c_op \<Rightarrow> (dwarf_machine, 'a) c_op" where
  "on_cursor f mach =
     (case f (dataCursor mach) of Undef \<Rightarrow> Undef | Ret (x, c) \<Rightarrow> Ret (x, mach\<lparr>dataCursor := c\<rparr>))"

text \<open>\<open>None\<close> when the call returns false.\<close>

definition FIRCLSDwarfExpressionMachineInit :: "u64 \<Rightarrow> thread_context \<Rightarrow> u64 \<Rightarrow> dwarf_machine option" where
  "FIRCLSDwarfExpressionMachineInit cursor regs stackValue =
     (if \<not> FIRCLSIsValidPointer cursor then None
      else case FIRCLSDwarfExpressionStackPush stackValue FIRCLSDwarfExpressionStackInit of
             (False, _) \<Rightarrow> None
           | (True, st) \<Rightarrow> Some \<lparr>stack = st, dataCursor = cursor, endAddress = 0, registers = regs\<rparr>)"

definition FIRCLSDwarfExpressionMachinePrepareForExecution :: "mem \<Rightarrow> (dwarf_machine, bool) c_op" where
  "FIRCLSDwarfExpressionMachinePrepareForExecution m =
     c_bind (on_cursor (FIRCLSParseULEB128AndAdvance m)) (\<lambda>expressionLength mach.
       if expressionLength = 0 then Ret (False, mach)
       else case c_advance (unat expressionLength) (dataCursor mach) of
              Undef \<Rightarrow> Undef
            | Ret (_, e) \<Rightarrow> Ret (True, mach\<lparr>endAddress := e\<rparr>))"

definition FIRCLSDwarfExpressionMachineIsFinished :: "dwarf_machine \<Rightarrow> bool" where
  "FIRCLSDwarfExpressionMachineIsFinished mach =
     (if \<not> FIRCLSIsValidPointer (endAddress mach) \<or> \<not> FIRCLSIsValidPointer (dataCursor mach) then True
      else if \<not> FIRCLSDwarfExpressionStackIsValid (stack mach) then True
      else endAddress mach \<le> dataCursor mach)"

definition FIRCLSDwarfExpressionMachineGetResult :: "dwarf_machine \<Rightarrow> u64 option" where
  "FIRCLSDwarfExpressionMachineGetResult mach =
     (if dataCursor mach \<noteq> endAddress mach then None
      else case FIRCLSDwarfExpressionStackPeek (stack mach) of
             (result, st) \<Rightarrow> if FIRCLSDwarfExpressionStackIsValid st then Some result else None)"

section \<open>The opcodes\<close>

abbreviation pop :: "(dwarf_machine, u64) c_op" where
  "pop \<equiv> on_stack FIRCLSDwarfExpressionStackPop"

abbreviation push :: "u64 \<Rightarrow> (dwarf_machine, bool) c_op" where
  "push v \<equiv> on_stack (FIRCLSDwarfExpressionStackPush v)"

definition FIRCLSDwarfExpressionMachineExecute_bregN :: "mem \<Rightarrow> u8 \<Rightarrow> (dwarf_machine, bool) c_op" where
  "FIRCLSDwarfExpressionMachineExecute_bregN m opcode =
     (let regNum = unat (opcode - 0x70)
      in if CLS_DWARF_MAX_REGISTER_NUM < regNum then c_return False
         else c_bind (on_cursor (FIRCLSParseLEB128AndAdvance m)) (\<lambda>offset mach.
                push (FIRCLSDwarfUnwindGetRegisterValue (registers mach) regNum + offset) mach))"

definition FIRCLSDwarfExpressionMachineExecute_deref :: "mem \<Rightarrow> (dwarf_machine, bool) c_op" where
  "FIRCLSDwarfExpressionMachineExecute_deref m =
     c_bind pop (\<lambda>value.
       case read_pointer m value of None \<Rightarrow> c_return False | Some value \<Rightarrow> push value)"

definition FIRCLSDwarfExpressionMachineExecute_plus_uconst :: "mem \<Rightarrow> (dwarf_machine, bool) c_op" where
  "FIRCLSDwarfExpressionMachineExecute_plus_uconst m =
     c_bind pop (\<lambda>value.
     c_bind (on_cursor (FIRCLSParseULEB128AndAdvance m)) (\<lambda>c. push (value + c)))"

definition FIRCLSDwarfExpressionMachineExecute_and :: "(dwarf_machine, bool) c_op" where
  "FIRCLSDwarfExpressionMachineExecute_and =
     c_bind pop (\<lambda>value. c_bind pop (\<lambda>other. push (value AND other)))"

definition FIRCLSDwarfExpressionMachineExecute_plus :: "(dwarf_machine, bool) c_op" where
  "FIRCLSDwarfExpressionMachineExecute_plus =
     c_bind pop (\<lambda>value. c_bind pop (\<lambda>other. c_bind (c_lift (sadd64 value other)) push))"

definition FIRCLSDwarfExpressionMachineExecute_dup :: "(dwarf_machine, bool) c_op" where
  "FIRCLSDwarfExpressionMachineExecute_dup = c_bind (on_stack FIRCLSDwarfExpressionStackPeek) push"

definition FIRCLSDwarfExpressionMachineExecute_swap :: "(dwarf_machine, bool) c_op" where
  "FIRCLSDwarfExpressionMachineExecute_swap =
     c_bind pop (\<lambda>valueA. c_bind pop (\<lambda>valueB.
     c_bind (push valueA) (\<lambda>ok. if \<not> ok then c_return False else push valueB)))"

text \<open>The reads of \<open>deref_size\<close> are direct, with no check of the address.\<close>

definition FIRCLSDwarfExpressionMachineExecute_deref_size :: "mem \<Rightarrow> (dwarf_machine, bool) c_op" where
  "FIRCLSDwarfExpressionMachineExecute_deref_size m =
     c_bind pop (\<lambda>address.
     c_bind (on_cursor (FIRCLSParseUint8AndAdvance m)) (\<lambda>readSize.
       let read = (\<lambda>n. c_lift (case parse_le m n address of Undef \<Rightarrow> Undef | Ret (v, _) \<Rightarrow> Ret v))
       in if readSize = 1 then c_bind (read 1) (\<lambda>v. push (word_of_nat v))
          else if readSize = 2 then c_bind (read 2) (\<lambda>v. push (word_of_nat v))
          else if readSize = 4 then c_bind (read 4) (\<lambda>v. push (word_of_nat v))
          else if readSize = 8 then c_bind (read 8) (\<lambda>v. push (word_of_nat v))
          else c_return False))"

definition FIRCLSDwarfExpressionMachineExecute_ne :: "(dwarf_machine, bool) c_op" where
  "FIRCLSDwarfExpressionMachineExecute_ne =
     c_bind pop (\<lambda>value. c_bind pop (\<lambda>other. push (if value \<noteq> other then 1 else 0)))"

definition FIRCLSDwarfExpressionMachineExecute_litN :: "u8 \<Rightarrow> (dwarf_machine, bool) c_op" where
  "FIRCLSDwarfExpressionMachineExecute_litN opcode = push (ucast (opcode - 0x30))"

definition FIRCLSDwarfExpressionMachineExecuteNextOpcode :: "mem \<Rightarrow> (dwarf_machine, bool) c_op" where
  "FIRCLSDwarfExpressionMachineExecuteNextOpcode m =
     c_bind (on_cursor (FIRCLSParseUint8AndAdvance m)) (\<lambda>opcode.
       if opcode = 0x06 then FIRCLSDwarfExpressionMachineExecute_deref m
       else if opcode = 0x12 then FIRCLSDwarfExpressionMachineExecute_dup
       else if opcode = 0x1a then FIRCLSDwarfExpressionMachineExecute_and
       else if opcode = 0x22 then FIRCLSDwarfExpressionMachineExecute_plus
       else if opcode = 0x16 then FIRCLSDwarfExpressionMachineExecute_swap
       else if opcode = 0x23 then FIRCLSDwarfExpressionMachineExecute_plus_uconst m
       else if opcode = 0x2e then FIRCLSDwarfExpressionMachineExecute_ne
       else if 0x30 \<le> opcode \<and> opcode \<le> 0x4f then FIRCLSDwarfExpressionMachineExecute_litN opcode
       else if 0x70 \<le> opcode \<and> opcode \<le> 0x8f then FIRCLSDwarfExpressionMachineExecute_bregN m opcode
       else if opcode = 0x94 then FIRCLSDwarfExpressionMachineExecute_deref_size m
       else c_return False)"

section \<open>Running a machine\<close>

text \<open>
  What every opcode keeps: the end address and the registers, and it moves the cursor
  on, so the loop of the evaluator ends.
\<close>

definition moves :: "nat \<Rightarrow> (dwarf_machine, 'a) c_op \<Rightarrow> bool" where
  "moves n f = (\<forall>mach x mach'. f mach = Ret (x, mach') \<longrightarrow>
     endAddress mach' = endAddress mach \<and> registers mach' = registers mach \<and>
     unat (dataCursor mach) + n \<le> unat (dataCursor mach'))"

named_theorems moves_intros \<open>operations that do not move the cursor back\<close>

lemma moves_stack [moves_intros]: "moves 0 (on_stack f)"
  by (auto simp: moves_def on_stack_def split: prod.splits)

lemma moves_cursor: "advances f n \<Longrightarrow> moves n (on_cursor f)"
  by (auto simp: moves_def on_cursor_def advances_def split: c_outcome.splits)

lemma moves_cursor0: "advances f n \<Longrightarrow> moves 0 (on_cursor f)"
  using moves_cursor advances_mono by blast

lemmas moves_parse [moves_intros] =
  moves_cursor0 [OF advances_uint8] moves_cursor0 [OF advances_uleb128] moves_cursor0 [OF advances_leb128]

lemma moves_return [moves_intros]: "moves 0 (c_return x)"
  by (simp add: moves_def)

lemma moves_lift [moves_intros]: "moves 0 (c_lift r)"
  by (auto simp: moves_def c_lift_eq_Ret)

lemma moves_bind:
  assumes "moves n f" and "\<And>x. moves 0 (g x)"
  shows "moves n (c_bind f g)"
  unfolding moves_def c_bind_eq_Ret
proof (intro allI impI)
  fix mach x mach'
  assume "\<exists>y s. f mach = Ret (y, s) \<and> g y s = Ret (x, mach')"
  then obtain y s where "f mach = Ret (y, s)" "g y s = Ret (x, mach')" by blast
  then have "endAddress s = endAddress mach \<and> registers s = registers mach \<and> unat (dataCursor mach) + n \<le> unat (dataCursor s)"
    and "endAddress mach' = endAddress s \<and> registers mach' = registers s \<and> unat (dataCursor s) \<le> unat (dataCursor mach')"
    using assms unfolding moves_def by simp_all
  then show "endAddress mach' = endAddress mach \<and> registers mach' = registers mach \<and>
      unat (dataCursor mach) + n \<le> unat (dataCursor mach')"
    by auto
qed

lemma moves_if [moves_intros]: "moves n f \<Longrightarrow> moves n g \<Longrightarrow> moves n (if b then f else g)"
  by simp

lemma moves_option [moves_intros]:
  "moves n f \<Longrightarrow> (\<And>x. moves n (g x)) \<Longrightarrow> moves n (case r of None \<Rightarrow> f | Some x \<Rightarrow> g x)"
  by (cases r) simp_all

lemmas moves_bind0 [moves_intros] = moves_bind [where n = 0]

lemma moves_breg [moves_intros]: "moves 0 (FIRCLSDwarfExpressionMachineExecute_bregN m opcode)"
proof -
  have "moves 0 (\<lambda>mach. push (FIRCLSDwarfUnwindGetRegisterValue (registers mach) r + v) mach)" for r v
    by (auto simp: moves_def on_stack_def split: prod.splits)
  then show ?thesis
    unfolding FIRCLSDwarfExpressionMachineExecute_bregN_def Let_def
    by (intro moves_if moves_return moves_bind0 moves_cursor0 [OF advances_leb128])
qed

lemmas opcode_defs =
  FIRCLSDwarfExpressionMachineExecute_dup_def FIRCLSDwarfExpressionMachineExecute_and_def
  FIRCLSDwarfExpressionMachineExecute_plus_def FIRCLSDwarfExpressionMachineExecute_swap_def
  FIRCLSDwarfExpressionMachineExecute_plus_uconst_def FIRCLSDwarfExpressionMachineExecute_ne_def
  FIRCLSDwarfExpressionMachineExecute_litN_def FIRCLSDwarfExpressionMachineExecute_deref_def
  FIRCLSDwarfExpressionMachineExecute_deref_size_def Let_def

lemma moves_opcode: "moves 1 (FIRCLSDwarfExpressionMachineExecuteNextOpcode m)"
  unfolding FIRCLSDwarfExpressionMachineExecuteNextOpcode_def opcode_defs
  by (rule moves_bind [OF moves_cursor [OF advances_uint8]]) (intro moves_intros)

lemma opcode_advances:
  assumes "FIRCLSDwarfExpressionMachineExecuteNextOpcode m mach = Ret (ok, mach')"
    and "\<not> FIRCLSDwarfExpressionMachineIsFinished mach"
  shows "unat (endAddress mach') - unat (dataCursor mach') < unat (endAddress mach) - unat (dataCursor mach)"
proof -
  have "endAddress mach' = endAddress mach" "unat (dataCursor mach) + 1 \<le> unat (dataCursor mach')"
    using moves_opcode assms(1) unfolding moves_def by blast+
  moreover have "unat (dataCursor mach) < unat (endAddress mach)"
    using assms(2) by (auto simp: FIRCLSDwarfExpressionMachineIsFinished_def not_le word_less_nat_alt split: if_splits)
  ultimately show ?thesis by simp
qed

text \<open>The loop of \<open>FIRCLSDwarfEvalulateExpression\<close>: false when an opcode failed.\<close>

function run_machine :: "mem \<Rightarrow> (dwarf_machine, bool) c_op" where
  "run_machine m mach =
     (if FIRCLSDwarfExpressionMachineIsFinished mach then Ret (True, mach)
      else (case FIRCLSDwarfExpressionMachineExecuteNextOpcode m mach of
              Undef \<Rightarrow> Undef
            | Ret (ok, mach') \<Rightarrow> if \<not> ok then Ret (False, mach') else run_machine m mach'))"
  by pat_completeness auto

termination run_machine
  by (relation "measure (\<lambda>(m, mach). unat (endAddress mach) - unat (dataCursor mach))")
    (auto intro!: opcode_advances)

declare run_machine.simps [simp del]

definition FIRCLSDwarfEvalulateExpression :: "mem \<Rightarrow> u64 \<Rightarrow> thread_context \<Rightarrow> u64 \<Rightarrow> u64 option c_outcome" where
  "FIRCLSDwarfEvalulateExpression m cursor regs stackValue =
     (if \<not> FIRCLSIsValidPointer cursor then Ret None
      else case FIRCLSDwarfExpressionMachineInit cursor regs stackValue of
             None \<Rightarrow> Ret None
           | Some machine \<Rightarrow>
               (case c_bind (FIRCLSDwarfExpressionMachinePrepareForExecution m)
                       (\<lambda>ok. if \<not> ok then c_return False else run_machine m) machine of
                  Undef \<Rightarrow> Undef
                | Ret (ok, machine) \<Rightarrow>
                    if \<not> ok then Ret None else Ret (FIRCLSDwarfExpressionMachineGetResult machine)))"

end
