(* ===== verification/Dwarf_Expr.thy ===== *)
theory Dwarf_Expr
  imports Dwarf_Machine
begin

text \<open>
  What a DWARF expression means, as an evaluator of opcodes on a list, and the proof that
  the machine implements it. The stack the machine uses is behind an interface with the
  contents as an optional list, \<open>None\<close> once it has over- or underflowed.
\<close>

section \<open>Bounded stacks that remember a failure\<close>

locale failing_stack =
  fixes inv :: "'s \<Rightarrow> bool"
    and contents :: "'s \<Rightarrow> 'a list option"
    and push :: "'a \<Rightarrow> 's \<Rightarrow> bool \<times> 's"
    and pop peek :: "'s \<Rightarrow> 'a \<times> 's"
    and default :: 'a
    and capacity :: nat
  assumes inv_length: "inv s \<Longrightarrow> contents s = Some xs \<Longrightarrow> length xs \<le> capacity"
    and push_law: "inv s \<Longrightarrow> push v s = (ok, s') \<Longrightarrow> inv s' \<and> ok = (contents s' \<noteq> None) \<and>
      contents s' = (case contents s of None \<Rightarrow> None
        | Some xs \<Rightarrow> if length xs < capacity then Some (v # xs) else None)"
    and pop_law: "inv s \<Longrightarrow> pop s = (v, s') \<Longrightarrow> inv s' \<and>
      (case contents s of Some (x # xs) \<Rightarrow> v = x \<and> contents s' = Some xs | _ \<Rightarrow> v = default \<and> contents s' = None)"
    and peek_law: "inv s \<Longrightarrow> peek s = (v, s') \<Longrightarrow> inv s' \<and>
      (case contents s of Some (x # xs) \<Rightarrow> v = x \<and> contents s' = Some (x # xs)
        | _ \<Rightarrow> v = default \<and> contents s' = None)"
begin

lemma push_fails: "inv s \<Longrightarrow> contents s = None \<Longrightarrow> \<exists>s'. push v s = (False, s') \<and> inv s' \<and> contents s' = None"
  using push_law [of s v "fst (push v s)" "snd (push v s)"] by (cases "push v s") auto

lemma push_room:
  "inv s \<Longrightarrow> contents s = Some xs \<Longrightarrow> length xs < capacity \<Longrightarrow>
    \<exists>s'. push v s = (True, s') \<and> inv s' \<and> contents s' = Some (v # xs)"
  using push_law [of s v "fst (push v s)" "snd (push v s)"] by (cases "push v s") auto

lemma push_full:
  "inv s \<Longrightarrow> contents s = Some xs \<Longrightarrow> \<not> length xs < capacity \<Longrightarrow>
    \<exists>s'. push v s = (False, s') \<and> inv s' \<and> contents s' = None"
  using push_law [of s v "fst (push v s)" "snd (push v s)"] by (cases "push v s") auto

lemma pop_Cons: "inv s \<Longrightarrow> contents s = Some (x # xs) \<Longrightarrow> \<exists>s'. pop s = (x, s') \<and> inv s' \<and> contents s' = Some xs"
  using pop_law [of s "fst (pop s)" "snd (pop s)"] by (cases "pop s") auto

lemma pop_Nil: "inv s \<Longrightarrow> contents s = Some [] \<Longrightarrow> \<exists>s'. pop s = (default, s') \<and> inv s' \<and> contents s' = None"
  using pop_law [of s "fst (pop s)" "snd (pop s)"] by (cases "pop s") auto

lemma pop_failed: "inv s \<Longrightarrow> contents s = None \<Longrightarrow> \<exists>s'. pop s = (default, s') \<and> inv s' \<and> contents s' = None"
  using pop_law [of s "fst (pop s)" "snd (pop s)"] by (cases "pop s") auto

lemma peek_Cons:
  "inv s \<Longrightarrow> contents s = Some (x # xs) \<Longrightarrow> \<exists>s'. peek s = (x, s') \<and> inv s' \<and> contents s' = Some (x # xs)"
  using peek_law [of s "fst (peek s)" "snd (peek s)"] by (cases "peek s") auto

lemma peek_Nil: "inv s \<Longrightarrow> contents s = Some [] \<Longrightarrow> \<exists>s'. peek s = (default, s') \<and> inv s' \<and> contents s' = None"
  using peek_law [of s "fst (peek s)" "snd (peek s)"] by (cases "peek s") auto

text \<open>A value that has just been popped leaves room for another.\<close>

lemma push_after_pop:
  assumes "inv s" and "contents s = Some xs" and "inv t" and "contents t = Some (x # xs)"
  shows "\<exists>s'. push v s = (True, s') \<and> inv s' \<and> contents s' = Some (v # xs)"
  using push_room [OF assms(1,2)] inv_length [OF assms(3,4)] by simp

end

definition stack_inv :: "dwarf_stack \<Rightarrow> bool" where
  "stack_inv st = (length (buffer st) = CLS_DWARF_EXPRESSION_STACK_SIZE \<and>
     (\<forall>p. pointer st = Some p \<longrightarrow> p \<le> CLS_DWARF_EXPRESSION_STACK_SIZE))"

definition stack_contents :: "dwarf_stack \<Rightarrow> u64 list option" where
  "stack_contents st = map_option (\<lambda>p. rev (take p (buffer st))) (pointer st)"

lemma take_unsnoc: "0 < p \<Longrightarrow> p \<le> length xs \<Longrightarrow> take p xs = take (p - Suc 0) xs @ [xs ! (p - Suc 0)]"
  by (cases p) (simp_all add: take_Suc_conv_app_nth)

lemma take_last: "0 < p \<Longrightarrow> p \<le> length xs \<Longrightarrow> rev (take p xs) = xs ! (p - 1) # rev (take (p - 1) xs)"
  using take_unsnoc [of p xs] by simp

interpretation dwarf_stack: failing_stack stack_inv stack_contents FIRCLSDwarfExpressionStackPush
  FIRCLSDwarfExpressionStackPop FIRCLSDwarfExpressionStackPeek 0 CLS_DWARF_EXPRESSION_STACK_SIZE
proof unfold_locales
  show "length xs \<le> CLS_DWARF_EXPRESSION_STACK_SIZE" if "stack_inv s" "stack_contents s = Some xs" for s xs
    using that by (auto simp: stack_inv_def stack_contents_def)
  show "stack_inv s' \<and> ok = (stack_contents s' \<noteq> None) \<and>
      stack_contents s' = (case stack_contents s of None \<Rightarrow> None
        | Some xs \<Rightarrow> if length xs < CLS_DWARF_EXPRESSION_STACK_SIZE then Some (v # xs) else None)"
    if "stack_inv s" "FIRCLSDwarfExpressionStackPush v s = (ok, s')" for s v ok s'
    using that
    by (auto simp: stack_inv_def stack_contents_def FIRCLSDwarfExpressionStackPush_def
        FIRCLSDwarfExpressionStackIsValid_def take_Suc_conv_app_nth Let_def split: option.splits if_splits)
  show "stack_inv s' \<and> (case stack_contents s of Some (x # xs) \<Rightarrow> v = x \<and> stack_contents s' = Some xs
      | _ \<Rightarrow> v = 0 \<and> stack_contents s' = None)"
    if "stack_inv s" "FIRCLSDwarfExpressionStackPop s = (v, s')" for s v s'
    using that
    by (auto simp: stack_inv_def stack_contents_def FIRCLSDwarfExpressionStackPop_def
        FIRCLSDwarfExpressionStackIsValid_def take_last Let_def split: option.splits if_splits)
  show "stack_inv s' \<and> (case stack_contents s of Some (x # xs) \<Rightarrow> v = x \<and> stack_contents s' = Some (x # xs)
      | _ \<Rightarrow> v = 0 \<and> stack_contents s' = None)"
    if "stack_inv s" "FIRCLSDwarfExpressionStackPeek s = (v, s')" for s v s'
    using that
    by (auto simp: stack_inv_def stack_contents_def FIRCLSDwarfExpressionStackPeek_def
        FIRCLSDwarfExpressionStackIsValid_def take_last Let_def intro: take_unsnoc split: option.splits if_splits)
qed

section \<open>Expressions\<close>

datatype dwarf_op =
  Op_deref | Op_dup | Op_and | Op_plus | Op_swap | Op_ne
  | Op_plus_uconst nat | Op_lit nat | Op_breg nat int | Op_deref_size u8

fun encode_op :: "dwarf_op \<Rightarrow> bytes" where
  "encode_op Op_deref = [0x06]"
| "encode_op Op_dup = [0x12]"
| "encode_op Op_and = [0x1a]"
| "encode_op Op_plus = [0x22]"
| "encode_op Op_swap = [0x16]"
| "encode_op Op_ne = [0x2e]"
| "encode_op (Op_plus_uconst n) = 0x23 # uleb128 n"
| "encode_op (Op_lit n) = [word_of_nat (0x30 + n)]"
| "encode_op (Op_breg r i) = word_of_nat (0x70 + r) # sleb128 i"
| "encode_op (Op_deref_size k) = [0x94, k]"

definition wf_op :: "dwarf_op \<Rightarrow> bool" where
  "wf_op op = (case op of Op_lit n \<Rightarrow> n < 32 | Op_breg r _ \<Rightarrow> r < 32 | _ \<Rightarrow> True)"

definition push_value :: "u64 \<Rightarrow> u64 list \<Rightarrow> u64 list option" where
  "push_value v xs = (if length xs < 100 then Some (v # xs) else None)"

text \<open>
  The meaning of an opcode on the stack, top first: undefined, failed (\<open>None\<close>), or the new
  stack. Underflow fails, except that \<open>deref_size\<close> then reads address 0.
\<close>

fun eval_op :: "mem \<Rightarrow> thread_context \<Rightarrow> dwarf_op \<Rightarrow> u64 list \<Rightarrow> u64 list option c_outcome" where
  "eval_op m regs Op_deref xs =
     (case xs of [] \<Rightarrow> Ret None
      | x # ys \<Rightarrow> (case read_pointer m x of None \<Rightarrow> Ret None | Some v \<Rightarrow> Ret (Some (v # ys))))"
| "eval_op m regs Op_dup xs = (case xs of [] \<Rightarrow> Ret None | x # ys \<Rightarrow> Ret (push_value x xs))"
| "eval_op m regs Op_and xs = (case xs of x # y # ys \<Rightarrow> Ret (Some ((x AND y) # ys)) | _ \<Rightarrow> Ret None)"
| "eval_op m regs Op_plus xs =
     (case xs of x # y # ys \<Rightarrow> (case sadd64 x y of Undef \<Rightarrow> Undef | Ret z \<Rightarrow> Ret (Some (z # ys))) | _ \<Rightarrow> Ret None)"
| "eval_op m regs Op_swap xs = (case xs of x # y # ys \<Rightarrow> Ret (Some (y # x # ys)) | _ \<Rightarrow> Ret None)"
| "eval_op m regs Op_ne xs = (case xs of x # y # ys \<Rightarrow> Ret (Some ((if x \<noteq> y then 1 else 0) # ys)) | _ \<Rightarrow> Ret None)"
| "eval_op m regs (Op_plus_uconst n) xs =
     (if 2 ^ 31 \<le> n then Undef
      else case xs of [] \<Rightarrow> Ret None | x # ys \<Rightarrow> Ret (Some ((x + word_of_nat n) # ys)))"
| "eval_op m regs (Op_lit n) xs = Ret (push_value (word_of_nat n) xs)"
| "eval_op m regs (Op_breg r i) xs =
     (if 16 < r then Ret None
      else if \<not> (- (2 ^ 27) \<le> i \<and> i < 2 ^ 31) then Undef
      else Ret (push_value (FIRCLSDwarfUnwindGetRegisterValue regs r + word_of_int i) xs))"
| "eval_op m regs (Op_deref_size k) xs =
     (if k \<notin> {1, 2, 4, 8} then Ret None
      else case parse_le m (unat k) (case xs of [] \<Rightarrow> 0 | x # _ \<Rightarrow> x) of
             Undef \<Rightarrow> Undef
           | Ret (v, _) \<Rightarrow> (case xs of [] \<Rightarrow> Ret None | x # ys \<Rightarrow> Ret (Some (word_of_nat v # ys))))"

fun eval_ops :: "mem \<Rightarrow> thread_context \<Rightarrow> dwarf_op list \<Rightarrow> u64 list \<Rightarrow> u64 list option c_outcome" where
  "eval_ops m regs [] xs = Ret (Some xs)"
| "eval_ops m regs (op # ops) xs =
     (case eval_op m regs op xs of
        Undef \<Rightarrow> Undef
      | Ret None \<Rightarrow> Ret None
      | Ret (Some ys) \<Rightarrow> eval_ops m regs ops ys)"

section \<open>The machine implements the evaluator\<close>

definition step_result ::
    "dwarf_machine \<Rightarrow> nat \<Rightarrow> u64 list option c_outcome \<Rightarrow> (bool \<times> dwarf_machine) c_outcome \<Rightarrow> bool" where
  "step_result mach n spec r =
     (case spec of
        Undef \<Rightarrow> r = Undef
      | Ret None \<Rightarrow> (\<exists>mach'. r = Ret (False, mach'))
      | Ret (Some ys) \<Rightarrow> (\<exists>st. stack_inv st \<and> stack_contents st = Some ys \<and>
          r = Ret (True, mach\<lparr>stack := st, dataCursor := dataCursor mach + word_of_nat n\<rparr>)))"

lemma sadd64_0 [simp]: "sadd64 x 0 = Ret x"
  using sint_greater_eq [of x] sint_less [of x] by (simp add: sadd64_def fits_int64_def)

lemma on_stack_eq: "f (stack mach) = (x, st) \<Longrightarrow> on_stack f mach = Ret (x, mach\<lparr>stack := st\<rparr>)"
  by (simp add: on_stack_def)

lemma pop_then:
  assumes "stack_inv (stack mach)" and "stack_contents (stack mach) = Some xs"
  shows "\<exists>st. c_bind pop f mach = f (case xs of [] \<Rightarrow> 0 | x # _ \<Rightarrow> x) (mach\<lparr>stack := st\<rparr>) \<and> stack_inv st \<and>
    stack_contents st = (case xs of [] \<Rightarrow> None | _ # ys \<Rightarrow> Some ys)"
proof (cases xs)
  case Nil
  with dwarf_stack.pop_Nil assms obtain st where
    "FIRCLSDwarfExpressionStackPop (stack mach) = (0, st)" "stack_inv st" "stack_contents st = None" by blast
  with Nil show ?thesis by (intro exI [of _ st]) (simp add: on_stack_eq)
next
  case (Cons x ys)
  with dwarf_stack.pop_Cons assms obtain st where
    "FIRCLSDwarfExpressionStackPop (stack mach) = (x, st)" "stack_inv st" "stack_contents st = Some ys" by blast
  with Cons show ?thesis by (intro exI [of _ st]) (simp add: on_stack_eq)
qed

lemma pop_then_failed:
  assumes "stack_inv (stack mach)" and "stack_contents (stack mach) = None"
  shows "\<exists>st. c_bind pop f mach = f 0 (mach\<lparr>stack := st\<rparr>) \<and> stack_inv st \<and> stack_contents st = None"
proof -
  from dwarf_stack.pop_failed assms obtain st where
    "FIRCLSDwarfExpressionStackPop (stack mach) = (0, st)" "stack_inv st" "stack_contents st = None" by blast
  then show ?thesis by (intro exI [of _ st]) (simp add: on_stack_eq)
qed

lemma push_failed:
  assumes "stack_inv (stack mach)" and "stack_contents (stack mach) = None"
  shows "\<exists>mach'. push v mach = Ret (False, mach')"
  using dwarf_stack.push_fails [OF assms, of v] by (auto simp: on_stack_def)

lemma push_some:
  assumes "stack_inv (stack mach)" and "stack_contents (stack mach) = Some ys" and "length ys < 100"
  shows "\<exists>st. push v mach = Ret (True, mach\<lparr>stack := st\<rparr>) \<and> stack_inv st \<and> stack_contents st = Some (v # ys)"
  using dwarf_stack.push_room [OF assms(1,2), of v] assms(3)
  by (auto simp: on_stack_eq CLS_DWARF_EXPRESSION_STACK_SIZE_def)

text \<open>Both values of a binary operation popped.\<close>

lemma pop_two:
  assumes "stack_inv (stack mach)" and "stack_contents (stack mach) = Some xs"
  obtains x y ys st where "xs = x # y # ys" and "length ys < 99" and "stack_inv st" and "stack_contents st = Some ys"
      and "\<And>f :: u64 \<Rightarrow> u64 \<Rightarrow> (dwarf_machine, bool) c_op. c_bind pop (\<lambda>a. c_bind pop (f a)) mach = f x y (mach\<lparr>stack := st\<rparr>)"
    | x st where "length xs < 2" and "stack_inv st" and "stack_contents st = None"
      and "\<And>f :: u64 \<Rightarrow> u64 \<Rightarrow> (dwarf_machine, bool) c_op. c_bind pop (\<lambda>a. c_bind pop (f a)) mach = f x 0 (mach\<lparr>stack := st\<rparr>)"
proof -
  let ?p = FIRCLSDwarfExpressionStackPop
  have two: "c_bind pop (\<lambda>a. c_bind pop (f a)) mach = f x y (mach\<lparr>stack := st'\<rparr>)"
    if "?p (stack mach) = (x, st)" "?p st = (y, st')" for f :: "u64 \<Rightarrow> u64 \<Rightarrow> (dwarf_machine, bool) c_op" and x y st st'
    using that by (simp add: on_stack_eq)
  have len: "length xs \<le> 100"
    using dwarf_stack.inv_length [OF assms] by (simp add: CLS_DWARF_EXPRESSION_STACK_SIZE_def)
  consider "xs = []" | x where "xs = [x]" | x y ys where "xs = x # y # ys" by (metis list.exhaust)
  then show ?thesis
  proof cases
    case 1
    then obtain st st' where "?p (stack mach) = (0, st)" "?p st = (0, st')" "stack_inv st'" "stack_contents st' = None"
      using dwarf_stack.pop_Nil dwarf_stack.pop_failed assms by metis
    with two 1 show ?thesis by (intro that(2)) auto
  next
    case (2 x)
    then obtain st st' where "?p (stack mach) = (x, st)" "?p st = (0, st')" "stack_inv st'" "stack_contents st' = None"
      using dwarf_stack.pop_Cons dwarf_stack.pop_Nil assms by metis
    with two 2 show ?thesis by (intro that(2)) auto
  next
    case (3 x y ys)
    then obtain st st' where "?p (stack mach) = (x, st)" "?p st = (y, st')" "stack_inv st'" "stack_contents st' = Some ys"
      using dwarf_stack.pop_Cons assms by metis
    with two 3 len show ?thesis by (intro that(1)) auto
  qed
qed

lemma step_failed: "(\<exists>mach'. r = Ret (False, mach')) \<Longrightarrow> step_result mach n (Ret None) r"
  by (simp add: step_result_def)

lemma step_undef: "step_result mach n Undef Undef"
  by (simp add: step_result_def)

lemma step_push:
  assumes "stack_inv st" and "stack_contents st = Some ys" and "length ys < 100"
  shows "step_result mach 0 (Ret (Some (v # ys))) (push v (mach\<lparr>stack := st\<rparr>))"
  using push_some [of "mach\<lparr>stack := st\<rparr>" ys v] assms by (auto simp: step_result_def)

lemma step_push_value:
  assumes "stack_inv (stack mach)" and "stack_contents (stack mach) = Some xs"
  shows "step_result mach 0 (Ret (push_value v xs)) (push v mach)"
proof (cases "length xs < 100")
  case True
  then show ?thesis using push_some [OF assms, of v] by (auto simp: step_result_def push_value_def)
next
  case False
  then show ?thesis
    using dwarf_stack.push_full [OF assms, of v]
    by (auto simp: step_result_def push_value_def on_stack_def CLS_DWARF_EXPRESSION_STACK_SIZE_def)
qed

lemma exec_and:
  assumes "stack_inv (stack mach)" and "stack_contents (stack mach) = Some xs"
  shows "step_result mach 0 (eval_op m regs Op_and xs) (FIRCLSDwarfExpressionMachineExecute_and mach)"
  using assms
proof (cases rule: pop_two)
  case (1 x y ys st)
  then show ?thesis using step_push [of st ys] by (simp add: opcode_defs)
next
  case (2 x st)
  then show ?thesis using push_failed [of "mach\<lparr>stack := st\<rparr>"]
    by (auto simp: opcode_defs intro!: step_failed split: list.split)
qed

lemma exec_ne:
  assumes "stack_inv (stack mach)" and "stack_contents (stack mach) = Some xs"
  shows "step_result mach 0 (eval_op m regs Op_ne xs) (FIRCLSDwarfExpressionMachineExecute_ne mach)"
  using assms
proof (cases rule: pop_two)
  case (1 x y ys st)
  then show ?thesis using step_push [of st ys] by (simp add: opcode_defs)
next
  case (2 x st)
  then show ?thesis using push_failed [of "mach\<lparr>stack := st\<rparr>"]
    by (auto simp: opcode_defs intro!: step_failed split: list.split)
qed

lemma exec_plus:
  assumes "stack_inv (stack mach)" and "stack_contents (stack mach) = Some xs"
  shows "step_result mach 0 (eval_op m regs Op_plus xs) (FIRCLSDwarfExpressionMachineExecute_plus mach)"
  using assms
proof (cases rule: pop_two)
  case (1 x y ys st)
  then show ?thesis using step_push [of st ys] by (cases "sadd64 x y") (auto simp: opcode_defs intro: step_undef)
next
  case (2 x st)
  then show ?thesis using push_failed [of "mach\<lparr>stack := st\<rparr>"]
    by (auto simp: opcode_defs intro!: step_failed split: list.split)
qed

lemma exec_swap:
  assumes "stack_inv (stack mach)" and "stack_contents (stack mach) = Some xs"
  shows "step_result mach 0 (eval_op m regs Op_swap xs) (FIRCLSDwarfExpressionMachineExecute_swap mach)"
  using assms
proof (cases rule: pop_two)
  case (1 x y ys st)
  then obtain st' where st': "push x (mach\<lparr>stack := st\<rparr>) = Ret (True, mach\<lparr>stack := st'\<rparr>)"
      "stack_inv st'" "stack_contents st' = Some (x # ys)"
    using push_some [of "mach\<lparr>stack := st\<rparr>" ys x] by auto
  then show ?thesis using 1 step_push [of st' "x # ys"] by (simp add: opcode_defs)
next
  case (2 x st)
  then obtain mach' where "push x (mach\<lparr>stack := st\<rparr>) = Ret (False, mach')"
    using push_failed [of "mach\<lparr>stack := st\<rparr>" x] by auto
  then have "c_bind (push x) (\<lambda>ok. if \<not> ok then c_return False else push 0) (mach\<lparr>stack := st\<rparr>) = Ret (False, mach')"
    by (simp add: c_bind_def)
  then show ?thesis using 2 by (auto simp: opcode_defs intro!: step_failed split: list.split)
qed

lemma exec_dup:
  assumes "stack_inv (stack mach)" and "stack_contents (stack mach) = Some xs"
  shows "step_result mach 0 (eval_op m regs Op_dup xs) (FIRCLSDwarfExpressionMachineExecute_dup mach)"
proof (cases xs)
  case Nil
  with dwarf_stack.peek_Nil assms obtain st where st: "FIRCLSDwarfExpressionStackPeek (stack mach) = (0, st)"
    "stack_inv st" "stack_contents st = None" by blast
  then show ?thesis using Nil push_failed [of "mach\<lparr>stack := st\<rparr>"]
    by (auto simp: FIRCLSDwarfExpressionMachineExecute_dup_def on_stack_eq intro!: step_failed)
next
  case (Cons x ys)
  with dwarf_stack.peek_Cons assms obtain st where st: "FIRCLSDwarfExpressionStackPeek (stack mach) = (x, st)"
    "stack_inv st" "stack_contents st = Some xs" by blast
  then have "step_result (mach\<lparr>stack := st\<rparr>) 0 (Ret (push_value x xs)) (push x (mach\<lparr>stack := st\<rparr>))"
    by (intro step_push_value) simp_all
  then show ?thesis using st Cons
    by (simp add: FIRCLSDwarfExpressionMachineExecute_dup_def on_stack_eq step_result_def split: option.splits)
qed

lemma exec_deref:
  assumes "stack_inv (stack mach)" and "stack_contents (stack mach) = Some xs"
  shows "step_result mach 0 (eval_op m regs Op_deref xs) (FIRCLSDwarfExpressionMachineExecute_deref m mach)"
proof -
  let ?f = "\<lambda>value. case read_pointer m value of None \<Rightarrow> c_return False | Some value \<Rightarrow> push value"
  obtain st where st: "c_bind pop ?f mach = ?f (case xs of [] \<Rightarrow> 0 | x # _ \<Rightarrow> x) (mach\<lparr>stack := st\<rparr>)"
    "stack_inv st" "stack_contents st = (case xs of [] \<Rightarrow> None | _ # ys \<Rightarrow> Some ys)"
    using pop_then [OF assms] by blast
  have "length xs \<le> 100"
    using dwarf_stack.inv_length [OF assms] by (simp add: CLS_DWARF_EXPRESSION_STACK_SIZE_def)
  moreover have "read_pointer m 0 = None"
    by (simp add: read_pointer_def FIRCLSReadMemory_def FIRCLSIsValidPointer_def)
  ultimately show ?thesis
    unfolding FIRCLSDwarfExpressionMachineExecute_deref_def st(1) using st(2,3)
    by (auto intro!: step_failed step_push split: list.splits option.splits)
qed

text \<open>The opcodes with an operand: \<open>n\<close> bytes of it are read at the cursor.\<close>

lemma on_cursor_eq: "f (dataCursor mach) = Ret (x, c) \<Longrightarrow> on_cursor f mach = Ret (x, mach\<lparr>dataCursor := c\<rparr>)"
  by (simp add: on_cursor_def)

lemma on_cursor_undef: "f (dataCursor mach) = Undef \<Longrightarrow> on_cursor f mach = Undef"
  by (simp add: on_cursor_def)

lemma step_cursor:
  "step_result (mach\<lparr>dataCursor := dataCursor mach + word_of_nat n\<rparr>) k spec r \<Longrightarrow> step_result mach (n + k) spec r"
  by (auto simp: step_result_def add.assoc split: c_outcome.splits option.splits)

lemma exec_plus_uconst:
  assumes "stack_inv (stack mach)" and "stack_contents (stack mach) = Some xs"
    and "holds m (dataCursor mach) (uleb128 n)"
  shows "step_result mach (length (uleb128 n)) (eval_op m regs (Op_plus_uconst n) xs)
    (FIRCLSDwarfExpressionMachineExecute_plus_uconst m mach)"
proof -
  let ?f = "\<lambda>value. c_bind (on_cursor (FIRCLSParseULEB128AndAdvance m)) (\<lambda>c. push (value + c))"
  obtain st where st: "c_bind pop ?f mach = ?f (case xs of [] \<Rightarrow> 0 | x # _ \<Rightarrow> x) (mach\<lparr>stack := st\<rparr>)"
    "stack_inv st" "stack_contents st = (case xs of [] \<Rightarrow> None | _ # ys \<Rightarrow> Some ys)"
    using pop_then [OF assms(1,2)] by blast
  have len: "length xs \<le> 100"
    using dwarf_stack.inv_length [OF assms(1,2)] by (simp add: CLS_DWARF_EXPRESSION_STACK_SIZE_def)
  let ?mach = "mach\<lparr>stack := st\<rparr>"
  show ?thesis
  proof (cases "n < 2 ^ 31")
    case False
    then have "on_cursor (FIRCLSParseULEB128AndAdvance m) ?mach = Undef"
      using uleb128_eq [OF assms(3)] by (simp add: on_cursor_undef)
    then show ?thesis
      unfolding FIRCLSDwarfExpressionMachineExecute_plus_uconst_def st(1) using False by (simp add: step_undef)
  next
    case True
    let ?mach' = "?mach\<lparr>dataCursor := dataCursor mach + word_of_nat (length (uleb128 n))\<rparr>"
    have rd: "on_cursor (FIRCLSParseULEB128AndAdvance m) ?mach = Ret (word_of_nat n, ?mach')"
      using uleb128_eq [OF assms(3)] True by (simp add: on_cursor_eq)
    show ?thesis
    proof (cases xs)
      case Nil
      then show ?thesis
        unfolding FIRCLSDwarfExpressionMachineExecute_plus_uconst_def st(1)
        using rd True st push_failed [of ?mach'] by (simp add: step_failed)
    next
      case (Cons x ys)
      then show ?thesis
        unfolding FIRCLSDwarfExpressionMachineExecute_plus_uconst_def st(1)
        using rd True st len push_some [of ?mach' ys "x + word_of_nat n"] by (auto simp: step_result_def)
    qed
  qed
qed

lemma exec_breg:
  assumes "stack_inv (stack mach)" and "stack_contents (stack mach) = Some xs"
    and "holds m (dataCursor mach) (sleb128 i)" and "r < 32" and "registers mach = regs"
  shows "step_result mach (length (sleb128 i)) (eval_op m regs (Op_breg r i) xs)
    (FIRCLSDwarfExpressionMachineExecute_bregN m (word_of_nat (0x70 + r)) mach)"
proof -
  have r: "unat (word_of_nat (0x70 + r) - 0x70 :: u8) = r"
    using assms(4) by (simp add: unat_of_nat)
  consider "16 < r" | "r \<le> 16" "\<not> (- (2 ^ 27) \<le> i \<and> i < 2 ^ 31)" | "r \<le> 16" "- (2 ^ 27) \<le> i" "i < 2 ^ 31"
    by linarith
  then show ?thesis
  proof cases
    case 1
    then show ?thesis using assms(4)
      by (simp add: FIRCLSDwarfExpressionMachineExecute_bregN_def CLS_DWARF_MAX_REGISTER_NUM_def step_failed Let_def)
  next
    case 2
    then have "on_cursor (FIRCLSParseLEB128AndAdvance m) mach = Undef"
      using leb128_eq [OF assms(3)] by (intro on_cursor_undef) simp
    then show ?thesis using 2
      by (simp add: FIRCLSDwarfExpressionMachineExecute_bregN_def r CLS_DWARF_MAX_REGISTER_NUM_def step_undef)
  next
    case 3
    let ?mach = "mach\<lparr>dataCursor := dataCursor mach + word_of_nat (length (sleb128 i))\<rparr>"
    have "on_cursor (FIRCLSParseLEB128AndAdvance m) mach = Ret (word_of_int i, ?mach)"
      using leb128_eq [OF assms(3)] 3 by (intro on_cursor_eq) simp
    moreover have "step_result mach (length (sleb128 i) + 0) (Ret (push_value v xs)) (push v ?mach)" for v
      using assms by (intro step_cursor step_push_value) simp_all
    ultimately show ?thesis using 3 assms(5)
      by (simp add: FIRCLSDwarfExpressionMachineExecute_bregN_def r CLS_DWARF_MAX_REGISTER_NUM_def)
  qed
qed

lemma exec_deref_size:
  assumes "stack_inv (stack mach)" and "stack_contents (stack mach) = Some xs"
    and "holds m (dataCursor mach) [k]"
  shows "step_result mach 1 (eval_op m regs (Op_deref_size k) xs)
    (FIRCLSDwarfExpressionMachineExecute_deref_size m mach)"
proof -
  define f :: "u64 \<Rightarrow> u8 \<Rightarrow> (dwarf_machine, bool) c_op" where
    "f = (\<lambda>address readSize. if readSize \<in> {1, 2, 4, 8}
       then c_bind (c_lift (case parse_le m (unat readSize) address of Undef \<Rightarrow> Undef | Ret (v, _) \<Rightarrow> Ret v))
          (\<lambda>v. push (word_of_nat v))
       else c_return False)"
  have exec: "FIRCLSDwarfExpressionMachineExecute_deref_size m =
      c_bind pop (\<lambda>address. c_bind (on_cursor (FIRCLSParseUint8AndAdvance m)) (f address))"
    unfolding FIRCLSDwarfExpressionMachineExecute_deref_size_def f_def Let_def
    by (intro arg_cong [where f = "c_bind pop"] ext arg_cong2 [where f = c_bind] refl) auto
  let ?a = "case xs of [] \<Rightarrow> 0 | x # _ \<Rightarrow> x"
  obtain st where st: "FIRCLSDwarfExpressionMachineExecute_deref_size m mach =
      c_bind (on_cursor (FIRCLSParseUint8AndAdvance m)) (f ?a) (mach\<lparr>stack := st\<rparr>)"
    "stack_inv st" "stack_contents st = (case xs of [] \<Rightarrow> None | _ # ys \<Rightarrow> Some ys)"
    using pop_then [OF assms(1,2)] unfolding exec by blast
  have len: "length xs \<le> 100"
    using dwarf_stack.inv_length [OF assms(1,2)] by (simp add: CLS_DWARF_EXPRESSION_STACK_SIZE_def)
  let ?mach = "mach\<lparr>stack := st, dataCursor := dataCursor mach + 1\<rparr>"
  have "FIRCLSParseUint8AndAdvance m (dataCursor (mach\<lparr>stack := st\<rparr>)) = Ret (k, dataCursor mach + 1)"
    using read_byte [OF assms(3)] by simp
  then have eq: "FIRCLSDwarfExpressionMachineExecute_deref_size m mach = f ?a k ?mach"
    unfolding st(1) by (simp add: on_cursor_eq)
  show ?thesis
  proof (cases "k \<in> {1, 2, 4, 8}")
    case False
    then show ?thesis unfolding eq f_def by (simp add: step_failed)
  next
    case True
    show ?thesis
    proof (cases "parse_le m (unat k) ?a")
      case Undef
      then show ?thesis unfolding eq f_def using True by (simp add: step_undef)
    next
      case (Ret p)
      then obtain v b where p: "parse_le m (unat k) ?a = Ret (v, b)" by (cases p) simp
      have f: "f ?a k ?mach = push (word_of_nat v) ?mach"
        unfolding f_def using True p by simp
      show ?thesis
      proof (cases xs)
        case Nil
        then show ?thesis unfolding eq f using True p st push_failed [of ?mach] by (auto intro: step_failed)
      next
        case (Cons x ys)
        then show ?thesis unfolding eq f
          using True p st len push_some [of ?mach ys "word_of_nat v"] by (auto simp: step_result_def)
      qed
    qed
  qed
qed

section \<open>Whole expressions\<close>

lemma unat_lit: "n < 32 \<Longrightarrow> unat (word_of_nat (0x30 + n) :: u8) = 0x30 + n"
  by (simp add: unat_of_nat del: of_nat_add)

lemma unat_breg: "n < 32 \<Longrightarrow> unat (word_of_nat (0x70 + n) :: u8) = 0x70 + n"
  by (simp add: unat_of_nat del: of_nat_add)

lemma exec_lit:
  assumes "stack_inv (stack mach)" and "stack_contents (stack mach) = Some xs" and "n < 32"
  shows "step_result mach 0 (eval_op m regs (Op_lit n) xs)
    (FIRCLSDwarfExpressionMachineExecute_litN (word_of_nat (0x30 + n)) mach)"
proof -
  have "(ucast (word_of_nat (0x30 + n) - 0x30 :: u8) :: u64) = word_of_nat n"
  proof (rule unsigned_word_eqI [where ?'a = nat])
    show "unat (ucast (word_of_nat (0x30 + n) - 0x30 :: u8) :: u64) = unat (word_of_nat n :: u64)"
      using assms(3) by (simp add: unat_of_nat)
  qed
  then show ?thesis
    using step_push_value [OF assms(1,2)] by (simp add: FIRCLSDwarfExpressionMachineExecute_litN_def)
qed

definition operand_op :: "mem \<Rightarrow> u8 \<Rightarrow> (dwarf_machine, bool) c_op" where
  "operand_op m opcode =
     (if opcode = 0x06 then FIRCLSDwarfExpressionMachineExecute_deref m
       else if opcode = 0x12 then FIRCLSDwarfExpressionMachineExecute_dup
       else if opcode = 0x1a then FIRCLSDwarfExpressionMachineExecute_and
       else if opcode = 0x22 then FIRCLSDwarfExpressionMachineExecute_plus
       else if opcode = 0x16 then FIRCLSDwarfExpressionMachineExecute_swap
       else if opcode = 0x23 then FIRCLSDwarfExpressionMachineExecute_plus_uconst m
       else if opcode = 0x2e then FIRCLSDwarfExpressionMachineExecute_ne
       else if 0x30 \<le> opcode \<and> opcode \<le> 0x4f then FIRCLSDwarfExpressionMachineExecute_litN opcode
       else if 0x70 \<le> opcode \<and> opcode \<le> 0x8f then FIRCLSDwarfExpressionMachineExecute_bregN m opcode
       else if opcode = 0x94 then FIRCLSDwarfExpressionMachineExecute_deref_size m
       else c_return False)"

lemma operand_lit: "n < 32 \<Longrightarrow> operand_op m (word_of_nat (0x30 + n)) = FIRCLSDwarfExpressionMachineExecute_litN (word_of_nat (0x30 + n))"
  by (simp only: operand_op_def word_unat_eq_iff word_le_nat_alt unat_lit) simp

lemma operand_breg: "n < 32 \<Longrightarrow> operand_op m (word_of_nat (0x70 + n)) = FIRCLSDwarfExpressionMachineExecute_bregN m (word_of_nat (0x70 + n))"
  by (simp only: operand_op_def word_unat_eq_iff word_le_nat_alt unat_breg) simp

lemma exec_opcode:
  assumes "stack_inv (stack mach)" and "stack_contents (stack mach) = Some xs"
    and "holds m (dataCursor mach) (encode_op op)" and "wf_op op"
  shows "step_result mach (length (encode_op op)) (eval_op m (registers mach) op xs)
    (FIRCLSDwarfExpressionMachineExecuteNextOpcode m mach)"
proof -
  obtain b rest where enc: "encode_op op = b # rest" by (cases op) auto
  let ?mach = "mach\<lparr>dataCursor := dataCursor mach + 1\<rparr>"
  have eq: "FIRCLSDwarfExpressionMachineExecuteNextOpcode m mach = operand_op m b ?mach"
    using read_byte [of m "dataCursor mach" b rest] assms(3)
    by (simp add: FIRCLSDwarfExpressionMachineExecuteNextOpcode_def operand_op_def enc on_cursor_eq)
  have "holds m (dataCursor ?mach) rest" and st: "stack_inv (stack ?mach)" "stack_contents (stack ?mach) = Some xs"
    using assms(1-3) by (simp_all add: enc holds_Cons)
  note ops = exec_deref [OF st] exec_dup [OF st] exec_and [OF st] exec_plus [OF st] exec_swap [OF st] exec_ne [OF st]
    exec_plus_uconst [OF st] exec_lit [OF st] exec_breg [OF st] exec_deref_size [OF st, unfolded One_nat_def]
  have "step_result ?mach (length rest) (eval_op m (registers mach) op xs) (operand_op m b ?mach)"
    using assms(4) enc \<open>holds m (dataCursor ?mach) rest\<close>
    by (cases op) (auto simp: operand_op_def [of m "0x06"] operand_op_def [of m "0x12"] operand_op_def [of m "0x1a"]
        operand_op_def [of m "0x22"] operand_op_def [of m "0x16"] operand_op_def [of m "0x2e"] operand_op_def [of m "0x23"]
        operand_op_def [of m "0x94"] wf_op_def operand_lit operand_breg simp del: eval_op.simps of_nat_add intro!: ops)
  then have "step_result mach (1 + length rest) (eval_op m (registers mach) op xs) (operand_op m b ?mach)"
    by (intro step_cursor) simp
  then show ?thesis by (simp add: eq enc)
qed

definition encode_ops :: "dwarf_op list \<Rightarrow> bytes" where
  "encode_ops ops = concat (map encode_op ops)"

lemma encode_op_nonempty: "0 < length (encode_op op)"
  by (cases op) auto

lemma valid_stack: "stack_inv st \<Longrightarrow> stack_contents st = Some xs \<Longrightarrow> FIRCLSDwarfExpressionStackIsValid st"
  by (auto simp: stack_inv_def stack_contents_def FIRCLSDwarfExpressionStackIsValid_def split: option.splits)

lemma run_machine_ops:
  assumes "stack_inv (stack mach)" and "stack_contents (stack mach) = Some xs" and "list_all wf_op ops"
    and "holds m (dataCursor mach) (encode_ops ops)"
    and "endAddress mach = dataCursor mach + word_of_nat (length (encode_ops ops))"
    and "FIRCLSIsValidPointer (dataCursor mach)"
  shows "case eval_ops m (registers mach) ops xs of
      Undef \<Rightarrow> run_machine m mach = Undef
    | Ret None \<Rightarrow> (\<exists>mach'. run_machine m mach = Ret (False, mach'))
    | Ret (Some ys) \<Rightarrow> (\<exists>st. run_machine m mach = Ret (True, mach\<lparr>stack := st, dataCursor := endAddress mach\<rparr>) \<and>
        stack_inv st \<and> stack_contents st = Some ys)"
  using assms
proof (induction ops arbitrary: mach xs)
  case Nil
  then have "FIRCLSDwarfExpressionMachineIsFinished mach" "dataCursor mach = endAddress mach"
    by (simp_all add: FIRCLSDwarfExpressionMachineIsFinished_def encode_ops_def)
  then have "run_machine m mach = Ret (True, mach\<lparr>stack := stack mach, dataCursor := endAddress mach\<rparr>)"
    by (subst run_machine.simps) simp
  with Nil.prems(1,2) show ?case by (simp only: eval_ops.simps c_outcome.case option.case) blast
next
  case (Cons op ops)
  let ?n = "length (encode_op op)"
  have code: "encode_ops (op # ops) = encode_op op @ encode_ops ops" by (simp add: encode_ops_def)
  have h: "holds m (dataCursor mach) (encode_op op)" "holds m (dataCursor mach + word_of_nat ?n) (encode_ops ops)"
    and len: "unat (dataCursor mach) + ?n + length (encode_ops ops) < 2 ^ 64"
    using Cons.prems(4) by (simp_all add: code holds_append)
  have "unat (endAddress mach) = unat (dataCursor mach) + ?n + length (encode_ops ops)"
    using len Cons.prems(5) unfolding code by (simp only: length_append unat_add_offset add.assoc)
  then have less: "dataCursor mach < endAddress mach" and valid: "FIRCLSIsValidPointer (endAddress mach)"
    using encode_op_nonempty [of op] Cons.prems(6) by (auto simp: word_less_nat_alt word_le_nat_alt FIRCLSIsValidPointer_def)
  have "\<not> FIRCLSDwarfExpressionMachineIsFinished mach"
    using less valid Cons.prems(6) valid_stack [OF Cons.prems(1,2)]
    by (simp add: FIRCLSDwarfExpressionMachineIsFinished_def)
  then have run: "run_machine m mach = (case FIRCLSDwarfExpressionMachineExecuteNextOpcode m mach of
      Undef \<Rightarrow> Undef | Ret (ok, mach') \<Rightarrow> if \<not> ok then Ret (False, mach') else run_machine m mach')"
    by (subst run_machine.simps) simp
  have step: "step_result mach ?n (eval_op m (registers mach) op xs) (FIRCLSDwarfExpressionMachineExecuteNextOpcode m mach)"
    using Cons.prems h(1) by (intro exec_opcode) simp_all
  show ?case
  proof (cases "eval_op m (registers mach) op xs")
    case Undef
    with step run show ?thesis by (simp add: step_result_def)
  next
    case (Ret r)
    show ?thesis
    proof (cases r)
      case None
      with step run Ret show ?thesis by (auto simp: step_result_def)
    next
      case (Some ys)
      with step Ret obtain st where st: "stack_inv st" "stack_contents st = Some ys"
        "FIRCLSDwarfExpressionMachineExecuteNextOpcode m mach =
           Ret (True, mach\<lparr>stack := st, dataCursor := dataCursor mach + word_of_nat ?n\<rparr>)"
        by (auto simp: step_result_def)
      have "FIRCLSIsValidPointer (dataCursor mach + word_of_nat ?n)"
        using Cons.prems(6) len unfolding FIRCLSIsValidPointer_def word_le_nat_alt by (simp only: unat_add_offset)
      then show ?thesis
        using Cons.IH [of "mach\<lparr>stack := st, dataCursor := dataCursor mach + word_of_nat ?n\<rparr>" ys]
          Cons.prems st h(2) run Ret Some
        by (auto simp: code add.assoc split: c_outcome.splits option.splits)
    qed
  qed
qed

section \<open>Properties\<close>

text \<open>
  C5: The expression machine is correct. On every encoded expression, whatever opcodes it
  has, the machine returns the top of the stack the evaluator ends with, fails where it
  fails (underflow, more than 100 values, unreadable memory, an invalid register), and is
  undefined only where it is: an operand out of the reader's range, a sum that overflows,
  or a \<open>deref_size\<close> of an address that is not mapped.
\<close>

theorem expression_machine_correct:
  assumes "holds m a (uleb128 (length (encode_ops ops)) @ encode_ops ops)"
    and "ops \<noteq> []" and "list_all wf_op ops" and "length (encode_ops ops) < 2 ^ 31" and "FIRCLSIsValidPointer a"
  shows "FIRCLSDwarfEvalulateExpression m a regs v =
    (case eval_ops m regs ops [v] of
       Undef \<Rightarrow> Undef
     | Ret None \<Rightarrow> Ret None
     | Ret (Some xs) \<Rightarrow> Ret (case xs of [] \<Rightarrow> None | x # _ \<Rightarrow> Some x))"
proof -
  let ?code = "encode_ops ops"
  let ?c = "a + word_of_nat (length (uleb128 (length ?code)))"
  have h: "holds m a (uleb128 (length ?code))" "holds m ?c ?code"
    and len: "unat a + length (uleb128 (length ?code)) + length ?code < 2 ^ 64"
    using assms(1) by (simp_all add: holds_append)
  have c: "unat ?c = unat a + length (uleb128 (length ?code))"
    using len by (intro unat_add_offset) simp
  have "stack_inv FIRCLSDwarfExpressionStackInit" "stack_contents FIRCLSDwarfExpressionStackInit = Some []"
    by (simp_all add: stack_inv_def stack_contents_def FIRCLSDwarfExpressionStackInit_def)
  then obtain st where st: "FIRCLSDwarfExpressionStackPush v FIRCLSDwarfExpressionStackInit = (True, st)"
      "stack_inv st" "stack_contents st = Some [v]"
    using dwarf_stack.push_room [of FIRCLSDwarfExpressionStackInit "[]" v]
    by (auto simp: CLS_DWARF_EXPRESSION_STACK_SIZE_def)
  define mach where "mach = \<lparr>stack = st, dataCursor = a, endAddress = 0, registers = regs\<rparr>"
  define mach' where "mach' = \<lparr>stack = st, dataCursor = ?c, endAddress = ?c + word_of_nat (length ?code), registers = regs\<rparr>"
  have init: "FIRCLSDwarfExpressionMachineInit a regs v = Some mach"
    using assms(5) st by (simp add: FIRCLSDwarfExpressionMachineInit_def mach_def)
  have pos: "0 < length ?code"
    using assms(2) encode_op_nonempty by (cases ops) (auto simp: encode_ops_def)
  have n: "unat (word_of_nat (length ?code) :: u64) = length ?code"
    using assms(4) by (simp add: unat_of_nat)
  then have nz: "(word_of_nat (length ?code) :: u64) \<noteq> 0" using pos by (metis unat_0 less_irrefl)
  have "on_cursor (FIRCLSParseULEB128AndAdvance m) mach = Ret (word_of_nat (length ?code), mach\<lparr>dataCursor := ?c\<rparr>)"
    using uleb128_eq [OF h(1)] assms(4) by (intro on_cursor_eq) (simp add: mach_def)
  moreover have "c_advance (length ?code) ?c = Ret ((), ?c + word_of_nat (length ?code))"
    using len by (simp add: c_advance_def c)
  ultimately have prep: "FIRCLSDwarfExpressionMachinePrepareForExecution m mach = Ret (True, mach')"
    using n nz by (simp add: FIRCLSDwarfExpressionMachinePrepareForExecution_def mach_def mach'_def)
  have "FIRCLSIsValidPointer ?c"
    using assms(5) unfolding FIRCLSIsValidPointer_def word_le_nat_alt c by simp
  then have run: "case eval_ops m regs ops [v] of
      Undef \<Rightarrow> run_machine m mach' = Undef
    | Ret None \<Rightarrow> (\<exists>mach''. run_machine m mach' = Ret (False, mach''))
    | Ret (Some ys) \<Rightarrow> (\<exists>st. run_machine m mach' = Ret (True, mach'\<lparr>stack := st, dataCursor := endAddress mach'\<rparr>) \<and>
        stack_inv st \<and> stack_contents st = Some ys)"
    using run_machine_ops [of mach' "[v]" ops m] st assms(3) h(2) by (simp add: mach'_def)
  have eq: "FIRCLSDwarfEvalulateExpression m a regs v =
      (case run_machine m mach' of Undef \<Rightarrow> Undef
       | Ret (ok, machine) \<Rightarrow> if \<not> ok then Ret None else Ret (FIRCLSDwarfExpressionMachineGetResult machine))"
    using assms(5) init prep by (simp add: FIRCLSDwarfEvalulateExpression_def)
  have result: "FIRCLSDwarfExpressionMachineGetResult (mach'\<lparr>stack := s, dataCursor := endAddress mach'\<rparr>) =
      (case xs of [] \<Rightarrow> None | x # _ \<Rightarrow> Some x)" if "stack_inv s" "stack_contents s = Some xs" for s xs
  proof (cases xs)
    case Nil
    with that dwarf_stack.peek_Nil obtain s' where "FIRCLSDwarfExpressionStackPeek s = (0, s')" "stack_contents s' = None" by blast
    then show ?thesis using Nil
      by (simp add: FIRCLSDwarfExpressionMachineGetResult_def FIRCLSDwarfExpressionStackIsValid_def stack_contents_def)
  next
    case (Cons x ys)
    with that dwarf_stack.peek_Cons obtain s' where
      "FIRCLSDwarfExpressionStackPeek s = (x, s')" "stack_inv s'" "stack_contents s' = Some xs" by blast
    then show ?thesis using Cons valid_stack by (simp add: FIRCLSDwarfExpressionMachineGetResult_def)
  qed
  show ?thesis
    unfolding eq using run result by (auto split: c_outcome.splits option.splits)
qed

text \<open>The expression \<open>*(rsp + 6) + 16\<close>, with the word it reads right behind it.\<close>

lemma expression_machine_correct_witness:
  "FIRCLSDwarfEvalulateExpression
     (mem_at 0x5000 ((uleb128 (length (encode_ops [Op_breg 7 6, Op_deref, Op_plus_uconst 16])) @
        encode_ops [Op_breg 7 6, Op_deref, Op_plus_uconst 16]) @ [0xf0, 0x7f, 0, 0, 0, 0, 0, 0]))
     0x5000 (zero_context\<lparr>rsp := 0x5000\<rparr>) 0 = Ret (Some 0x8000)"
proof -
  let ?ops = "[Op_breg 7 6, Op_deref, Op_plus_uconst 16]"
  let ?code = "uleb128 (length (encode_ops ?ops)) @ encode_ops ?ops"
  let ?m = "mem_at 0x5000 (?code @ [0xf0, 0x7f, 0, 0, 0, 0, 0, 0])"
  have "length (?code @ [0xf0, 0x7f, 0, 0, 0, 0, 0, 0]) = 14" by code_simp
  then have "holds ?m 0x5000 (?code @ [0xf0, 0x7f, 0, 0, 0, 0, 0, 0])"
    by (intro holds_mem_at) simp
  then have h: "holds ?m 0x5000 ?code" using holds_append by blast
  have "length (encode_ops ?ops) = 5" "list_all wf_op ?ops" by code_simp+
  then have eq: "FIRCLSDwarfEvalulateExpression ?m 0x5000 (zero_context\<lparr>rsp := 0x5000\<rparr>) 0 =
    (case eval_ops ?m (zero_context\<lparr>rsp := 0x5000\<rparr>) ?ops [0] of
       Undef \<Rightarrow> Undef | Ret None \<Rightarrow> Ret None | Ret (Some xs) \<Rightarrow> Ret (case xs of [] \<Rightarrow> None | x # _ \<Rightarrow> Some x))"
    by (intro expression_machine_correct [OF h]) (simp_all add: FIRCLSIsValidPointer_def)
  have "eval_ops ?m (zero_context\<lparr>rsp := 0x5000\<rparr>) ?ops [0] = Ret (Some [0x8000, 0])" by code_simp
  then show ?thesis unfolding eq by simp
qed

end
