(* ===== verification/Dwarf_Unwind.thy ===== *)
theory Dwarf_Unwind
  imports Dwarf_Expr
begin

text \<open>
  The DWARF call frame unwinder (\<open>Crashlytics/Unwind/Dwarf/FIRCLSDwarfUnwind.c\<close>): parsing of
  CIE and FDE records, execution of call frame instructions, and the computation of the
  caller's registers. Record pointers are those of live objects in every call and are not
  arguments of the model; a call that returns false returns \<open>None\<close>, since no caller looks
  at the output then.
\<close>

section \<open>Records\<close>

record dwarf_instructions =
  ins_length :: u32
  ins_data :: u64

record dwarf_cie =
  cie_length :: u64
  cie_version :: u8
  augmentation :: u64
  pointerEncoding :: u8
  lsdaEncoding :: u8
  personalityEncoding :: u8
  personalityFunction :: u64
  codeAlignFactor :: u64
  dataAlignFactor :: u64
  returnAddressRegister :: u64
  signalFrame :: bool
  cie_instructions :: dwarf_instructions

record dwarf_fde =
  fde_length :: u64
  cieOffset :: u64
  startAddress :: u64
  rangeSize :: u64
  fde_instructions :: dwarf_instructions

record dwarf_cfi_record =
  cie :: dwarf_cie
  fde :: dwarf_fde

datatype dwarf_register_location =
  RegisterUnused | RegisterInCFA | RegisterOffsetFromCFA | RegisterInRegister
  | RegisterAtExpression | RegisterIsExpression

record dwarf_register =
  location :: dwarf_register_location
  reg_value :: u64

record dwarf_state =
  cfaRegister :: u64
  cfaRegisterOffset :: u64
  cfaExpression :: u64
  saved_registers :: "dwarf_register list"

definition zero_state :: dwarf_state where
  "zero_state = \<lparr>cfaRegister = 0, cfaRegisterOffset = 0, cfaExpression = 0,
     saved_registers = replicate (CLS_DWARF_MAX_REGISTER_NUM + 1) \<lparr>location = RegisterUnused, reg_value = 0\<rparr>\<rparr>"

section \<open>Parsing records\<close>

text \<open>The address \<open>n\<close> bytes after the cursor, which stays.\<close>

definition c_offset :: "nat \<Rightarrow> (u64, u64) c_op" where
  "c_offset n cursor = (case c_advance n cursor of Undef \<Rightarrow> Undef | Ret (_, e) \<Rightarrow> Ret (e, cursor))"

definition c_cursor :: "(u64, u64) c_op" where
  "c_cursor cursor = Ret (cursor, cursor)"

definition c_char :: "mem \<Rightarrow> u64 \<Rightarrow> u8 c_outcome" where
  "c_char m a = (case m a of None \<Rightarrow> Undef | Some b \<Rightarrow> Ret b)"

definition c_load :: "mem \<Rightarrow> nat \<Rightarrow> u64 \<Rightarrow> bytes c_outcome" where
  "c_load m n a = (case load m n a of None \<Rightarrow> Undef | Some bs \<Rightarrow> Ret bs)"

text \<open>One entry of the augmentation string, and the loop over the entries after the \<open>z\<close>.\<close>

definition augmentation_entry :: "mem \<Rightarrow> u8 \<Rightarrow> dwarf_cie \<Rightarrow> (u64, dwarf_cie option) c_op" where
  "augmentation_entry m c rec =
     (if c = 0x4c then c_bind (FIRCLSParseUint8AndAdvance m) (\<lambda>e. c_return (Some (rec\<lparr>lsdaEncoding := e\<rparr>)))
      else if c = 0x52 then c_bind (FIRCLSParseUint8AndAdvance m) (\<lambda>e. c_return (Some (rec\<lparr>pointerEncoding := e\<rparr>)))
      else if c = 0x50 then
        c_bind (FIRCLSParseUint8AndAdvance m) (\<lambda>e.
        c_bind (FIRCLSParseAddressWithEncodingAndAdvance m e) (\<lambda>f.
          if f = CLS_INVALID_ADDRESS then c_return None
          else c_return (Some (rec\<lparr>personalityEncoding := e, personalityFunction := f\<rparr>))))
      else if c = 0x53 then c_return (Some (rec\<lparr>signalFrame := True\<rparr>))
      else c_return None)"

fun augmentation_loop :: "mem \<Rightarrow> u64 \<Rightarrow> bytes \<Rightarrow> dwarf_cie \<Rightarrow> (u64, dwarf_cie option) c_op" where
  "augmentation_loop m ending [] rec = c_return (Some rec)"
| "augmentation_loop m ending (c # cs) rec =
     c_bind (augmentation_entry m c rec) (\<lambda>r.
       case r of
         None \<Rightarrow> c_return None
       | Some rec \<Rightarrow> c_bind c_cursor (\<lambda>ptr.
           if ending < ptr then c_return None else augmentation_loop m ending cs rec))"

definition FIRCLSDwarfParseAndProcessAugmentation :: "mem \<Rightarrow> dwarf_cie \<Rightarrow> (u64, dwarf_cie option) c_op" where
  "FIRCLSDwarfParseAndProcessAugmentation m rec =
     (if augmentation rec = 0 then c_return None
      else c_bind (c_lift (c_char m (augmentation rec))) (\<lambda>c.
        if c = 0 then c_return (Some rec)
        else if c \<noteq> 0x7a then c_return None
        else c_bind (c_lift (c_strlen m (augmentation rec))) (\<lambda>stringLength.
             c_bind (FIRCLSParseULEB128AndAdvance m) (\<lambda>dataLength.
             c_bind (c_offset (unat dataLength)) (\<lambda>ending.
             c_bind (c_lift (c_load m (stringLength - 1) (augmentation rec + 1))) (\<lambda>entries.
               augmentation_loop m ending entries rec))))))"

text \<open>
  A CIE identifier other than the flag and an unsupported version are logged at first; the
  version is rejected after the alignment factors.
\<close>

definition parse_cie :: "mem \<Rightarrow> (u64, dwarf_cie option) c_op" where
  "parse_cie m =
     c_bind (FIRCLSParseRecordLengthAndAdvance m) (\<lambda>length.
     if length = 0 then c_return None
     else c_bind (c_offset (unat length)) (\<lambda>endAddr.
       c_bind (FIRCLSParseUint32AndAdvance m) (\<lambda>_.
       c_bind (FIRCLSParseUint8AndAdvance m) (\<lambda>version.
       c_bind (FIRCLSParseStringAndAdvance m) (\<lambda>aug.
       c_bind (FIRCLSParseULEB128AndAdvance m) (\<lambda>codeAlign.
       c_bind (FIRCLSParseLEB128AndAdvance m) (\<lambda>dataAlign.
       c_bind (if version = 1 then c_bind (FIRCLSParseUint8AndAdvance m) (\<lambda>r. c_return (Some (ucast r)))
               else if version = 3 then c_bind (FIRCLSParseULEB128AndAdvance m) (\<lambda>r. c_return (Some r))
               else c_return None) (\<lambda>ra.
         case ra of
           None \<Rightarrow> c_return None
         | Some returnReg \<Rightarrow>
             c_bind (FIRCLSDwarfParseAndProcessAugmentation m
               \<lparr>cie_length = length, cie_version = version, augmentation = aug, pointerEncoding = 0,
                lsdaEncoding = 0, personalityEncoding = 0, personalityFunction = 0,
                codeAlignFactor = codeAlign, dataAlignFactor = dataAlign, returnAddressRegister = returnReg,
                signalFrame = False, cie_instructions = \<lparr>ins_length = 0, ins_data = 0\<rparr>\<rparr>) (\<lambda>r.
               case r of
                 None \<Rightarrow> c_return None
               | Some rec \<Rightarrow> c_bind c_cursor (\<lambda>ptr.
                   c_return (Some (rec\<lparr>cie_instructions := \<lparr>ins_length = ucast (endAddr - ptr), ins_data = ptr\<rparr>\<rparr>))))))))))))"

definition FIRCLSDwarfParseCIERecord :: "mem \<Rightarrow> u64 \<Rightarrow> dwarf_cie option c_outcome" where
  "FIRCLSDwarfParseCIERecord m ptr =
     (if ptr = 0 then Ret None
      else case parse_cie m ptr of Undef \<Rightarrow> Undef | Ret (r, _) \<Rightarrow> Ret r)"

definition FIRCLSDwarfCIEIsValid :: "dwarf_cie \<Rightarrow> bool" where
  "FIRCLSDwarfCIEIsValid rec =
     (if cie_length rec = 0 then False
      else if cie_version rec \<noteq> 1 \<and> cie_version rec \<noteq> 3 then False
      else True)"

definition FIRCLSDwarfCIEHasAugmentationData :: "mem \<Rightarrow> dwarf_cie \<Rightarrow> bool c_outcome" where
  "FIRCLSDwarfCIEHasAugmentationData m rec =
     (if augmentation rec = 0 then Ret False
      else case c_char m (augmentation rec) of Undef \<Rightarrow> Undef | Ret c \<Rightarrow> Ret (c = 0x7a))"

text \<open>The rest of an FDE once its CIE is known.\<close>

definition parse_fde_body :: "mem \<Rightarrow> u64 \<Rightarrow> u64 \<Rightarrow> u64 \<Rightarrow> dwarf_cie \<Rightarrow> (u64, dwarf_fde option) c_op" where
  "parse_fde_body m len endAddr off cieRecord =
     (if \<not> FIRCLSDwarfCIEIsValid cieRecord then c_return None
      else c_bind (FIRCLSParseAddressWithEncodingAndAdvance m (pointerEncoding cieRecord)) (\<lambda>start.
        if start = CLS_INVALID_ADDRESS then c_return None
        else c_bind (FIRCLSParseAddressWithEncodingAndAdvance m (pointerEncoding cieRecord AND 0x0f)) (\<lambda>range.
          if range = CLS_INVALID_ADDRESS then c_return None
          else c_bind (c_lift (FIRCLSDwarfCIEHasAugmentationData m cieRecord)) (\<lambda>has_data.
               c_bind (if has_data
                       then c_bind (FIRCLSParseULEB128AndAdvance m) (\<lambda>n. c_advance (unat n))
                       else c_return ()) (\<lambda>_.
               c_bind c_cursor (\<lambda>ptr.
                 c_return (Some \<lparr>fde_length = len, cieOffset = off, startAddress = start, rangeSize = range,
                   fde_instructions = \<lparr>ins_length = ucast (endAddr - ptr), ins_data = ptr\<rparr>\<rparr>)))))))"

text \<open>
  The CIE pointer is an offset back from its own field; a pointer below address 0 is
  undefined. The two records are \<open>None\<close> when the call returns false.
\<close>

definition parse_fde :: "mem \<Rightarrow> bool \<Rightarrow> dwarf_cie \<Rightarrow> (u64, (dwarf_fde \<times> dwarf_cie) option) c_op" where
  "parse_fde m parseCIE cieRecord =
     c_bind (FIRCLSParseRecordLengthAndAdvance m) (\<lambda>length.
     if length = 0 then c_return None
     else c_bind (c_offset (unat length)) (\<lambda>endAddr.
       c_bind (FIRCLSParseUint32AndAdvance m) (\<lambda>off32. let off = ucast off32 in
       if off = (0 :: u64) then c_return None
       else c_bind c_cursor (\<lambda>ptr.
         c_bind (if parseCIE
                 then (if unat ptr < unat off + 4 then c_undef
                       else c_lift (FIRCLSDwarfParseCIERecord m (ptr - off - 4)))
                 else c_return (Some cieRecord)) (\<lambda>r.
           case r of
             None \<Rightarrow> c_return None
           | Some rec \<Rightarrow>
               c_bind (parse_fde_body m length endAddr off rec) (\<lambda>f. c_return (map_option (\<lambda>f. (f, rec)) f)))))))"

definition FIRCLSDwarfParseFDERecord ::
    "mem \<Rightarrow> bool \<Rightarrow> dwarf_cie \<Rightarrow> u64 \<Rightarrow> (dwarf_fde \<times> dwarf_cie) option c_outcome" where
  "FIRCLSDwarfParseFDERecord m parseCIE cieRecord ptr =
     (if ptr = 0 then Ret None
      else case parse_fde m parseCIE cieRecord ptr of Undef \<Rightarrow> Undef | Ret (r, _) \<Rightarrow> Ret r)"

text \<open>The CIE is parsed from the FDE, so what the record held before does not matter.\<close>

definition FIRCLSDwarfParseCFIFromFDERecord :: "mem \<Rightarrow> dwarf_cie \<Rightarrow> u64 \<Rightarrow> dwarf_cfi_record option c_outcome" where
  "FIRCLSDwarfParseCFIFromFDERecord m old ptr =
     (if ptr = 0 then Ret None
      else case FIRCLSDwarfParseFDERecord m True old ptr of
             Undef \<Rightarrow> Undef
           | Ret r \<Rightarrow> Ret (map_option (\<lambda>(f, c). \<lparr>cie = c, fde = f\<rparr>) r))"

definition FIRCLSDwarfParseCFIFromFDERecordOffset ::
    "mem \<Rightarrow> dwarf_cie \<Rightarrow> u64 \<Rightarrow> u64 \<Rightarrow> dwarf_cfi_record option c_outcome" where
  "FIRCLSDwarfParseCFIFromFDERecordOffset m old ehFrame fdeOffset =
     (if ehFrame = 0 \<or> fdeOffset = 0 then Ret None
      else case c_offset (unat fdeOffset) ehFrame of
             Undef \<Rightarrow> Undef
           | Ret (ptr, _) \<Rightarrow> FIRCLSDwarfParseCFIFromFDERecord m old ptr)"

section \<open>Call frame instructions\<close>

text \<open>What a run changes: the cursor, the register rules and the code offset.\<close>

record cfi_run =
  cfi_cursor :: u64
  cfi_state :: dwarf_state
  codeOffset :: u64

definition cfi_parse :: "(u64, 'a) c_op \<Rightarrow> (cfi_run, 'a) c_op" where
  "cfi_parse f run =
     (case f (cfi_cursor run) of Undef \<Rightarrow> Undef | Ret (x, c) \<Rightarrow> Ret (x, run\<lparr>cfi_cursor := c\<rparr>))"

definition cfi_update :: "(dwarf_state \<Rightarrow> dwarf_state) \<Rightarrow> (cfi_run, bool) c_op" where
  "cfi_update f run = Ret (True, run\<lparr>cfi_state := f (cfi_state run)\<rparr>)"

definition cfi_set_offset :: "u64 c_outcome \<Rightarrow> (cfi_run, bool) c_op" where
  "cfi_set_offset r run = (case r of Undef \<Rightarrow> Undef | Ret v \<Rightarrow> Ret (True, run\<lparr>codeOffset := v\<rparr>))"

definition bad_register :: "u64 \<Rightarrow> bool" where
  "bad_register regNum = (word_of_nat CLS_DWARF_MAX_REGISTER_NUM < regNum)"

definition set_register :: "u64 \<Rightarrow> dwarf_register_location \<Rightarrow> u64 \<Rightarrow> dwarf_state \<Rightarrow> dwarf_state" where
  "set_register regNum loc v st =
     st\<lparr>saved_registers := (saved_registers st)[unat regNum := \<lparr>location = loc, reg_value = v\<rparr>]\<rparr>"

definition FIRCLSDwarfParseAndExecute_set_loc :: "mem \<Rightarrow> dwarf_cie \<Rightarrow> (cfi_run, bool) c_op" where
  "FIRCLSDwarfParseAndExecute_set_loc m rec =
     c_bind (cfi_parse (FIRCLSParseAddressWithEncodingAndAdvance m (pointerEncoding rec)))
       (\<lambda>operand. cfi_set_offset (Ret operand))"

definition FIRCLSDwarfParseAndExecute_advance_loc1 :: "mem \<Rightarrow> dwarf_cie \<Rightarrow> (cfi_run, bool) c_op" where
  "FIRCLSDwarfParseAndExecute_advance_loc1 m rec =
     c_bind (cfi_parse (FIRCLSParseUint8AndAdvance m)) (\<lambda>delta run.
       cfi_set_offset (sadd64 (codeOffset run) (ucast delta * codeAlignFactor rec)) run)"

definition FIRCLSDwarfParseAndExecute_advance_loc2 :: "mem \<Rightarrow> dwarf_cie \<Rightarrow> (cfi_run, bool) c_op" where
  "FIRCLSDwarfParseAndExecute_advance_loc2 m rec =
     c_bind (cfi_parse (FIRCLSParseUint16AndAdvance m)) (\<lambda>delta run.
       cfi_set_offset (sadd64 (codeOffset run) (ucast delta * codeAlignFactor rec)) run)"

definition FIRCLSDwarfParseAndExecute_advance_loc4 :: "mem \<Rightarrow> dwarf_cie \<Rightarrow> (cfi_run, bool) c_op" where
  "FIRCLSDwarfParseAndExecute_advance_loc4 m rec =
     c_bind (cfi_parse (FIRCLSParseUint32AndAdvance m)) (\<lambda>delta run.
       cfi_set_offset (sadd64 (codeOffset run) (ucast delta * codeAlignFactor rec)) run)"

definition FIRCLSDwarfParseAndExecute_def_cfa :: "mem \<Rightarrow> (cfi_run, bool) c_op" where
  "FIRCLSDwarfParseAndExecute_def_cfa m =
     c_bind (cfi_parse (FIRCLSParseULEB128AndAdvance m)) (\<lambda>regNum.
       if bad_register regNum then c_return False
       else c_bind (cfi_parse (FIRCLSParseULEB128AndAdvance m)) (\<lambda>off.
         cfi_update (\<lambda>st. st\<lparr>cfaRegister := regNum, cfaRegisterOffset := off\<rparr>)))"

definition FIRCLSDwarfParseAndExecute_def_cfa_register :: "mem \<Rightarrow> (cfi_run, bool) c_op" where
  "FIRCLSDwarfParseAndExecute_def_cfa_register m =
     c_bind (cfi_parse (FIRCLSParseULEB128AndAdvance m)) (\<lambda>regNum.
       if bad_register regNum then c_return False
       else cfi_update (\<lambda>st. st\<lparr>cfaRegister := regNum\<rparr>))"

definition FIRCLSDwarfParseAndExecute_def_cfa_offset :: "mem \<Rightarrow> (cfi_run, bool) c_op" where
  "FIRCLSDwarfParseAndExecute_def_cfa_offset m =
     c_bind (cfi_parse (FIRCLSParseULEB128AndAdvance m)) (\<lambda>off.
       cfi_update (\<lambda>st. st\<lparr>cfaRegisterOffset := off\<rparr>))"

definition FIRCLSDwarfParseAndExecute_same_value :: "mem \<Rightarrow> (cfi_run, bool) c_op" where
  "FIRCLSDwarfParseAndExecute_same_value m =
     c_bind (cfi_parse (FIRCLSParseULEB128AndAdvance m)) (\<lambda>regNum.
       if bad_register regNum then c_return False
       else cfi_update (\<lambda>st. set_register regNum RegisterUnused
              (reg_value (saved_registers st ! unat regNum)) st))"

definition FIRCLSDwarfParseAndExecute_register :: "mem \<Rightarrow> (cfi_run, bool) c_op" where
  "FIRCLSDwarfParseAndExecute_register m =
     c_bind (cfi_parse (FIRCLSParseULEB128AndAdvance m)) (\<lambda>regNum.
       if bad_register regNum then c_return False
       else c_bind (cfi_parse (FIRCLSParseULEB128AndAdvance m)) (\<lambda>regValue.
         if bad_register regValue then c_return False
         else cfi_update (set_register regNum RegisterInRegister regValue)))"

text \<open>The two expression rules keep the address of the expression and skip it.\<close>

definition skip_expression :: "mem \<Rightarrow> (cfi_run, unit) c_op" where
  "skip_expression m =
     c_bind (cfi_parse (FIRCLSParseULEB128AndAdvance m)) (\<lambda>length. cfi_parse (c_advance (unat length)))"

definition FIRCLSDwarfParseAndExecute_expression :: "mem \<Rightarrow> (cfi_run, bool) c_op" where
  "FIRCLSDwarfParseAndExecute_expression m =
     c_bind (cfi_parse (FIRCLSParseULEB128AndAdvance m)) (\<lambda>regNum.
       if bad_register regNum then c_return False
       else c_bind (cfi_parse c_cursor) (\<lambda>cursor.
            c_bind (skip_expression m) (\<lambda>_. cfi_update (set_register regNum RegisterAtExpression cursor))))"

definition FIRCLSDwarfParseAndExecute_val_expression :: "mem \<Rightarrow> (cfi_run, bool) c_op" where
  "FIRCLSDwarfParseAndExecute_val_expression m =
     c_bind (cfi_parse (FIRCLSParseULEB128AndAdvance m)) (\<lambda>regNum.
       if bad_register regNum then c_return False
       else c_bind (cfi_parse c_cursor) (\<lambda>cursor.
            c_bind (skip_expression m) (\<lambda>_. cfi_update (set_register regNum RegisterIsExpression cursor))))"

definition FIRCLSDwarfParseAndExecute_def_cfa_expression :: "mem \<Rightarrow> (cfi_run, bool) c_op" where
  "FIRCLSDwarfParseAndExecute_def_cfa_expression m =
     c_bind (cfi_parse c_cursor) (\<lambda>cursor.
     c_bind (skip_expression m) (\<lambda>_.
       cfi_update (\<lambda>st. st\<lparr>cfaRegister := word_of_nat CLS_DWARF_INVALID_REGISTER_NUM, cfaExpression := cursor\<rparr>)))"

definition FIRCLSDwarfParseAndExecute_offset :: "mem \<Rightarrow> dwarf_cie \<Rightarrow> u8 \<Rightarrow> (cfi_run, bool) c_op" where
  "FIRCLSDwarfParseAndExecute_offset m rec regNum =
     (if bad_register (ucast regNum) then c_return False
      else c_bind (cfi_parse (FIRCLSParseULEB128AndAdvance m)) (\<lambda>v.
        cfi_update (set_register (ucast regNum) RegisterInCFA (v * dataAlignFactor rec))))"

definition FIRCLSDwarfParseAndExecute_advance_loc :: "dwarf_cie \<Rightarrow> u8 \<Rightarrow> (cfi_run, bool) c_op" where
  "FIRCLSDwarfParseAndExecute_advance_loc rec delta =
     cfi_set_offset (smul64 (ucast delta) (codeAlignFactor rec))"

definition FIRCLSDwarfParseAndExecuteInstructionWithOperand :: "mem \<Rightarrow> dwarf_cie \<Rightarrow> u8 \<Rightarrow> (cfi_run, bool) c_op" where
  "FIRCLSDwarfParseAndExecuteInstructionWithOperand m rec instruction =
     (let operand = instruction AND 0x3f
      in if instruction AND 0xc0 = 0x80 then FIRCLSDwarfParseAndExecute_offset m rec operand
         else if instruction AND 0xc0 = 0x40 then FIRCLSDwarfParseAndExecute_advance_loc rec operand
         else c_return False)"

text \<open>The body of the loop: false where the enumeration returns false.\<close>

definition cfi_step :: "mem \<Rightarrow> dwarf_cie \<Rightarrow> (cfi_run, bool) c_op" where
  "cfi_step m rec =
     c_bind (cfi_parse (FIRCLSParseUint8AndAdvance m)) (\<lambda>instruction.
       if instruction = 0x00 then c_return True
       else if instruction = 0x01 then FIRCLSDwarfParseAndExecute_set_loc m rec
       else if instruction = 0x02 then FIRCLSDwarfParseAndExecute_advance_loc1 m rec
       else if instruction = 0x03 then FIRCLSDwarfParseAndExecute_advance_loc2 m rec
       else if instruction = 0x04 then FIRCLSDwarfParseAndExecute_advance_loc4 m rec
       else if instruction = 0x0c then FIRCLSDwarfParseAndExecute_def_cfa m
       else if instruction = 0x0d then FIRCLSDwarfParseAndExecute_def_cfa_register m
       else if instruction = 0x0e then FIRCLSDwarfParseAndExecute_def_cfa_offset m
       else if instruction = 0x08 then FIRCLSDwarfParseAndExecute_same_value m
       else if instruction = 0x09 then FIRCLSDwarfParseAndExecute_register m
       else if instruction = 0x0f then FIRCLSDwarfParseAndExecute_def_cfa_expression m
       else if instruction = 0x10 then FIRCLSDwarfParseAndExecute_expression m
       else if instruction = 0x16 then FIRCLSDwarfParseAndExecute_val_expression m
       else if instruction \<in> {0x05, 0x06, 0x07, 0x0a, 0x0b, 0x11, 0x12, 0x13, 0x14, 0x15, 0x2d, 0x2e, 0x2f}
       then c_return False
       else FIRCLSDwarfParseAndExecuteInstructionWithOperand m rec instruction)"

section \<open>Enumeration\<close>

definition cfi_moves :: "nat \<Rightarrow> (cfi_run, 'a) c_op \<Rightarrow> bool" where
  "cfi_moves n f = (\<forall>run x run'. f run = Ret (x, run') \<longrightarrow> unat (cfi_cursor run) + n \<le> unat (cfi_cursor run'))"

named_theorems cfi_intros \<open>operations that do not move the cursor back\<close>

lemma cfi_moves_parse: "advances f n \<Longrightarrow> cfi_moves n (cfi_parse f)"
  by (auto simp: cfi_moves_def cfi_parse_def advances_def split: c_outcome.splits)

lemma cfi_moves_parse0: "advances f n \<Longrightarrow> cfi_moves 0 (cfi_parse f)"
  using cfi_moves_parse advances_mono by blast

lemma advances_c_cursor: "advances c_cursor 0"
  by (simp add: advances_def c_cursor_def)

lemma advances_encoded_value: "advances (parse_encoded_value m e) 0"
  unfolding parse_encoded_value_def Let_def FIRCLSParsePointerAndAdvance_def FIRCLSParseInt16AndAdvance_def
    FIRCLSParseInt32AndAdvance_def FIRCLSParseInt64AndAdvance_def
  by (auto intro!: advances_bind0 advances_return advances_mono [OF advances_parse_le] advances_uleb128 advances_leb128
      advances_mono [OF advances_uint16] advances_mono [OF advances_uint32] advances_mono [OF advances_uint64])

lemma advances_if: "advances f n \<Longrightarrow> advances g n \<Longrightarrow> advances (if b then f else g) n"
  by simp

lemma advances_option:
  "advances f n \<Longrightarrow> (\<And>x. advances (g x) n) \<Longrightarrow> advances (case r of None \<Rightarrow> f | Some x \<Rightarrow> g x) n"
  by (cases r) simp_all

lemma advances_self: "(\<And>c. advances (f c) n) \<Longrightarrow> advances (\<lambda>c. f c c) n"
  by (simp add: advances_def)

lemma advances_encoded: "advances (FIRCLSParseAddressWithEncodingAndAdvance m e) 0"
  unfolding FIRCLSParseAddressWithEncodingAndAdvance_def [abs_def]
  by (rule advances_self) (intro advances_if advances_option advances_bind0 advances_return advances_undef
    advances_lift advances_encoded_value)

lemmas cfi_moves_parsers [cfi_intros] =
  cfi_moves_parse0 [OF advances_uint8] cfi_moves_parse0 [OF advances_uint16] cfi_moves_parse0 [OF advances_uint32]
  cfi_moves_parse0 [OF advances_uleb128] cfi_moves_parse0 [OF advances_encoded] cfi_moves_parse0 [OF advances_c_cursor]
  cfi_moves_parse0 [OF advances_c_advance]

lemma cfi_moves_return [cfi_intros]: "cfi_moves 0 (c_return x)"
  by (simp add: cfi_moves_def)

lemma cfi_moves_update [cfi_intros]: "cfi_moves 0 (cfi_update f)"
  by (auto simp: cfi_moves_def cfi_update_def)

lemma cfi_moves_set_offset [cfi_intros]: "cfi_moves 0 (cfi_set_offset r)"
  by (auto simp: cfi_moves_def cfi_set_offset_def split: c_outcome.splits)

lemma cfi_moves_set_offset_run [cfi_intros]: "cfi_moves 0 (\<lambda>run. cfi_set_offset (r run) run)"
  by (auto simp: cfi_moves_def cfi_set_offset_def split: c_outcome.splits)

lemma cfi_moves_if [cfi_intros]: "cfi_moves n f \<Longrightarrow> cfi_moves n g \<Longrightarrow> cfi_moves n (if b then f else g)"
  by simp

lemma cfi_moves_bind:
  assumes "cfi_moves n f" and "\<And>x. cfi_moves 0 (g x)"
  shows "cfi_moves n (c_bind f g)"
  unfolding cfi_moves_def
proof (intro allI impI)
  fix run x run'
  assume "c_bind f g run = Ret (x, run')"
  then obtain y s where "f run = Ret (y, s)" "g y s = Ret (x, run')"
    by (auto simp: c_bind_eq_Ret)
  then have "unat (cfi_cursor run) + n \<le> unat (cfi_cursor s)" "unat (cfi_cursor s) \<le> unat (cfi_cursor run')"
    using assms unfolding cfi_moves_def by simp_all
  then show "unat (cfi_cursor run) + n \<le> unat (cfi_cursor run')" by simp
qed

lemmas cfi_moves_bind0 [cfi_intros] = cfi_moves_bind [where n = 0]

lemmas cfi_defs =
  FIRCLSDwarfParseAndExecute_set_loc_def FIRCLSDwarfParseAndExecute_advance_loc1_def
  FIRCLSDwarfParseAndExecute_advance_loc2_def FIRCLSDwarfParseAndExecute_advance_loc4_def
  FIRCLSDwarfParseAndExecute_def_cfa_def FIRCLSDwarfParseAndExecute_def_cfa_register_def
  FIRCLSDwarfParseAndExecute_def_cfa_offset_def FIRCLSDwarfParseAndExecute_same_value_def
  FIRCLSDwarfParseAndExecute_register_def FIRCLSDwarfParseAndExecute_expression_def
  FIRCLSDwarfParseAndExecute_val_expression_def FIRCLSDwarfParseAndExecute_def_cfa_expression_def
  FIRCLSDwarfParseAndExecute_offset_def FIRCLSDwarfParseAndExecute_advance_loc_def
  FIRCLSDwarfParseAndExecuteInstructionWithOperand_def skip_expression_def Let_def

lemma cfi_step_moves: "cfi_moves 1 (cfi_step m rec)"
  unfolding cfi_step_def cfi_defs
  by (rule cfi_moves_bind [OF cfi_moves_parse [OF advances_uint8]]) (intro cfi_intros)

text \<open>
  The loop of \<open>FIRCLSDwarfInstructionsEnumerate\<close>, which ends at the end address or when the
  code offset reaches that of the pc (a signed comparison).
\<close>

function cfi_loop :: "mem \<Rightarrow> dwarf_cie \<Rightarrow> u64 \<Rightarrow> u64 \<Rightarrow> (cfi_run, bool) c_op" where
  "cfi_loop m rec endAddr pcOffset run =
     (if cfi_cursor run < endAddr \<and> sint (codeOffset run) < sint pcOffset
      then (case cfi_step m rec run of
              Undef \<Rightarrow> Undef
            | Ret (ok, run') \<Rightarrow> if \<not> ok then Ret (False, run') else cfi_loop m rec endAddr pcOffset run')
      else Ret (True, run))"
  by pat_completeness auto

lemma cfi_step_advances:
  assumes "cfi_step m rec run = Ret (ok, run')" and "cfi_cursor run < endAddr"
  shows "unat endAddr - unat (cfi_cursor run') < unat endAddr - unat (cfi_cursor run)"
proof -
  have "unat (cfi_cursor run) + 1 \<le> unat (cfi_cursor run')"
    using cfi_step_moves assms(1) unfolding cfi_moves_def by blast
  then show ?thesis using assms(2) by (simp add: word_less_nat_alt)
qed

termination cfi_loop
  by (relation "measure (\<lambda>(m, rec, endAddr, pcOffset, run). unat endAddr - unat (cfi_cursor run))")
    (auto intro!: cfi_step_advances)

declare cfi_loop.simps [simp del]

definition FIRCLSDwarfInstructionsEnumerate ::
    "mem \<Rightarrow> dwarf_instructions \<Rightarrow> dwarf_cie \<Rightarrow> dwarf_state \<Rightarrow> u64 \<Rightarrow> (bool \<times> dwarf_state) c_outcome" where
  "FIRCLSDwarfInstructionsEnumerate m instructions cieRecord state pcOffset =
     (case c_offset (unat (ins_length instructions)) (ins_data instructions) of
        Undef \<Rightarrow> Undef
      | Ret (endAddr, cursor) \<Rightarrow>
          (case cfi_loop m cieRecord endAddr pcOffset \<lparr>cfi_cursor = cursor, cfi_state = state, codeOffset = 0\<rparr> of
             Undef \<Rightarrow> Undef
           | Ret (ok, run) \<Rightarrow> Ret (ok, cfi_state run)))"

section \<open>The caller's registers\<close>

definition FIRCLSDwarfCompareRegisters :: "thread_context \<Rightarrow> thread_context \<Rightarrow> nat \<Rightarrow> bool" where
  "FIRCLSDwarfCompareRegisters a b registerNum =
     (FIRCLSDwarfUnwindGetRegisterValue a registerNum = FIRCLSDwarfUnwindGetRegisterValue b registerNum)"

definition FIRCLSDwarfGetCFA :: "mem \<Rightarrow> dwarf_state \<Rightarrow> thread_context \<Rightarrow> u64 option c_outcome" where
  "FIRCLSDwarfGetCFA m state regs =
     (if cfaExpression state \<noteq> 0 then FIRCLSDwarfEvalulateExpression m (cfaExpression state) regs 0
      else Ret (Some (FIRCLSDwarfUnwindGetRegisterValue regs (unat (cfaRegister state)) + cfaRegisterOffset state)))"

definition FIRCLSDwarfGetSavedRegister :: "mem \<Rightarrow> thread_context \<Rightarrow> u64 \<Rightarrow> dwarf_register \<Rightarrow> u64 c_outcome" where
  "FIRCLSDwarfGetSavedRegister m regs cfaReg dRegister =
     (case location dRegister of
        RegisterInCFA \<Rightarrow> Ret (case read_pointer m (cfaReg + reg_value dRegister) of None \<Rightarrow> 0 | Some v \<Rightarrow> v)
      | RegisterInRegister \<Rightarrow> Ret (FIRCLSDwarfUnwindGetRegisterValue regs (unat (reg_value dRegister)))
      | RegisterAtExpression \<Rightarrow>
          (case FIRCLSDwarfEvalulateExpression m (reg_value dRegister) regs cfaReg of
             Undef \<Rightarrow> Undef
           | Ret None \<Rightarrow> Ret 0
           | Ret (Some a) \<Rightarrow> Ret (case read_pointer m a of None \<Rightarrow> 0 | Some v \<Rightarrow> v))
      | RegisterIsExpression \<Rightarrow>
          (case FIRCLSDwarfEvalulateExpression m (reg_value dRegister) regs cfaReg of
             Undef \<Rightarrow> Undef
           | Ret None \<Rightarrow> Ret 0
           | Ret (Some v) \<Rightarrow> Ret v)
      | _ \<Rightarrow> Ret 0)"

text \<open>The loop over the registers, from register \<open>i\<close> on; \<open>None\<close> where a register cannot be set.\<close>

fun assign_registers ::
    "mem \<Rightarrow> thread_context \<Rightarrow> u64 \<Rightarrow> nat \<Rightarrow> dwarf_register list \<Rightarrow> thread_context \<Rightarrow> thread_context option c_outcome" where
  "assign_registers m regs cfaReg i [] newRegs = Ret (Some newRegs)"
| "assign_registers m regs cfaReg i (r # rs) newRegs =
     (if location r = RegisterUnused then assign_registers m regs cfaReg (Suc i) rs newRegs
      else case FIRCLSDwarfGetSavedRegister m regs cfaReg r of
             Undef \<Rightarrow> Undef
           | Ret v \<Rightarrow>
               (case FIRCLSDwarfUnwindSetRegisterValue newRegs i v of
                  None \<Rightarrow> Ret None
                | Some newRegs \<Rightarrow> assign_registers m regs cfaReg (Suc i) rs newRegs))"

definition FIRCLSDwarfUnwindAssignRegisters ::
    "mem \<Rightarrow> dwarf_state \<Rightarrow> thread_context \<Rightarrow> u64 \<Rightarrow> thread_context option c_outcome" where
  "FIRCLSDwarfUnwindAssignRegisters m state regs cfaReg =
     (case assign_registers m regs cfaReg 0 (saved_registers state) regs of
        Undef \<Rightarrow> Undef
      | Ret None \<Rightarrow> Ret None
      | Ret (Some newRegs) \<Rightarrow>
          (case FIRCLSDwarfUnwindSetRegisterValue newRegs CLS_DWARF_REG_SP cfaReg of
             None \<Rightarrow> Ret None
           | Some newRegs \<Rightarrow>
               if FIRCLSDwarfCompareRegisters regs newRegs CLS_DWARF_REG_SP then Ret None
               else if FIRCLSDwarfCompareRegisters regs newRegs CLS_DWARF_REG_RETURN then Ret None
               else Ret (Some newRegs)))"

text \<open>\<open>INTPTR_MAX\<close> runs all of the CIE's instructions. The registers stay when this returns false.\<close>

definition FIRCLSDwarfUnwindComputeRegisters :: "mem \<Rightarrow> dwarf_cfi_record \<Rightarrow> thread_context \<Rightarrow> (bool \<times> thread_context) c_outcome" where
  "FIRCLSDwarfUnwindComputeRegisters m rec regs =
     (case FIRCLSDwarfInstructionsEnumerate m (cie_instructions (cie rec)) (cie rec) zero_state 0x7fffffffffffffff of
        Undef \<Rightarrow> Undef
      | Ret (False, _) \<Rightarrow> Ret (False, regs)
      | Ret (True, state) \<Rightarrow>
          let pcOffset = FIRCLSThreadContextGetPC regs - startAddress (fde rec)
          in if sint pcOffset < 0 then Ret (False, regs)
             else (case FIRCLSDwarfInstructionsEnumerate m (fde_instructions (fde rec)) (cie rec) state pcOffset of
                     Undef \<Rightarrow> Undef
                   | Ret (False, _) \<Rightarrow> Ret (False, regs)
                   | Ret (True, state) \<Rightarrow>
                       (case FIRCLSDwarfGetCFA m state regs of
                          Undef \<Rightarrow> Undef
                        | Ret None \<Rightarrow> Ret (False, regs)
                        | Ret (Some cfaReg) \<Rightarrow>
                            (case FIRCLSDwarfUnwindAssignRegisters m state regs cfaReg of
                               Undef \<Rightarrow> Undef
                             | Ret None \<Rightarrow> Ret (False, regs)
                             | Ret (Some newRegs) \<Rightarrow> Ret (True, newRegs)))))"

end
