(* ===== verification/Unwind_X86.thy ===== *)
theory Unwind_X86
  imports Crash_Thread
begin

text \<open>
  The frame-pointer and frameless unwinders for x86-64 (\<open>Crashlytics/Unwind/FIRCLSUnwind_x86.c\<close>).
  The bit masks of a compact encoding come from Apple's \<open>compact_unwind_encoding.h\<close>, which
  is not in the repository: they are the record \<open>unwind_abi\<close>, an argument of the model. The
  registers a frameless function saved are encoded as a permutation number; decoding is
  shown to invert encoding.
\<close>

record unwind_abi =
  mode_mask :: u32
  mode_bp_frame :: u32
  mode_stack_immd :: u32
  mode_stack_ind :: u32
  mode_dwarf :: u32
  frameless_stack_size :: u32
  frameless_stack_adjust :: u32
  frameless_reg_count :: u32
  frameless_reg_permutation :: u32
  dwarf_section_offset :: u32
  reg_rbp :: nat

text \<open>\<open>__builtin_ctz\<close>, and the field of a value under a mask.\<close>

definition ctz :: "u32 \<Rightarrow> nat" where
  "ctz msk = length (takeWhile (\<lambda>i. \<not> bit msk i) [0..<32])"

definition GET_BITS_WITH_MASK :: "u32 \<Rightarrow> u32 \<Rightarrow> u32" where
  "GET_BITS_WITH_MASK value msk = drop_bit (if msk = 0 then 0 else ctz msk) (value AND msk)"

section \<open>Frame pointers\<close>

definition FIRCLSUnwindStackPointerFromFramePointer :: "u64 \<Rightarrow> u64" where
  "FIRCLSUnwindStackPointerFromFramePointer framePtr = framePtr + 2 * 8"

definition FIRCLSCompactUnwindBPFrame :: "mem \<Rightarrow> thread_context \<Rightarrow> bool \<times> thread_context" where
  "FIRCLSCompactUnwindBPFrame m registers =
     (let framePointer = FIRCLSThreadContextGetFramePointer registers
      in case FIRCLSReadMemory m framePointer 16 of
           None \<Rightarrow> (False, registers)
         | Some stack \<Rightarrow>
             let registers = FIRCLSThreadContextSetPC registers (word_of_nat (le_nat (drop 8 stack)));
                 registers = FIRCLSThreadContextSetFramePointer registers (word_of_nat (le_nat (take 8 stack)))
             in (True, FIRCLSThreadContextSetStackPointer registers
                         (FIRCLSUnwindStackPointerFromFramePointer framePointer)))"

section \<open>Frameless functions\<close>

definition FIRCLSCompactUnwindComputeStackSize :: "mem \<Rightarrow> unwind_abi \<Rightarrow> u32 \<Rightarrow> u64 \<Rightarrow> bool \<Rightarrow> u32 option" where
  "FIRCLSCompactUnwindComputeStackSize m abi encoding functionStart indirect =
     (let stackSizeEncoded = GET_BITS_WITH_MASK encoding (frameless_stack_size abi)
      in if \<not> indirect then Some (stackSizeEncoded * 8)
         else (case FIRCLSReadMemory m (functionStart + ucast stackSizeEncoded) 4 of
                 None \<Rightarrow> None
               | Some bs \<Rightarrow>
                   let stackAdjust = GET_BITS_WITH_MASK encoding (frameless_stack_adjust abi)
                   in Some (word_of_nat (le_nat bs) + stackAdjust * 8)))"

text \<open>The successive quotients of the permutation number, padded to the six entries of the array.\<close>

definition FIRCLSCompactUnwindDecompressPermutation :: "unwind_abi \<Rightarrow> u32 \<Rightarrow> nat list option" where
  "FIRCLSCompactUnwindDecompressPermutation abi encoding =
     (let regCount = unat (GET_BITS_WITH_MASK encoding (frameless_reg_count abi));
          permutation = unat (GET_BITS_WITH_MASK encoding (frameless_reg_permutation abi));
          digit = (\<lambda>w p. (p div w, p - p div w * w))
      in if regCount = 6 \<or> regCount = 5 then
           (let (a, p) = digit 120 permutation; (b, p) = digit 24 p; (c, p) = digit 6 p; (d, p) = digit 2 p
            in Some [a, b, c, d, p, 0])
         else if regCount = 4 then
           (let (a, p) = digit 60 permutation; (b, p) = digit 12 p; (c, p) = digit 3 p in Some [a, b, c, p, 0, 0])
         else if regCount = 3 then
           (let (a, p) = digit 20 permutation; (b, p) = digit 4 p in Some [a, b, p, 0, 0, 0])
         else if regCount = 2 then
           (let (a, p) = digit 5 permutation in Some [a, p, 0, 0, 0, 0])
         else if regCount = 1 then Some [permutation, 0, 0, 0, 0, 0]
         else if regCount = 0 then Some [0, 0, 0, 0, 0, 0]
         else None)"

text \<open>
  The inner loop: the unused register that has \<open>target\<close> unused ones below it, \<open>None\<close> when
  there is none. The entry of the result then stays 0.
\<close>

fun pick_register :: "bool list \<Rightarrow> nat list \<Rightarrow> nat \<Rightarrow> nat \<Rightarrow> nat option" where
  "pick_register used [] renum target = None"
| "pick_register used (u # us) renum target =
     (if \<not> used ! u then
        (if renum = target then Some u else pick_register used us (Suc renum) target)
      else pick_register used us renum target)"

fun remap_loop :: "bool list \<Rightarrow> nat list \<Rightarrow> nat list" where
  "remap_loop used [] = []"
| "remap_loop used (t # ts) =
     (case pick_register used [1..<7] 0 t of
        None \<Rightarrow> 0 # remap_loop used ts
      | Some u \<Rightarrow> u # remap_loop (used[u := True]) ts)"

definition FIRCLSCompactUnwindRemapRegisters :: "unwind_abi \<Rightarrow> u32 \<Rightarrow> nat list \<Rightarrow> nat list option" where
  "FIRCLSCompactUnwindRemapRegisters abi encoding permutatedRegisters =
     (let regCount = unat (GET_BITS_WITH_MASK encoding (frameless_reg_count abi))
      in if 6 < regCount then None
         else Some (remap_loop (replicate 7 False) (take regCount permutatedRegisters) @ replicate (6 - regCount) 0))"

text \<open>The loop over the saved registers. The registers set before a failing read stay set.\<close>

fun restore_loop :: "mem \<Rightarrow> unwind_abi \<Rightarrow> nat list \<Rightarrow> u64 \<Rightarrow> thread_context \<Rightarrow> (u64 option) \<times> thread_context" where
  "restore_loop m abi [] address registers = (Some address, registers)"
| "restore_loop m abi (r # rs) address registers =
     (if r = reg_rbp abi then
        (case read_pointer m address of
           None \<Rightarrow> (None, registers)
         | Some value \<Rightarrow>
             restore_loop m abi rs (address + 8) (FIRCLSThreadContextSetFramePointer registers value))
      else restore_loop m abi rs (address + 8) registers)"

definition FIRCLSCompactUnwindRestoreRegisters ::
    "mem \<Rightarrow> unwind_abi \<Rightarrow> u32 \<Rightarrow> thread_context \<Rightarrow> u32 \<Rightarrow> nat list \<Rightarrow> (u64 option) \<times> thread_context" where
  "FIRCLSCompactUnwindRestoreRegisters m abi encoding registers stackSize savedRegisters =
     (let regCount = GET_BITS_WITH_MASK encoding (frameless_reg_count abi)
      in restore_loop m abi (take (unat regCount) savedRegisters)
           (FIRCLSThreadContextGetStackPointer registers + ucast stackSize - 8 - 8 * ucast regCount) registers)"

definition FIRCLSCompactUnwindFrameless ::
    "mem \<Rightarrow> unwind_abi \<Rightarrow> u32 \<Rightarrow> thread_context \<Rightarrow> u64 \<Rightarrow> bool \<Rightarrow> bool \<times> thread_context" where
  "FIRCLSCompactUnwindFrameless m abi encoding registers functionStart indirect =
     (case FIRCLSCompactUnwindComputeStackSize m abi encoding functionStart indirect of
        None \<Rightarrow> (False, registers)
      | Some stackSize \<Rightarrow>
          (case FIRCLSCompactUnwindDecompressPermutation abi encoding of
             None \<Rightarrow> (False, registers)
           | Some permutated \<Rightarrow>
               (case FIRCLSCompactUnwindRemapRegisters abi encoding permutated of
                  None \<Rightarrow> (False, registers)
                | Some saved \<Rightarrow>
                    (case FIRCLSCompactUnwindRestoreRegisters m abi encoding registers stackSize saved of
                       (None, registers) \<Rightarrow> (False, registers)
                     | (Some address, registers) \<Rightarrow>
                         (case read_pointer m address of
                            None \<Rightarrow> (False, registers)
                          | Some value \<Rightarrow>
                              if \<not> FIRCLSIsValidPointer value then (False, registers)
                              else (True, FIRCLSThreadContextSetStackPointer
                                      (FIRCLSThreadContextSetPC registers value) (address + 8)))))))"

section \<open>Saved registers as permutation numbers\<close>

text \<open>
  The encoder the linker uses: each register's position among the registers not yet
  listed, as the digits of a number in the mixed radix of the decoder.
\<close>

fun rank_digits :: "nat list \<Rightarrow> nat list \<Rightarrow> nat list" where
  "rank_digits avail [] = []"
| "rank_digits avail (r # rs) = length (takeWhile (\<lambda>u. u \<noteq> r) avail) # rank_digits (remove1 r avail) rs"

definition encode_permutation :: "nat list \<Rightarrow> nat" where
  "encode_permutation rs =
     (case rank_digits [1..<7] rs of
        [a, b, c, d, e, f] \<Rightarrow> 120 * a + 24 * b + 6 * c + 2 * d + e
      | [a, b, c, d, e] \<Rightarrow> 120 * a + 24 * b + 6 * c + 2 * d + e
      | [a, b, c, d] \<Rightarrow> 60 * a + 12 * b + 3 * c + d
      | [a, b, c] \<Rightarrow> 20 * a + 4 * b + c
      | [a, b] \<Rightarrow> 5 * a + b
      | [a] \<Rightarrow> a
      | _ \<Rightarrow> 0)"

lemma pick_register_eq:
  "pick_register used us renum t =
     (let avail = filter (\<lambda>u. \<not> used ! u) us
      in if renum \<le> t \<and> t - renum < length avail then Some (avail ! (t - renum)) else None)"
proof (induction us arbitrary: renum)
  case Nil
  then show ?case by simp
next
  case (Cons u us)
  show ?case
  proof (cases "used ! u \<or> renum = t")
    case True
    then show ?thesis using Cons [of renum] by auto
  next
    case False
    then show ?thesis using Cons [of "Suc renum"] by (auto simp: Let_def nth_Cons')
  qed
qed

lemma index_takeWhile:
  "r \<in> set xs \<Longrightarrow> length (takeWhile (\<lambda>u. u \<noteq> r) xs) < length xs \<and> xs ! length (takeWhile (\<lambda>u. u \<noteq> r) xs) = r"
  by (induction xs) auto

lemma filter_used:
  assumes "r < length used"
  shows "filter (\<lambda>u. \<not> used[r := True] ! u) us = filter (\<lambda>u. u \<noteq> r) (filter (\<lambda>u. \<not> used ! u) us)"
  using assms by (induction us) (auto simp: nth_list_update)

lemma remap_ranks:
  assumes "distinct rs" and "set rs \<subseteq> set (filter (\<lambda>u. \<not> used ! u) [1..<7])" and "length used = 7"
  shows "remap_loop used (rank_digits (filter (\<lambda>u. \<not> used ! u) [1..<7]) rs) = rs"
  using assms
proof (induction rs arbitrary: used)
  case Nil
  then show ?case by simp
next
  case (Cons r rs)
  let ?avail = "filter (\<lambda>u. \<not> used ! u) [1..<7]"
  have r: "r \<in> set ?avail" using Cons.prems(2) by simp
  then have "r < 7" by simp
  have "pick_register used [1..<7] 0 (length (takeWhile (\<lambda>u. u \<noteq> r) ?avail)) = Some r"
    using index_takeWhile [OF r] by (simp add: pick_register_eq Let_def)
  moreover have rm: "remove1 r ?avail = filter (\<lambda>u. \<not> used[r := True] ! u) [1..<7]"
    using \<open>r < 7\<close> Cons.prems(3) by (simp add: filter_used distinct_remove1_removeAll removeAll_filter_not_eq)
      (auto intro: filter_cong)
  moreover have "set rs \<subseteq> set (filter (\<lambda>u. \<not> used[r := True] ! u) [1..<7])"
    using Cons.prems unfolding rm [symmetric] by auto
  ultimately show ?case using Cons.IH [of "used[r := True]"] Cons.prems by simp
qed

lemma rank_bounds:
  assumes "distinct rs" and "set rs \<subseteq> set avail" and "distinct avail" and "k < length rs"
  shows "rank_digits avail rs ! k < length avail - k"
  using assms
proof (induction rs arbitrary: avail k)
  case Nil
  then show ?case by simp
next
  case (Cons r rs)
  show ?case
  proof (cases k)
    case 0
    then show ?thesis using index_takeWhile [of r avail] Cons.prems(2) by simp
  next
    case (Suc j)
    have "set rs \<subseteq> set (remove1 r avail)" using Cons.prems by auto
    then have "rank_digits (remove1 r avail) rs ! j < length (remove1 r avail) - j"
      using Cons.prems Suc by (intro Cons.IH) auto
    then show ?thesis using Suc Cons.prems(2) by (simp add: length_remove1)
  qed
qed

lemma length_rank_digits [simp]: "length (rank_digits avail rs) = length rs"
  by (induction avail rs rule: rank_digits.induct) simp_all

lemma digit_eq: "r < w \<Longrightarrow> (w * a + r) div w = a \<and> w * a + r - (w * a + r) div w * w = r" for r w a :: nat
  by simp

lemma list_six_cases:
  assumes "length xs \<le> 6"
  obtains "xs = []" | a where "xs = [a]" | a b where "xs = [a, b]" | a b c where "xs = [a, b, c]"
    | a b c d where "xs = [a, b, c, d]" | a b c d e where "xs = [a, b, c, d, e]"
    | a b c d e f where "xs = [a, b, c, d, e, f]"
proof -
  have "length xs \<in> {0, 1, 2, 3, 4, 5, 6}" using assms by (auto simp: le_Suc_eq numeral_eq_Suc)
  then show thesis
    by (auto simp: length_Suc_conv numeral_eq_Suc intro: that)
qed

lemma zeros: "replicate 1 0 = [0]" "replicate 2 0 = [0, 0]" "replicate 3 0 = [0, 0, 0]" "replicate 4 0 = [0, 0, 0, 0]"
  by (simp_all add: numeral_eq_Suc)

lemma decompress_encode:
  assumes "distinct rs" and "set rs \<subseteq> {1..6}" and "length rs \<le> 6"
    and "unat (GET_BITS_WITH_MASK encoding (frameless_reg_count abi)) = length rs"
    and "unat (GET_BITS_WITH_MASK encoding (frameless_reg_permutation abi)) = encode_permutation rs"
  shows "FIRCLSCompactUnwindDecompressPermutation abi encoding =
    Some (rank_digits [1..<7] rs @ replicate (6 - length rs) 0)"
proof -
  have up: "set rs \<subseteq> set [1..<7]" "distinct [1..<7 :: nat]" "length [1..<7 :: nat] = 6" using assms(2) by auto
  note bound = rank_bounds [OF assms(1) up(1,2)]
  define ds where "ds = rank_digits [1..<7] rs"
  then have ds: "rank_digits [Suc 0..<7] rs = ds" by simp
  have len: "length rs = length ds" by (simp add: ds_def)
  have b: "k < length ds \<Longrightarrow> ds ! k < 6 - k" for k
    using bound [of k] unfolding ds_def by simp
  have "length ds \<le> 6" using assms(3) len by simp
  then show ?thesis
  proof (cases rule: list_six_cases)
    case (3 a b)
    then show ?thesis using assms(4,5) len b [of 0] b [of 1] digit_eq [of b 5 a]
      by (simp add: FIRCLSCompactUnwindDecompressPermutation_def encode_permutation_def ds Let_def ac_simps zeros)
  next
    case (4 a b c)
    then show ?thesis using assms(4,5) len b [of 1] b [of 2] digit_eq [of "4 * b + c" 20 a] digit_eq [of c 4 b]
      by (simp add: FIRCLSCompactUnwindDecompressPermutation_def encode_permutation_def ds Let_def ac_simps zeros)
  next
    case (5 a b c d)
    then show ?thesis using assms(4,5) len b [of 1] b [of 2] b [of 3]
        digit_eq [of "12 * b + 3 * c + d" 60 a] digit_eq [of "3 * c + d" 12 b] digit_eq [of d 3 c]
      by (simp add: FIRCLSCompactUnwindDecompressPermutation_def encode_permutation_def ds Let_def ac_simps zeros)
  next
    case (6 a b c d e)
    then show ?thesis using assms(4,5) len b [of 1] b [of 2] b [of 3] b [of 4]
        digit_eq [of "24 * b + 6 * c + 2 * d + e" 120 a] digit_eq [of "6 * c + 2 * d + e" 24 b]
        digit_eq [of "2 * d + e" 6 c] digit_eq [of e 2 d]
      by (simp add: FIRCLSCompactUnwindDecompressPermutation_def encode_permutation_def ds Let_def ac_simps zeros)
  next
    case (7 a b c d e f)
    then have "f = 0" using b [of 5] by simp
    then show ?thesis using 7 assms(4,5) len b [of 1] b [of 2] b [of 3] b [of 4]
        digit_eq [of "24 * b + 6 * c + 2 * d + e" 120 a] digit_eq [of "6 * c + 2 * d + e" 24 b]
        digit_eq [of "2 * d + e" 6 c] digit_eq [of e 2 d]
      by (simp add: FIRCLSCompactUnwindDecompressPermutation_def encode_permutation_def ds Let_def ac_simps zeros)
  next
    case 1
    then show ?thesis using assms(4,5) len
      by (simp add: FIRCLSCompactUnwindDecompressPermutation_def encode_permutation_def ds Let_def zeros)
        (simp add: numeral_eq_Suc)
  next
    case (2 a)
    then show ?thesis using assms(4,5) len
      by (simp add: FIRCLSCompactUnwindDecompressPermutation_def encode_permutation_def ds Let_def)
        (simp add: numeral_eq_Suc)
  qed
qed

text \<open>
  C33: Saved registers. For any selection of distinct registers the decoder of the
  permutation number recovers the registers in the order the encoder listed them, padded
  with zeros, although with six registers the last digit is not stored.
\<close>

theorem saved_registers_roundtrip:
  assumes "distinct rs" and "set rs \<subseteq> {1..6}"
    and "unat (GET_BITS_WITH_MASK encoding (frameless_reg_count abi)) = length rs"
    and "unat (GET_BITS_WITH_MASK encoding (frameless_reg_permutation abi)) = encode_permutation rs"
  shows "Option.bind (FIRCLSCompactUnwindDecompressPermutation abi encoding)
      (FIRCLSCompactUnwindRemapRegisters abi encoding) = Some (rs @ replicate (6 - length rs) 0)"
proof -
  have len: "length rs \<le> 6"
    using card_mono [OF _ assms(2)] distinct_card [OF assms(1)] by simp
  have f: "filter (\<lambda>u. \<not> replicate 7 False ! u) [1..<7] = [1..<7]" by (rule filter_True) simp
  have "remap_loop (replicate 7 False) (rank_digits [1..<7] rs) = rs"
    using remap_ranks [of rs "replicate 7 False"] assms(1,2) unfolding f by fastforce
  then show ?thesis
    using decompress_encode [OF assms(1,2) len assms(3,4)] assms(3) len
    by (simp add: FIRCLSCompactUnwindRemapRegisters_def)
qed

definition apple_abi :: unwind_abi where
  "apple_abi = \<lparr>mode_mask = 0x0F000000, mode_bp_frame = 0x01000000, mode_stack_immd = 0x02000000,
     mode_stack_ind = 0x03000000, mode_dwarf = 0x04000000, frameless_stack_size = 0x00FF0000,
     frameless_stack_adjust = 0x0000E000, frameless_reg_count = 0x00001C00,
     frameless_reg_permutation = 0x000003FF, dwarf_section_offset = 0x00FFFFFF, reg_rbp = 6\<rparr>"

theorem saved_registers_roundtrip_witness:
  "Option.bind (FIRCLSCompactUnwindDecompressPermutation apple_abi (0x02000C00 + word_of_nat (encode_permutation [6, 3, 1])))
      (FIRCLSCompactUnwindRemapRegisters apple_abi (0x02000C00 + word_of_nat (encode_permutation [6, 3, 1]))) =
    Some [6, 3, 1, 0, 0, 0]"
proof -
  have e: "encode_permutation [6, 3, 1] = 108" by code_simp
  have "unat (GET_BITS_WITH_MASK 0x02000C6C (frameless_reg_count apple_abi)) = length [6 :: nat, 3, 1]" by code_simp
  moreover have "unat (GET_BITS_WITH_MASK 0x02000C6C (frameless_reg_permutation apple_abi)) = 108" by code_simp
  ultimately show ?thesis
    using saved_registers_roundtrip [of "[6, 3, 1]" "0x02000C6C" apple_abi] unfolding e by (simp add: numeral_eq_Suc)
qed

end
