(* ===== verification/Unwind_Agree.thy ===== *)
theory Unwind_Agree
  imports Dwarf_Cfi Unwind_X86
begin

text \<open>
  The two unwinders on the frame every x86-64 compiler sets up: the call frame
  instructions of a function that has pushed and set its frame pointer give the registers
  the frame-pointer unwinder gives.
\<close>

section \<open>The standard frame\<close>

text \<open>
  The CFI of \<open>push rbp; mov rbp, rsp\<close>: in the CIE the CFA is \<open>rsp + 8\<close> and the return
  address is below it; in the FDE the push moves the CFA, and the move makes \<open>rbp\<close> its base.
\<close>

definition frame_cie_program :: "cfi_instr list" where
  "frame_cie_program = [Cfa_def_cfa 7 8, Cfa_offset 16 1]"

definition frame_fde_program :: "cfi_instr list" where
  "frame_fde_program =
     [Cfa_advance_loc 1, Cfa_def_cfa_offset 16, Cfa_offset 6 2, Cfa_advance_loc1 3, Cfa_def_cfa_register 6]"

definition unused_register :: dwarf_register where
  "unused_register = \<lparr>location = RegisterUnused, reg_value = 0\<rparr>"

definition frame_state :: dwarf_state where
  "frame_state = \<lparr>cfaRegister = 6, cfaRegisterOffset = 16, cfaExpression = 0,
     saved_registers = [unused_register, unused_register, unused_register, unused_register, unused_register, unused_register,
       \<lparr>location = RegisterInCFA, reg_value = -16\<rparr>,
       unused_register, unused_register, unused_register, unused_register, unused_register, unused_register, unused_register,
       unused_register, unused_register, \<lparr>location = RegisterInCFA, reg_value = -8\<rparr>]\<rparr>"

definition has_program :: "mem \<Rightarrow> dwarf_instructions \<Rightarrow> cfi_instr list \<Rightarrow> bool" where
  "has_program m ins is =
     (holds m (ins_data ins) (encode_cfis is) \<and> unat (ins_length ins) = length (encode_cfis is))"

lemma enumerate_program:
  assumes "has_program m ins is" and "list_all wf_cfi is" and "\<And>a. cfi_run_code rec pc a is 0 st = Ret (Some st')"
  shows "FIRCLSDwarfInstructionsEnumerate m ins rec st pc = Ret (True, st')"
  using enumerate_correct [where m = m and ins = ins and rec = rec and pc = pc and st = st, OF _ assms(2)] assms(1,3) by (simp add: has_program_def)

lemma frame_programs_wf: "list_all wf_cfi frame_cie_program" "list_all wf_cfi frame_fde_program"
  by (simp_all add: frame_cie_program_def frame_fde_program_def wf_cfi_def)

lemma frame_runs:
  assumes "codeAlignFactor rec = 1" and "dataAlignFactor rec = -8" and "4 < sint pcOffset"
  shows "\<exists>st. (\<forall>a. cfi_run_code rec 0x7fffffffffffffff a frame_cie_program 0 zero_state = Ret (Some st)) \<and>
    (\<forall>a. cfi_run_code rec pcOffset a frame_fde_program 0 st = Ret (Some frame_state))"
proof -
  let ?st = "set_register 16 RegisterInCFA (-8) (zero_state\<lparr>cfaRegister := 7, cfaRegisterOffset := 8\<rparr>)"
  have pc: "sint (0x7fffffffffffffff :: u64) = 0x7fffffffffffffff" by code_simp
  have a: "smul64 1 1 = Ret 1" "sadd64 1 3 = Ret 4" by code_simp+
  have s: "sint (1 :: u64) = 1" "sint (4 :: u64) = 4" by code_simp+
  have u: "(ucast (3 :: u8) :: u64) = 3" by code_simp
  have "\<And>a. cfi_run_code rec 0x7fffffffffffffff a frame_cie_program 0 zero_state = Ret (Some ?st)"
    using assms by (simp add: frame_cie_program_def pc)
  moreover have "\<And>a. cfi_run_code rec pcOffset a frame_fde_program 0 ?st =
      Ret (Some ((set_register 6 RegisterInCFA (-16) (?st\<lparr>cfaRegisterOffset := 16\<rparr>))\<lparr>cfaRegister := 6\<rparr>))"
    using assms by (simp add: frame_fde_program_def a s u)
  moreover have "(set_register 6 RegisterInCFA (-16) (?st\<lparr>cfaRegisterOffset := 16\<rparr>))\<lparr>cfaRegister := 6\<rparr> = frame_state"
    by code_simp
  ultimately show ?thesis by auto
qed

section \<open>Assigning the frame's registers\<close>

lemma those_eq_Some: "those xs = Some ys \<longleftrightarrow> xs = map Some ys"
proof (induction xs arbitrary: ys)
  case Nil
  then show ?case by auto
next
  case (Cons x xs)
  then show ?case by (cases ys) (auto split: option.splits)
qed

lemma load_eq_Some:
  "load m n a = Some bs \<longleftrightarrow> unat a + n \<le> 2 ^ 64 \<and> length bs = n \<and> (\<forall>i < n. m (a + word_of_nat i) = Some (bs ! i))"
proof -
  have "map (\<lambda>i. m (a + word_of_nat i)) [0..<n] = map Some bs \<longleftrightarrow>
      length bs = n \<and> (\<forall>i < n. m (a + word_of_nat i) = Some (bs ! i))"
    by (auto simp: list_eq_iff_nth_eq)
  then show ?thesis by (auto simp: load_def those_eq_Some)
qed

lemma load_split:
  assumes "load m (j + k) a = Some bs" and "0 < k"
  shows "load m j a = Some (take j bs)" and "load m k (a + word_of_nat j) = Some (drop j bs)"
  using assms by (auto simp: load_eq_Some unat_add_offset add.assoc simp flip: of_nat_add)

lemma frame_registers:
  assumes "FIRCLSCompactUnwindBPFrame m regs = (True, regs')"
  shows "read_pointer m (rbp regs) = Some (rbp regs')" and "read_pointer m (rbp regs + 8) = Some (rip regs')"
    and "regs' = regs\<lparr>rbp := rbp regs', rip := rip regs', rsp := rbp regs + 16\<rparr>"
proof -
  obtain bs where bs: "FIRCLSReadMemory m (rbp regs) 16 = Some bs"
    and regs': "regs' = regs\<lparr>rip := word_of_nat (le_nat (drop 8 bs)), rbp := word_of_nat (le_nat (take 8 bs)), rsp := rbp regs + 16\<rparr>"
    using assms by (auto simp: FIRCLSCompactUnwindBPFrame_def FIRCLSThreadContextGetFramePointer_def
        FIRCLSThreadContextSetPC_def FIRCLSThreadContextSetFramePointer_def FIRCLSThreadContextSetStackPointer_def
        FIRCLSUnwindStackPointerFromFramePointer_def Let_def split: option.splits)
  then have valid: "FIRCLSIsValidPointer (rbp regs)" and ld: "load m (8 + 8) (rbp regs) = Some bs"
    by (simp_all add: FIRCLSReadMemory_def split: if_splits)
  have "unat (rbp regs) + 16 \<le> 2 ^ 64" using ld by (simp add: load_eq_Some)
  then have "unat (rbp regs + 8) = unat (rbp regs) + 8"
    using unat_add_offset [of "rbp regs" 8] by simp
  then have "FIRCLSIsValidPointer (rbp regs + 8)"
    using valid by (simp add: FIRCLSIsValidPointer_def word_le_nat_alt)
  then show "read_pointer m (rbp regs) = Some (rbp regs')" "read_pointer m (rbp regs + 8) = Some (rip regs')"
    using load_split [OF ld] valid regs' by (simp_all add: read_pointer_def FIRCLSReadMemory_def)
  show "regs' = regs\<lparr>rbp := rbp regs', rip := rip regs', rsp := rbp regs + 16\<rparr>"
    unfolding regs' by (cases regs) simp
qed

lemma assign_frame:
  assumes "FIRCLSCompactUnwindBPFrame m regs = (True, regs')"
  shows "assign_registers m regs (rbp regs + 16) 0 (saved_registers frame_state) regs =
    Ret (Some (regs\<lparr>rbp := rbp regs', rip := rip regs'\<rparr>))"
  using frame_registers(1,2) [OF assms]
  by (simp add: frame_state_def unused_register_def FIRCLSDwarfGetSavedRegister_def FIRCLSDwarfUnwindSetRegisterValue_def
      add.commute [of 8])

section \<open>Properties\<close>

text \<open>
  C4: The two unwinders agree. In a function with the standard frame, past its prologue
  and with a readable frame, evaluating the call frame instructions gives exactly the
  registers of the frame-pointer unwinder. It refuses them only where the stack pointer or
  the pc would not change.
\<close>

theorem dwarf_agrees_with_frame_pointer:
  assumes "has_program m (cie_instructions (cie rec)) frame_cie_program"
    and "has_program m (fde_instructions (fde rec)) frame_fde_program"
    and "codeAlignFactor (cie rec) = 1" and "dataAlignFactor (cie rec) = -8"
    and "4 < sint (rip regs - startAddress (fde rec))"
    and "FIRCLSCompactUnwindBPFrame m regs = (True, regs')"
  shows "FIRCLSDwarfUnwindComputeRegisters m rec regs =
    Ret (if rsp regs' = rsp regs \<or> rip regs' = rip regs then (False, regs) else (True, regs'))"
proof -
  obtain st where "\<And>a. cfi_run_code (cie rec) 0x7fffffffffffffff a frame_cie_program 0 zero_state = Ret (Some st)"
    and "\<And>a. cfi_run_code (cie rec) (rip regs - startAddress (fde rec)) a frame_fde_program 0 st = Ret (Some frame_state)"
    using frame_runs assms(3-5) by blast
  then have run: "FIRCLSDwarfInstructionsEnumerate m (cie_instructions (cie rec)) (cie rec) zero_state 0x7fffffffffffffff = Ret (True, st)"
    "FIRCLSDwarfInstructionsEnumerate m (fde_instructions (fde rec)) (cie rec) st (rip regs - startAddress (fde rec)) = Ret (True, frame_state)"
    using enumerate_program assms(1,2) frame_programs_wf by blast+
  have cfa: "FIRCLSDwarfGetCFA m frame_state regs = Ret (Some (rbp regs + 16))"
    by (simp add: FIRCLSDwarfGetCFA_def frame_state_def FIRCLSDwarfUnwindGetRegisterValue_def)
  define new where "new = regs\<lparr>rbp := rbp regs', rip := rip regs', rsp := rbp regs + 16\<rparr>"
  have new: "regs' = new" using frame_registers(3) [OF assms(6)] by (simp add: new_def)
  have "FIRCLSDwarfUnwindAssignRegisters m frame_state regs (rbp regs + 16) =
      Ret (if rsp new = rsp regs \<or> rip new = rip regs then None else Some new)"
    using assign_frame [OF assms(6)]
    by (auto simp: FIRCLSDwarfUnwindAssignRegisters_def FIRCLSDwarfCompareRegisters_def CLS_DWARF_REG_SP_def new_def
        CLS_DWARF_REG_RETURN_def FIRCLSDwarfUnwindGetRegisterValue_def FIRCLSDwarfUnwindSetRegisterValue_def)
  then show ?thesis
    using run cfa assms(5) new
    by (simp add: FIRCLSDwarfUnwindComputeRegisters_def FIRCLSThreadContextGetPC_def Let_def)
qed

text \<open>The two programs, and after them a frame that links to \<open>0x9100\<close> and returns to \<open>0x8500\<close>.\<close>

definition sample_memory :: mem where
  "sample_memory = mem_at 0x5000 (encode_cfis frame_cie_program @ encode_cfis frame_fde_program @
     [0x00, 0x91, 0, 0, 0, 0, 0, 0, 0x00, 0x85, 0, 0, 0, 0, 0, 0])"

definition sample_record :: dwarf_cfi_record where
  "sample_record =
     \<lparr>cie = \<lparr>cie_length = 20, cie_version = 1, augmentation = 0, pointerEncoding = 0, lsdaEncoding = 0,
        personalityEncoding = 0, personalityFunction = 0, codeAlignFactor = 1, dataAlignFactor = -8,
        returnAddressRegister = 16, signalFrame = False,
        cie_instructions = \<lparr>ins_length = 5, ins_data = 0x5000\<rparr>\<rparr>,
      fde = \<lparr>fde_length = 40, cieOffset = 32, startAddress = 0x8000, rangeSize = 256,
        fde_instructions = \<lparr>ins_length = 9, ins_data = 0x5005\<rparr>\<rparr>\<rparr>"

lemma sample_programs:
  "has_program sample_memory (cie_instructions (cie sample_record)) frame_cie_program"
  "has_program sample_memory (fde_instructions (fde sample_record)) frame_fde_program"
proof -
  have len: "length (encode_cfis frame_cie_program) = 5" "length (encode_cfis frame_fde_program) = 9" by code_simp+
  then have "holds sample_memory 0x5000 (encode_cfis frame_cie_program @ encode_cfis frame_fde_program @
     [0x00, 0x91, 0, 0, 0, 0, 0, 0, 0x00, 0x85, 0, 0, 0, 0, 0, 0])"
    unfolding sample_memory_def by (intro holds_mem_at) simp
  note h = holds_appendD [OF this]
  note h2 = holds_appendD(1) [OF h(2)]
  show "has_program sample_memory (cie_instructions (cie sample_record)) frame_cie_program"
    using h(1) len by (simp add: has_program_def sample_record_def)
  show "has_program sample_memory (fde_instructions (fde sample_record)) frame_fde_program"
    using h2 len by (simp add: has_program_def sample_record_def)
qed

lemma dwarf_agrees_with_frame_pointer_witness:
  "FIRCLSDwarfUnwindComputeRegisters sample_memory sample_record
     (zero_context\<lparr>rip := 0x8020, rsp := 0x4f00, rbp := 0x500e, rbx := 7\<rparr>) =
   Ret (True, zero_context\<lparr>rip := 0x8500, rsp := 0x501e, rbp := 0x9100, rbx := 7\<rparr>)"
proof -
  let ?regs = "zero_context\<lparr>rip := 0x8020, rsp := 0x4f00, rbp := 0x500e, rbx := 7\<rparr>"
  let ?new = "zero_context\<lparr>rip := 0x8500, rsp := 0x501e, rbp := 0x9100, rbx := 7\<rparr>"
  have "FIRCLSCompactUnwindBPFrame sample_memory ?regs = (True, ?new)" by code_simp
  moreover have "4 < sint (rip ?regs - startAddress (fde sample_record))" by code_simp
  moreover have "codeAlignFactor (cie sample_record) = 1" "dataAlignFactor (cie sample_record) = -8" by code_simp+
  moreover have "rsp ?new \<noteq> rsp ?regs" "rip ?new \<noteq> rip ?regs" by code_simp+
  ultimately show ?thesis
    using dwarf_agrees_with_frame_pointer [OF sample_programs, of ?regs ?new] by simp
qed

end
