(* ===== verification/Compact_Unwind.thy ===== *)
theory Compact_Unwind
  imports Dwarf_Unwind Unwind_X86
begin

text \<open>
  Lookup of a pc in the compact unwind section and the dispatch on the encoding found
  (\<open>Crashlytics/Unwind/Compact/FIRCLSCompactUnwind.c\<close> and \<open>FIRCLSCompactUnwindComputeRegisters\<close>
  of \<open>FIRCLSUnwind_x86.c\<close>). The structures and macros of Apple's
  \<open>compact_unwind_encoding.h\<close>, which is not in the repository, are the record
  \<open>unwind_layout\<close>: sizes, byte offsets of the fields the code reads, constants, and the two
  fields of a compressed entry.
\<close>

section \<open>Layout and context\<close>

record unwind_layout =
  abi :: unwind_abi
  section_version :: u32
  header_size :: nat
  header_version :: nat
  header_common_offset :: nat
  header_common_count :: nat
  header_index_offset :: nat
  header_index_count :: nat
  entry_size :: nat
  entry_function_offset :: nat
  entry_second_level :: nat
  second_level_regular :: u32
  second_level_compressed :: u32
  page_entry_offset :: nat
  page_entry_count :: nat
  page_encodings_offset :: nat
  compressed_func_offset :: "u32 \<Rightarrow> u32"
  compressed_encoding_index :: "u32 \<Rightarrow> u32"

record unwind_section_header =
  version :: u32
  commonEncodingsArraySectionOffset :: u32
  commonEncodingsArrayCount :: u32
  indexSectionOffset :: u32
  indexCount :: u32

record unwind_index_entry =
  functionOffset :: u32
  secondLevelPagesSectionOffset :: u32

record compact_unwind_context =
  unwindInfo :: u64
  ehFrame :: u64
  loadAddress :: u64
  unwindHeader :: unwind_section_header
  indexHeader :: unwind_index_entry
  firstLevelNextFunctionOffset :: u32

record compact_unwind_result =
  encoding :: u32
  functionStart :: u64
  functionEnd :: u64

definition field32 :: "bytes \<Rightarrow> nat \<Rightarrow> u32" where
  "field32 bs off = word_of_nat (le_nat (take 4 (drop off bs)))"

text \<open>The element \<open>i\<close> of an array of 32-bit integers; an address past the end is undefined.\<close>

definition load32 :: "mem \<Rightarrow> u64 \<Rightarrow> u32 c_outcome" where
  "load32 m a = (case load m 4 a of None \<Rightarrow> Undef | Some bs \<Rightarrow> Ret (word_of_nat (le_nat bs)))"

definition load16 :: "mem \<Rightarrow> u64 \<Rightarrow> u16 c_outcome" where
  "load16 m a = (case load m 2 a of None \<Rightarrow> Undef | Some bs \<Rightarrow> Ret (word_of_nat (le_nat bs)))"

definition at_offset :: "u64 \<Rightarrow> nat \<Rightarrow> u64 c_outcome" where
  "at_offset a n = (if unat a + n < 2 ^ 64 then Ret (a + word_of_nat n) else Undef)"

definition o_bind :: "'a c_outcome \<Rightarrow> ('a \<Rightarrow> 'b c_outcome) \<Rightarrow> 'b c_outcome" where
  "o_bind r f = (case r of Undef \<Rightarrow> Undef | Ret x \<Rightarrow> f x)"

lemma o_bind_simps [simp]: "o_bind Undef f = Undef" "o_bind (Ret x) f = f x"
  by (simp_all add: o_bind_def)

lemma o_bind_cong [fundef_cong]: "r = r' \<Longrightarrow> (\<And>x. r' = Ret x \<Longrightarrow> f x = g x) \<Longrightarrow> o_bind r f = o_bind r' g"
  by (cases r') simp_all

lemma o_bind_eq_Ret: "o_bind r f = Ret y \<longleftrightarrow> (\<exists>x. r = Ret x \<and> f x = Ret y)"
  by (cases r) simp_all

definition array32 :: "mem \<Rightarrow> u64 \<Rightarrow> nat \<Rightarrow> u32 c_outcome" where
  "array32 m a i = o_bind (at_offset a (4 * i)) (load32 m)"

section \<open>Parsing\<close>

definition no_index_entry :: unwind_index_entry where
  "no_index_entry = \<lparr>functionOffset = 0, secondLevelPagesSectionOffset = 0\<rparr>"

definition FIRCLSCompactUnwindInit ::
    "mem \<Rightarrow> unwind_layout \<Rightarrow> u64 \<Rightarrow> u64 \<Rightarrow> u64 \<Rightarrow> compact_unwind_context option" where
  "FIRCLSCompactUnwindInit m lay info eh loadAddr =
     (if \<not> FIRCLSIsValidPointer info then None
      else if \<not> FIRCLSIsValidPointer loadAddr then None
      else case FIRCLSReadMemory m info (header_size lay) of
             None \<Rightarrow> None
           | Some bs \<Rightarrow>
               let header = \<lparr>version = field32 bs (header_version lay),
                 commonEncodingsArraySectionOffset = field32 bs (header_common_offset lay),
                 commonEncodingsArrayCount = field32 bs (header_common_count lay),
                 indexSectionOffset = field32 bs (header_index_offset lay),
                 indexCount = field32 bs (header_index_count lay)\<rparr>
               in if version header \<noteq> section_version lay then None
                  else Some \<lparr>unwindInfo = info, ehFrame = eh, loadAddress = loadAddr, unwindHeader = header,
                         indexHeader = no_index_entry, firstLevelNextFunctionOffset = 0\<rparr>)"

definition FIRCLSCompactUnwindGetIndexData :: "compact_unwind_context \<Rightarrow> u64" where
  "FIRCLSCompactUnwindGetIndexData ctx = unwindInfo ctx + ucast (indexSectionOffset (unwindHeader ctx))"

definition FIRCLSCompactUnwindGetCommonEncodings :: "compact_unwind_context \<Rightarrow> u64" where
  "FIRCLSCompactUnwindGetCommonEncodings ctx =
     unwindInfo ctx + ucast (commonEncodingsArraySectionOffset (unwindHeader ctx))"

definition FIRCLSCompactUnwindGetSecondLevelData :: "compact_unwind_context \<Rightarrow> u64" where
  "FIRCLSCompactUnwindGetSecondLevelData ctx =
     unwindInfo ctx + ucast (secondLevelPagesSectionOffset (indexHeader ctx))"

definition FIRCLSCompactUnwindGetIndexFunctionOffset :: "compact_unwind_context \<Rightarrow> u64" where
  "FIRCLSCompactUnwindGetIndexFunctionOffset ctx = loadAddress ctx + ucast (functionOffset (indexHeader ctx))"

definition FIRCLSCompactUnwindGetTargetAddress :: "compact_unwind_context \<Rightarrow> u64 \<Rightarrow> u64" where
  "FIRCLSCompactUnwindGetTargetAddress ctx pc =
     (let offset = FIRCLSCompactUnwindGetIndexFunctionOffset ctx
      in if pc \<le> offset then 0 else pc - offset)"

section \<open>The first level\<close>

definition index_field :: "mem \<Rightarrow> unwind_layout \<Rightarrow> u64 \<Rightarrow> nat \<Rightarrow> nat \<Rightarrow> u32 c_outcome" where
  "index_field m lay entries index field = o_bind (at_offset entries (entry_size lay * index + field)) (load32 m)"

text \<open>The loop over the first-level entries; the list holds the indices still to try.\<close>

fun first_level_loop ::
    "mem \<Rightarrow> unwind_layout \<Rightarrow> u64 \<Rightarrow> u64 \<Rightarrow> nat list \<Rightarrow> compact_unwind_context \<Rightarrow> compact_unwind_context option c_outcome" where
  "first_level_loop m lay entries address [] ctx = Ret None"
| "first_level_loop m lay entries address (index # rest) ctx =
     o_bind (index_field m lay entries index (entry_function_offset lay)) (\<lambda>value.
     o_bind (index_field m lay entries (index + 1) (entry_function_offset lay)) (\<lambda>nextValue.
       if ucast value \<le> address \<and> address < ucast nextValue then
         o_bind (index_field m lay entries index (entry_second_level lay)) (\<lambda>second.
           Ret (Some (ctx\<lparr>firstLevelNextFunctionOffset := nextValue,
             indexHeader := \<lparr>functionOffset = value, secondLevelPagesSectionOffset = second\<rparr>\<rparr>)))
       else first_level_loop m lay entries address rest ctx))"

definition FIRCLSCompactUnwindLookupFirstLevel ::
    "mem \<Rightarrow> unwind_layout \<Rightarrow> compact_unwind_context \<Rightarrow> u64 \<Rightarrow> compact_unwind_context option c_outcome" where
  "FIRCLSCompactUnwindLookupFirstLevel m lay ctx address =
     (let count = unat (indexCount (unwindHeader ctx))
      in if count < 2 then Ret None
         else if address < loadAddress ctx then Ret None
         else let indexEntries = FIRCLSCompactUnwindGetIndexData ctx
              in if indexEntries = 0 then Ret None
                 else first_level_loop m lay indexEntries (address - loadAddress ctx) [0..<count - 1] ctx)"

section \<open>The second level\<close>

definition FIRCLSCompactUnwindGetSecondLevelPageKind :: "mem \<Rightarrow> compact_unwind_context \<Rightarrow> u32 c_outcome" where
  "FIRCLSCompactUnwindGetSecondLevelPageKind m ctx = load32 m (FIRCLSCompactUnwindGetSecondLevelData ctx)"

definition FIRCLSCompactUnwindLookupSecondLevelRegular ::
    "compact_unwind_context \<Rightarrow> u64 \<Rightarrow> compact_unwind_result option c_outcome" where
  "FIRCLSCompactUnwindLookupSecondLevelRegular ctx pc = Ret None"

text \<open>The search loop. \<open>None\<close> is a return of false; \<open>index\<close> is what \<open>*index\<close> holds.\<close>

function search_loop ::
    "mem \<Rightarrow> unwind_layout \<Rightarrow> u64 \<Rightarrow> nat \<Rightarrow> u64 \<Rightarrow> nat \<Rightarrow> nat \<Rightarrow> nat option c_outcome" where
  "search_loop m lay address entryCount entryArray index highIndex =
     (if index < highIndex then
        let midIndex = (index + highIndex) div 2
        in o_bind (array32 m entryArray midIndex) (\<lambda>e.
             if address < ucast (compressed_func_offset lay e) then
               (if highIndex = midIndex then Ret None
                else search_loop m lay address entryCount entryArray index midIndex)
             else if midIndex = entryCount - 1 then Ret None
             else o_bind (array32 m entryArray (midIndex + 1)) (\<lambda>e.
               if address < ucast (compressed_func_offset lay e)
               then Ret (if midIndex < entryCount then Some midIndex else None)
               else search_loop m lay address entryCount entryArray (midIndex + 1) highIndex))
      else Ret (if index < entryCount then Some index else None))"
  by pat_completeness auto

termination search_loop
  by (relation "measure (\<lambda>(m, lay, address, entryCount, entryArray, index, highIndex). highIndex - index)") auto

declare search_loop.simps [simp del]

definition FIRCLSCompactUnwindBinarySearchSecondLevel ::
    "mem \<Rightarrow> unwind_layout \<Rightarrow> u64 \<Rightarrow> u16 \<Rightarrow> u64 \<Rightarrow> nat option c_outcome" where
  "FIRCLSCompactUnwindBinarySearchSecondLevel m lay address entryCount entryArray =
     (if entryArray = 0 then Ret None
      else if entryCount = 0 then Ret None
      else if address = 0 then Ret None
      else search_loop m lay address (unat entryCount) entryArray 0 (unat entryCount))"

text \<open>The encoding of an entry, from the common array or from that of the page.\<close>

definition second_level_encoding :: "mem \<Rightarrow> unwind_layout \<Rightarrow> compact_unwind_context \<Rightarrow> u64 \<Rightarrow> u32 \<Rightarrow> u32 c_outcome" where
  "second_level_encoding m lay ctx ptr entry =
     (let encodingIndex = compressed_encoding_index lay entry;
          commonCount = commonEncodingsArrayCount (unwindHeader ctx)
      in if encodingIndex < commonCount
         then array32 m (FIRCLSCompactUnwindGetCommonEncodings ctx) (unat encodingIndex)
         else o_bind (o_bind (at_offset ptr (page_encodings_offset lay)) (load16 m)) (\<lambda>off.
           o_bind (at_offset ptr (unat off)) (\<lambda>encodings.
             array32 m encodings (unat (encodingIndex - commonCount)))))"

text \<open>
  The end of the function is a 32-bit sum added to the load address, as the types of the
  fields have it.
\<close>

definition FIRCLSCompactUnwindLookupSecondLevelCompressed ::
    "mem \<Rightarrow> unwind_layout \<Rightarrow> compact_unwind_context \<Rightarrow> u64 \<Rightarrow> compact_unwind_result option c_outcome" where
  "FIRCLSCompactUnwindLookupSecondLevelCompressed m lay ctx pc =
     (let ptr = FIRCLSCompactUnwindGetSecondLevelData ctx
      in if ptr = 0 then Ret None
         else let targetAddress = FIRCLSCompactUnwindGetTargetAddress ctx pc in
           o_bind (o_bind (at_offset ptr (page_entry_offset lay)) (load16 m)) (\<lambda>entryPageOffset.
           o_bind (at_offset ptr (unat entryPageOffset)) (\<lambda>entryArray.
           o_bind (o_bind (at_offset ptr (page_entry_count lay)) (load16 m)) (\<lambda>entryCount.
           o_bind (FIRCLSCompactUnwindBinarySearchSecondLevel m lay targetAddress entryCount entryArray) (\<lambda>found.
             case found of
               None \<Rightarrow> Ret None
             | Some index \<Rightarrow>
                 o_bind (array32 m entryArray index) (\<lambda>entry.
                 let start = ucast (compressed_func_offset lay entry) + FIRCLSCompactUnwindGetIndexFunctionOffset ctx in
                 o_bind (if index < unat entryCount - 1
                         then o_bind (array32 m entryArray (index + 1)) (\<lambda>next.
                           Ret (compressed_func_offset lay next + functionOffset (indexHeader ctx)))
                         else Ret (firstLevelNextFunctionOffset ctx)) (\<lambda>offset.
                 let ending = loadAddress ctx + ucast offset in
                 if pc < start \<or> ending \<le> pc then Ret None
                 else o_bind (second_level_encoding m lay ctx ptr entry) (\<lambda>enc.
                   if enc = 0 then Ret None
                   else Ret (Some \<lparr>encoding = enc, functionStart = start, functionEnd = ending\<rparr>)))))))))"

definition FIRCLSCompactUnwindLookupSecondLevel ::
    "mem \<Rightarrow> unwind_layout \<Rightarrow> compact_unwind_context \<Rightarrow> u64 \<Rightarrow> compact_unwind_result option c_outcome" where
  "FIRCLSCompactUnwindLookupSecondLevel m lay ctx pc =
     o_bind (FIRCLSCompactUnwindGetSecondLevelPageKind m ctx) (\<lambda>kind.
       if kind = second_level_regular lay then FIRCLSCompactUnwindLookupSecondLevelRegular ctx pc
       else if kind = second_level_compressed lay then FIRCLSCompactUnwindLookupSecondLevelCompressed m lay ctx pc
       else Ret None)"

text \<open>The context with the first level's entry, and the result.\<close>

definition FIRCLSCompactUnwindLookup ::
    "mem \<Rightarrow> unwind_layout \<Rightarrow> compact_unwind_context \<Rightarrow> u64 \<Rightarrow>
      (compact_unwind_context \<times> compact_unwind_result) option c_outcome" where
  "FIRCLSCompactUnwindLookup m lay ctx pc =
     o_bind (FIRCLSCompactUnwindLookupFirstLevel m lay ctx pc) (\<lambda>first.
       case first of
         None \<Rightarrow> Ret None
       | Some ctx \<Rightarrow> o_bind (FIRCLSCompactUnwindLookupSecondLevel m lay ctx pc) (\<lambda>r. Ret (map_option (Pair ctx) r)))"

section \<open>Unwinding\<close>

text \<open>The record the FDE is parsed into holds no CIE before.\<close>

definition no_cie :: dwarf_cie where
  "no_cie = \<lparr>cie_length = 0, cie_version = 0, augmentation = 0, pointerEncoding = 0, lsdaEncoding = 0,
     personalityEncoding = 0, personalityFunction = 0, codeAlignFactor = 0, dataAlignFactor = 0,
     returnAddressRegister = 0, signalFrame = False, cie_instructions = \<lparr>ins_length = 0, ins_data = 0\<rparr>\<rparr>"

definition FIRCLSCompactUnwindDwarfFrame ::
    "mem \<Rightarrow> compact_unwind_context \<Rightarrow> u64 \<Rightarrow> thread_context \<Rightarrow> (bool \<times> thread_context) c_outcome" where
  "FIRCLSCompactUnwindDwarfFrame m ctx dwarfOffset regs =
     o_bind (FIRCLSDwarfParseCFIFromFDERecordOffset m no_cie (ehFrame ctx) dwarfOffset) (\<lambda>r.
       case r of
         None \<Rightarrow> Ret (False, regs)
       | Some rec \<Rightarrow> FIRCLSDwarfUnwindComputeRegisters m rec regs)"

definition FIRCLSCompactUnwindComputeRegisters ::
    "mem \<Rightarrow> unwind_layout \<Rightarrow> compact_unwind_context \<Rightarrow> compact_unwind_result \<Rightarrow> thread_context \<Rightarrow> (bool \<times> thread_context) c_outcome" where
  "FIRCLSCompactUnwindComputeRegisters m lay ctx result regs =
     (let mode = encoding result AND mode_mask (abi lay)
      in if mode = mode_bp_frame (abi lay) then Ret (FIRCLSCompactUnwindBPFrame m regs)
         else if mode = mode_stack_immd (abi lay) then
           Ret (FIRCLSCompactUnwindFrameless m (abi lay) (encoding result) regs (functionStart result) False)
         else if mode = mode_stack_ind (abi lay) then
           Ret (FIRCLSCompactUnwindFrameless m (abi lay) (encoding result) regs (functionStart result) True)
         else if mode = mode_dwarf (abi lay) then
           FIRCLSCompactUnwindDwarfFrame m ctx (ucast (encoding result AND dwarf_section_offset (abi lay))) regs
         else Ret (False, regs))"

definition FIRCLSCompactUnwindLookupAndCompute ::
    "mem \<Rightarrow> unwind_layout \<Rightarrow> compact_unwind_context \<Rightarrow> thread_context \<Rightarrow> (bool \<times> thread_context) c_outcome" where
  "FIRCLSCompactUnwindLookupAndCompute m lay ctx regs =
     (let pc = FIRCLSThreadContextGetPC regs
      in if pc < loadAddress ctx then Ret (False, regs)
         else o_bind (FIRCLSCompactUnwindLookup m lay ctx pc) (\<lambda>r.
           case r of
             None \<Rightarrow> Ret (False, regs)
           | Some (ctx, result) \<Rightarrow> FIRCLSCompactUnwindComputeRegisters m lay ctx result regs))"

end
