(* ===== verification/Stack_Trace.thy ===== *)
theory Stack_Trace
  imports Compact_Unwind
begin

text \<open>
  Walking a thread's stack: the frame loop of the crash reporter
  (\<open>Crashlytics/Unwind/FIRCLSUnwind.c\<close>, the scanning and frame-pointer strategies of
  \<open>FIRCLSUnwind_x86.c\<close>, the image table of \<open>Components/FIRCLSBinaryImage.m\<close>) and the
  recording of the trace in \<open>FIRCLSProcessRecordThread\<close> (\<open>Components/FIRCLSProcess.c\<close>).
  The log level that function changes has no effect on the trace and is left out.
\<close>

section \<open>Binary images\<close>

record binary_image_node =
  baseAddress :: u64
  node_size :: u64
  node_ehFrame :: u64
  node_unwindInfo :: u64

definition FIRCLSBinaryImageSafeFindImageForAddress :: "binary_image_node list \<Rightarrow> u64 \<Rightarrow> binary_image_node option" where
  "FIRCLSBinaryImageSafeFindImageForAddress nodes address =
     (if address = 0 then None
      else find (\<lambda>node. baseAddress node \<le> address \<and> address < baseAddress node + node_size node) nodes)"

definition FIRCLSBinaryImageSafeHasUnwindInfo :: "binary_image_node \<Rightarrow> bool" where
  "FIRCLSBinaryImageSafeHasUnwindInfo img = FIRCLSIsValidPointer (node_unwindInfo img)"

definition FIRCLSUnwindIsAddressExecutable :: "binary_image_node list \<Rightarrow> u64 \<Rightarrow> bool" where
  "FIRCLSUnwindIsAddressExecutable nodes address = (FIRCLSBinaryImageSafeFindImageForAddress nodes address \<noteq> None)"

section \<open>Scanning the stack\<close>

text \<open>
  Each round first reads the word at \<open>start\<close> for the log, a plain read that is undefined
  where the word is not mapped, and then reads it again through the kernel. Address 0,
  where \<open>start\<close> goes from the last word of the address space, is never mapped.
\<close>

function scan_loop :: "mem \<Rightarrow> binary_image_node list \<Rightarrow> u64 \<Rightarrow> u64 \<Rightarrow> u64 option c_outcome" where
  "scan_loop m nodes start ending =
     (case load m 8 start of
        None \<Rightarrow> Undef
      | Some _ \<Rightarrow>
          (case if FIRCLSIsValidPointer start then map_option Some (read_pointer m start) else Some None of
             None \<Rightarrow> Ret None
           | Some word \<Rightarrow>
               (case word of
                  Some address \<Rightarrow>
                    if FIRCLSUnwindIsAddressExecutable nodes address then Ret (Some address)
                    else if start + 8 < ending then
                      (if start + 8 = 0 then Undef else scan_loop m nodes (start + 8) ending)
                    else Ret None
                | None \<Rightarrow>
                    if start + 8 < ending then
                      (if start + 8 = 0 then Undef else scan_loop m nodes (start + 8) ending)
                    else Ret None)))"
  by pat_completeness auto

lemma scan_advances:
  assumes "start + 8 < ending" and "start + 8 \<noteq> 0" and "load m 8 start = Some bs"
  shows "unat ending - unat (start + 8) < unat ending - unat start"
proof -
  have "unat start + 8 \<le> 2 ^ 64" using assms(3) by (auto simp: load_def split: if_splits)
  moreover have "unat start + 8 \<noteq> 2 ^ 64"
  proof
    assume "unat start + 8 = 2 ^ 64"
    then have "unat (start + 8) = 0" by (simp add: unat_word_ariths)
    then show False using assms(2) by (simp add: unat_eq_0)
  qed
  ultimately have "unat (start + 8) = unat start + 8" using unat_add_offset [of start 8] by simp
  then show ?thesis using assms(1) by (simp add: word_less_nat_alt)
qed

termination scan_loop
  by (relation "measure (\<lambda>(m, nodes, start, ending). unat ending - unat start)") (auto intro!: scan_advances)

declare scan_loop.simps [simp del]

definition FIRCLSUnwindFirstExecutableAddress :: "mem \<Rightarrow> binary_image_node list \<Rightarrow> u64 \<Rightarrow> u64 \<Rightarrow> u64 option c_outcome" where
  "FIRCLSUnwindFirstExecutableAddress m nodes start ending = scan_loop m nodes start ending"

definition FIRCLSUnwindWithStackScanning ::
    "mem \<Rightarrow> binary_image_node list \<Rightarrow> thread_context \<Rightarrow> (bool \<times> thread_context) c_outcome" where
  "FIRCLSUnwindWithStackScanning m nodes regs =
     o_bind (FIRCLSUnwindFirstExecutableAddress m nodes (FIRCLSThreadContextGetStackPointer regs)
       (FIRCLSThreadContextGetFramePointer regs)) (\<lambda>r.
       case r of
         None \<Rightarrow> Ret (False, regs)
       | Some newPC \<Rightarrow> Ret (True, FIRCLSThreadContextSetPC regs newPC))"

definition FIRCLSUnwindWithFramePointer ::
    "mem \<Rightarrow> binary_image_node list \<Rightarrow> thread_context \<Rightarrow> bool \<Rightarrow> (bool \<times> thread_context) c_outcome" where
  "FIRCLSUnwindWithFramePointer m nodes regs allowScanning =
     o_bind (if allowScanning then FIRCLSUnwindWithStackScanning m nodes regs else Ret (False, regs)) (\<lambda>(ok, regs).
       if ok then Ret (True, regs) else Ret (FIRCLSCompactUnwindBPFrame m regs))"

section \<open>The next frame\<close>

text \<open>
  The state of an unwind. The compact unwind state of the context is cleared and filled
  anew at each use, so it is not kept. x86-64 builds are not embedded ones.
\<close>

record unwind_context =
  uc_registers :: thread_context
  frameCount :: u32
  lastFramePC :: u64
  repeatCount :: u32

definition FIRCLSUnwindMaxFrames :: u32 where "FIRCLSUnwindMaxFrames = 600000"
definition FIRCLSUnwindInfiniteRecursionCountThreshold :: u32 where "FIRCLSUnwindInfiniteRecursionCountThreshold = 10"

definition FIRCLSUnwindInit :: "thread_context \<Rightarrow> unwind_context" where
  "FIRCLSUnwindInit threadContext = \<lparr>uc_registers = threadContext, frameCount = 0, lastFramePC = 0, repeatCount = 0\<rparr>"

definition FIRCLSUnwindGetPC :: "unwind_context \<Rightarrow> u64" where
  "FIRCLSUnwindGetPC ctx = FIRCLSThreadContextGetPC (uc_registers ctx)"

definition FIRCLSUnwindGetStackPointer :: "unwind_context \<Rightarrow> u64" where
  "FIRCLSUnwindGetStackPointer ctx = FIRCLSThreadContextGetStackPointer (uc_registers ctx)"

definition FIRCLSUnwindGetFramePointer :: "unwind_context \<Rightarrow> u64" where
  "FIRCLSUnwindGetFramePointer ctx = FIRCLSThreadContextGetFramePointer (uc_registers ctx)"

definition FIRCLSUnwindGetFrameRepeatCount :: "unwind_context \<Rightarrow> u32" where
  "FIRCLSUnwindGetFrameRepeatCount ctx = repeatCount ctx"

definition FIRCLSUnwindContextHasValidPCAndSP :: "unwind_context \<Rightarrow> bool" where
  "FIRCLSUnwindContextHasValidPCAndSP ctx =
     (FIRCLSIsValidPointer (FIRCLSUnwindGetPC ctx) \<and> FIRCLSIsValidPointer (FIRCLSUnwindGetStackPointer ctx))"

definition FIRCLSUnwindWithCompactUnwindInfo ::
    "mem \<Rightarrow> unwind_layout \<Rightarrow> binary_image_node list \<Rightarrow> thread_context \<Rightarrow> (bool \<times> thread_context) c_outcome" where
  "FIRCLSUnwindWithCompactUnwindInfo m lay nodes regs =
     (case FIRCLSBinaryImageSafeFindImageForAddress nodes (FIRCLSThreadContextGetPC regs) of
        None \<Rightarrow> Ret (False, regs)
      | Some img \<Rightarrow>
          if \<not> FIRCLSBinaryImageSafeHasUnwindInfo img then Ret (False, regs)
          else case FIRCLSCompactUnwindInit m lay (node_unwindInfo img) (node_ehFrame img) (baseAddress img) of
                 None \<Rightarrow> Ret (False, regs)
               | Some state \<Rightarrow> FIRCLSCompactUnwindLookupAndCompute m lay state regs)"

definition FIRCLSUnwindNextFrameUsingAllStrategies ::
    "mem \<Rightarrow> unwind_layout \<Rightarrow> binary_image_node list \<Rightarrow> unwind_context \<Rightarrow> (bool \<times> unwind_context) c_outcome" where
  "FIRCLSUnwindNextFrameUsingAllStrategies m lay nodes ctx =
     (if FIRCLSUnwindMaxFrames \<le> frameCount ctx then Ret (False, ctx)
      else
        let pc = FIRCLSUnwindGetPC ctx;
            (pc, ctx) = (if 0 < frameCount ctx
              then (pc - 1, ctx\<lparr>uc_registers := FIRCLSThreadContextSetPC (uc_registers ctx) (pc - 1)\<rparr>)
              else (pc, ctx))
        in if \<not> FIRCLSIsValidPointer pc then Ret (False, ctx)
           else if frameCount ctx = 0 then Ret (True, ctx)
           else o_bind (FIRCLSUnwindWithCompactUnwindInfo m lay nodes (uc_registers ctx)) (\<lambda>(ok, regs).
             let ctx = ctx\<lparr>uc_registers := regs\<rparr> in
             if ok then Ret (True, ctx)
             else if FIRCLSUnwindGetFramePointer ctx = 0
             then Ret (True, ctx\<lparr>uc_registers := FIRCLSThreadContextSetPC (uc_registers ctx) 0\<rparr>)
             else o_bind (FIRCLSUnwindWithFramePointer m nodes (uc_registers ctx) (frameCount ctx = 1)) (\<lambda>(ok, regs).
               Ret (ok, ctx\<lparr>uc_registers := regs\<rparr>))))"

definition FIRCLSUnwindNextFrame ::
    "mem \<Rightarrow> unwind_layout \<Rightarrow> binary_image_node list \<Rightarrow> unwind_context \<Rightarrow> (bool \<times> unwind_context) c_outcome" where
  "FIRCLSUnwindNextFrame m lay nodes ctx =
     (if \<not> FIRCLSUnwindContextHasValidPCAndSP ctx then Ret (False, ctx)
      else o_bind (FIRCLSUnwindNextFrameUsingAllStrategies m lay nodes ctx) (\<lambda>(ok, ctx).
        if \<not> ok then Ret (False, ctx)
        else let pc = FIRCLSUnwindGetPC ctx; sp = FIRCLSUnwindGetStackPointer ctx
             in if \<not> FIRCLSIsValidPointer pc then Ret (False, ctx)
                else if \<not> FIRCLSIsValidPointer sp then Ret (False, ctx)
                else let ctx = ctx\<lparr>repeatCount := if lastFramePC ctx = pc then repeatCount ctx + 1 else 0\<rparr>
                     in Ret (True, ctx\<lparr>frameCount := frameCount ctx + 1, lastFramePC := pc\<rparr>)))"

section \<open>The recorded trace\<close>

text \<open>The local variables of the loop, and the addresses written to the report.\<close>

record trace =
  repeatedPC :: u64
  repeatedPCCount :: u32
  written :: "u64 list"

definition record_frame :: "unwind_context \<Rightarrow> trace \<Rightarrow> trace" where
  "record_frame ctx t =
     (let pc = FIRCLSUnwindGetPC ctx; count = FIRCLSUnwindGetFrameRepeatCount ctx
      in if repeatedPC t = pc \<and> repeatedPC t \<noteq> 0 then t\<lparr>repeatedPCCount := count\<rparr>
         else if FIRCLSUnwindInfiniteRecursionCountThreshold \<le> count \<and> repeatedPC t = 0 then t\<lparr>repeatedPC := pc\<rparr>
         else t\<lparr>written := written t @ [pc]\<rparr>)"

lemma strategies_bounded:
  assumes "FIRCLSUnwindNextFrameUsingAllStrategies m lay nodes ctx = Ret (True, ctx')"
  shows "frameCount ctx < FIRCLSUnwindMaxFrames" and "frameCount ctx' = frameCount ctx"
    and "lastFramePC ctx' = lastFramePC ctx" and "repeatCount ctx' = repeatCount ctx"
  using assms by (auto simp: FIRCLSUnwindNextFrameUsingAllStrategies_def Let_def o_bind_eq_Ret split: if_splits prod.splits)

text \<open>What a successful step does to the counters.\<close>

lemma next_frame_counts:
  assumes "FIRCLSUnwindNextFrame m lay nodes ctx = Ret (True, ctx')"
  shows "unat (frameCount ctx) < 600000" and "unat (frameCount ctx') = unat (frameCount ctx) + 1"
    and "lastFramePC ctx' = FIRCLSUnwindGetPC ctx'" and "FIRCLSIsValidPointer (FIRCLSUnwindGetPC ctx')"
    and "repeatCount ctx' = (if lastFramePC ctx = FIRCLSUnwindGetPC ctx' then repeatCount ctx + 1 else 0)"
proof -
  obtain mid where mid: "FIRCLSUnwindNextFrameUsingAllStrategies m lay nodes ctx = Ret (True, mid)"
    and ctx': "ctx' = mid\<lparr>repeatCount := if lastFramePC mid = FIRCLSUnwindGetPC mid then repeatCount mid + 1 else 0,
      frameCount := frameCount mid + 1, lastFramePC := FIRCLSUnwindGetPC mid\<rparr>"
    and valid: "FIRCLSIsValidPointer (FIRCLSUnwindGetPC mid)"
    using assms by (auto simp: FIRCLSUnwindNextFrame_def Let_def o_bind_eq_Ret split: if_splits prod.splits)
  note same = strategies_bounded [OF mid]
  show less: "unat (frameCount ctx) < 600000" using same(1) by (simp add: FIRCLSUnwindMaxFrames_def word_less_nat_alt)
  have pc: "FIRCLSUnwindGetPC ctx' = FIRCLSUnwindGetPC mid" by (simp add: ctx' FIRCLSUnwindGetPC_def)
  show "lastFramePC ctx' = FIRCLSUnwindGetPC ctx'" "FIRCLSIsValidPointer (FIRCLSUnwindGetPC ctx')"
    using valid pc by (simp_all add: ctx')
  show "repeatCount ctx' = (if lastFramePC ctx = FIRCLSUnwindGetPC ctx' then repeatCount ctx + 1 else 0)"
    using same pc by (simp add: ctx')
  show "unat (frameCount ctx') = unat (frameCount ctx) + 1"
    using less same(2) by (simp add: ctx' unat_word_ariths)
qed

function record_loop ::
    "mem \<Rightarrow> unwind_layout \<Rightarrow> binary_image_node list \<Rightarrow> unwind_context \<Rightarrow> trace \<Rightarrow> trace c_outcome" where
  "record_loop m lay nodes ctx t =
     (case FIRCLSUnwindNextFrame m lay nodes ctx of
        Undef \<Rightarrow> Undef
      | Ret (ok, ctx') \<Rightarrow> if \<not> ok then Ret t else record_loop m lay nodes ctx' (record_frame ctx' t))"
  by pat_completeness auto

termination record_loop
proof (relation "measure (\<lambda>(m, lay, nodes, ctx, t). 600000 - unat (frameCount ctx))")
  fix m lay nodes ctx and t :: trace and r ok ctx'
  assume "FIRCLSUnwindNextFrame m lay nodes ctx = Ret r" and "(ok, ctx') = r" and "\<not> \<not> ok"
  then have "FIRCLSUnwindNextFrame m lay nodes ctx = Ret (True, ctx')" by auto
  from next_frame_counts(1,2) [OF this]
  show "((m, lay, nodes, ctx', record_frame ctx' t), m, lay, nodes, ctx, t)
      \<in> measure (\<lambda>(m, lay, nodes, ctx, t). 600000 - unat (frameCount ctx))"
    by simp
qed simp

declare record_loop.simps [simp del]

definition FIRCLSProcessRecordThread ::
    "mem \<Rightarrow> unwind_layout \<Rightarrow> binary_image_node list \<Rightarrow> thread_context \<Rightarrow> trace c_outcome" where
  "FIRCLSProcessRecordThread m lay nodes context =
     record_loop m lay nodes (FIRCLSUnwindInit context) \<lparr>repeatedPC = 0, repeatedPCCount = 0, written = []\<rparr>"

end
