(* ===== verification/Compact_Lookup.thy ===== *)
theory Compact_Lookup
  imports Compact_Unwind
begin

text \<open>
  What the lookup in a compressed second-level page finds. The binary search is shown to
  compute a plain function of the page's offsets, and the lookup built on it to return the
  function a pc lies in, except for the last function of a page, which the search refuses.
\<close>

section \<open>The search\<close>

definition has_entries :: "mem \<Rightarrow> u64 \<Rightarrow> u32 list \<Rightarrow> bool" where
  "has_entries m a es = (\<forall>i < length es. array32 m a i = Ret (es ! i))"

definition offsets :: "unwind_layout \<Rightarrow> u32 list \<Rightarrow> u64 list" where
  "offsets lay es = map (\<lambda>e. ucast (compressed_func_offset lay e)) es"

text \<open>
  What the search answers on sorted offsets: nothing for an address in the last function,
  the first position for an address below every offset (no entry is right there, and the
  lookup rejects it by the range of the entry), otherwise the last offset not above the
  address.
\<close>

definition page_index :: "u64 list \<Rightarrow> u64 \<Rightarrow> nat option" where
  "page_index vs a =
     (if vs = [] \<or> last vs \<le> a then None
      else if a < hd vs then Some 0
      else Some (length (takeWhile (\<lambda>v. v \<le> a) vs) - 1))"

definition search_result :: "u64 list \<Rightarrow> u64 \<Rightarrow> nat option \<Rightarrow> bool" where
  "search_result vs a r =
     (case r of
        None \<Rightarrow> vs \<noteq> [] \<and> last vs \<le> a
      | Some i \<Rightarrow> i = 0 \<and> a < hd vs \<or> Suc i < length vs \<and> vs ! i \<le> a \<and> a < vs ! Suc i)"

lemma search_loop_result:
  assumes "has_entries m arr es" and "index \<le> high" and "high \<le> length es" and "es \<noteq> []"
    and "0 < index \<Longrightarrow> index < length es \<and> offsets lay es ! index \<le> a"
    and "high < length es \<Longrightarrow> a < offsets lay es ! high"
  shows "\<exists>r. search_loop m lay a (length es) arr index high = Ret r \<and> search_result (offsets lay es) a r"
  using assms(2-)
proof (induction "high - index" arbitrary: index high rule: less_induct)
  case less
  let ?n = "length es" let ?vs = "offsets lay es" let ?mid = "(index + high) div 2"
  have nth: "?vs ! i = ucast (compressed_func_offset lay (es ! i))" if "i < ?n" for i
    using that by (simp add: offsets_def)
  have ne: "?vs \<noteq> []" "length ?vs = ?n" using less.prems(3) by (simp_all add: offsets_def)
  show ?case
  proof (cases "index < high")
    case False
    then have eq: "index = high" using less.prems(1) by simp
    have "index = 0" using less.prems(4,5) eq by (cases "0 < index") auto
    moreover have "0 < ?n" using less.prems(3) by simp
    ultimately have "a < hd ?vs" using less.prems(5) eq ne by (simp add: hd_conv_nth)
    then show ?thesis using False \<open>index = 0\<close> \<open>0 < ?n\<close> by (subst search_loop.simps) (simp add: search_result_def)
  next
    case True
    then have mid: "?mid < high" "index \<le> ?mid" "?mid < ?n" using less.prems(2) by auto
    have e: "array32 m arr ?mid = Ret (es ! ?mid)" using assms(1) mid(3) by (simp add: has_entries_def)
    show ?thesis
    proof (cases "a < ?vs ! ?mid")
      case above: True
      have "\<exists>r. search_loop m lay a ?n arr index ?mid = Ret r \<and> search_result ?vs a r"
        using mid above less.prems True by (intro less.hyps) auto
      then show ?thesis using True mid e above nth [OF mid(3)]
        by (subst search_loop.simps) (simp add: Let_def)
    next
      case below: False
      show ?thesis
      proof (cases "?mid = ?n - 1")
        case True
        then have "last ?vs \<le> a" using below ne by (simp add: last_conv_nth)
        then show ?thesis using \<open>index < high\<close> True e below nth [OF mid(3)] ne
          by (subst search_loop.simps) (simp add: Let_def search_result_def)
      next
        case False
        then have nx: "?mid + 1 < ?n" using mid(3) by simp
        then have e2: "array32 m arr (?mid + 1) = Ret (es ! (?mid + 1))" using assms(1) by (simp add: has_entries_def)
        show ?thesis
        proof (cases "a < ?vs ! (?mid + 1)")
          case found: True
          moreover have "?vs ! ?mid \<le> a" using below by simp
          ultimately show ?thesis using True False e e2 below nth [OF mid(3)] nth [OF nx] mid(3) nx ne
            by (subst search_loop.simps) (simp add: Let_def search_result_def)
        next
          case further: False
          have "\<exists>r. search_loop m lay a ?n arr (?mid + 1) high = Ret r \<and> search_result ?vs a r"
            using mid further less.prems nx True by (intro less.hyps) auto
          then show ?thesis using True False e e2 below further nth [OF mid(3)] nth [OF nx]
            by (subst search_loop.simps) (simp add: Let_def)
        qed
      qed
    qed
  qed
qed

lemma takeWhile_sorted:
  fixes vs :: "u64 list"
  assumes "sorted vs" and "Suc i < length vs" and "vs ! i \<le> a" and "a < vs ! Suc i"
  shows "length (takeWhile (\<lambda>v. v \<le> a) vs) = Suc i"
proof -
  have "takeWhile (\<lambda>v. v \<le> a) vs = take (Suc i) vs"
  proof (rule takeWhile_eq_take_P_nth)
    fix j assume "j < Suc i"
    then have "vs ! j \<le> vs ! i" using assms(1,2) by (intro sorted_nth_mono) auto
    then show "vs ! j \<le> a" using assms(3) by simp
  qed (use assms in auto)
  then show ?thesis using assms(2) by simp
qed

lemma search_result_unique:
  assumes "sorted vs" and "vs \<noteq> []" and "search_result vs a r"
  shows "r = page_index vs a"
proof (cases r)
  case None
  then show ?thesis using assms(3) by (simp add: search_result_def page_index_def)
next
  case (Some i)
  have last: "vs ! j \<le> last vs" if "j < length vs" for j
    using assms(1,2) that by (simp add: last_conv_nth sorted_nth_mono)
  show ?thesis
  proof (cases "a < hd vs")
    case True
    have "hd vs \<le> last vs" using last [of 0] assms(2) by (simp add: hd_conv_nth)
    moreover have "i = 0"
    proof (rule ccontr)
      assume "i \<noteq> 0"
      then have "vs ! 0 \<le> vs ! i" "vs ! i \<le> a" using assms Some by (auto simp: search_result_def intro: sorted_nth_mono)
      then show False using True assms(2) by (simp add: hd_conv_nth)
    qed
    ultimately show ?thesis using Some True assms(2) by (auto simp: page_index_def)
  next
    case False
    then have i: "Suc i < length vs" "vs ! i \<le> a" "a < vs ! Suc i" using assms(3) Some by (auto simp: search_result_def)
    then have "\<not> last vs \<le> a" using last [of "Suc i"] by simp
    then show ?thesis using takeWhile_sorted [OF assms(1) i] Some assms(2) False by (simp add: page_index_def)
  qed
qed

lemma search_exact:
  assumes "has_entries m arr es" and "length es = unat count" and "es \<noteq> []" and "sorted (offsets lay es)" and "arr \<noteq> 0"
  shows "FIRCLSCompactUnwindBinarySearchSecondLevel m lay a count arr =
    Ret (if a = 0 then None else page_index (offsets lay es) a)"
proof -
  obtain r where r: "search_loop m lay a (length es) arr 0 (length es) = Ret r" "search_result (offsets lay es) a r"
    using search_loop_result [OF assms(1), of 0 "length es"] assms(3) by auto
  have "offsets lay es \<noteq> []" using assms(3) by (simp add: offsets_def)
  then have "r = page_index (offsets lay es) a" using search_result_unique assms(4) r(2) by blast
  moreover have "count \<noteq> 0" using assms(2,3) by auto
  ultimately show ?thesis
    using r(1) assms(2,5) by (simp add: FIRCLSCompactUnwindBinarySearchSecondLevel_def)
qed

section \<open>The lookup\<close>

text \<open>
  A compressed page at the second-level address of the context: where its entries are, and
  the encoding each entry selects.
\<close>

definition has_page :: "mem \<Rightarrow> unwind_layout \<Rightarrow> compact_unwind_context \<Rightarrow> u32 list \<Rightarrow> (u32 \<Rightarrow> u32) \<Rightarrow> bool" where
  "has_page m lay ctx es enc =
     (let ptr = FIRCLSCompactUnwindGetSecondLevelData ctx
      in ptr \<noteq> 0 \<and> es \<noteq> [] \<and>
         o_bind (at_offset ptr (page_entry_count lay)) (load16 m) = Ret (word_of_nat (length es)) \<and> length es < 2 ^ 16 \<and>
         (case o_bind (at_offset ptr (page_entry_offset lay)) (load16 m) of
            Undef \<Rightarrow> False
          | Ret off \<Rightarrow>
              (case at_offset ptr (unat off) of
                 Undef \<Rightarrow> False
               | Ret arr \<Rightarrow> arr \<noteq> 0 \<and> has_entries m arr es)) \<and>
         list_all (\<lambda>e. second_level_encoding m lay ctx ptr e = Ret (enc e)) es)"

text \<open>The offsets of entries have 24 bits; the sums with them do not wrap.\<close>

definition small_page :: "unwind_layout \<Rightarrow> compact_unwind_context \<Rightarrow> u32 list \<Rightarrow> bool" where
  "small_page lay ctx es =
     (list_all (\<lambda>e. unat (compressed_func_offset lay e) < 2 ^ 24) es \<and>
      unat (functionOffset (indexHeader ctx)) + 2 ^ 24 < 2 ^ 32 \<and>
      unat (loadAddress ctx) + 2 ^ 32 < 2 ^ 64)"

text \<open>The first address of a function of the page.\<close>

definition function_address :: "unwind_layout \<Rightarrow> compact_unwind_context \<Rightarrow> u32 \<Rightarrow> u64" where
  "function_address lay ctx e = FIRCLSCompactUnwindGetIndexFunctionOffset ctx + ucast (compressed_func_offset lay e)"

text \<open>The entry of the function an offset lies in: not below the first, and not in the last.\<close>

definition page_function :: "unwind_layout \<Rightarrow> u32 list \<Rightarrow> u64 \<Rightarrow> nat option" where
  "page_function lay es a =
     (if a = 0 \<or> a < hd (offsets lay es) then None else page_index (offsets lay es) a)"

lemma unat_ucast_32: "unat (ucast w :: u64) = unat w" for w :: u32
  by (rule unat_ucast_up) simp

lemma unat_index_offset:
  assumes "small_page lay ctx es"
  shows "unat (FIRCLSCompactUnwindGetIndexFunctionOffset ctx) = unat (loadAddress ctx) + unat (functionOffset (indexHeader ctx))"
  using assms by (simp add: small_page_def FIRCLSCompactUnwindGetIndexFunctionOffset_def unat_word_ariths unat_ucast_32)

lemma unat_function_address:
  assumes "small_page lay ctx es" and "e \<in> set es"
  shows "unat (function_address lay ctx e) =
      unat (FIRCLSCompactUnwindGetIndexFunctionOffset ctx) + unat (ucast (compressed_func_offset lay e) :: u64)"
    and "loadAddress ctx + ucast (compressed_func_offset lay e + functionOffset (indexHeader ctx)) = function_address lay ctx e"
proof -
  have b: "unat (compressed_func_offset lay e) < 2 ^ 24" "unat (functionOffset (indexHeader ctx)) + 2 ^ 24 < 2 ^ 32"
    "unat (loadAddress ctx) + 2 ^ 32 < 2 ^ 64"
    using assms by (auto simp: small_page_def list_all_iff)
  then show u: "unat (function_address lay ctx e) =
      unat (FIRCLSCompactUnwindGetIndexFunctionOffset ctx) + unat (ucast (compressed_func_offset lay e) :: u64)"
    using unat_index_offset [OF assms(1)] by (simp add: function_address_def unat_word_ariths unat_ucast_32)
  show "loadAddress ctx + ucast (compressed_func_offset lay e + functionOffset (indexHeader ctx)) = function_address lay ctx e"
    by (rule unsigned_word_eqI [where ?'a = nat])
      (use b u unat_index_offset [OF assms(1)] in \<open>simp add: unat_word_ariths unat_ucast_32\<close>)
qed

lemma unat_target:
  "FIRCLSCompactUnwindGetTargetAddress ctx pc \<noteq> 0 \<Longrightarrow>
    unat pc = unat (FIRCLSCompactUnwindGetIndexFunctionOffset ctx) + unat (FIRCLSCompactUnwindGetTargetAddress ctx pc)"
  by (auto simp: FIRCLSCompactUnwindGetTargetAddress_def Let_def unat_sub split: if_splits)
    (simp add: word_le_nat_alt)

lemma page_index_Some:
  assumes "page_index vs a = Some i" and "\<not> a < hd vs"
  shows "Suc i < length vs" and "vs ! i \<le> a" and "a < vs ! Suc i"
proof -
  let ?t = "takeWhile (\<lambda>v. v \<le> a) vs"
  have vs: "vs \<noteq> []" "\<not> last vs \<le> a" and i: "i = length ?t - 1"
    using assms by (auto simp: page_index_def split: if_splits)
  have "?t \<noteq> []" using vs(1) assms(2) by (cases vs) auto
  then have t: "length ?t = Suc i" using i by (cases ?t) auto
  have "?t \<noteq> vs" using vs by (auto simp: takeWhile_eq_all_conv)
  then have "length ?t < length vs"
    using length_takeWhile_le [of "\<lambda>v. v \<le> a" vs] by (metis le_neq_implies_less take_all_iff takeWhile_eq_take)
  then show "Suc i < length vs" using t by simp
  show "a < vs ! Suc i" using nth_length_takeWhile [OF \<open>length ?t < length vs\<close>] t by (simp add: not_le)
  have "?t ! i \<in> set ?t" using t by simp
  then have "?t ! i \<le> a" by (rule set_takeWhileD [THEN conjunct2])
  then show "vs ! i \<le> a" using t by (simp add: takeWhile_nth)
qed

lemma lookup_in_page:
  assumes page: "has_page m lay ctx es enc" and sorted: "sorted (offsets lay es)" and small: "small_page lay ctx es"
  shows "FIRCLSCompactUnwindLookupSecondLevelCompressed m lay ctx pc =
    Ret (case page_function lay es (FIRCLSCompactUnwindGetTargetAddress ctx pc) of
           None \<Rightarrow> None
         | Some i \<Rightarrow>
             if enc (es ! i) = 0 then None
             else Some \<lparr>encoding = enc (es ! i), functionStart = function_address lay ctx (es ! i),
               functionEnd = function_address lay ctx (es ! Suc i)\<rparr>)"
proof -
  let ?ptr = "FIRCLSCompactUnwindGetSecondLevelData ctx"
  let ?t = "FIRCLSCompactUnwindGetTargetAddress ctx pc" let ?vs = "offsets lay es"
  obtain off arr where ptr: "?ptr \<noteq> 0" "es \<noteq> []"
    and count: "o_bind (at_offset ?ptr (page_entry_count lay)) (load16 m) = Ret (word_of_nat (length es))" "length es < 2 ^ 16"
    and off: "o_bind (at_offset ?ptr (page_entry_offset lay)) (load16 m) = Ret off"
    and arr: "at_offset ?ptr (unat off) = Ret arr" "arr \<noteq> 0" "has_entries m arr es"
    and enc: "list_all (\<lambda>e. second_level_encoding m lay ctx ?ptr e = Ret (enc e)) es"
    using page by (auto simp: has_page_def Let_def split: c_outcome.splits)
  have n: "unat (word_of_nat (length es) :: u16) = length es" using count(2) by (simp add: unat_of_nat)
  note search = search_exact [OF arr(3) n [symmetric] ptr(2) sorted arr(2)]
  note defs = FIRCLSCompactUnwindLookupSecondLevelCompressed_def page_function_def
  note facts = ptr count(1) off arr(1) search n
  have nth: "?vs ! i = ucast (compressed_func_offset lay (es ! i))" if "i < length es" for i
    using that by (simp add: offsets_def)
  have entry: "array32 m arr i = Ret (es ! i)" "second_level_encoding m lay ctx ?ptr (es ! i) = Ret (enc (es ! i))"
    "unat (function_address lay ctx (es ! i)) = unat (FIRCLSCompactUnwindGetIndexFunctionOffset ctx) + unat (?vs ! i)"
    "loadAddress ctx + ucast (compressed_func_offset lay (es ! i) + functionOffset (indexHeader ctx)) = function_address lay ctx (es ! i)"
    "ucast (compressed_func_offset lay (es ! i)) + FIRCLSCompactUnwindGetIndexFunctionOffset ctx = function_address lay ctx (es ! i)"
    if "i < length es" for i
    using that arr(3) enc unat_function_address [OF small, of "es ! i"] nth [OF that]
    by (simp_all add: has_entries_def list_all_length function_address_def add.commute)
  show ?thesis
  proof (cases "?t = 0 \<or> page_index ?vs ?t = None")
    case True
    then show ?thesis using facts by (auto simp: defs Let_def)
  next
    case False
    then obtain i where i: "page_index ?vs ?t = Some i" and t: "?t \<noteq> 0" by blast
    note pc = unat_target [OF t]
    show ?thesis
    proof (cases "?t < hd ?vs")
      case below: True
      have "0 < length es" using ptr(2) by simp
      have "takeWhile (\<lambda>v. v \<le> ?t) ?vs = []" using below by (cases ?vs) auto
      then have i0: "i = 0" using i by (simp add: page_index_def split: if_splits)
      have "hd ?vs = ?vs ! 0" using ptr(2) by (simp add: offsets_def hd_conv_nth)
      then have "pc < function_address lay ctx (es ! 0)"
        using below pc entry(3) [OF \<open>0 < length es\<close>] by (simp add: word_less_nat_alt)
      then show ?thesis
        using facts below i i0 t entry [OF \<open>0 < length es\<close>] entry(1) [of 1]
        by (auto simp: defs Let_def)
    next
      case False
      note ix = page_index_Some [OF i False]
      have b: "i < length es" "Suc i < length es" using ix(1) by (simp_all add: offsets_def)
      have "function_address lay ctx (es ! i) \<le> pc" "pc < function_address lay ctx (es ! Suc i)"
        using ix(2,3) pc entry(3) [OF b(1)] entry(3) [OF b(2)] by (simp_all add: word_less_nat_alt word_le_nat_alt)
      moreover have "i < length es - Suc 0" using b by simp
      ultimately show ?thesis
        using facts False i t entry [OF b(1)] entry [OF b(2)] by (auto simp: defs Let_def)
    qed
  qed
qed

section \<open>Properties\<close>

text \<open>
  C32: The binary search. On a page with sorted offsets the search reads only entries of the
  page. It returns false for the address 0 and for every address in the last function. For
  an address from the first offset on, it finds the one position whose offset is not above
  the address and whose next offset is; for an address below the first offset it returns
  true with position 0, although that offset is above the address.
\<close>

theorem binary_search_exact:
  assumes "has_entries m arr es" and "length es = unat count" and "es \<noteq> []" and "sorted (offsets lay es)" and "arr \<noteq> 0"
  shows "FIRCLSCompactUnwindBinarySearchSecondLevel m lay a count arr =
      Ret (if a = 0 then None else page_index (offsets lay es) a) \<and>
    (page_index (offsets lay es) a = None \<longleftrightarrow> last (offsets lay es) \<le> a) \<and>
    (a < hd (offsets lay es) \<longrightarrow> page_index (offsets lay es) a = Some 0) \<and>
    (\<forall>i. hd (offsets lay es) \<le> a \<and> page_index (offsets lay es) a = Some i \<longleftrightarrow>
       Suc i < length es \<and> offsets lay es ! i \<le> a \<and> a < offsets lay es ! Suc i)"
proof (intro conjI allI impI)
  let ?vs = "offsets lay es"
  have ne: "?vs \<noteq> []" "length ?vs = length es" using assms(3) by (simp_all add: offsets_def)
  have le: "?vs ! i \<le> last ?vs" "hd ?vs \<le> ?vs ! i" if "i < length es" for i
    using assms(4) ne that by (simp_all add: last_conv_nth hd_conv_nth sorted_nth_mono)
  show "FIRCLSCompactUnwindBinarySearchSecondLevel m lay a count arr = Ret (if a = 0 then None else page_index ?vs a)"
    using assms by (rule search_exact)
  show "page_index ?vs a = None \<longleftrightarrow> last ?vs \<le> a" using ne by (simp add: page_index_def)
  show "page_index ?vs a = Some 0" if "a < hd ?vs"
    using that le(1) [of 0] ne assms(3) by (auto simp: page_index_def hd_conv_nth)
  show "hd ?vs \<le> a \<and> page_index ?vs a = Some i \<longleftrightarrow> Suc i < length es \<and> ?vs ! i \<le> a \<and> a < ?vs ! Suc i" for i
  proof
    assume "hd ?vs \<le> a \<and> page_index ?vs a = Some i"
    then show "Suc i < length es \<and> ?vs ! i \<le> a \<and> a < ?vs ! Suc i"
      using page_index_Some [of ?vs a i] ne by (simp add: not_less)
  next
    assume i: "Suc i < length es \<and> ?vs ! i \<le> a \<and> a < ?vs ! Suc i"
    then have "search_result ?vs a (Some i)" using ne by (simp add: search_result_def)
    then show "hd ?vs \<le> a \<and> page_index ?vs a = Some i"
      using search_result_unique [OF assms(4) ne(1)] le(2) [of i] i by auto
  qed
qed

lemma page_function_iff:
  assumes "sorted (offsets lay es)"
  shows "page_function lay es a = Some i \<longleftrightarrow>
    a \<noteq> 0 \<and> Suc i < length es \<and> offsets lay es ! i \<le> a \<and> a < offsets lay es ! Suc i"
proof
  assume "page_function lay es a = Some i"
  then have "page_index (offsets lay es) a = Some i" "\<not> a < hd (offsets lay es)" "a \<noteq> 0"
    by (auto simp: page_function_def split: if_splits)
  with page_index_Some [OF this(1,2)]
  show "a \<noteq> 0 \<and> Suc i < length es \<and> offsets lay es ! i \<le> a \<and> a < offsets lay es ! Suc i"
    by (simp add: offsets_def)
next
  let ?vs = "offsets lay es"
  assume r: "a \<noteq> 0 \<and> Suc i < length es \<and> ?vs ! i \<le> a \<and> a < ?vs ! Suc i"
  have "length ?vs = length es" by (simp add: offsets_def)
  with r have i: "Suc i < length ?vs" "?vs ! i \<le> a" "a < ?vs ! Suc i" by simp_all
  then have "?vs \<noteq> []" by auto
  then have "?vs ! Suc i \<le> last ?vs" "hd ?vs \<le> ?vs ! i"
    using assms i(1) by (simp_all add: last_conv_nth hd_conv_nth sorted_nth_mono)
  then have "\<not> last ?vs \<le> a" "\<not> a < hd ?vs" using i by auto
  then show "page_function lay es a = Some i"
    using takeWhile_sorted [OF assms i] r \<open>?vs \<noteq> []\<close> by (simp add: page_function_def page_index_def)
qed

text \<open>
  C9: The function of a pc. The lookup in a compressed page returns a result exactly when the
  pc lies, past the page's first address, between the addresses of two consecutive entries,
  the first of which has an encoding; the result has that encoding and those addresses.
\<close>

theorem compressed_lookup_exact:
  assumes "has_page m lay ctx es enc" and "sorted (offsets lay es)" and "small_page lay ctx es"
  shows "FIRCLSCompactUnwindLookupSecondLevelCompressed m lay ctx pc = Ret (Some r) \<longleftrightarrow>
    FIRCLSCompactUnwindGetIndexFunctionOffset ctx < pc \<and>
    (\<exists>i. Suc i < length es \<and> function_address lay ctx (es ! i) \<le> pc \<and> pc < function_address lay ctx (es ! Suc i) \<and>
       enc (es ! i) \<noteq> 0 \<and>
       r = \<lparr>encoding = enc (es ! i), functionStart = function_address lay ctx (es ! i),
         functionEnd = function_address lay ctx (es ! Suc i)\<rparr>)"
proof -
  let ?t = "FIRCLSCompactUnwindGetTargetAddress ctx pc"
  have t0: "?t \<noteq> 0 \<longleftrightarrow> FIRCLSCompactUnwindGetIndexFunctionOffset ctx < pc"
    by (auto simp: FIRCLSCompactUnwindGetTargetAddress_def Let_def)
  have at: "function_address lay ctx (es ! i) \<le> pc \<longleftrightarrow> offsets lay es ! i \<le> ?t" if "i < length es" "?t \<noteq> 0" for i
    using unat_function_address(1) [OF assms(3), of "es ! i"] unat_target [OF that(2)] that(1)
    by (simp add: word_le_nat_alt offsets_def)
  have found: "page_function lay es ?t = Some i \<longleftrightarrow>
      FIRCLSCompactUnwindGetIndexFunctionOffset ctx < pc \<and> Suc i < length es \<and>
      function_address lay ctx (es ! i) \<le> pc \<and> pc < function_address lay ctx (es ! Suc i)" for i
    unfolding page_function_iff [OF assms(2)] t0 [symmetric]
    using at [of i] at [of "Suc i"] by (auto simp flip: not_le)
  show ?thesis
  proof (cases "page_function lay es ?t")
    case None
    then show ?thesis unfolding lookup_in_page [OF assms] using found by fastforce
  next
    case (Some j)
    then have "i = j" if "FIRCLSCompactUnwindGetIndexFunctionOffset ctx < pc" "Suc i < length es"
        "function_address lay ctx (es ! i) \<le> pc" "pc < function_address lay ctx (es ! Suc i)" for i
      using found [of i] that by simp
    then show ?thesis
      unfolding lookup_in_page [OF assms] using Some found [of j] by (auto split: if_splits)
  qed
qed

text \<open>
  C39: The last function of a page. Whatever its encoding, a pc at or after the address of the
  page's last entry is not found, even one before the next page: the lookup computes an end
  for the last entry that it never uses.
\<close>

theorem last_function_not_found:
  assumes "has_page m lay ctx es enc" and "sorted (offsets lay es)" and "small_page lay ctx es"
    and "function_address lay ctx (last es) \<le> pc"
  shows "FIRCLSCompactUnwindLookupSecondLevelCompressed m lay ctx pc = Ret None"
proof -
  let ?t = "FIRCLSCompactUnwindGetTargetAddress ctx pc"
  have "es \<noteq> []" using assms(1) by (simp add: has_page_def Let_def)
  then have last: "last (offsets lay es) = ucast (compressed_func_offset lay (last es))" and ne: "offsets lay es \<noteq> []"
    by (simp_all add: offsets_def last_map)
  have "page_function lay es ?t = None"
  proof (cases "?t = 0")
    case False
    then have "last (offsets lay es) \<le> ?t"
      using unat_function_address(1) [OF assms(3), of "last es"] unat_target [OF False] assms(4) \<open>es \<noteq> []\<close>
      by (simp add: last word_le_nat_alt)
    then show ?thesis by (simp add: page_function_def page_index_def)
  qed (simp add: page_function_def)
  then show ?thesis unfolding lookup_in_page [OF assms(1-3)] by simp
qed

section \<open>An example page\<close>

definition apple_layout :: unwind_layout where
  "apple_layout = \<lparr>abi = apple_abi, section_version = 1, header_size = 28, header_version = 0,
     header_common_offset = 4, header_common_count = 8, header_index_offset = 20, header_index_count = 24,
     entry_size = 12, entry_function_offset = 0, entry_second_level = 4, second_level_regular = 2,
     second_level_compressed = 3, page_entry_offset = 4, page_entry_count = 6, page_encodings_offset = 8,
     compressed_func_offset = (\<lambda>e. e AND 0x00ffffff), compressed_encoding_index = (\<lambda>e. drop_bit 24 e)\<rparr>"

definition sample_page :: mem where
  "sample_page = mem_at 0x1001c
     ([0, 0, 0, 1] @ [3, 0, 0, 0, 12, 0, 3, 0, 24, 0, 0, 0] @ [0x10, 0, 0, 0] @ [0x50, 0, 0, 0] @ [0x90, 0, 0, 0])"

definition sample_context :: compact_unwind_context where
  "sample_context = \<lparr>unwindInfo = 0x10000, ehFrame = 0, loadAddress = 0x100000,
     unwindHeader = \<lparr>version = 1, commonEncodingsArraySectionOffset = 28, commonEncodingsArrayCount = 1,
       indexSectionOffset = 0, indexCount = 2\<rparr>,
     indexHeader = \<lparr>functionOffset = 0x1000, secondLevelPagesSectionOffset = 32\<rparr>,
     firstLevelNextFunctionOffset = 0x2000\<rparr>"

lemma sample_entries: "has_entries sample_page 0x1002c [0x10, 0x50, 0x90]"
proof -
  have "array32 sample_page 0x1002c 0 = Ret 0x10" by code_simp
  moreover have "array32 sample_page 0x1002c 1 = Ret 0x50" by code_simp
  moreover have "array32 sample_page 0x1002c 2 = Ret 0x90" by code_simp
  ultimately show ?thesis by (auto simp: has_entries_def less_Suc_eq numeral_eq_Suc)
qed

lemma sample_offsets: "sorted (offsets apple_layout [0x10, 0x50, 0x90])" by code_simp

lemma sample_small: "small_page apple_layout sample_context [0x10, 0x50, 0x90]" by code_simp

lemma sample_has_page: "has_page sample_page apple_layout sample_context [0x10, 0x50, 0x90] (\<lambda>e. 0x01000000)"
proof -
  have ptr: "FIRCLSCompactUnwindGetSecondLevelData sample_context = 0x10020" by code_simp
  have e: "second_level_encoding sample_page apple_layout sample_context 0x10020 0x10 = Ret 0x01000000"
    "second_level_encoding sample_page apple_layout sample_context 0x10020 0x50 = Ret 0x01000000"
    "second_level_encoding sample_page apple_layout sample_context 0x10020 0x90 = Ret 0x01000000"
    by code_simp+
  have c: "o_bind (at_offset 0x10020 (page_entry_count apple_layout)) (load16 sample_page) = Ret 3" by code_simp
  have o: "o_bind (at_offset 0x10020 (page_entry_offset apple_layout)) (load16 sample_page) = Ret 12" by code_simp
  have a: "at_offset 0x10020 12 = Ret 0x1002c" by code_simp
  show ?thesis using sample_entries by (simp add: has_page_def Let_def ptr e c o a)
qed

lemmas sample_page_layout = sample_has_page sample_offsets sample_small

lemma binary_search_exact_witness:
  "FIRCLSCompactUnwindBinarySearchSecondLevel sample_page apple_layout 0x60 3 0x1002c = Ret (Some 1) \<and>
   FIRCLSCompactUnwindBinarySearchSecondLevel sample_page apple_layout 0x08 3 0x1002c = Ret (Some 0) \<and>
   FIRCLSCompactUnwindBinarySearchSecondLevel sample_page apple_layout 0xa0 3 0x1002c = Ret None"
  using binary_search_exact [OF sample_entries _ _ sample_offsets, of 3 "0x60"]
    binary_search_exact [OF sample_entries _ _ sample_offsets, of 3 "0x08"]
    binary_search_exact [OF sample_entries _ _ sample_offsets, of 3 "0xa0"]
  by (simp add: page_index_def offsets_def apple_layout_def)

lemma compressed_lookup_exact_witness:
  "FIRCLSCompactUnwindLookupSecondLevelCompressed sample_page apple_layout sample_context 0x101058 =
   Ret (Some \<lparr>encoding = 0x01000000, functionStart = 0x101050, functionEnd = 0x101090\<rparr>)"
proof -
  have "function_address apple_layout sample_context 0x50 = 0x101050" "function_address apple_layout sample_context 0x90 = 0x101090"
    "FIRCLSCompactUnwindGetIndexFunctionOffset sample_context = 0x101000"
    by code_simp+
  then show ?thesis
    unfolding compressed_lookup_exact [OF sample_page_layout] by (auto intro!: exI [of _ 1])
qed

lemma last_function_not_found_witness:
  "FIRCLSCompactUnwindLookupSecondLevelCompressed sample_page apple_layout sample_context 0x101098 = Ret None \<and>
   (0x101098 :: u64) < loadAddress sample_context + ucast (firstLevelNextFunctionOffset sample_context)"
proof
  have "function_address apple_layout sample_context (last [0x10, 0x50, 0x90]) \<le> 0x101098" by code_simp
  then show "FIRCLSCompactUnwindLookupSecondLevelCompressed sample_page apple_layout sample_context 0x101098 = Ret None"
    by (rule last_function_not_found [OF sample_page_layout])
  show "(0x101098 :: u64) < loadAddress sample_context + ucast (firstLevelNextFunctionOffset sample_context)"
    by code_simp
qed

end
