(* ===== verification/Trace_Proofs.thy ===== *)
theory Trace_Proofs
  imports Stack_Trace Compact_Lookup
begin

text \<open>
  What the recorded trace of a thread is: the frames the walk visits, in order, up to the
  suppression of a recursion; and for a thread whose code is in no image with unwind
  information, what a scan of the top frame finds, and the chain of its frame pointers. A
  walk is bounded because each frame is counted.
\<close>

section \<open>Walks\<close>

text \<open>A step that counts up to a limit: what the recording loop needs of it to end.\<close>

locale counted_walk =
  fixes step :: "'c \<Rightarrow> (bool \<times> 'c) c_outcome" and tally :: "'c \<Rightarrow> nat" and limit :: nat
  assumes step_counts: "step c = Ret (True, c') \<Longrightarrow> tally c < limit \<and> tally c' = tally c + 1"
begin

fun walk :: "'c \<Rightarrow> 'c list \<Rightarrow> bool" where
  "walk c [] = (\<exists>c'. step c = Ret (False, c'))"
| "walk c (d # ds) = (step c = Ret (True, d) \<and> walk d ds)"

lemma walk_bounded: "walk c ds \<Longrightarrow> tally c \<le> limit \<Longrightarrow> tally c + length ds \<le> limit"
  by (induction ds arbitrary: c) (use step_counts in fastforce)+

lemma walk_unique: "walk c ds \<Longrightarrow> walk c es \<Longrightarrow> ds = es"
proof (induction ds arbitrary: c es)
  case Nil
  then show ?case by (cases es) auto
next
  case (Cons d ds)
  then show ?case by (cases es) auto
qed

end

interpretation unwinder: counted_walk "FIRCLSUnwindNextFrame m lay nodes" "\<lambda>ctx. unat (frameCount ctx)" 600000
  by unfold_locales (use next_frame_counts(1,2) in blast)

text \<open>The frames of a walk, and what the loop makes of them.\<close>

fun visits :: "mem \<Rightarrow> unwind_layout \<Rightarrow> binary_image_node list \<Rightarrow> unwind_context \<Rightarrow> unwind_context list \<Rightarrow> bool" where
  "visits m lay nodes ctx [] =
     (case FIRCLSUnwindNextFrame m lay nodes ctx of Undef \<Rightarrow> False | Ret (ok, _) \<Rightarrow> \<not> ok)"
| "visits m lay nodes ctx (c # cs) = (FIRCLSUnwindNextFrame m lay nodes ctx = Ret (True, c) \<and> visits m lay nodes c cs)"

lemma visits_walk: "visits m lay nodes ctx cs \<longleftrightarrow> unwinder.walk m lay nodes ctx cs"
  by (induction m lay nodes ctx cs rule: visits.induct) (auto split: c_outcome.splits)

lemma record_loop_visits:
  "record_loop m lay nodes ctx t = Ret t' \<longleftrightarrow> (\<exists>cs. visits m lay nodes ctx cs \<and> t' = fold record_frame cs t)"
proof (induction m lay nodes ctx t rule: record_loop.induct)
  case (1 m lay nodes ctx t)
  show ?case
  proof (cases "FIRCLSUnwindNextFrame m lay nodes ctx")
    case Undef
    then have "\<not> visits m lay nodes ctx cs" for cs by (cases cs) auto
    with Undef show ?thesis by (simp add: record_loop.simps)
  next
    case (Ret r)
    obtain ok c where r: "r = (ok, c)" by (cases r)
    show ?thesis
    proof (cases ok)
      case False
      then have "visits m lay nodes ctx cs \<longleftrightarrow> cs = []" for cs using Ret r by (cases cs) auto
      with Ret r False show ?thesis by (auto simp: record_loop.simps)
    next
      case True
      then have "visits m lay nodes ctx cs \<longleftrightarrow> (\<exists>ds. cs = c # ds \<and> visits m lay nodes c ds)" for cs
        using Ret r by (cases cs) auto
      with Ret r True show ?thesis
        using 1 [OF Ret] by (auto simp: record_loop.simps [of m lay nodes ctx])
    qed
  qed
qed

section \<open>Repetition\<close>

text \<open>The repeat counts of a list of addresses, and the effect of one address on the trace.\<close>

fun repeat_counts :: "u64 \<Rightarrow> u32 \<Rightarrow> u64 list \<Rightarrow> u32 list" where
  "repeat_counts prev n [] = []"
| "repeat_counts prev n (pc # pcs) =
     (let n' = if prev = pc then n + 1 else 0 in n' # repeat_counts pc n' pcs)"

definition record_pc :: "u64 \<times> u32 \<Rightarrow> trace \<Rightarrow> trace" where
  "record_pc x t =
     (case x of (pc, count) \<Rightarrow>
        if repeatedPC t = pc \<and> repeatedPC t \<noteq> 0 then t\<lparr>repeatedPCCount := count\<rparr>
        else if 10 \<le> count \<and> repeatedPC t = 0 then t\<lparr>repeatedPC := pc\<rparr>
        else t\<lparr>written := written t @ [pc]\<rparr>)"

definition pcs_of :: "unwind_context list \<Rightarrow> u64 list" where
  "pcs_of cs = map FIRCLSUnwindGetPC cs"

lemma record_frame_pc: "record_frame c = record_pc (FIRCLSUnwindGetPC c, repeatCount c)"
  by (rule ext) (auto simp: record_frame_def record_pc_def FIRCLSUnwindGetFrameRepeatCount_def
      FIRCLSUnwindInfiniteRecursionCountThreshold_def Let_def)

lemma visits_counts:
  "visits m lay nodes ctx cs \<Longrightarrow>
    fold record_frame cs t = fold record_pc (zip (pcs_of cs) (repeat_counts (lastFramePC ctx) (repeatCount ctx) (pcs_of cs))) t"
proof (induction cs arbitrary: ctx t)
  case Nil
  then show ?case by (simp add: pcs_of_def)
next
  case (Cons c cs)
  then have step: "FIRCLSUnwindNextFrame m lay nodes ctx = Ret (True, c)" and rest: "visits m lay nodes c cs" by auto
  note counts = next_frame_counts [OF step]
  have "lastFramePC c = FIRCLSUnwindGetPC c" by (rule counts(3))
  moreover have "repeatCount c = (if lastFramePC ctx = FIRCLSUnwindGetPC c then repeatCount ctx + 1 else 0)" by (rule counts(5))
  ultimately show ?case
    using Cons.IH [OF rest] by (simp add: pcs_of_def record_frame_pc Let_def)
qed

definition empty_trace :: trace where
  "empty_trace = \<lparr>repeatedPC = 0, repeatedPCCount = 0, written = []\<rparr>"

definition trace_of :: "u64 list \<Rightarrow> trace" where
  "trace_of pcs = fold record_pc (zip pcs (repeat_counts 0 0 pcs)) empty_trace"

lemma recorded_visits:
  "FIRCLSProcessRecordThread m lay nodes regs = Ret t \<longleftrightarrow>
    (\<exists>cs. visits m lay nodes (FIRCLSUnwindInit regs) cs \<and> t = trace_of (pcs_of cs))"
proof -
  have "lastFramePC (FIRCLSUnwindInit regs) = 0" "repeatCount (FIRCLSUnwindInit regs) = 0"
    by (simp_all add: FIRCLSUnwindInit_def)
  then show ?thesis
    unfolding FIRCLSProcessRecordThread_def record_loop_visits trace_of_def empty_trace_def
    using visits_counts [of m lay nodes "FIRCLSUnwindInit regs"] by metis
qed

lemma visits_valid: "visits m lay nodes ctx cs \<Longrightarrow> pc \<in> set (pcs_of cs) \<Longrightarrow> FIRCLSIsValidPointer pc"
  by (induction cs arbitrary: ctx) (use next_frame_counts(4) in \<open>auto simp: pcs_of_def\<close>)

text \<open>No address is repeated ten times in a row.\<close>

definition short_runs :: "u64 list \<Rightarrow> bool" where
  "short_runs pcs = list_all (\<lambda>n. n < 10) (repeat_counts 0 0 pcs)"

lemma record_short:
  assumes "list_all (\<lambda>n. n < 10) (repeat_counts prev n pcs)" and "repeatedPC t = 0"
  shows "fold record_pc (zip pcs (repeat_counts prev n pcs)) t = t\<lparr>written := written t @ pcs\<rparr>"
  using assms
proof (induction pcs arbitrary: prev n t)
  case Nil
  then show ?case by simp
next
  case (Cons pc pcs)
  let ?n = "if prev = pc then n + 1 else 0"
  have "\<not> 10 \<le> ?n" using Cons.prems(1) by (simp add: Let_def not_le)
  then have "record_pc (pc, ?n) t = t\<lparr>written := written t @ [pc]\<rparr>" using Cons.prems(2) by (simp add: record_pc_def)
  then show ?case using Cons by (simp add: Let_def)
qed

text \<open>Once a recursion is noted, its address is left out and every other address is written.\<close>

lemma record_noted:
  assumes "repeatedPC t = p" and "p \<noteq> 0"
  shows "\<exists>n'. fold record_pc (zip pcs (repeat_counts prev n pcs)) t =
    t\<lparr>written := written t @ filter (\<lambda>q. q \<noteq> p) pcs, repeatedPCCount := n'\<rparr> \<and> (p \<notin> set pcs \<longrightarrow> n' = repeatedPCCount t)"
  using assms
proof (induction pcs arbitrary: prev n t)
  case Nil
  then show ?case by (cases t) auto
next
  case (Cons pc pcs)
  let ?n = "if prev = pc then n + 1 else 0"
  show ?case
  proof (cases "pc = p")
    case True
    then have "record_pc (pc, ?n) t = t\<lparr>repeatedPCCount := ?n\<rparr>" using Cons.prems by (simp add: record_pc_def)
    with True Cons.IH [of "t\<lparr>repeatedPCCount := ?n\<rparr>" pc ?n] Cons.prems show ?thesis by (auto simp: Let_def)
  next
    case False
    then have "record_pc (pc, ?n) t = t\<lparr>written := written t @ [pc]\<rparr>" using Cons.prems by (auto simp: record_pc_def)
    with False Cons.IH [of "t\<lparr>written := written t @ [pc]\<rparr>" pc ?n] Cons.prems show ?thesis by (auto simp: Let_def)
  qed
qed

lemma repeat_counts_append:
  "repeat_counts prev n (xs @ ys) = repeat_counts prev n xs @
     (if xs = [] then repeat_counts prev n ys else repeat_counts (last xs) (last (repeat_counts prev n xs)) ys)"
proof (induction xs arbitrary: prev n)
  case Nil
  then show ?case by simp
next
  case (Cons x xs)
  have "repeat_counts x k xs = [] \<longleftrightarrow> xs = []" for k by (cases xs) (simp_all add: Let_def)
  with Cons show ?case by (simp add: Let_def)
qed

lemma length_repeat_counts [simp]: "length (repeat_counts prev n pcs) = length pcs"
  by (induction pcs arbitrary: prev n) (simp_all add: Let_def)

lemma repeat_counts_replicate:
  "repeat_counts p n (replicate k p) = map (\<lambda>i. n + word_of_nat i) [1..<Suc k]"
proof (induction k arbitrary: n)
  case 0
  then show ?case by simp
next
  case (Suc k)
  have "[1..<Suc (Suc k)] = 1 # map Suc [1..<Suc k]" by (simp only: upt_conv_Cons map_Suc_upt One_nat_def zero_less_Suc Suc_less_eq)
  then show ?case using Suc [of "n + 1"] by (simp add: Let_def add.assoc)
qed

lemma recursion_counts:
  assumes "xs = [] \<or> last xs \<noteq> p" and "p \<noteq> 0" and "0 < k"
  shows "repeat_counts 0 0 (xs @ replicate k p) = repeat_counts 0 0 xs @ map word_of_nat [0..<k]"
proof -
  obtain j where k: "k = Suc j" using assms(3) by (cases k) auto
  have "[0..<k] = 0 # [1..<Suc j]" unfolding k by (simp only: upt_conv_Cons) simp
  then have "map word_of_nat [0..<k] = (0 :: u32) # map word_of_nat [1..<Suc j]" by simp
  then show ?thesis
    using assms(1,2) repeat_counts_replicate [of p 0 j] unfolding repeat_counts_append k by (auto simp: Let_def)
qed

lemma trace_of_recursion:
  assumes "short_runs xs" and "xs = [] \<or> last xs \<noteq> p" and "p \<noteq> 0"
  shows "\<exists>t. trace_of (xs @ replicate 11 p @ ys) = fold record_pc (zip ys (repeat_counts p 10 ys)) t \<and>
    t = \<lparr>repeatedPC = p, repeatedPCCount = 0, written = xs @ replicate 10 p\<rparr>"
proof -
  let ?front = "xs @ replicate 10 p"
  have c10: "repeat_counts 0 0 ?front = repeat_counts 0 0 xs @ [0, 1, 2, 3, 4, 5, 6, 7, 8, 9]"
    using recursion_counts [OF assms(2,3), of 10] by (simp add: upt_rec)
  have front11: "?front @ [p] = xs @ replicate 11 p"
    by (simp add: replicate_append_same [symmetric] numeral_eq_Suc)
  then have list: "xs @ replicate 11 p @ ys = (?front @ [p]) @ ys" by simp
  have c11: "repeat_counts 0 0 (?front @ [p]) = repeat_counts 0 0 ?front @ [10]"
    using recursion_counts [OF assms(2,3), of 11] unfolding front11 c10 by (simp add: upt_rec)
  have c: "repeat_counts 0 0 ((?front @ [p]) @ ys) = (repeat_counts 0 0 ?front @ [10]) @ repeat_counts p 10 ys"
    unfolding repeat_counts_append [of _ _ "?front @ [p]"] c11 by simp
  have "list_all (\<lambda>n. n < 10) (repeat_counts 0 0 ?front)" using assms(1) unfolding c10 short_runs_def by simp
  then have front: "fold record_pc (zip ?front (repeat_counts 0 0 ?front)) empty_trace = empty_trace\<lparr>written := ?front\<rparr>"
    using record_short [of 0 0 ?front empty_trace] by (simp add: empty_trace_def)
  have "trace_of (xs @ replicate 11 p @ ys) =
      fold record_pc (zip ys (repeat_counts p 10 ys)) (record_pc (p, 10) (empty_trace\<lparr>written := ?front\<rparr>))"
    unfolding trace_of_def list c using front by (simp add: zip_append del: append_assoc)
  then show ?thesis using assms(3) by (simp add: record_pc_def empty_trace_def)
qed

section \<open>Frame pointer chains\<close>

text \<open>
  The frames linked from \<open>fp\<close>: each readable, with the return address above the link,
  and the last link zero.
\<close>

fun frame_chain :: "mem \<Rightarrow> u64 \<Rightarrow> u64 list \<Rightarrow> bool" where
  "frame_chain m fp [] = (fp = 0)"
| "frame_chain m fp (ret # rets) =
     (unat fp + 16 < 2 ^ 64 \<and> 4096 < ret \<and>
      (case FIRCLSReadMemory m fp 16 of
         None \<Rightarrow> False
       | Some frame \<Rightarrow> ret = word_of_nat (le_nat (drop 8 frame)) \<and> frame_chain m (word_of_nat (le_nat (take 8 frame))) rets))"

text \<open>Every byte from the stack pointer to the end of the first frame is mapped.\<close>

definition stack_mapped :: "mem \<Rightarrow> u64 \<Rightarrow> u64 \<Rightarrow> bool" where
  "stack_mapped m sp fp =
     (4096 \<le> sp \<and> sp < fp \<and> unat fp + 16 < 2 ^ 64 \<and>
      list_all (\<lambda>i. m (sp + word_of_nat i) \<noteq> None) [0..<unat fp + 16 - unat sp])"

lemma those_Some: "list_all (\<lambda>i. f i \<noteq> None) xs \<Longrightarrow> \<exists>ys. those (map f xs) = Some ys"
  by (induction xs) auto

lemma load_mapped:
  assumes "unat a + n \<le> 2 ^ 64" and "\<And>i. i < n \<Longrightarrow> m (a + word_of_nat i) \<noteq> None"
  shows "\<exists>bs. load m n a = Some bs"
proof -
  have "list_all (\<lambda>i. m (a + word_of_nat i) \<noteq> None) [0..<n]" using assms(2) by (simp add: list_all_iff)
  from those_Some [OF this] show ?thesis using assms(1) by (simp add: load_def)
qed

text \<open>
  What the scan of the first frame contributes: the first of the words from the stack
  pointer up to the frame pointer that is an address in an image, if there is one.
\<close>

definition stack_word :: "mem \<Rightarrow> u64 \<Rightarrow> u64" where
  "stack_word m a = (case load m 8 a of None \<Rightarrow> 0 | Some bs \<Rightarrow> word_of_nat (le_nat bs))"

definition stack_words :: "mem \<Rightarrow> u64 \<Rightarrow> u64 \<Rightarrow> u64 list" where
  "stack_words m sp fp = map (\<lambda>i. stack_word m (sp + word_of_nat (8 * i))) [0..<(unat fp - unat sp + 7) div 8]"

definition scanned_address :: "mem \<Rightarrow> binary_image_node list \<Rightarrow> u64 \<Rightarrow> u64 \<Rightarrow> u64 option" where
  "scanned_address m nodes sp fp = find (FIRCLSUnwindIsAddressExecutable nodes) (stack_words m sp fp)"

lemma stack_words_step:
  assumes "unat start < unat fp" and "unat start + 8 < 2 ^ 64"
  shows "stack_words m start fp = stack_word m start # stack_words m (start + 8) fp"
proof -
  have eight: "unat (start + 8) = unat start + 8" using unat_add_offset [of start 8] assms(2) by simp
  obtain d where d: "unat fp = unat start + Suc d" using assms(1) less_iff_Suc_add by auto
  have "(d + 8) div 8 = Suc ((d - 7 + 7) div 8)" by (cases "d < 7") simp_all
  then have n: "(unat fp - unat start + 7) div 8 = Suc ((unat fp - unat (start + 8) + 7) div 8)"
    unfolding eight d by simp
  have upt: "[0..<Suc k] = 0 # map Suc [0..<k]" for k by (simp only: upt_conv_Cons map_Suc_upt zero_less_Suc)
  show ?thesis unfolding stack_words_def n upt by (simp add: comp_def add.assoc)
qed

lemma stack_words_end: "unat fp \<le> unat start \<Longrightarrow> stack_words m start fp = []"
  by (simp add: stack_words_def)

lemma scan_finds_first:
  assumes "unat sp \<le> unat start" and "unat start < unat fp" and "stack_mapped m sp fp"
  shows "scan_loop m nodes start fp = Ret (scanned_address m nodes start fp)"
  using assms(1,2)
proof (induction "unat fp - unat start" arbitrary: start rule: less_induct)
  case less
  have fp: "unat fp + 16 < 2 ^ 64" and sp: "4096 \<le> sp" using assms(3) by (simp_all add: stack_mapped_def)
  have mapped: "m (start + word_of_nat i) \<noteq> None" if "i < 8" for i
  proof -
    have "unat start - unat sp + i < unat fp + 16 - unat sp" using less.prems that by linarith
    then have "unat start - unat sp + i \<in> set [0..<unat fp + 16 - unat sp]" by simp
    then have "m (sp + word_of_nat (unat start - unat sp + i)) \<noteq> None"
      using assms(3) unfolding stack_mapped_def list_all_iff by blast
    moreover have "sp + word_of_nat (unat start - unat sp + i) = start + word_of_nat i"
      using less.prems(1) by (simp add: of_nat_diff add.assoc [symmetric])
    ultimately show ?thesis by (simp only: not_False_eq_True)
  qed
  obtain bs where bs: "load m 8 start = Some bs"
    using load_mapped [of start 8 m] mapped less.prems(2) fp by auto
  have "4096 \<le> start" using sp less.prems(1) by (simp add: word_le_nat_alt)
  then have rd: "FIRCLSIsValidPointer start" "read_pointer m start = Some (stack_word m start)"
    using bs by (simp_all add: FIRCLSIsValidPointer_def read_pointer_def FIRCLSReadMemory_def stack_word_def)
  have next8: "unat (start + 8) = unat start + 8" using unat_add_offset [of start 8] less.prems(2) fp by simp
  then have nz: "start + 8 \<noteq> 0" by (metis add_is_0 unat_0 zero_neq_numeral)
  have step: "scanned_address m nodes start fp =
      (if FIRCLSUnwindIsAddressExecutable nodes (stack_word m start) then Some (stack_word m start)
       else scanned_address m nodes (start + 8) fp)"
    using stack_words_step [of start fp m] less.prems(2) fp by (simp add: scanned_address_def)
  show ?case
  proof (cases "start + 8 < fp")
    case True
    then have "scan_loop m nodes (start + 8) fp = Ret (scanned_address m nodes (start + 8) fp)"
      using less.prems next8 by (intro less.hyps) (simp_all add: word_less_nat_alt)
    then show ?thesis using bs rd step True nz by (subst scan_loop.simps) simp
  next
    case False
    then have "scanned_address m nodes (start + 8) fp = None"
      using stack_words_end [of fp "start + 8" m] by (simp add: scanned_address_def word_less_nat_alt)
    then show ?thesis using bs rd step False by (subst scan_loop.simps) simp
  qed
qed

text \<open>
  A return address is looked up one byte earlier; no image there, or one without unwind
  information, leaves the frame to the frame pointer.
\<close>

definition without_unwind_info :: "binary_image_node list \<Rightarrow> u64 \<Rightarrow> bool" where
  "without_unwind_info nodes pc =
     (case FIRCLSBinaryImageSafeFindImageForAddress nodes (pc - 1) of
        None \<Rightarrow> True
      | Some img \<Rightarrow> \<not> FIRCLSBinaryImageSafeHasUnwindInfo img)"

lemma no_compact_unwinding:
  "without_unwind_info nodes pc \<Longrightarrow>
    FIRCLSUnwindWithCompactUnwindInfo m lay nodes (r\<lparr>rip := pc - 1\<rparr>) = Ret (False, r\<lparr>rip := pc - 1\<rparr>)"
  by (simp add: without_unwind_info_def FIRCLSUnwindWithCompactUnwindInfo_def FIRCLSThreadContextGetPC_def split: option.splits)

lemma no_images:
  "without_unwind_info [] pc" "scanned_address m [] sp fp = None"
proof -
  show "without_unwind_info [] pc"
    by (simp add: without_unwind_info_def FIRCLSBinaryImageSafeFindImageForAddress_def)
  have "FIRCLSUnwindIsAddressExecutable [] = (\<lambda>a. False)"
    by (rule ext) (simp add: FIRCLSUnwindIsAddressExecutable_def FIRCLSBinaryImageSafeFindImageForAddress_def)
  then show "scanned_address m [] sp fp = None" by (simp add: scanned_address_def find_None_iff)
qed

lemma valid_context:
  assumes "4096 < rip (uc_registers ctx)" and "4096 \<le> rsp (uc_registers ctx)"
  shows "FIRCLSUnwindContextHasValidPCAndSP ctx" and "FIRCLSIsValidPointer (rip (uc_registers ctx) - 1)"
proof -
  have "unat (rip (uc_registers ctx) - 1) = unat (rip (uc_registers ctx)) - 1"
    using assms(1) by (intro unat_minus_one) auto
  then show "FIRCLSIsValidPointer (rip (uc_registers ctx) - 1)"
    using assms(1) by (simp add: FIRCLSIsValidPointer_def word_le_nat_alt word_less_nat_alt)
  show "FIRCLSUnwindContextHasValidPCAndSP ctx"
    using assms by (simp add: FIRCLSUnwindContextHasValidPCAndSP_def FIRCLSIsValidPointer_def FIRCLSUnwindGetPC_def
        FIRCLSUnwindGetStackPointer_def FIRCLSThreadContextGetPC_def FIRCLSThreadContextGetStackPointer_def)
qed

lemma stack_scan_eq:
  assumes "stack_mapped m (rsp r) (rbp r)"
  shows "FIRCLSUnwindWithStackScanning m nodes r =
    (case scanned_address m nodes (rsp r) (rbp r) of None \<Rightarrow> Ret (False, r) | Some a \<Rightarrow> Ret (True, r\<lparr>rip := a\<rparr>))"
proof -
  have "unat (rsp r) < unat (rbp r)" using assms by (simp add: stack_mapped_def word_less_nat_alt)
  from scan_finds_first [OF order_refl this assms, of nodes] show ?thesis
    by (simp add: FIRCLSUnwindWithStackScanning_def FIRCLSUnwindFirstExecutableAddress_def FIRCLSThreadContextSetPC_def
        FIRCLSThreadContextGetStackPointer_def FIRCLSThreadContextGetFramePointer_def split: option.splits)
qed

lemmas strategy_defs = FIRCLSUnwindNextFrameUsingAllStrategies_def FIRCLSUnwindGetPC_def FIRCLSThreadContextGetPC_def
  FIRCLSThreadContextSetPC_def FIRCLSUnwindGetFramePointer_def FIRCLSThreadContextGetFramePointer_def Let_def
  FIRCLSUnwindGetStackPointer_def FIRCLSThreadContextGetStackPointer_def

text \<open>One step of the walk at a pc without unwind information, by scanning and by the frame pointer.\<close>

lemma next_frame_by_scan:
  assumes "frameCount ctx = 1" and "4096 < rip (uc_registers ctx)" and "without_unwind_info nodes (rip (uc_registers ctx))"
    and "stack_mapped m (rsp (uc_registers ctx)) (rbp (uc_registers ctx))"
    and "scanned_address m nodes (rsp (uc_registers ctx)) (rbp (uc_registers ctx)) = Some a" and "4096 < a"
  shows "\<exists>ctx'. FIRCLSUnwindNextFrame m lay nodes ctx = Ret (True, ctx') \<and>
    uc_registers ctx' = (uc_registers ctx)\<lparr>rip := a\<rparr>"
proof -
  let ?regs = "(uc_registers ctx)\<lparr>rip := rip (uc_registers ctx) - 1\<rparr>"
  have sp: "4096 \<le> rsp (uc_registers ctx)" "rbp (uc_registers ctx) \<noteq> 0"
    using assms(4) by (auto simp: stack_mapped_def)
  have "FIRCLSUnwindWithStackScanning m nodes ?regs = Ret (True, ?regs\<lparr>rip := a\<rparr>)"
    using stack_scan_eq [of m ?regs nodes] assms(4,5) by simp
  then have "FIRCLSUnwindWithFramePointer m nodes ?regs True = Ret (True, ?regs\<lparr>rip := a\<rparr>)"
    by (simp add: FIRCLSUnwindWithFramePointer_def)
  moreover have "\<not> FIRCLSUnwindMaxFrames \<le> 1" by (simp add: FIRCLSUnwindMaxFrames_def word_le_nat_alt)
  ultimately have "FIRCLSUnwindNextFrameUsingAllStrategies m lay nodes ctx = Ret (True, ctx\<lparr>uc_registers := ?regs\<lparr>rip := a\<rparr>\<rparr>)"
    using valid_context(2) [OF assms(2) sp(1)] assms(1) sp(2) no_compact_unwinding [OF assms(3), of m lay "uc_registers ctx"]
    by (simp add: strategy_defs)
  then show ?thesis
    using valid_context(1) [OF assms(2) sp(1)] sp(1) assms(6) by (simp add: FIRCLSUnwindNextFrame_def strategy_defs FIRCLSIsValidPointer_def)
qed

lemma next_frame_by_pointer:
  assumes "0 < frameCount ctx" and "frameCount ctx < FIRCLSUnwindMaxFrames"
    and "4096 < rip (uc_registers ctx)" and "4096 \<le> rsp (uc_registers ctx)"
    and "frame_chain m (rbp (uc_registers ctx)) rets" and "without_unwind_info nodes (rip (uc_registers ctx))"
    and "frameCount ctx = 1 \<Longrightarrow> rets \<noteq> [] \<Longrightarrow> stack_mapped m (rsp (uc_registers ctx)) (rbp (uc_registers ctx)) \<and>
      scanned_address m nodes (rsp (uc_registers ctx)) (rbp (uc_registers ctx)) = None"
  shows "case rets of
      [] \<Rightarrow> \<exists>ctx'. FIRCLSUnwindNextFrame m lay nodes ctx = Ret (False, ctx')
    | ret # rest \<Rightarrow> \<exists>ctx'. FIRCLSUnwindNextFrame m lay nodes ctx = Ret (True, ctx') \<and>
        rip (uc_registers ctx') = ret \<and> 4096 \<le> rsp (uc_registers ctx') \<and> frame_chain m (rbp (uc_registers ctx')) rest"
proof -
  let ?regs = "(uc_registers ctx)\<lparr>rip := rip (uc_registers ctx) - 1\<rparr>"
  note valid = valid_context [OF assms(3,4)]
  note compact = no_compact_unwinding [OF assms(6), of m lay "uc_registers ctx"]
  have nz: "frameCount ctx \<noteq> 0" "0 < frameCount ctx" "\<not> FIRCLSUnwindMaxFrames \<le> frameCount ctx"
    using assms(1,2) by (auto simp: not_le)
  show ?thesis
  proof (cases rets)
    case Nil
    then have "rbp (uc_registers ctx) = 0" using assms(5) by simp
    then show ?thesis
      using Nil nz valid compact by (simp add: FIRCLSUnwindNextFrame_def strategy_defs FIRCLSIsValidPointer_def)
  next
    case (Cons ret rest)
    then obtain frame where frame: "FIRCLSReadMemory m (rbp (uc_registers ctx)) 16 = Some frame"
      and chain: "ret = word_of_nat (le_nat (drop 8 frame))" "frame_chain m (word_of_nat (le_nat (take 8 frame))) rest"
      "unat (rbp (uc_registers ctx)) + 16 < 2 ^ 64" "4096 < ret"
      using assms(5) by (auto split: option.splits)
    have fp: "4096 \<le> rbp (uc_registers ctx)" "rbp (uc_registers ctx) \<noteq> 0"
      using frame by (auto simp: FIRCLSReadMemory_def FIRCLSIsValidPointer_def split: if_splits)
    let ?new = "?regs\<lparr>rip := ret, rbp := word_of_nat (le_nat (take 8 frame)), rsp := rbp (uc_registers ctx) + 16\<rparr>"
    have "FIRCLSCompactUnwindBPFrame m ?regs = (True, ?new)"
      using frame chain(1) by (simp add: FIRCLSCompactUnwindBPFrame_def FIRCLSThreadContextGetFramePointer_def Let_def
          FIRCLSThreadContextSetPC_def FIRCLSThreadContextSetFramePointer_def FIRCLSThreadContextSetStackPointer_def
          FIRCLSUnwindStackPointerFromFramePointer_def)
    moreover have "FIRCLSUnwindWithStackScanning m nodes ?regs = Ret (False, ?regs)" if "frameCount ctx = 1"
      using stack_scan_eq [of m ?regs nodes] assms(7) that Cons by simp
    ultimately have "FIRCLSUnwindWithFramePointer m nodes ?regs (frameCount ctx = 1) = Ret (True, ?new)"
      by (cases "frameCount ctx = 1") (simp_all add: FIRCLSUnwindWithFramePointer_def)
    then have all: "FIRCLSUnwindNextFrameUsingAllStrategies m lay nodes ctx = Ret (True, ctx\<lparr>uc_registers := ?new\<rparr>)"
      using nz valid(2) compact fp(2) by (simp add: strategy_defs)
    have sp: "4096 \<le> rbp (uc_registers ctx) + 16"
      using fp(1) chain(3) unat_add_offset [of "rbp (uc_registers ctx)" 16] by (simp add: word_le_nat_alt)
    then show ?thesis
      using Cons all valid(1) chain by (simp add: FIRCLSUnwindNextFrame_def strategy_defs FIRCLSIsValidPointer_def)
  qed
qed

lemma chain_visits:
  assumes "0 < frameCount ctx" and "unat (frameCount ctx) + length rets \<le> 600000"
    and "4096 < rip (uc_registers ctx)" and "4096 \<le> rsp (uc_registers ctx)"
    and "frame_chain m (rbp (uc_registers ctx)) rets"
    and "list_all (without_unwind_info nodes) (rip (uc_registers ctx) # rets)"
    and "frameCount ctx = 1 \<Longrightarrow> rets \<noteq> [] \<Longrightarrow> stack_mapped m (rsp (uc_registers ctx)) (rbp (uc_registers ctx)) \<and>
      scanned_address m nodes (rsp (uc_registers ctx)) (rbp (uc_registers ctx)) = None"
  shows "\<exists>cs. visits m lay nodes ctx cs \<and> pcs_of cs = rets"
  using assms
proof (induction rets arbitrary: ctx)
  case Nil
  show ?case
  proof (cases "frameCount ctx < FIRCLSUnwindMaxFrames")
    case True
    have "without_unwind_info nodes (rip (uc_registers ctx))" using Nil(6) by simp
    from next_frame_by_pointer [OF Nil(1) True Nil(3-5) this Nil(7), where lay = lay]
    obtain ctx' where "FIRCLSUnwindNextFrame m lay nodes ctx = Ret (False, ctx')" by auto
    then have "visits m lay nodes ctx []" by simp
    then show ?thesis by (intro exI [of _ "[]"]) (simp add: pcs_of_def)
  next
    case False
    then have "\<exists>ctx'. FIRCLSUnwindNextFrame m lay nodes ctx = Ret (False, ctx')"
      by (auto simp: FIRCLSUnwindNextFrame_def FIRCLSUnwindNextFrameUsingAllStrategies_def)
    then have "visits m lay nodes ctx []" by auto
    then show ?thesis by (intro exI [of _ "[]"]) (simp add: pcs_of_def)
  qed
next
  case (Cons ret rets)
  have "frameCount ctx < FIRCLSUnwindMaxFrames"
    using Cons.prems(2) by (simp add: FIRCLSUnwindMaxFrames_def word_less_nat_alt)
  moreover have "without_unwind_info nodes (rip (uc_registers ctx))" using Cons.prems(6) by simp
  ultimately have "case ret # rets of
      [] \<Rightarrow> \<exists>ctx'. FIRCLSUnwindNextFrame m lay nodes ctx = Ret (False, ctx')
    | ret # rest \<Rightarrow> \<exists>ctx'. FIRCLSUnwindNextFrame m lay nodes ctx = Ret (True, ctx') \<and>
        rip (uc_registers ctx') = ret \<and> 4096 \<le> rsp (uc_registers ctx') \<and> frame_chain m (rbp (uc_registers ctx')) rest"
    by (intro next_frame_by_pointer Cons.prems)
  then obtain c where c: "FIRCLSUnwindNextFrame m lay nodes ctx = Ret (True, c)" "rip (uc_registers c) = ret"
    "4096 \<le> rsp (uc_registers c)" "frame_chain m (rbp (uc_registers c)) rets"
    by auto
  have "4096 < ret" using Cons.prems(5) by simp
  note n = next_frame_counts(2) [OF c(1)]
  have "0 < unat (frameCount ctx)" using Cons.prems(1) by (simp add: word_less_nat_alt)
  then have "0 < frameCount c" "frameCount c \<noteq> 1" using n by (auto simp: word_less_nat_alt)
  then obtain cs where "visits m lay nodes c cs" "pcs_of cs = rets"
    using Cons.IH [of c] c \<open>4096 < ret\<close> Cons.prems(2,6) n by auto
  then show ?case
    using c by (intro exI [of _ "c # cs"]) (simp add: pcs_of_def FIRCLSUnwindGetPC_def FIRCLSThreadContextGetPC_def)
qed

section \<open>Properties\<close>

text \<open>
  C7: The walk of a thread. Recording always ends: what it returns is the trace of the at most
  600000 frames the unwinder visits, all at valid addresses. When no address is repeated
  ten times in a row, the report lists exactly these frames, in order.
\<close>

theorem trace_of_walk:
  assumes "FIRCLSProcessRecordThread m lay nodes regs = Ret t"
  shows "\<exists>cs. visits m lay nodes (FIRCLSUnwindInit regs) cs \<and> length cs \<le> 600000 \<and>
    t = trace_of (pcs_of cs) \<and> list_all FIRCLSIsValidPointer (pcs_of cs) \<and>
    (short_runs (pcs_of cs) \<longrightarrow> t = \<lparr>repeatedPC = 0, repeatedPCCount = 0, written = pcs_of cs\<rparr>)"
proof -
  obtain cs where cs: "visits m lay nodes (FIRCLSUnwindInit regs) cs" "t = trace_of (pcs_of cs)"
    using assms recorded_visits by blast
  have "length cs \<le> 600000"
    using unwinder.walk_bounded [of m lay nodes "FIRCLSUnwindInit regs" cs] cs(1)
    by (simp add: visits_walk FIRCLSUnwindInit_def)
  moreover have "list_all FIRCLSIsValidPointer (pcs_of cs)"
    using visits_valid [OF cs(1)] by (simp add: list_all_iff)
  moreover have "trace_of (pcs_of cs) = \<lparr>repeatedPC = 0, repeatedPCCount = 0, written = pcs_of cs\<rparr>" if "short_runs (pcs_of cs)"
    using record_short [of 0 0 "pcs_of cs" empty_trace] that by (simp add: trace_of_def short_runs_def empty_trace_def)
  ultimately show ?thesis using cs by blast
qed

text \<open>The pcs such a walk visits: that of the thread, what the scan finds, the return addresses.\<close>

definition frame_pcs :: "mem \<Rightarrow> binary_image_node list \<Rightarrow> thread_context \<Rightarrow> u64 list \<Rightarrow> u64 list" where
  "frame_pcs m nodes regs rets =
     rip regs #
     (case if rets = [] then None else scanned_address m nodes (rsp regs) (rbp regs) of
        None \<Rightarrow> rets
      | Some a \<Rightarrow> a # rets)"

lemma chain_record:
  assumes "4096 \<le> rsp regs" and "frame_chain m (rbp regs) rets" and "rets = [] \<or> stack_mapped m (rsp regs) (rbp regs)"
    and "length (frame_pcs m nodes regs rets) \<le> 600000"
    and "list_all (\<lambda>pc. 4096 < pc \<and> without_unwind_info nodes pc) (frame_pcs m nodes regs rets)"
  shows "\<exists>cs. visits m lay nodes (FIRCLSUnwindInit regs) cs \<and> pcs_of cs = frame_pcs m nodes regs rets"
proof -
  let ?c = "\<lparr>uc_registers = regs, frameCount = 1, lastFramePC = rip regs, repeatCount = 0\<rparr>"
  have rip: "4096 < rip regs" "without_unwind_info nodes (rip regs)" using assms(5) by (simp_all add: frame_pcs_def)
  have free: "list_all (without_unwind_info nodes) rets"
    using assms(5) by (auto simp: frame_pcs_def list_all_iff split: option.splits if_splits)
  have v: "FIRCLSIsValidPointer (rip regs)" "FIRCLSIsValidPointer (rsp regs)" "rip regs \<noteq> 0"
    using assms(1) rip by (auto simp: FIRCLSIsValidPointer_def word_le_nat_alt word_less_nat_alt)
  then have step: "FIRCLSUnwindNextFrame m lay nodes (FIRCLSUnwindInit regs) = Ret (True, ?c)"
    by (simp add: FIRCLSUnwindNextFrame_def FIRCLSUnwindInit_def FIRCLSUnwindContextHasValidPCAndSP_def strategy_defs
        FIRCLSUnwindMaxFrames_def)
  have "\<exists>cs. visits m lay nodes ?c cs \<and> rip regs # pcs_of cs = frame_pcs m nodes regs rets"
  proof (cases "if rets = [] then None else scanned_address m nodes (rsp regs) (rbp regs)")
    case None
    then have pcs: "frame_pcs m nodes regs rets = rip regs # rets" by (simp add: frame_pcs_def)
    then show ?thesis
      using chain_visits [of ?c rets m nodes lay] None assms(1-4) rip free by (auto split: if_splits)
  next
    case (Some a)
    then have pcs: "frame_pcs m nodes regs rets = rip regs # a # rets" and rets: "rets \<noteq> []"
      and scan: "scanned_address m nodes (rsp regs) (rbp regs) = Some a"
      by (simp_all add: frame_pcs_def split: if_splits)
    then have a: "4096 < a" "without_unwind_info nodes a" using assms(5) by simp_all
    obtain d where d: "FIRCLSUnwindNextFrame m lay nodes ?c = Ret (True, d)" "uc_registers d = regs\<lparr>rip := a\<rparr>"
      using next_frame_by_scan [of ?c nodes m a lay] rip assms(3) rets scan a by auto
    have "unat (frameCount d) = 2" using next_frame_counts(2) [OF d(1)] by simp
    then have "0 < frameCount d" "frameCount d \<noteq> 1" by (auto simp: word_less_nat_alt)
    then obtain cs where "visits m lay nodes d cs" "pcs_of cs = rets"
      using chain_visits [of d rets m nodes lay] d(2) assms(1,2,4) a free pcs \<open>unat (frameCount d) = 2\<close> by auto
    then show ?thesis
      using d pcs by (intro exI [of _ "d # cs"]) (simp add: pcs_of_def FIRCLSUnwindGetPC_def FIRCLSThreadContextGetPC_def)
  qed
  then obtain cs where "visits m lay nodes ?c cs" "rip regs # pcs_of cs = frame_pcs m nodes regs rets" by blast
  then show ?thesis
    using step by (intro exI [of _ "?c # cs"]) (simp add: pcs_of_def FIRCLSUnwindGetPC_def FIRCLSThreadContextGetPC_def)
qed

text \<open>
  C8: Frame pointers. For a thread with a mapped stack and a readable chain of frames, none
  of whose pcs is in an image with unwind information, the report lists the pc, then the
  first word of the top frame that is an address in an image (the stack scan's guess, if
  there is such a word), then the return addresses of the chain from the frame pointer to
  the null link. The pcs are above the first page and none is repeated ten times in a row.
\<close>

theorem frame_chain_trace:
  assumes "4096 \<le> rsp regs" and "frame_chain m (rbp regs) rets" and "rets = [] \<or> stack_mapped m (rsp regs) (rbp regs)"
    and "pcs = frame_pcs m nodes regs rets" and "length pcs \<le> 600000"
    and "list_all (\<lambda>pc. 4096 < pc \<and> without_unwind_info nodes pc) pcs" and "short_runs pcs"
  shows "FIRCLSProcessRecordThread m lay nodes regs = Ret \<lparr>repeatedPC = 0, repeatedPCCount = 0, written = pcs\<rparr>"
proof -
  obtain cs where cs: "visits m lay nodes (FIRCLSUnwindInit regs) cs" "pcs_of cs = pcs"
    using chain_record [OF assms(1-3)] assms(4-6) by blast
  have "trace_of (pcs_of cs) = \<lparr>repeatedPC = 0, repeatedPCCount = 0, written = pcs_of cs\<rparr>"
    using record_short [of 0 0 "pcs_of cs" empty_trace] assms(7) unfolding cs(2) [symmetric]
    by (simp add: trace_of_def short_runs_def empty_trace_def)
  then show ?thesis using recorded_visits [of m lay nodes regs] cs by metis
qed

lemma counts_of_recursion: "0 < k \<Longrightarrow> last (repeat_counts p 10 (replicate k p)) = 10 + word_of_nat k"
  unfolding repeat_counts_replicate by (simp add: last_map)

lemma record_repeats:
  "repeatedPC t = p \<Longrightarrow> p \<noteq> 0 \<Longrightarrow> xs = zip (replicate k p) ns \<Longrightarrow> length ns = k \<Longrightarrow>
    fold record_pc xs t = t\<lparr>repeatedPCCount := if k = 0 then repeatedPCCount t else last ns\<rparr>"
proof (induction k arbitrary: t xs ns)
  case 0
  then show ?case by (cases t) simp
next
  case (Suc k)
  then obtain n ms where ns: "ns = n # ms" by (cases ns) auto
  with Suc have "fold record_pc (zip (replicate k p) ms) (t\<lparr>repeatedPCCount := n\<rparr>) =
      (t\<lparr>repeatedPCCount := n\<rparr>)\<lparr>repeatedPCCount := if k = 0 then n else last ms\<rparr>"
    by (subst Suc.IH) auto
  moreover have "record_pc (p, n) t = t\<lparr>repeatedPCCount := n\<rparr>" using Suc.prems by (simp add: record_pc_def)
  ultimately show ?case using Suc.prems ns by auto
qed

text \<open>
  C37: Infinite recursion. When a frame is visited \<open>11 + k\<close> times in a row and never after,
  and no frame ten times in a row before, the report lists it ten times, every other frame,
  and the repeat count \<open>10 + k\<close>; but the count is 0 when \<open>k\<close> is.
\<close>

theorem recursion_suppressed:
  assumes "visits m lay nodes (FIRCLSUnwindInit regs) cs" and "pcs_of cs = xs @ replicate (11 + k) p @ ys"
    and "short_runs xs" and "xs = [] \<or> last xs \<noteq> p" and "p \<notin> set ys"
  shows "FIRCLSProcessRecordThread m lay nodes regs =
    Ret \<lparr>repeatedPC = p, repeatedPCCount = (if k = 0 then 0 else 10 + word_of_nat k), written = xs @ replicate 10 p @ ys\<rparr>"
proof -
  have "p \<in> set (pcs_of cs)" using assms(2) by simp
  then have p: "p \<noteq> 0" using visits_valid [OF assms(1)] by (force simp: FIRCLSIsValidPointer_def)
  have pcs: "pcs_of cs = xs @ replicate 11 p @ (replicate k p @ ys)" using assms(2) by (simp add: replicate_add)
  let ?t = "\<lparr>repeatedPC = p, repeatedPCCount = 0, written = xs @ replicate 10 p\<rparr>"
  let ?n = "if k = 0 then 0 else 10 + word_of_nat k :: u32"
  have t: "trace_of (pcs_of cs) = fold record_pc (zip (replicate k p @ ys) (repeat_counts p 10 (replicate k p @ ys))) ?t"
    using trace_of_recursion [OF assms(3,4) p, of "replicate k p @ ys"] unfolding pcs by auto
  obtain c where c: "repeat_counts p 10 (replicate k p @ ys) = repeat_counts p 10 (replicate k p) @ repeat_counts p c ys"
    unfolding repeat_counts_append by (cases "k = 0") auto
  have "fold record_pc (zip (replicate k p) (repeat_counts p 10 (replicate k p))) ?t = ?t\<lparr>repeatedPCCount := ?n\<rparr>"
    using record_repeats [of ?t p _ k "repeat_counts p 10 (replicate k p)"] p counts_of_recursion [of k p] by simp
  moreover have "fold record_pc (zip ys (repeat_counts p c ys)) (?t\<lparr>repeatedPCCount := ?n\<rparr>) =
      ?t\<lparr>repeatedPCCount := ?n, written := xs @ replicate 10 p @ ys\<rparr>"
  proof -
    have f: "filter (\<lambda>q. q \<noteq> p) ys = ys" using assms(5) by (intro filter_True) auto
    show ?thesis
      using record_noted [of "?t\<lparr>repeatedPCCount := ?n\<rparr>" p ys p c] p assms(5) unfolding f by auto
  qed
  ultimately have "trace_of (pcs_of cs) = \<lparr>repeatedPC = p, repeatedPCCount = ?n, written = xs @ replicate 10 p @ ys\<rparr>"
    unfolding t c by (simp add: zip_append)
  then show ?thesis using recorded_visits [of m lay nodes regs] assms(1) by metis
qed

text \<open>
  A frame after the recursion. When the address of a noted recursion is visited again
  later, after another frame, it is left out of the list, and the repeat count becomes that
  of the later visit, 0, whatever the depth of the recursion was.
\<close>

theorem later_visit_dropped:
  assumes "visits m lay nodes (FIRCLSUnwindInit regs) cs" and "pcs_of cs = xs @ replicate 11 p @ ys @ [q, p]"
    and "short_runs xs" and "xs = [] \<or> last xs \<noteq> p" and "q \<noteq> p"
  shows "FIRCLSProcessRecordThread m lay nodes regs =
    Ret \<lparr>repeatedPC = p, repeatedPCCount = 0, written = xs @ replicate 10 p @ filter (\<lambda>r. r \<noteq> p) ys @ [q]\<rparr>"
proof -
  have "p \<in> set (pcs_of cs)" using assms(2) by simp
  then have p: "p \<noteq> 0" using visits_valid [OF assms(1)] by (force simp: FIRCLSIsValidPointer_def)
  let ?t = "\<lparr>repeatedPC = p, repeatedPCCount = 0, written = xs @ replicate 10 p\<rparr>"
  let ?ys = "(ys @ [q]) @ [p]"
  have t: "trace_of (pcs_of cs) = fold record_pc (zip ?ys (repeat_counts p 10 ?ys)) ?t"
    using trace_of_recursion [OF assms(3,4) p, of ?ys] assms(2) by auto
  have c: "repeat_counts p 10 ?ys = repeat_counts p 10 (ys @ [q]) @ [0]"
    unfolding repeat_counts_append [of _ _ "ys @ [q]"] using assms(5) by simp
  obtain n where n: "fold record_pc (zip (ys @ [q]) (repeat_counts p 10 (ys @ [q]))) ?t =
      ?t\<lparr>written := xs @ replicate 10 p @ filter (\<lambda>r. r \<noteq> p) ys @ [q], repeatedPCCount := n\<rparr>"
    using record_noted [of ?t p "ys @ [q]" p 10] p assms(5) by auto
  have "trace_of (pcs_of cs) = record_pc (p, 0) (?t\<lparr>written := xs @ replicate 10 p @ filter (\<lambda>r. r \<noteq> p) ys @ [q], repeatedPCCount := n\<rparr>)"
    unfolding t c using n by (simp add: zip_append del: append_assoc)
  then have "trace_of (pcs_of cs) = \<lparr>repeatedPC = p, repeatedPCCount = 0, written = xs @ replicate 10 p @ filter (\<lambda>r. r \<noteq> p) ys @ [q]\<rparr>"
    using p by (simp add: record_pc_def)
  then show ?thesis using recorded_visits [of m lay nodes regs] assms(1) by metis
qed

text \<open>
  C38: Scanning an unmapped stack. For a thread outside every image whose stack pointer is not
  mapped, recording is undefined: the log line reads the stack directly before the read
  that would have failed safely.
\<close>

theorem scan_reads_unmapped:
  assumes "4096 < rip regs" and "4096 \<le> rsp regs" and "rbp regs \<noteq> 0" and "load m 8 (rsp regs) = None"
    and "FIRCLSBinaryImageSafeFindImageForAddress nodes (rip regs - 1) = None"
  shows "FIRCLSReadMemory m (rsp regs) 8 = None \<and> FIRCLSProcessRecordThread m lay nodes regs = Undef"
proof
  let ?c = "\<lparr>uc_registers = regs, frameCount = 1, lastFramePC = rip regs, repeatCount = 0\<rparr>"
  show "FIRCLSReadMemory m (rsp regs) 8 = None" using assms(4) by (simp add: FIRCLSReadMemory_def)
  have v: "FIRCLSIsValidPointer (rip regs)" "FIRCLSIsValidPointer (rsp regs)" "rip regs \<noteq> 0"
    using assms(1,2) by (auto simp: FIRCLSIsValidPointer_def word_le_nat_alt word_less_nat_alt)
  have "unat (rip regs - 1) = unat (rip regs) - 1" using assms(1) by (intro unat_minus_one) auto
  then have v1: "FIRCLSIsValidPointer (rip regs - 1)"
    using assms(1) by (simp add: FIRCLSIsValidPointer_def word_le_nat_alt word_less_nat_alt)
  note defs = FIRCLSUnwindNextFrame_def FIRCLSUnwindContextHasValidPCAndSP_def Let_def
    FIRCLSUnwindNextFrameUsingAllStrategies_def FIRCLSUnwindMaxFrames_def FIRCLSUnwindGetPC_def
    FIRCLSUnwindGetStackPointer_def FIRCLSThreadContextGetPC_def FIRCLSThreadContextGetStackPointer_def
  have first: "FIRCLSUnwindNextFrame m lay nodes (FIRCLSUnwindInit regs) = Ret (True, ?c)"
    using v by (simp add: defs FIRCLSUnwindInit_def)
  have "scan_loop m nodes (rsp regs) e = Undef" for e using assms(4) by (subst scan_loop.simps) simp
  then have "FIRCLSUnwindWithFramePointer m nodes (regs\<lparr>rip := rip regs - 1\<rparr>) True = Undef"
    by (simp add: FIRCLSUnwindWithFramePointer_def FIRCLSUnwindWithStackScanning_def FIRCLSUnwindFirstExecutableAddress_def
        FIRCLSThreadContextGetStackPointer_def)
  moreover have max1: "\<not> (600000 :: u32) \<le> 1" by (simp add: word_le_nat_alt)
  ultimately have "FIRCLSUnwindNextFrame m lay nodes ?c = Undef"
    using v v1 assms(3,5) max1 by (simp add: defs FIRCLSThreadContextSetPC_def FIRCLSUnwindWithCompactUnwindInfo_def
        FIRCLSUnwindGetFramePointer_def FIRCLSThreadContextGetFramePointer_def)
  then show "FIRCLSProcessRecordThread m lay nodes regs = Undef"
    using first by (simp add: FIRCLSProcessRecordThread_def record_loop.simps [of m lay nodes])
qed

section \<open>Example stacks\<close>

definition le_word :: "u64 \<Rightarrow> bytes" where
  "le_word w = rev (be_bytes 8 (unat w))"

text \<open>
  Frames one after the other, with these return addresses; the last links to 0. Below the
  first is one word of the top frame.
\<close>

fun frames_at :: "u64 \<Rightarrow> u64 list \<Rightarrow> bytes" where
  "frames_at fp [] = []"
| "frames_at fp (ret # rets) = (le_word (if rets = [] then 0 else fp + 16) @ le_word ret) @ frames_at (fp + 16) rets"

definition stack_with :: "u64 \<Rightarrow> u64 list \<Rightarrow> mem" where
  "stack_with w rets = mem_at 0x5000 (le_word w @ frames_at 0x5008 rets)"

abbreviation sample_stack :: "u64 list \<Rightarrow> mem" where
  "sample_stack \<equiv> stack_with 0"

definition sample_thread :: "u64 \<Rightarrow> thread_context" where
  "sample_thread pc = zero_context\<lparr>rip := pc, rsp := 0x5000, rbp := 0x5008\<rparr>"

lemma length_le_word [simp]: "length (le_word w) = 8"
  by (simp add: le_word_def)

lemma le_word_value [simp]: "word_of_nat (le_nat (le_word w)) = w"
  using unsigned_less [of w, where ?'a = nat] by (simp add: le_word_def le_nat_def)

lemma length_frames_at [simp]: "length (frames_at fp rets) = 16 * length rets"
  by (induction fp rets rule: frames_at.induct) auto

lemma chain_of_frames:
  assumes "holds m fp (frames_at fp rets)" and "4096 \<le> fp" and "list_all (\<lambda>r. 4096 < r) rets"
  shows "frame_chain m (if rets = [] then 0 else fp) rets"
  using assms
proof (induction fp rets rule: frames_at.induct)
  case (1 fp)
  then show ?case by simp
next
  case (2 fp ret rets)
  let ?frame = "le_word (if rets = [] then 0 else fp + 16) @ le_word ret"
  have h: "holds m fp ?frame" "holds m (fp + 16) (frames_at (fp + 16) rets)" and b: "unat fp + 16 < 2 ^ 64"
    using 2(2) by (simp_all only: frames_at.simps holds_append [of m fp ?frame]) (simp_all add: length_append)
  have "load m 16 fp = Some ?frame" using load_holds [OF h(1)] by simp
  then have rd: "FIRCLSReadMemory m fp 16 = Some ?frame"
    using 2(3) by (simp add: FIRCLSReadMemory_def FIRCLSIsValidPointer_def)
  have "4096 \<le> fp + 16" using 2(3) b unat_add_offset [of fp 16] by (simp add: word_le_nat_alt)
  then have "frame_chain m (if rets = [] then 0 else fp + 16) rets"
    using 2(1) h(2) 2(4) by simp
  then show ?case using rd b 2(4) by simp
qed

lemma stack_with_holds:
  "length rets < 1000 \<Longrightarrow> holds (stack_with w rets) 0x5000 (le_word w @ frames_at 0x5008 rets)"
  unfolding stack_with_def by (rule holds_mem_at) simp

lemma stack_with_chain:
  assumes "length rets < 1000" and "rets \<noteq> []" and "list_all (\<lambda>r. 4096 < r) rets"
  shows "frame_chain (stack_with w rets) 0x5008 rets" and "stack_mapped (stack_with w rets) 0x5000 0x5008"
    and "scanned_address (stack_with w rets) nodes 0x5000 0x5008 =
      (if FIRCLSUnwindIsAddressExecutable nodes w then Some w else None)"
proof -
  note h = stack_with_holds [OF assms(1), of w]
  have parts: "holds (stack_with w rets) 0x5000 (le_word w)" "holds (stack_with w rets) 0x5008 (frames_at 0x5008 rets)"
    using h holds_append [of "stack_with w rets" "0x5000" "le_word w" "frames_at 0x5008 rets"] by simp_all
  from chain_of_frames [OF parts(2) _ assms(3)] show "frame_chain (stack_with w rets) 0x5008 rets" using assms(2) by simp
  have "24 \<le> length (le_word w @ frames_at 0x5008 rets)" using assms(2) by (cases rets) auto
  then have "stack_with w rets (0x5000 + word_of_nat i) \<noteq> None" if "i < 24" for i
    using h that by (auto simp: holds_def)
  then show "stack_mapped (stack_with w rets) 0x5000 0x5008" by (simp add: stack_mapped_def list_all_iff)
  have "stack_word (stack_with w rets) 0x5000 = w"
    using load_holds [OF parts(1)] by (simp add: stack_word_def)
  then show "scanned_address (stack_with w rets) nodes 0x5000 0x5008 =
      (if FIRCLSUnwindIsAddressExecutable nodes w then Some w else None)"
    using stack_words_step [of "0x5000" "0x5008" "stack_with w rets"] stack_words_end [of "0x5008" "0x5008" "stack_with w rets"]
    by (simp add: scanned_address_def)
qed

lemma sample_visits:
  assumes "length rets < 1000" and "rets \<noteq> []" and "list_all (\<lambda>r. 4096 < r) rets" and "4096 < pc"
  obtains cs where "visits (sample_stack rets) apple_layout [] (FIRCLSUnwindInit (sample_thread pc)) cs" and "pcs_of cs = pc # rets"
proof -
  have "frame_pcs (sample_stack rets) [] (sample_thread pc) rets = pc # rets"
    by (simp add: frame_pcs_def no_images sample_thread_def)
  then show ?thesis
    using that chain_record [of "sample_thread pc" "sample_stack rets" rets "[]" apple_layout] stack_with_chain(1,2) [OF assms(1-3)] assms(1,3,4)
    by (auto simp: sample_thread_def no_images)
qed

lemma trace_of_walk_witness:
  "\<exists>cs. visits (sample_stack [0x8000]) apple_layout [] (FIRCLSUnwindInit (sample_thread 0x7000)) cs \<and> length cs \<le> 600000 \<and>
     pcs_of cs = [0x7000, 0x8000]"
proof -
  have "list_all (\<lambda>r. 4096 < r) [0x8000 :: u64]" by simp
  then obtain cs where cs: "visits (sample_stack [0x8000]) apple_layout [] (FIRCLSUnwindInit (sample_thread 0x7000)) cs"
    "pcs_of cs = [0x7000, 0x8000]"
    using sample_visits [of "[0x8000]" "0x7000"] by auto
  have "FIRCLSProcessRecordThread (sample_stack [0x8000]) apple_layout [] (sample_thread 0x7000) = Ret (trace_of (pcs_of cs))"
    using recorded_visits cs(1) by blast
  from trace_of_walk [OF this] cs show ?thesis
    unfolding visits_walk using unwinder.walk_unique by metis
qed

text \<open>
  In an image without unwind information: a top frame with no address of the image in it,
  and one that holds \<open>0x7100\<close>, which is taken for a caller.
\<close>

definition sample_image :: binary_image_node where
  "sample_image = \<lparr>baseAddress = 0x6000, node_size = 0x4000, node_ehFrame = 0, node_unwindInfo = 0\<rparr>"

lemma sample_image_finds:
  "FIRCLSUnwindIsAddressExecutable [sample_image] 0x7100" "\<not> FIRCLSUnwindIsAddressExecutable [sample_image] 0"
  by (simp_all add: FIRCLSUnwindIsAddressExecutable_def FIRCLSBinaryImageSafeFindImageForAddress_def sample_image_def)

lemma frame_chain_trace_witness:
  "FIRCLSProcessRecordThread (stack_with 0 [0x8000, 0x9000]) apple_layout [sample_image] (sample_thread 0x7000) =
     Ret \<lparr>repeatedPC = 0, repeatedPCCount = 0, written = [0x7000, 0x8000, 0x9000]\<rparr> \<and>
   FIRCLSProcessRecordThread (stack_with 0x7100 [0x8000, 0x9000]) apple_layout [sample_image] (sample_thread 0x7000) =
     Ret \<lparr>repeatedPC = 0, repeatedPCCount = 0, written = [0x7000, 0x7100, 0x8000, 0x9000]\<rparr>"
proof -
  have c: "frame_chain (stack_with w [0x8000, 0x9000]) 0x5008 [0x8000, 0x9000]"
    "stack_mapped (stack_with w [0x8000, 0x9000]) 0x5000 0x5008" for w
    using stack_with_chain [of "[0x8000, 0x9000]" w] by simp_all
  have p: "[0x7000, 0x8000, 0x9000] = frame_pcs (stack_with 0 [0x8000, 0x9000]) [sample_image] (sample_thread 0x7000) [0x8000, 0x9000]"
    "[0x7000, 0x7100, 0x8000, 0x9000] =
      frame_pcs (stack_with 0x7100 [0x8000, 0x9000]) [sample_image] (sample_thread 0x7000) [0x8000, 0x9000]"
    using stack_with_chain(3) [of "[0x8000, 0x9000]"] by (simp_all add: frame_pcs_def sample_thread_def sample_image_finds)
  have "list_all (\<lambda>pc. 4096 < pc \<and> without_unwind_info [sample_image] pc) [0x7000, 0x7100, 0x8000, 0x9000]"
    by (simp add: without_unwind_info_def FIRCLSBinaryImageSafeFindImageForAddress_def FIRCLSBinaryImageSafeHasUnwindInfo_def
        FIRCLSIsValidPointer_def sample_image_def)
  moreover have "short_runs [0x7000, 0x8000, 0x9000]" "short_runs [0x7000, 0x7100, 0x8000, 0x9000]" by code_simp+
  ultimately show ?thesis
    using frame_chain_trace [OF _ _ _ p(1), of apple_layout] frame_chain_trace [OF _ _ _ p(2), of apple_layout] c
    by (simp add: sample_thread_def)
qed

lemma recursion_suppressed_witness:
  "FIRCLSProcessRecordThread (sample_stack (replicate 12 0x8000)) apple_layout [] (sample_thread 0x7000) =
   Ret \<lparr>repeatedPC = 0x8000, repeatedPCCount = 11, written = 0x7000 # replicate 10 0x8000\<rparr>"
proof -
  have "list_all (\<lambda>r. 4096 < r) (replicate 12 0x8000 :: u64 list)" by (simp add: list_all_iff)
  then obtain cs where cs: "visits (sample_stack (replicate 12 0x8000)) apple_layout [] (FIRCLSUnwindInit (sample_thread 0x7000)) cs"
    "pcs_of cs = 0x7000 # replicate 12 0x8000"
    using sample_visits [of "replicate 12 0x8000" "0x7000"] by auto
  have "short_runs [0x7000]" by code_simp
  then show ?thesis
    using recursion_suppressed [OF cs(1), of "[0x7000]" 1 "0x8000" "[]"] cs(2) by simp
qed

lemma later_visit_dropped_witness:
  "FIRCLSProcessRecordThread (sample_stack (replicate 11 0x8000 @ [0x9000, 0x8000])) apple_layout [] (sample_thread 0x7000) =
   Ret \<lparr>repeatedPC = 0x8000, repeatedPCCount = 0, written = 0x7000 # replicate 10 0x8000 @ [0x9000]\<rparr>"
proof -
  have "list_all (\<lambda>r. 4096 < r) (replicate 11 0x8000 @ [0x9000, 0x8000] :: u64 list)" by (simp add: list_all_iff)
  then obtain cs where cs: "visits (sample_stack (replicate 11 0x8000 @ [0x9000, 0x8000])) apple_layout []
      (FIRCLSUnwindInit (sample_thread 0x7000)) cs"
    "pcs_of cs = 0x7000 # replicate 11 0x8000 @ [0x9000, 0x8000]"
    using sample_visits [of "replicate 11 0x8000 @ [0x9000, 0x8000]" "0x7000"] by auto
  have "short_runs [0x7000]" by code_simp
  then show ?thesis
    using later_visit_dropped [OF cs(1), of "[0x7000]" "0x8000" "[]" "0x9000"] cs(2) by simp
qed

lemma scan_reads_unmapped_witness:
  "FIRCLSReadMemory (sample_stack []) 0x6000 8 = None \<and>
   FIRCLSProcessRecordThread (sample_stack []) apple_layout [] (zero_context\<lparr>rip := 0x7000, rsp := 0x6000, rbp := 0x6010\<rparr>) = Undef"
proof -
  have "load (sample_stack []) 8 0x6000 = None" by code_simp
  then show ?thesis
    using scan_reads_unmapped [of "zero_context\<lparr>rip := 0x7000, rsp := 0x6000, rbp := 0x6010\<rparr>" "sample_stack []" "[]" apple_layout]
    by (simp add: FIRCLSBinaryImageSafeFindImageForAddress_def)
qed

end
