(* ===== verification/Pb_Stream.thy ===== *)
theory Pb_Stream
  imports C_Lang
begin

text \<open>
  The stream level of nanopb: \<open>pb_istream_t\<close> and \<open>pb_ostream_t\<close> with the functions of
  \<open>pb_decode.c\<close> and \<open>pb_encode.c\<close> that read and write the wire format. A stream's callback is a
  function on its \<open>state\<close>; \<open>buf_read\<close> and \<open>buf_write\<close> are the ones of memory buffers, where the
  state stands for the pointer into the buffer. Other callbacks only use the state, as the
  rules in \<open>pb_decode.h\<close> ask for. An access outside a buffer is \<open>Undef\<close>.
\<close>

section \<open>Failing operations\<close>

text \<open>An operation returns \<open>None\<close> for \<open>false\<close>, with the stream it leaves.\<close>

definition pb_bind :: "('s, 'a option) c_op \<Rightarrow> ('a \<Rightarrow> ('s, 'b option) c_op) \<Rightarrow> ('s, 'b option) c_op" where
  "pb_bind f g s = (case f s of
     Undef \<Rightarrow> Undef | Ret (None, s') \<Rightarrow> Ret (None, s') | Ret (Some x, s') \<Rightarrow> g x s')"

definition pb_return :: "'a \<Rightarrow> ('s, 'a option) c_op" where
  "pb_return x s = Ret (Some x, s)"

lemma pb_return_apply [simp]: "pb_return x s = Ret (Some x, s)"
  by (simp add: pb_return_def)

lemma pb_bind_Some [simp]: "f s = Ret (Some x, s') \<Longrightarrow> pb_bind f g s = g x s'"
  by (simp add: pb_bind_def)

lemma pb_bind_eq_Some:
  "pb_bind f g s = Ret (Some y, t) \<longleftrightarrow> (\<exists>x s'. f s = Ret (Some x, s') \<and> g x s' = Ret (Some y, t))"
  by (auto simp: pb_bind_def split: c_outcome.splits prod.splits option.splits)

lemma pb_bind_cong [fundef_cong]:
  assumes "f s = f' s'" and "\<And>x t. f' s' = Ret (Some x, t) \<Longrightarrow> g x t = g' x t"
  shows "pb_bind f g s = pb_bind f' g' s'"
  using assms by (auto simp: pb_bind_def split: c_outcome.splits prod.splits option.splits)

section \<open>Input streams\<close>

text \<open>
  The callback gets the state, whether the buffer is NULL, and the number of bytes; it
  returns the bytes stored, or \<open>None\<close> for \<open>false\<close>.
\<close>

datatype 's in_callback =
  In_callback (is_buf_read: bool) (in_call: "'s \<Rightarrow> bool \<Rightarrow> nat \<Rightarrow> (bytes option \<times> 's) c_outcome")

record 's pb_istream =
  in_callback :: "'s in_callback"
  in_state :: 's
  bytes_left :: nat
  in_errmsg :: "string option"

type_synonym ('s, 'a) pb_in = "('s pb_istream, 'a option) c_op"

definition in_error :: "string \<Rightarrow> ('s, 'a) pb_in" where
  "in_error msg s = Ret (None, s\<lparr>in_errmsg := (case in_errmsg s of None \<Rightarrow> Some msg | Some m \<Rightarrow> Some m)\<rparr>)"

text \<open>The state of a buffer stream: the bytes from the pointer to the end of the object.\<close>

definition buf_read :: "bytes \<Rightarrow> bool \<Rightarrow> nat \<Rightarrow> (bytes option \<times> bytes) c_outcome" where
  "buf_read source buf_null count =
     (if length source < count then Undef
      else Ret (Some (if buf_null then [] else take count source), drop count source))"

definition pb_istream_from_buffer :: "bytes \<Rightarrow> nat \<Rightarrow> bytes pb_istream" where
  "pb_istream_from_buffer buf bufsize =
     \<lparr>in_callback = In_callback True buf_read, in_state = buf, bytes_left = bufsize, in_errmsg = None\<rparr>"

text \<open>\<open>pb_read\<close> where it calls the callback once.\<close>

definition read_once :: "bool \<Rightarrow> nat \<Rightarrow> ('s, bytes) pb_in" where
  "read_once buf_null count s =
     (if count = 0 then Ret (Some [], s)
      else if bytes_left s < count then in_error ''end-of-stream'' s
      else case in_call (in_callback s) (in_state s) buf_null count of
             Undef \<Rightarrow> Undef
           | Ret (None, st) \<Rightarrow> in_error ''io error'' (s\<lparr>in_state := st\<rparr>)
           | Ret (Some buf, st) \<Rightarrow> Ret (Some buf, s\<lparr>in_state := st, bytes_left := bytes_left s - count\<rparr>))"

text \<open>Skipping on a stream that is not a buffer: pieces of 16 bytes into a scratch array.\<close>

fun skip_pieces :: "nat \<Rightarrow> ('s, bytes) pb_in" where
  "skip_pieces count =
     (if 16 < count then pb_bind (read_once False 16) (\<lambda>_. skip_pieces (count - 16))
      else pb_bind (read_once False count) (\<lambda>_. pb_return []))"

declare skip_pieces.simps [simp del]

definition pb_read :: "bool \<Rightarrow> nat \<Rightarrow> ('s, bytes) pb_in" where
  "pb_read buf_null count s =
     (if count = 0 then Ret (Some [], s)
      else if buf_null \<and> \<not> is_buf_read (in_callback s) then skip_pieces count s
      else read_once buf_null count s)"

definition pb_readbyte :: "('s, u8) pb_in" where
  "pb_readbyte s =
     (if bytes_left s = 0 then in_error ''end-of-stream'' s
      else case in_call (in_callback s) (in_state s) False 1 of
             Undef \<Rightarrow> Undef
           | Ret (None, st) \<Rightarrow> in_error ''io error'' (s\<lparr>in_state := st\<rparr>)
           | Ret (Some buf, st) \<Rightarrow> Ret (Some (hd buf), s\<lparr>in_state := st, bytes_left := bytes_left s - 1\<rparr>))"

lemma readbyte_progress: "pb_readbyte s = Ret (Some b, s') \<Longrightarrow> bytes_left s' < bytes_left s"
  by (auto simp: pb_readbyte_def in_error_def split: if_splits c_outcome.splits prod.splits option.splits)

lemma pb_read1_progress: "pb_read False (Suc 0) s = Ret (Some b, s') \<Longrightarrow> bytes_left s' < bytes_left s"
  by (auto simp: pb_read_def read_once_def in_error_def
      split: if_splits c_outcome.splits prod.splits option.splits)

section \<open>Variable-length integers\<close>

text \<open>
  The loop of \<open>pb_decode_varint32_eof\<close>; \<open>bitpos\<close> is a \<open>uint_fast8_t\<close>, which is a byte on the
  platforms of the application. The result is the value, the last \<open>bitpos\<close> and the last byte.
\<close>

function varint32_loop :: "u8 \<Rightarrow> u32 \<Rightarrow> ('s, u32 \<times> u8 \<times> u8) pb_in" where
  "varint32_loop bitpos result s =
     pb_bind pb_readbyte (\<lambda>byte s.
       let sign_extension = (if bitpos < 63 then 0xFF else 0x01)
       in if 32 \<le> bitpos \<and> byte AND 0x7F \<noteq> 0 \<and> (drop_bit 31 result = 0 \<or> byte \<noteq> sign_extension)
          then in_error ''varint overflow'' s
          else
            let result' = (if 32 \<le> bitpos then result
                           else result OR push_bit (unat bitpos) (ucast (byte AND 0x7F)));
                bitpos' = bitpos + 7
            in if byte AND 0x80 \<noteq> 0 then varint32_loop bitpos' result' s
               else pb_return (result', bitpos', byte) s) s"
  by pat_completeness auto

termination varint32_loop
  by (relation "measure (\<lambda>(_, _, s). bytes_left s)") (auto dest: readbyte_progress)

declare varint32_loop.simps [simp del]

text \<open>The value, and whether the stream had ended before the first byte.\<close>

definition pb_decode_varint32_eof :: "('s pb_istream, u32 option \<times> bool) c_op" where
  "pb_decode_varint32_eof =
     c_bind pb_readbyte (\<lambda>r s.
       case r of
         None \<Rightarrow> Ret ((None, bytes_left s = 0), s)
       | Some byte \<Rightarrow>
           if byte AND 0x80 = 0 then Ret ((Some (ucast byte), False), s)
           else c_bind (pb_bind (varint32_loop 7 (ucast (byte AND 0x7F))) (\<lambda>(result, bitpos, byte).
                    if bitpos = 35 \<and> byte AND 0x70 \<noteq> 0 then in_error ''varint overflow''
                    else pb_return result)) (\<lambda>r. c_return (r, False)) s)"

definition pb_decode_varint32 :: "('s, u32) pb_in" where
  "pb_decode_varint32 = c_bind pb_decode_varint32_eof (\<lambda>(r, _). c_return r)"

function varint_loop :: "u8 \<Rightarrow> u64 \<Rightarrow> ('s, u64) pb_in" where
  "varint_loop bitpos result s =
     (if 64 \<le> bitpos then in_error ''varint overflow'' s
      else pb_bind pb_readbyte (\<lambda>byte s.
             let result' = result OR push_bit (unat bitpos) (ucast (byte AND 0x7F))
             in if byte AND 0x80 \<noteq> 0 then varint_loop (bitpos + 7) result' s else pb_return result' s) s)"
  by pat_completeness auto

termination varint_loop
  by (relation "measure (\<lambda>(_, _, s). bytes_left s)") (auto dest: readbyte_progress)

declare varint_loop.simps [simp del]

definition pb_decode_varint :: "('s, u64) pb_in" where
  "pb_decode_varint = varint_loop 0 0"

function pb_skip_varint :: "('s, unit) pb_in" where
  "pb_skip_varint s =
     pb_bind (pb_read False 1) (\<lambda>buf s. if hd buf AND 0x80 \<noteq> 0 then pb_skip_varint s else pb_return () s) s"
  by pat_completeness auto

termination pb_skip_varint
  by (relation "measure bytes_left") (auto dest: pb_read1_progress)

declare pb_skip_varint.simps [simp del]

section \<open>Tags, fields and substreams\<close>

abbreviation (input) "PB_WT_VARINT \<equiv> (0 :: u32)"
abbreviation (input) "PB_WT_64BIT \<equiv> (1 :: u32)"
abbreviation (input) "PB_WT_STRING \<equiv> (2 :: u32)"
abbreviation (input) "PB_WT_32BIT \<equiv> (5 :: u32)"

definition pb_skip_string :: "('s, unit) pb_in" where
  "pb_skip_string =
     pb_bind pb_decode_varint32 (\<lambda>len. pb_bind (pb_read True (unat len)) (\<lambda>_. pb_return ()))"

text \<open>The wire type and the tag, and the flag \<open>eof\<close>.\<close>

definition pb_decode_tag :: "('s pb_istream, (u32 \<times> u32) option \<times> bool) c_op" where
  "pb_decode_tag =
     c_bind pb_decode_varint32_eof (\<lambda>(r, eof).
       case r of
         None \<Rightarrow> c_return (None, eof)
       | Some temp \<Rightarrow>
           if temp = 0 then c_return (None, True)
           else c_return (Some (temp AND 7, drop_bit 3 temp), False))"

definition pb_skip_field :: "u32 \<Rightarrow> ('s, unit) pb_in" where
  "pb_skip_field wire_type =
     (if wire_type = PB_WT_VARINT then pb_skip_varint
      else if wire_type = PB_WT_64BIT then pb_bind (pb_read True 8) (\<lambda>_. pb_return ())
      else if wire_type = PB_WT_STRING then pb_skip_string
      else if wire_type = PB_WT_32BIT then pb_bind (pb_read True 4) (\<lambda>_. pb_return ())
      else in_error ''invalid wire_type'')"

text \<open>\<open>read_raw_value\<close>: the bytes of a scalar; a varint longer than the buffer fails silently.\<close>

fun raw_varint :: "nat \<Rightarrow> ('s, bytes) pb_in" where
  "raw_varint 0 = (\<lambda>s. Ret (None, s))"
| "raw_varint (Suc room) =
     pb_bind (pb_read False 1) (\<lambda>buf.
       if hd buf AND 0x80 \<noteq> 0 then pb_bind (raw_varint room) (\<lambda>rest. pb_return (hd buf # rest))
       else pb_return [hd buf])"

definition read_raw_value :: "u32 \<Rightarrow> nat \<Rightarrow> ('s, bytes) pb_in" where
  "read_raw_value wire_type max_size =
     (if wire_type = PB_WT_VARINT then raw_varint max_size
      else if wire_type = PB_WT_64BIT then pb_read False 8
      else if wire_type = PB_WT_32BIT then pb_read False 4
      else in_error ''invalid wire_type'')"

definition pb_make_string_substream :: "('s, 's pb_istream) pb_in" where
  "pb_make_string_substream =
     pb_bind pb_decode_varint32 (\<lambda>len s.
       if bytes_left s < unat len then in_error ''parent stream too short'' s
       else Ret (Some (s\<lparr>bytes_left := unat len\<rparr>), s\<lparr>bytes_left := bytes_left s - unat len\<rparr>))"

definition pb_close_string_substream :: "'s pb_istream \<Rightarrow> ('s, unit) pb_in" where
  "pb_close_string_substream substream s =
     (case (if bytes_left substream \<noteq> 0 then pb_read True (bytes_left substream) substream
            else Ret (Some [], substream)) of
        Undef \<Rightarrow> Undef
      | Ret (None, _) \<Rightarrow> Ret (None, s)
      | Ret (Some _, substream) \<Rightarrow>
          Ret (Some (), s\<lparr>in_state := in_state substream, in_errmsg := in_errmsg substream\<rparr>))"

end
