(* ===== verification/Pb_Output.thy ===== *)
theory Pb_Output
  imports Pb_Stream
begin

text \<open>
  The output side of nanopb's streams: \<open>pb_ostream_t\<close>, \<open>pb_write\<close> and the encoders of
  \<open>pb_encode.c\<close>. The callback \<open>None\<close> is the NULL of a sizing stream, which only counts. A
  buffer stream's state is the object and the position the pointer has in it. A \<open>size_t\<close>
  is a \<open>nat\<close> below \<open>size_mod\<close>.
\<close>

section \<open>Streams\<close>

record 's pb_ostream =
  out_callback :: "('s \<Rightarrow> bytes \<Rightarrow> (bool \<times> 's) c_outcome) option"
  out_state :: 's
  max_size :: nat
  bytes_written :: nat
  out_errmsg :: "string option"

type_synonym ('s, 'a) pb_out = "('s pb_ostream, 'a option) c_op"

definition out_error :: "string \<Rightarrow> ('s, 'a) pb_out" where
  "out_error msg s = Ret (None, s\<lparr>out_errmsg := (case out_errmsg s of None \<Rightarrow> Some msg | Some m \<Rightarrow> Some m)\<rparr>)"

definition buf_write :: "bytes \<times> nat \<Rightarrow> bytes \<Rightarrow> (bool \<times> bytes \<times> nat) c_outcome" where
  "buf_write = (\<lambda>(dest, pos) buf.
     if length dest < pos + length buf then Undef
     else Ret (True, put_bytes pos buf dest, pos + length buf))"

definition pb_ostream_from_buffer :: "bytes \<Rightarrow> nat \<Rightarrow> (bytes \<times> nat) pb_ostream" where
  "pb_ostream_from_buffer buf bufsize =
     \<lparr>out_callback = Some buf_write, out_state = (buf, 0), max_size = bufsize, bytes_written = 0,
      out_errmsg = None\<rparr>"

text \<open>\<open>PB_OSTREAM_SIZING\<close>; its state is NULL in the code, and no operation uses it.\<close>

definition PB_OSTREAM_SIZING :: "'s \<Rightarrow> 's pb_ostream" where
  "PB_OSTREAM_SIZING st =
     \<lparr>out_callback = None, out_state = st, max_size = 0, bytes_written = 0, out_errmsg = None\<rparr>"

text \<open>The callback that Firestore's \<open>StringWriter\<close> installs; the state is its string.\<close>

definition AppendToString :: "bytes \<Rightarrow> bytes \<Rightarrow> (bool \<times> bytes) c_outcome" where
  "AppendToString str buf = Ret (True, str @ buf)"

definition StringWriter :: "bytes pb_ostream" where
  "StringWriter =
     \<lparr>out_callback = Some AppendToString, out_state = [], max_size = size_mod - 1, bytes_written = 0,
      out_errmsg = None\<rparr>"

text \<open>
  \<open>pb_write\<close>: the data is \<open>None\<close> for a NULL pointer, which only a stream without a callback
  may get with a count. Reading past the data is undefined.
\<close>

definition pb_write :: "bytes option \<Rightarrow> nat \<Rightarrow> ('s, unit) pb_out" where
  "pb_write buf count s =
     (case out_callback s of
        Some callback \<Rightarrow>
          if count = 0 then Ret (Some (), s)
          else if size_add (bytes_written s) count < bytes_written s \<or>
                  max_size s < size_add (bytes_written s) count
          then out_error ''stream full'' s
          else (case buf of
                  None \<Rightarrow> Undef
                | Some bs \<Rightarrow>
                    if length bs < count then Undef
                    else case callback (out_state s) (take count bs) of
                           Undef \<Rightarrow> Undef
                         | Ret (ok, st) \<Rightarrow>
                             if \<not> ok then out_error ''io error'' (s\<lparr>out_state := st\<rparr>)
                             else Ret (Some (), s\<lparr>out_state := st, bytes_written := size_add (bytes_written s) count\<rparr>))
      | None \<Rightarrow> Ret (Some (), s\<lparr>bytes_written := size_add (bytes_written s) count\<rparr>))"

section \<open>Encoders of the wire format\<close>

text \<open>The loop of \<open>pb_encode_varint\<close> that fills \<open>buffer[10]\<close>.\<close>

function varint_fill :: "u64 \<Rightarrow> bytes \<Rightarrow> bytes c_outcome" where
  "varint_fill val buffer =
     (if val = 0 then Ret buffer
      else if length buffer = 10 then Undef
      else varint_fill (drop_bit 7 val) (buffer @ [ucast (val AND 0x7F) OR 0x80]))"
  by pat_completeness auto

lemma groups_decrease: "val \<noteq> 0 \<Longrightarrow> unat (drop_bit 7 val) < unat val" for "val" :: u64
  by (simp add: unat_drop_bit unat_gt_0)

termination varint_fill
  by (relation "measure (\<lambda>(val, _). unat val)") (auto simp: groups_decrease)

declare varint_fill.simps [simp del]

definition pb_encode_varint :: "u64 \<Rightarrow> ('s, unit) pb_out" where
  "pb_encode_varint val s =
     (if val \<le> 0x7F then pb_write (Some [ucast val]) 1 s
      else case varint_fill val [] of
             Undef \<Rightarrow> Undef
           | Ret buffer \<Rightarrow>
               pb_write (Some (butlast buffer @ [last buffer AND 0x7F])) (length buffer) s)"

definition pb_encode_svarint :: "u64 \<Rightarrow> ('s, unit) pb_out" where
  "pb_encode_svarint val =
     pb_encode_varint (if val <s 0 then NOT (push_bit 1 val) else push_bit 1 val)"

definition pb_encode_fixed32 :: "u32 \<Rightarrow> ('s, unit) pb_out" where
  "pb_encode_fixed32 val =
     pb_write (Some [ucast (val AND 0xFF), ucast (drop_bit 8 val AND 0xFF),
       ucast (drop_bit 16 val AND 0xFF), ucast (drop_bit 24 val AND 0xFF)]) 4"

definition pb_encode_fixed64 :: "u64 \<Rightarrow> ('s, unit) pb_out" where
  "pb_encode_fixed64 val =
     pb_write (Some [ucast (val AND 0xFF), ucast (drop_bit 8 val AND 0xFF),
       ucast (drop_bit 16 val AND 0xFF), ucast (drop_bit 24 val AND 0xFF),
       ucast (drop_bit 32 val AND 0xFF), ucast (drop_bit 40 val AND 0xFF),
       ucast (drop_bit 48 val AND 0xFF), ucast (drop_bit 56 val AND 0xFF)]) 8"

definition pb_encode_tag :: "u32 \<Rightarrow> u32 \<Rightarrow> ('s, unit) pb_out" where
  "pb_encode_tag wiretype field_number =
     pb_encode_varint (push_bit 3 (ucast field_number) OR ucast wiretype)"

definition pb_encode_string :: "bytes option \<Rightarrow> nat \<Rightarrow> ('s, unit) pb_out" where
  "pb_encode_string buffer count =
     pb_bind (pb_encode_varint (word_of_nat count)) (\<lambda>_. pb_write buffer count)"

text \<open>
  \<open>pb_encode_submessage\<close>, with \<open>pb_encode(_, fields, src_struct)\<close> as the argument \<open>encode\<close>.
  When the size has changed, the error is set on the stream that already holds the
  substream's message.
\<close>

definition pb_encode_submessage :: "('s, unit) pb_out \<Rightarrow> ('s, unit) pb_out" where
  "pb_encode_submessage encode s =
     (case encode (PB_OSTREAM_SIZING (out_state s)) of
        Undef \<Rightarrow> Undef
      | Ret (None, substream) \<Rightarrow> Ret (None, s\<lparr>out_errmsg := out_errmsg substream\<rparr>)
      | Ret (Some _, substream) \<Rightarrow>
          let count = bytes_written substream
          in pb_bind (pb_encode_varint (word_of_nat count)) (\<lambda>_ s.
               if out_callback s = None then pb_write None count s
               else if max_size s < size_add (bytes_written s) count then out_error ''stream full'' s
               else case encode \<lparr>out_callback = out_callback s, out_state = out_state s, max_size = count,
                                 bytes_written = 0, out_errmsg = None\<rparr> of
                      Undef \<Rightarrow> Undef
                    | Ret (status, substream) \<Rightarrow>
                        let s = s\<lparr>out_state := out_state substream,
                                  bytes_written := size_add (bytes_written s) (bytes_written substream),
                                  out_errmsg := out_errmsg substream\<rparr>
                        in if bytes_written substream \<noteq> count then out_error ''submsg size changed'' s
                           else Ret (status, s)) s)"

end
