(* ===== verification/Pb_Encode.thy ===== *)
theory Pb_Encode
  imports Pb_Output
begin

text \<open>
  The message level of \<open>pb_encode.c\<close> and the field iterator of \<open>pb_common.c\<close>. The C structures
  live in a byte memory; the constant arrays \<open>pb_field_t[]\<close> are a table from their address to
  the list of their entries, the terminator included. A message can nest without a bound the
  code knows, so the functions that call themselves get the depth of the stack that is left;
  without stack the program has no defined behaviour. The application builds nanopb with
  32-bit sizes (\<open>PB_FIELD_32BIT\<close>) and with \<open>PB_ENABLE_MALLOC\<close>.
\<close>

section \<open>Field descriptions\<close>

record pb_field =
  f_tag :: u32
  f_type :: u8
  data_offset :: u32
  size_offset :: u32
  data_size :: u32
  array_size :: u32
  f_ptr :: u64

definition PB_LTYPE :: "u8 \<Rightarrow> u8" where "PB_LTYPE x = x AND 0x0F"
definition PB_HTYPE :: "u8 \<Rightarrow> u8" where "PB_HTYPE x = x AND 0x30"
definition PB_ATYPE :: "u8 \<Rightarrow> u8" where "PB_ATYPE x = x AND 0xC0"

abbreviation (input) "PB_LTYPE_BOOL \<equiv> (0x00 :: u8)"
abbreviation (input) "PB_LTYPE_VARINT \<equiv> (0x01 :: u8)"
abbreviation (input) "PB_LTYPE_UVARINT \<equiv> (0x02 :: u8)"
abbreviation (input) "PB_LTYPE_SVARINT \<equiv> (0x03 :: u8)"
abbreviation (input) "PB_LTYPE_FIXED32 \<equiv> (0x04 :: u8)"
abbreviation (input) "PB_LTYPE_FIXED64 \<equiv> (0x05 :: u8)"
abbreviation (input) "PB_LTYPE_LAST_PACKABLE \<equiv> (0x05 :: u8)"
abbreviation (input) "PB_LTYPE_BYTES \<equiv> (0x06 :: u8)"
abbreviation (input) "PB_LTYPE_STRING \<equiv> (0x07 :: u8)"
abbreviation (input) "PB_LTYPE_SUBMESSAGE \<equiv> (0x08 :: u8)"
abbreviation (input) "PB_LTYPE_EXTENSION \<equiv> (0x09 :: u8)"
abbreviation (input) "PB_LTYPE_FIXED_LENGTH_BYTES \<equiv> (0x0A :: u8)"
abbreviation (input) "PB_HTYPE_REQUIRED \<equiv> (0x00 :: u8)"
abbreviation (input) "PB_HTYPE_OPTIONAL \<equiv> (0x10 :: u8)"
abbreviation (input) "PB_HTYPE_REPEATED \<equiv> (0x20 :: u8)"
abbreviation (input) "PB_HTYPE_ONEOF \<equiv> (0x30 :: u8)"
abbreviation (input) "PB_ATYPE_STATIC \<equiv> (0x00 :: u8)"
abbreviation (input) "PB_ATYPE_CALLBACK \<equiv> (0x40 :: u8)"
abbreviation (input) "PB_ATYPE_POINTER \<equiv> (0x80 :: u8)"
abbreviation (input) "PB_SIZE_MAX \<equiv> (0xFFFFFFFF :: u32)"

section \<open>The field iterator\<close>

text \<open>The array and the index \<open>pos - start\<close>; \<open>pData\<close> and \<open>pSize\<close> are addresses.\<close>

record pb_field_iter =
  it_start :: "pb_field list"
  it_pos :: nat
  required_field_index :: nat
  dest_struct :: u64
  it_pData :: u64
  it_pSize :: u64

definition pb_field_iter_begin :: "pb_field list \<Rightarrow> u64 \<Rightarrow> (bool \<times> pb_field_iter) c_outcome" where
  "pb_field_iter_begin fs dest =
     (case fs of
        [] \<Rightarrow> Undef
      | pos # _ \<Rightarrow>
          let pData = (if dest = 0 then 0 else dest + ucast (data_offset pos));
              pSize = (if dest = 0 then 0 else pData + scast (size_offset pos))
          in Ret (f_tag pos \<noteq> 0,
                  \<lparr>it_start = fs, it_pos = 0, required_field_index = 0, dest_struct = dest,
                   it_pData = pData, it_pSize = pSize\<rparr>))"

definition pb_field_iter_next :: "pb_field_iter \<Rightarrow> (bool \<times> pb_field_iter) c_outcome" where
  "pb_field_iter_next iter =
     (if length (it_start iter) \<le> it_pos iter then Undef
      else let prev_field = it_start iter ! it_pos iter
      in if f_tag prev_field = 0 then Ret (False, iter)
      else if length (it_start iter) \<le> it_pos iter + 1 then Undef
      else let pos = it_start iter ! (it_pos iter + 1); iter' = iter\<lparr>it_pos := it_pos iter + 1\<rparr>
      in if f_tag pos = 0 then
           (case pb_field_iter_begin (it_start iter) (dest_struct iter) of
              Undef \<Rightarrow> Undef | Ret (_, it) \<Rightarrow> Ret (False, it))
      else if PB_HTYPE (f_type prev_field) = PB_HTYPE_ONEOF \<and> PB_HTYPE (f_type pos) = PB_HTYPE_ONEOF \<and>
              data_offset pos = PB_SIZE_MAX
      then Ret (True, iter')
      else let prev_size =
               (if PB_ATYPE (f_type prev_field) = PB_ATYPE_STATIC \<and> PB_HTYPE (f_type prev_field) = PB_HTYPE_REPEATED
                then ucast (data_size prev_field) * ucast (array_size prev_field)
                else if PB_ATYPE (f_type prev_field) = PB_ATYPE_POINTER then 8
                else ucast (data_size prev_field));
               pData = it_pData iter + prev_size + ucast (data_offset pos)
           in Ret (True, iter'\<lparr>required_field_index :=
                    (if PB_HTYPE (f_type prev_field) = PB_HTYPE_REQUIRED then required_field_index iter + 1
                     else required_field_index iter),
                  it_pData := pData, it_pSize := pData + scast (size_offset pos)\<rparr>))"

lemma iter_next_pos:
  "pb_field_iter_next iter = Ret (True, iter') \<Longrightarrow>
   it_start iter' = it_start iter \<and> it_pos iter' = Suc (it_pos iter) \<and> it_pos iter' < length (it_start iter)"
  by (auto simp: pb_field_iter_next_def Let_def split: if_splits c_outcome.splits prod.splits)

section \<open>Reading the structures\<close>

definition read_le :: "mem \<Rightarrow> nat \<Rightarrow> u64 \<Rightarrow> nat c_outcome" where
  "read_le m n a = (case load m n a of None \<Rightarrow> Undef | Some bs \<Rightarrow> Ret (le_nat bs))"

definition read_ptr :: "mem \<Rightarrow> u64 \<Rightarrow> u64 c_outcome" where
  "read_ptr m a = (case read_le m 8 a of Undef \<Rightarrow> Undef | Ret v \<Rightarrow> Ret (word_of_nat v))"

definition safe_read_bool :: "mem \<Rightarrow> u64 \<Rightarrow> bool c_outcome" where
  "safe_read_bool m p = (case read_le m 1 p of Undef \<Rightarrow> Undef | Ret v \<Rightarrow> Ret (v \<noteq> 0))"

text \<open>What a \<open>pb_write\<close> of \<open>n\<close> bytes at \<open>a\<close> can read: \<open>None\<close> for NULL, else the mapped bytes.\<close>

fun mapped :: "mem \<Rightarrow> nat \<Rightarrow> u64 \<Rightarrow> bytes" where
  "mapped m 0 a = []"
| "mapped m (Suc n) a = (case m a of None \<Rightarrow> [] | Some b \<Rightarrow> b # mapped m n (a + 1))"

definition data_at :: "mem \<Rightarrow> nat \<Rightarrow> u64 \<Rightarrow> bytes option" where
  "data_at m n a = (if a = 0 then None else Some (mapped m n a))"

text \<open>A pure step of an operation on a stream.\<close>

definition pb_lift :: "'a c_outcome \<Rightarrow> ('s, 'a) pb_out" where
  "pb_lift r s = (case r of Undef \<Rightarrow> Undef | Ret x \<Rightarrow> Ret (Some x, s))"

text \<open>The value of an integer field, sign or zero extended, by the size of its member.\<close>

definition signed_value :: "mem \<Rightarrow> pb_field \<Rightarrow> u64 \<Rightarrow> ('s, u64) pb_out" where
  "signed_value m field src =
     (if data_size field = 1 then pb_bind (pb_lift (read_le m 1 src)) (\<lambda>v. pb_return (scast (word_of_nat v :: u8)))
      else if data_size field = 2 then pb_bind (pb_lift (read_le m 2 src)) (\<lambda>v. pb_return (scast (word_of_nat v :: u16)))
      else if data_size field = 4 then pb_bind (pb_lift (read_le m 4 src)) (\<lambda>v. pb_return (scast (word_of_nat v :: u32)))
      else if data_size field = 8 then pb_bind (pb_lift (read_le m 8 src)) (\<lambda>v. pb_return (word_of_nat v))
      else out_error ''invalid data_size'')"

definition unsigned_value :: "mem \<Rightarrow> pb_field \<Rightarrow> u64 \<Rightarrow> ('s, u64) pb_out" where
  "unsigned_value m field src =
     (if data_size field \<in> {1, 2, 4, 8}
      then pb_bind (pb_lift (read_le m (unat (data_size field)) src)) (\<lambda>v. pb_return (word_of_nat v))
      else out_error ''invalid data_size'')"

section \<open>Field encoders\<close>

definition pb_encode_tag_for_field :: "pb_field \<Rightarrow> ('s, unit) pb_out" where
  "pb_encode_tag_for_field field =
     (let ltype = PB_LTYPE (f_type field)
      in if ltype \<in> {PB_LTYPE_BOOL, PB_LTYPE_VARINT, PB_LTYPE_UVARINT, PB_LTYPE_SVARINT}
         then pb_encode_tag PB_WT_VARINT (f_tag field)
         else if ltype = PB_LTYPE_FIXED32 then pb_encode_tag PB_WT_32BIT (f_tag field)
         else if ltype = PB_LTYPE_FIXED64 then pb_encode_tag PB_WT_64BIT (f_tag field)
         else if ltype \<in> {PB_LTYPE_BYTES, PB_LTYPE_STRING, PB_LTYPE_SUBMESSAGE, PB_LTYPE_FIXED_LENGTH_BYTES}
         then pb_encode_tag PB_WT_STRING (f_tag field)
         else out_error ''invalid field type'')"

definition pb_enc_bool :: "mem \<Rightarrow> pb_field \<Rightarrow> u64 \<Rightarrow> ('s, unit) pb_out" where
  "pb_enc_bool m field src =
     pb_bind (pb_lift (safe_read_bool m src)) (\<lambda>b. pb_encode_varint (if b then 1 else 0))"

definition pb_enc_varint :: "mem \<Rightarrow> pb_field \<Rightarrow> u64 \<Rightarrow> ('s, unit) pb_out" where
  "pb_enc_varint m field src = pb_bind (signed_value m field src) pb_encode_varint"

definition pb_enc_uvarint :: "mem \<Rightarrow> pb_field \<Rightarrow> u64 \<Rightarrow> ('s, unit) pb_out" where
  "pb_enc_uvarint m field src = pb_bind (unsigned_value m field src) pb_encode_varint"

definition pb_enc_svarint :: "mem \<Rightarrow> pb_field \<Rightarrow> u64 \<Rightarrow> ('s, unit) pb_out" where
  "pb_enc_svarint m field src = pb_bind (signed_value m field src) pb_encode_svarint"

definition pb_enc_fixed32 :: "mem \<Rightarrow> pb_field \<Rightarrow> u64 \<Rightarrow> ('s, unit) pb_out" where
  "pb_enc_fixed32 m field src = pb_bind (pb_lift (read_le m 4 src)) (\<lambda>v. pb_encode_fixed32 (word_of_nat v))"

definition pb_enc_fixed64 :: "mem \<Rightarrow> pb_field \<Rightarrow> u64 \<Rightarrow> ('s, unit) pb_out" where
  "pb_enc_fixed64 m field src = pb_bind (pb_lift (read_le m 8 src)) (\<lambda>v. pb_encode_fixed64 (word_of_nat v))"

text \<open>The size stands before the bytes in a \<open>pb_bytes_array_t\<close>, in four bytes.\<close>

definition pb_enc_bytes :: "mem \<Rightarrow> pb_field \<Rightarrow> u64 \<Rightarrow> ('s, unit) pb_out" where
  "pb_enc_bytes m field src =
     (if src = 0 then pb_encode_string None 0
      else pb_bind (pb_lift (read_le m 4 src)) (\<lambda>count.
             if PB_ATYPE (f_type field) = PB_ATYPE_STATIC \<and> ucast (data_size field) - (4 :: u64) < word_of_nat count
             then out_error ''bytes size exceeded''
             else pb_encode_string (data_at m count (src + 4)) count))"

text \<open>The loop that looks for the end of a string of at most \<open>n\<close> bytes.\<close>

fun string_length :: "mem \<Rightarrow> nat \<Rightarrow> u64 \<Rightarrow> nat c_outcome" where
  "string_length m n p =
     (if n = 0 then Ret 0
      else case m p of
             None \<Rightarrow> Undef
           | Some b \<Rightarrow> if b = 0 then Ret 0
                       else case string_length m (n - 1) (p + 1) of Undef \<Rightarrow> Undef | Ret k \<Rightarrow> Ret (Suc k))"

declare string_length.simps [simp del]

definition pb_enc_string :: "mem \<Rightarrow> pb_field \<Rightarrow> u64 \<Rightarrow> ('s, unit) pb_out" where
  "pb_enc_string m field src =
     (let max_size = (if PB_ATYPE (f_type field) = PB_ATYPE_POINTER then size_mod - 1 else unat (data_size field))
      in pb_bind (pb_lift (if src = 0 then Ret 0 else string_length m max_size src)) (\<lambda>count.
           pb_encode_string (data_at m count src) count))"

definition pb_enc_fixed_length_bytes :: "mem \<Rightarrow> pb_field \<Rightarrow> u64 \<Rightarrow> ('s, unit) pb_out" where
  "pb_enc_fixed_length_bytes m field src =
     pb_encode_string (data_at m (unat (data_size field)) src) (unat (data_size field))"

section \<open>The environment of an encoder\<close>

text \<open>
  The memory, the descriptions, and the functions of the application: the \<open>encode\<close> members of
  \<open>pb_callback_t\<close> and of \<open>pb_extension_type_t\<close>, by their address.
\<close>

record 's pb_env =
  env_mem :: mem
  descriptors :: "u64 \<Rightarrow> pb_field list option"
  user_encode :: "u64 \<Rightarrow> pb_field \<Rightarrow> u64 \<Rightarrow> ('s, unit) pb_out"
  user_extension :: "u64 \<Rightarrow> u64 \<Rightarrow> ('s, unit) pb_out"

definition outcome_bind :: "'a c_outcome \<Rightarrow> ('a \<Rightarrow> 'b c_outcome) \<Rightarrow> 'b c_outcome" where
  "outcome_bind r f = (case r of Undef \<Rightarrow> Undef | Ret x \<Rightarrow> f x)"

lemma outcome_bind_cong [fundef_cong]:
  "r = r' \<Longrightarrow> (\<And>x. r' = Ret x \<Longrightarrow> f x = f' x) \<Longrightarrow> outcome_bind r f = outcome_bind r' f'"
  by (auto simp: outcome_bind_def split: c_outcome.splits)

section \<open>Default values\<close>

fun all_zero :: "mem \<Rightarrow> nat \<Rightarrow> u64 \<Rightarrow> bool c_outcome" where
  "all_zero m n p =
     (if n = 0 then Ret True
      else case m p of None \<Rightarrow> Undef | Some b \<Rightarrow> if b \<noteq> 0 then Ret False else all_zero m (n - 1) (p + 1))"

declare all_zero.simps [simp del]

text \<open>\<open>check_sub\<close> is the loop over the fields of a submessage.\<close>

definition pb_check_proto3_default_value ::
    "mem \<Rightarrow> (u64 \<Rightarrow> u64 \<Rightarrow> bool c_outcome) \<Rightarrow> pb_field \<Rightarrow> u64 \<Rightarrow> bool c_outcome" where
  "pb_check_proto3_default_value m check_sub field pData =
     (let ltype = PB_LTYPE (f_type field); htype = PB_HTYPE (f_type field); atype = PB_ATYPE (f_type field);
          pSize = pData + scast (size_offset field)
      in if htype = PB_HTYPE_REQUIRED then Ret False
         else if htype = PB_HTYPE_REPEATED \<and> size_offset field \<noteq> 0
         then outcome_bind (read_le m 4 pSize) (\<lambda>count. Ret (count = 0))
         else if htype = PB_HTYPE_REPEATED \<and> atype = PB_ATYPE_STATIC then Ret False
         else if htype = PB_HTYPE_ONEOF then outcome_bind (read_le m 4 pSize) (\<lambda>which. Ret (which = 0))
         else if htype = PB_HTYPE_OPTIONAL \<and> size_offset field \<noteq> 0
         then outcome_bind (safe_read_bool m pSize) (\<lambda>has. Ret (\<not> has))
         else if atype = PB_ATYPE_STATIC \<and> ltype = PB_LTYPE_BYTES
         then outcome_bind (read_le m 4 pData) (\<lambda>count. Ret (count = 0))
         else if atype = PB_ATYPE_STATIC \<and> ltype = PB_LTYPE_STRING
         then outcome_bind (read_le m 1 pData) (\<lambda>c. Ret (c = 0))
         else if atype = PB_ATYPE_STATIC \<and> ltype = PB_LTYPE_FIXED_LENGTH_BYTES
         then Ret (data_size field = 0)
         else if atype = PB_ATYPE_STATIC \<and> ltype = PB_LTYPE_SUBMESSAGE then check_sub (f_ptr field) pData
         else if atype = PB_ATYPE_POINTER \<and> PB_LTYPE_LAST_PACKABLE < ltype
         then outcome_bind (read_ptr m pData) (\<lambda>ptr. Ret (ptr = 0))
         else all_zero m (unat (data_size field)) pData)"

function check_fields :: "(pb_field \<Rightarrow> u64 \<Rightarrow> bool c_outcome) \<Rightarrow> pb_field_iter \<Rightarrow> bool c_outcome" where
  "check_fields check iter =
     outcome_bind (check (it_start iter ! it_pos iter) (it_pData iter)) (\<lambda>ok.
       if \<not> ok then Ret False
       else outcome_bind (pb_field_iter_next iter) (\<lambda>(again, iter).
              if again then check_fields check iter else Ret True))"
  by pat_completeness auto

termination check_fields
  by (relation "measure (\<lambda>(_, iter). length (it_start iter) - it_pos iter)")
    (auto dest!: iter_next_pos)

declare check_fields.simps [simp del]

fun check_submessage :: "'s pb_env \<Rightarrow> nat \<Rightarrow> u64 \<Rightarrow> u64 \<Rightarrow> bool c_outcome" where
  "check_submessage E 0 ptr pData = Undef"
| "check_submessage E (Suc depth) ptr pData =
     (case descriptors E ptr of
        None \<Rightarrow> Undef
      | Some fs \<Rightarrow>
          outcome_bind (pb_field_iter_begin fs pData) (\<lambda>(some, iter).
            if \<not> some then Ret True
            else check_fields (pb_check_proto3_default_value (env_mem E) (check_submessage E depth)) iter))"

section \<open>Arrays and fields\<close>

type_synonym 's encoder = "u64 \<Rightarrow> ('s, unit) pb_out"

fun encode_items :: "'s encoder \<Rightarrow> u64 \<Rightarrow> nat \<Rightarrow> u64 \<Rightarrow> ('s, unit) pb_out" where
  "encode_items func step 0 p = pb_return ()"
| "encode_items func step (Suc n) p = pb_bind (func p) (\<lambda>_. encode_items func step n (p + step))"

definition packed_size :: "pb_field \<Rightarrow> u64 \<Rightarrow> nat \<Rightarrow> 's encoder \<Rightarrow> ('s, nat) pb_out" where
  "packed_size field pData count func s =
     (if PB_LTYPE (f_type field) = PB_LTYPE_FIXED32 then Ret (Some (4 * count), s)
      else if PB_LTYPE (f_type field) = PB_LTYPE_FIXED64 then Ret (Some (8 * count), s)
      else case encode_items func (ucast (data_size field)) count pData (PB_OSTREAM_SIZING (out_state s)) of
             Undef \<Rightarrow> Undef
           | Ret (None, _) \<Rightarrow> Ret (None, s)
           | Ret (Some _, sizestream) \<Rightarrow> Ret (Some (bytes_written sizestream), s))"

definition encode_array :: "mem \<Rightarrow> pb_field \<Rightarrow> u64 \<Rightarrow> nat \<Rightarrow> 's encoder \<Rightarrow> ('s, unit) pb_out" where
  "encode_array m field pData count func =
     (let ltype = PB_LTYPE (f_type field); atype = PB_ATYPE (f_type field); step = ucast (data_size field)
      in if count = 0 then pb_return ()
         else if atype \<noteq> PB_ATYPE_POINTER \<and> unat (array_size field) < count
         then out_error ''array max size exceeded''
         else if ltype \<le> PB_LTYPE_LAST_PACKABLE
         then pb_bind (pb_encode_tag PB_WT_STRING (f_tag field)) (\<lambda>_.
              pb_bind (packed_size field pData count func) (\<lambda>n.
              pb_bind (pb_encode_varint (word_of_nat n)) (\<lambda>_ s.
                if out_callback s = None then pb_write None n s
                else encode_items func step count pData s)))
         else encode_items (\<lambda>p.
                pb_bind (pb_encode_tag_for_field field) (\<lambda>_.
                  if atype = PB_ATYPE_POINTER \<and> ltype \<in> {PB_LTYPE_STRING, PB_LTYPE_BYTES}
                  then pb_bind (pb_lift (read_ptr m p)) func
                  else func p)) step count pData)"

definition pb_enc_submessage :: "(u64 \<Rightarrow> 's encoder) \<Rightarrow> pb_field \<Rightarrow> 's encoder" where
  "pb_enc_submessage encode field src =
     (if f_ptr field = 0 then out_error ''invalid field descriptor''
      else pb_encode_submessage (encode (f_ptr field) src))"

text \<open>
  The table \<open>PB_ENCODERS\<close>: no function is at the index of extensions, and none behind the last.
\<close>

definition PB_ENCODERS :: "mem \<Rightarrow> (u64 \<Rightarrow> 's encoder) \<Rightarrow> pb_field \<Rightarrow> 's encoder" where
  "PB_ENCODERS m encode field =
     (let ltype = PB_LTYPE (f_type field)
      in if ltype = PB_LTYPE_BOOL then pb_enc_bool m field
         else if ltype = PB_LTYPE_VARINT then pb_enc_varint m field
         else if ltype = PB_LTYPE_UVARINT then pb_enc_uvarint m field
         else if ltype = PB_LTYPE_SVARINT then pb_enc_svarint m field
         else if ltype = PB_LTYPE_FIXED32 then pb_enc_fixed32 m field
         else if ltype = PB_LTYPE_FIXED64 then pb_enc_fixed64 m field
         else if ltype = PB_LTYPE_BYTES then pb_enc_bytes m field
         else if ltype = PB_LTYPE_STRING then pb_enc_string m field
         else if ltype = PB_LTYPE_SUBMESSAGE then pb_enc_submessage encode field
         else if ltype = PB_LTYPE_FIXED_LENGTH_BYTES then pb_enc_fixed_length_bytes m field
         else (\<lambda>_. c_undef))"

text \<open>Whether \<open>implicit_has\<close>, when the field has no member that says so.\<close>

definition implicit_has :: "mem \<Rightarrow> (u64 \<Rightarrow> u64 \<Rightarrow> bool c_outcome) \<Rightarrow> pb_field \<Rightarrow> u64 \<Rightarrow> bool c_outcome" where
  "implicit_has m check_sub field pData =
     (if size_offset field = 0 \<and> PB_HTYPE (f_type field) = PB_HTYPE_OPTIONAL
      then outcome_bind (pb_check_proto3_default_value m check_sub field pData) (\<lambda>default. Ret (\<not> default))
      else Ret True)"

definition encode_basic_field ::
    "mem \<Rightarrow> (u64 \<Rightarrow> 's encoder) \<Rightarrow> (u64 \<Rightarrow> u64 \<Rightarrow> bool c_outcome) \<Rightarrow> pb_field \<Rightarrow> 's encoder" where
  "encode_basic_field m encode check_sub field pData =
     (let func = PB_ENCODERS m encode field; htype = PB_HTYPE (f_type field);
          pSize = pData + scast (size_offset field);
          field_bytes = (\<lambda>data. pb_bind (pb_encode_tag_for_field field) (\<lambda>_. func data))
      in pb_bind (pb_lift (implicit_has m check_sub field pData)) (\<lambda>has.
         pb_bind (if PB_ATYPE (f_type field) = PB_ATYPE_POINTER
                  then pb_bind (pb_lift (read_ptr m pData)) (\<lambda>data. pb_return (data, data \<noteq> 0))
                  else pb_return (pData, has)) (\<lambda>(data, has).
           if htype = PB_HTYPE_REQUIRED then
             (if data = 0 then out_error ''missing required field'' else field_bytes data)
           else if htype = PB_HTYPE_OPTIONAL then
             pb_bind (if size_offset field \<noteq> 0 then pb_lift (safe_read_bool m pSize) else pb_return has) (\<lambda>has.
               if has then field_bytes data else pb_return ())
           else if htype = PB_HTYPE_REPEATED then
             pb_bind (if size_offset field \<noteq> 0 then pb_lift (read_le m 4 pSize)
                      else pb_return (unat (array_size field))) (\<lambda>count.
               encode_array m field data count func)
           else if htype = PB_HTYPE_ONEOF then
             pb_bind (if size_offset field \<noteq> 0 then pb_lift (read_le m 4 pSize) else c_undef) (\<lambda>which.
               if which = unat (f_tag field) then field_bytes data else pb_return ())
           else out_error ''invalid field type'')))"

text \<open>A \<open>pb_callback_t\<close>: the function, then the argument, whose address the function gets.\<close>

definition encode_callback_field :: "'s pb_env \<Rightarrow> pb_field \<Rightarrow> 's encoder" where
  "encode_callback_field E field pData =
     pb_bind (pb_lift (read_ptr (env_mem E) pData)) (\<lambda>func s.
       if func = 0 then pb_return () s
       else case user_encode E func field (pData + 8) s of
              Undef \<Rightarrow> Undef
            | Ret (None, s) \<Rightarrow> out_error ''callback error'' s
            | Ret (Some _, s) \<Rightarrow> pb_return () s)"

definition encode_field ::
    "'s pb_env \<Rightarrow> (u64 \<Rightarrow> 's encoder) \<Rightarrow> (u64 \<Rightarrow> u64 \<Rightarrow> bool c_outcome) \<Rightarrow> pb_field \<Rightarrow> 's encoder" where
  "encode_field E encode check_sub field pData =
     (let atype = PB_ATYPE (f_type field)
      in if atype \<in> {PB_ATYPE_STATIC, PB_ATYPE_POINTER}
         then encode_basic_field (env_mem E) encode check_sub field pData
         else if atype = PB_ATYPE_CALLBACK then encode_callback_field E field pData
         else out_error ''invalid field type'')"

text \<open>
  The members of \<open>pb_extension_t\<close> are \<open>type\<close>, \<open>dest\<close> and \<open>next\<close>; of its type, \<open>decode\<close>, \<open>encode\<close>
  and \<open>arg\<close>, which is a field description for the default handler.
\<close>

definition default_extension_encoder :: "'s pb_env \<Rightarrow> (pb_field \<Rightarrow> 's encoder) \<Rightarrow> 's encoder" where
  "default_extension_encoder E enc extension =
     pb_bind (pb_lift (outcome_bind (read_ptr (env_mem E) extension) (\<lambda>type. read_ptr (env_mem E) (type + 16)))) (\<lambda>arg.
       case descriptors E arg of
         Some (field # _) \<Rightarrow>
           if PB_ATYPE (f_type field) = PB_ATYPE_POINTER then enc field (extension + 8)
           else pb_bind (pb_lift (read_ptr (env_mem E) (extension + 8))) (enc field)
       | _ \<Rightarrow> c_undef)"

text \<open>The chain of extensions; \<open>n\<close> bounds its length, since a cyclic one has no end.\<close>

fun encode_extensions :: "'s pb_env \<Rightarrow> (pb_field \<Rightarrow> 's encoder) \<Rightarrow> nat \<Rightarrow> 's encoder" where
  "encode_extensions E enc 0 extension = (if extension = 0 then pb_return () else c_undef)"
| "encode_extensions E enc (Suc n) extension =
     (if extension = 0 then pb_return ()
      else pb_bind (pb_lift (outcome_bind (read_ptr (env_mem E) extension) (\<lambda>type. read_ptr (env_mem E) (type + 8)))) (\<lambda>func.
           pb_bind (if func \<noteq> 0 then user_extension E func extension
                    else default_extension_encoder E enc extension) (\<lambda>_.
           pb_bind (pb_lift (read_ptr (env_mem E) (extension + 16))) (encode_extensions E enc n))))"

definition encode_extension_field :: "'s pb_env \<Rightarrow> (pb_field \<Rightarrow> 's encoder) \<Rightarrow> nat \<Rightarrow> 's encoder" where
  "encode_extension_field E enc n pData =
     pb_bind (pb_lift (read_ptr (env_mem E) pData)) (encode_extensions E enc n)"

section \<open>Messages\<close>

text \<open>The loop of \<open>pb_encode\<close> over the fields.\<close>

function encode_fields :: "(pb_field \<Rightarrow> 's encoder) \<Rightarrow> pb_field_iter \<Rightarrow> ('s, unit) pb_out" where
  "encode_fields enc iter =
     pb_bind (enc (it_start iter ! it_pos iter) (it_pData iter)) (\<lambda>_.
       case pb_field_iter_next iter of
         Undef \<Rightarrow> c_undef
       | Ret (again, iter) \<Rightarrow> if again then encode_fields enc iter else pb_return ())"
  by pat_completeness auto

termination encode_fields
  by (relation "measure (\<lambda>(_, iter). length (it_start iter) - it_pos iter)")
    (auto dest!: iter_next_pos)

declare encode_fields.simps [simp del]

fun pb_encode :: "'s pb_env \<Rightarrow> nat \<Rightarrow> u64 \<Rightarrow> 's encoder" where
  "pb_encode E 0 fields_ptr src_struct = c_undef"
| "pb_encode E (Suc depth) fields_ptr src_struct =
     (case descriptors E fields_ptr of
        None \<Rightarrow> c_undef
      | Some fs \<Rightarrow>
          pb_bind (pb_lift (pb_field_iter_begin fs src_struct)) (\<lambda>(some, iter).
            if \<not> some then pb_return ()
            else encode_fields (\<lambda>field pData.
                   let enc = encode_field E (pb_encode E depth) (check_submessage E depth)
                   in if PB_LTYPE (f_type field) = PB_LTYPE_EXTENSION
                      then encode_extension_field E enc depth pData
                      else enc field pData) iter))"

definition pb_encode_delimited :: "'s pb_env \<Rightarrow> nat \<Rightarrow> u64 \<Rightarrow> 's encoder" where
  "pb_encode_delimited E depth fields_ptr src_struct = pb_encode_submessage (pb_encode E depth fields_ptr src_struct)"

definition pb_encode_nullterminated :: "'s pb_env \<Rightarrow> nat \<Rightarrow> u64 \<Rightarrow> 's encoder" where
  "pb_encode_nullterminated E depth fields_ptr src_struct =
     pb_bind (pb_encode E depth fields_ptr src_struct) (\<lambda>_. pb_write (Some [0]) 1)"

text \<open>The size, or \<open>None\<close> for \<open>false\<close>; \<open>st\<close> is the state the sizing stream is given.\<close>

definition pb_get_encoded_size :: "'s pb_env \<Rightarrow> nat \<Rightarrow> u64 \<Rightarrow> u64 \<Rightarrow> 's \<Rightarrow> nat option c_outcome" where
  "pb_get_encoded_size E depth fields_ptr src_struct st =
     outcome_bind (pb_encode E depth fields_ptr src_struct (PB_OSTREAM_SIZING st)) (\<lambda>(r, stream).
       Ret (case r of None \<Rightarrow> None | Some _ \<Rightarrow> Some (bytes_written stream)))"

end
