(* ===== verification/Pb_Read.thy ===== *)
theory Pb_Read
  imports Pb_Stream
begin

text \<open>
  What the input operations of nanopb read. A source of bytes is a callback and the bytes its
  state still holds; \<open>byte_source\<close> states that the callback delivers them in order. Every
  operation is then a reader of the bytes the stream may still read (its \<open>bytes_left\<close>), and
  the proofs below give it the reader it implements, errors included.
\<close>

section \<open>Streams over a source\<close>

text \<open>
  The stream may read \<open>bs\<close>; the source holds \<open>x\<close> after that, which no operation may touch.
\<close>

definition stream_at :: "('s \<Rightarrow> bytes) \<Rightarrow> 's in_callback \<Rightarrow> 's pb_istream \<Rightarrow> bytes \<Rightarrow> bytes \<Rightarrow> bool" where
  "stream_at content cb s bs x =
     (in_callback s = cb \<and> bytes_left s = length bs \<and> content (in_state s) = bs @ x)"

text \<open>
  An operation implements a reader: it returns what the reader does and leaves the stream at
  what the reader leaves. A failure has an error message; a success keeps the old one.
\<close>

definition pb_reads :: "('s \<Rightarrow> bytes) \<Rightarrow> 's in_callback \<Rightarrow> ('s, 'a) pb_in \<Rightarrow> 'a rd \<Rightarrow> bool" where
  "pb_reads content cb f r =
     (\<forall>s bs x. stream_at content cb s bs x \<longrightarrow>
        (\<exists>s'. f s = Ret (fst (r bs), s') \<and> stream_at content cb s' (snd (r bs)) x \<and>
              (if fst (r bs) = None then in_errmsg s' \<noteq> None else in_errmsg s' = in_errmsg s)))"

lemma pb_readsI:
  "(\<And>s bs x. stream_at content cb s bs x \<Longrightarrow>
      \<exists>s'. f s = Ret (fst (r bs), s') \<and> stream_at content cb s' (snd (r bs)) x \<and>
           (if fst (r bs) = None then in_errmsg s' \<noteq> None else in_errmsg s' = in_errmsg s)) \<Longrightarrow>
   pb_reads content cb f r"
  by (simp add: pb_reads_def)

lemma pb_readsD:
  assumes "pb_reads content cb f r" and "stream_at content cb s bs x"
  obtains s' where "f s = Ret (fst (r bs), s')" and "stream_at content cb s' (snd (r bs)) x"
    and "if fst (r bs) = None then in_errmsg s' \<noteq> None else in_errmsg s' = in_errmsg s"
  using assms unfolding pb_reads_def by blast

named_theorems pb_intros \<open>the readers that operations implement\<close>

lemma pb_reads_return [pb_intros]: "pb_reads content cb (pb_return x) (rd_return x)"
  by (simp add: pb_reads_def)

lemma pb_reads_error [pb_intros]: "pb_reads content cb (in_error msg) rd_fail"
  by (auto simp: pb_reads_def in_error_def stream_at_def split: option.splits)

lemma pb_reads_bind [pb_intros]:
  assumes "pb_reads content cb f r" and "\<And>x. pb_reads content cb (g x) (q x)"
  shows "pb_reads content cb (pb_bind f g) (rd_bind r q)"
proof (rule pb_readsI)
  fix s bs x
  assume "stream_at content cb s bs x"
  with assms(1) obtain s' where f: "f s = Ret (fst (r bs), s')"
    and at: "stream_at content cb s' (snd (r bs)) x"
    and msg: "if fst (r bs) = None then in_errmsg s' \<noteq> None else in_errmsg s' = in_errmsg s"
    by (rule pb_readsD)
  show "\<exists>s'. pb_bind f g s = Ret (fst (rd_bind r q bs), s') \<and> stream_at content cb s' (snd (rd_bind r q bs)) x \<and>
    (if fst (rd_bind r q bs) = None then in_errmsg s' \<noteq> None else in_errmsg s' = in_errmsg s)"
  proof (cases "fst (r bs)")
    case None
    with f at msg show ?thesis by (simp add: pb_bind_def rd_bind_def split_beta)
  next
    case (Some v)
    from assms(2) [of v] at obtain t where "g v s' = Ret (fst (q v (snd (r bs))), t)"
      and "stream_at content cb t (snd (q v (snd (r bs)))) x"
      and "if fst (q v (snd (r bs))) = None then in_errmsg t \<noteq> None else in_errmsg t = in_errmsg s'"
      by (rule pb_readsD)
    with Some f msg show ?thesis by (auto simp: pb_bind_def rd_bind_def split_beta)
  qed
qed

lemma pb_reads_if [pb_intros]:
  "pb_reads content cb f r \<Longrightarrow> pb_reads content cb g q \<Longrightarrow>
   pb_reads content cb (if c then f else g) (if c then r else q)"
  by simp

lemma pb_reads_eq:
  assumes "pb_reads content cb f r" and "\<And>s. in_callback s = cb \<Longrightarrow> g s = f s" and "\<And>bs. r bs = q bs"
  shows "pb_reads content cb g q"
proof -
  have "r = q" using assms(3) by (rule ext)
  with assms(1,2) show ?thesis by (simp add: pb_reads_def stream_at_def)
qed

section \<open>The readers\<close>

definition rd_byte :: "u8 rd" where
  "rd_byte bs = (case bs of [] \<Rightarrow> (None, []) | b # bs \<Rightarrow> (Some b, bs))"

definition rd_once :: "bool \<Rightarrow> nat \<Rightarrow> bytes rd" where
  "rd_once buf_null n bs =
     (if n \<le> length bs then (Some (if buf_null then [] else take n bs), drop n bs) else (None, bs))"

definition rd_take :: "nat \<Rightarrow> bytes rd" where
  "rd_take n bs = (if n \<le> length bs then (Some (take n bs), drop n bs) else (None, bs))"

text \<open>
  Skipping on a stream that is not a buffer stops where the last whole piece ends; on a buffer
  nothing is skipped when not everything can be.
\<close>

definition rd_skip :: "bool \<Rightarrow> nat \<Rightarrow> bytes rd" where
  "rd_skip is_buf n bs =
     (if n \<le> length bs then (Some [], drop n bs)
      else (None, if is_buf then bs else drop (16 * min (length bs div 16) ((n - 1) div 16)) bs))"

text \<open>The groups of a varint of at most \<open>n\<close> bytes.\<close>

fun rd_groups :: "nat \<Rightarrow> bytes rd" where
  "rd_groups 0 bs = (None, bs)"
| "rd_groups (Suc n) [] = (None, [])"
| "rd_groups (Suc n) (b # bs) =
     (if b AND 0x80 = 0 then (Some [b], bs)
      else (case rd_groups n bs of (None, r) \<Rightarrow> (None, r) | (Some gs, r) \<Rightarrow> (Some (b # gs), r)))"

text \<open>The number that groups stand for, the lowest first.\<close>

fun groups_nat :: "bytes \<Rightarrow> nat" where
  "groups_nat [] = 0"
| "groups_nat (b # bs) = unat b mod 128 + 128 * groups_nat bs"

definition rd_varint :: "u64 rd" where
  "rd_varint = rd_bind (rd_groups 10) (\<lambda>gs. rd_return (word_of_nat (groups_nat gs)))"

lemma rd_skip_piece:
  assumes "16 < n"
  shows "rd_skip False n bs = (if 16 \<le> length bs then rd_skip False (n - 16) (drop 16 bs) else (None, bs))"
proof (cases "16 \<le> length bs")
  case True
  have "16 * min (length bs div 16) ((n - 1) div 16) =
      16 * min ((length bs - 16) div 16) ((n - 17) div 16) + 16"
    using True assms le_div_geq [of 16 "length bs"] le_div_geq [of 16 "n - 1"] by simp
  moreover have "n \<le> length bs \<longleftrightarrow> n - 16 \<le> length bs - 16" using True assms by linarith
  ultimately show ?thesis using True assms by (simp add: rd_skip_def)
next
  case False
  then show ?thesis using assms by (simp add: rd_skip_def)
qed

lemma rd_groups_None: "rd_groups n bs = (None, r) \<Longrightarrow> r = drop n bs"
  by (induction n bs arbitrary: r rule: rd_groups.induct) (auto split: if_splits prod.splits option.splits)

text \<open>Groups: bytes with the top bit set, then one without.\<close>

definition is_groups :: "bytes \<Rightarrow> bool" where
  "is_groups gs = (gs \<noteq> [] \<and> (\<forall>b \<in> set (butlast gs). b AND 0x80 \<noteq> 0) \<and> last gs AND 0x80 = 0)"

lemma is_groups_Cons: "is_groups (b # gs) \<longleftrightarrow> (if b AND 0x80 = 0 then gs = [] else is_groups gs)"
  by (auto simp: is_groups_def)

lemma rd_groups_Some: "rd_groups n bs = (Some gs, r) \<longleftrightarrow> is_groups gs \<and> length gs \<le> n \<and> bs = gs @ r"
proof (induction n bs arbitrary: gs rule: rd_groups.induct)
  case (3 n b bs)
  have step: "rd_groups (Suc n) (b # bs) = (Some gs, r) \<longleftrightarrow>
      (if b AND 0x80 = 0 then gs = [b] \<and> r = bs else \<exists>gs'. gs = b # gs' \<and> rd_groups n bs = (Some gs', r))"
    by (auto split: prod.splits option.splits)
  show ?case
  proof (cases "b AND 0x80 = 0")
    case True
    with step show ?thesis by (cases gs) (auto simp: is_groups_Cons, simp_all add: is_groups_def)
  next
    case False
    have nil: "\<not> is_groups []" by (simp add: is_groups_def)
    from False 3 step show ?thesis by (cases gs) (simp_all add: is_groups_Cons nil, blast)
  qed
qed (auto simp: is_groups_def)

text \<open>Adding a group to a result whose bits are all below it.\<close>

lemma or_push_add:
  fixes result :: "'a :: len word"
  assumes "unat result < 2 ^ p"
  shows "result OR push_bit p w = result + push_bit p w"
proof -
  have "take_bit p result = result"
    using assms by (intro unsigned_word_eqI [where ?'a = nat])
      (simp add: unsigned_take_bit_eq take_bit_nat_eq_self)
  then have "\<not> bit result k" if "p \<le> k" for k
    using that by (metis bit_take_bit_iff not_less)
  then have "result + push_bit p w = result OR push_bit p w"
    by (intro disjunctive_add_eq_or) (auto simp: bit_eq_iff bit_simps)
  then show ?thesis ..
qed

lemma or_group:
  fixes result :: "'a :: len word"
  assumes "unat result < 2 ^ p" and "8 \<le> LENGTH('a)"
  shows "result OR push_bit p (ucast ((b :: u8) AND 0x7F)) = word_of_nat (unat result + unat b mod 128 * 2 ^ p)"
    and "unat (result OR push_bit p (ucast ((b :: u8) AND 0x7F))) < 2 ^ (p + 7)"
proof -
  let ?x = "unat b mod 128"
  have "unat (ucast (b AND 0x7F) :: 'a word) = ?x"
    using assms(2) by (simp add: unat_ucast_up unat_and_7f)
  then have "(ucast (b AND 0x7F) :: 'a word) = word_of_nat ?x"
    by (metis word_of_nat_unat_id)
  then have "push_bit p (ucast (b AND 0x7F) :: 'a word) = word_of_nat (?x * 2 ^ p)"
    by (simp add: push_bit_eq_mult)
  then show eq: "result OR push_bit p (ucast (b AND 0x7F)) = word_of_nat (unat result + ?x * 2 ^ p)"
    using or_push_add [OF assms(1), of "ucast (b AND 0x7F)"] by (simp only: of_nat_add word_of_nat_unat_id)
  have "unat (word_of_nat (unat result + ?x * 2 ^ p) :: 'a word) \<le> unat result + ?x * 2 ^ p"
    by (simp only: unat_of_nat mod_less_eq_dividend)
  also have "\<dots> < (?x + 1) * 2 ^ p" using assms(1) by simp
  also have "\<dots> \<le> 128 * 2 ^ p" by (intro mult_right_mono) simp_all
  finally show "unat (result OR push_bit p (ucast (b AND 0x7F))) < 2 ^ (p + 7)"
    by (simp only: eq power_add) simp
qed

text \<open>
  The reader of \<open>pb_decode_varint32\<close>. Its loop counts the bits in a byte, as the code does.
\<close>

fun rd_varint32_loop :: "u8 \<Rightarrow> u32 \<Rightarrow> (u32 \<times> u8 \<times> u8) rd" where
  "rd_varint32_loop bitpos result [] = (None, [])"
| "rd_varint32_loop bitpos result (b # bs) =
     (if 32 \<le> bitpos \<and> b AND 0x7F \<noteq> 0 \<and> (drop_bit 31 result = 0 \<or> b \<noteq> (if bitpos < 63 then 0xFF else 0x01))
      then (None, bs)
      else let result' = (if 32 \<le> bitpos then result else result OR push_bit (unat bitpos) (ucast (b AND 0x7F)))
           in if b AND 0x80 \<noteq> 0 then rd_varint32_loop (bitpos + 7) result' bs
              else (Some (result', bitpos + 7, b), bs))"

definition rd_varint32 :: "u32 rd" where
  "rd_varint32 =
     rd_bind rd_byte (\<lambda>b.
       if b AND 0x80 = 0 then rd_return (ucast b)
       else rd_bind (rd_varint32_loop 7 (ucast (b AND 0x7F))) (\<lambda>(result, bitpos, b).
              if bitpos = 35 \<and> b AND 0x70 \<noteq> 0 then rd_fail else rd_return result))"

definition rd_skip_string :: "bool \<Rightarrow> unit rd" where
  "rd_skip_string is_buf =
     rd_bind rd_varint32 (\<lambda>len. rd_bind (rd_skip is_buf (unat len)) (\<lambda>_. rd_return ()))"

definition rd_skip_field :: "bool \<Rightarrow> u32 \<Rightarrow> unit rd" where
  "rd_skip_field is_buf wire_type =
     (if wire_type = 0 then (\<lambda>bs. map_prod (map_option (\<lambda>_. ())) id (rd_groups (Suc (length bs)) bs))
      else if wire_type = 1 then rd_bind (rd_skip is_buf 8) (\<lambda>_. rd_return ())
      else if wire_type = 2 then rd_skip_string is_buf
      else if wire_type = 5 then rd_bind (rd_skip is_buf 4) (\<lambda>_. rd_return ())
      else rd_fail)"

section \<open>Sources\<close>

locale byte_source =
  fixes is_buf :: bool
    and call :: "'s \<Rightarrow> bool \<Rightarrow> nat \<Rightarrow> (bytes option \<times> 's) c_outcome"
    and content :: "'s \<Rightarrow> bytes"
  assumes delivers: "0 < n \<Longrightarrow> n \<le> length (content st) \<Longrightarrow> nul \<longrightarrow> is_buf \<Longrightarrow>
    \<exists>st'. call st nul n = Ret (Some (if nul then [] else take n (content st)), st') \<and>
          content st' = drop n (content st)"
begin

abbreviation cb :: "'s in_callback" where
  "cb \<equiv> In_callback is_buf call"

lemma read_once:
  assumes "nul \<longrightarrow> is_buf"
  shows "pb_reads content cb (read_once nul n) (rd_once nul n)"
proof (rule pb_readsI)
  fix s bs x
  assume at: "stream_at content cb s bs x"
  show "\<exists>s'. read_once nul n s = Ret (fst (rd_once nul n bs), s') \<and> stream_at content cb s' (snd (rd_once nul n bs)) x \<and>
    (if fst (rd_once nul n bs) = None then in_errmsg s' \<noteq> None else in_errmsg s' = in_errmsg s)"
  proof (cases "0 < n \<and> n \<le> length bs")
    case True
    with at assms obtain st' where "call (in_state s) nul n = Ret (Some (if nul then [] else take n (bs @ x)), st')"
      and "content st' = drop n (bs @ x)"
      using delivers [of n "in_state s" nul] by (auto simp: stream_at_def)
    with True at show ?thesis by (auto simp: read_once_def stream_at_def rd_once_def)
  next
    case False
    with at show ?thesis by (auto simp: read_once_def in_error_def stream_at_def rd_once_def split: option.splits)
  qed
qed

lemma pb_read [pb_intros]: "pb_reads content cb (pb_read False n) (rd_take n)"
  by (rule pb_reads_eq [OF read_once [of False n]])
    (simp_all add: pb_read_def read_once_def rd_take_def rd_once_def)

lemma pb_readbyte [pb_intros]: "pb_reads content cb pb_readbyte rd_byte"
proof (rule pb_readsI)
  fix s bs x
  assume at: "stream_at content cb s bs x"
  show "\<exists>s'. pb_readbyte s = Ret (fst (rd_byte bs), s') \<and> stream_at content cb s' (snd (rd_byte bs)) x \<and>
    (if fst (rd_byte bs) = None then in_errmsg s' \<noteq> None else in_errmsg s' = in_errmsg s)"
  proof (cases bs)
    case Nil
    with at show ?thesis by (auto simp: pb_readbyte_def in_error_def stream_at_def rd_byte_def split: option.splits)
  next
    case (Cons b bs')
    with at obtain st' where "call (in_state s) False 1 = Ret (Some [b], st')" and "content st' = bs' @ x"
      using delivers [of 1 "in_state s" False] by (auto simp: stream_at_def)
    with Cons at show ?thesis by (auto simp: pb_readbyte_def stream_at_def rd_byte_def)
  qed
qed

lemma skip_pieces: "pb_reads content cb (skip_pieces n) (rd_skip False n)"
proof (induction n rule: less_induct)
  case (less n)
  show ?case
  proof (cases "16 < n")
    case True
    have "pb_reads content cb (pb_bind (read_once False 16) (\<lambda>_. skip_pieces (n - 16)))
        (rd_bind (rd_once False 16) (\<lambda>_. rd_skip False (n - 16)))"
      using True by (intro pb_reads_bind read_once less) auto
    then show ?thesis
      by (rule pb_reads_eq) (use True in \<open>simp_all add: skip_pieces.simps [of n] rd_bind_def rd_once_def rd_skip_piece\<close>)
  next
    case False
    have "pb_reads content cb (pb_bind (read_once False n) (\<lambda>_. pb_return []))
        (rd_bind (rd_once False n) (\<lambda>_. rd_return []))"
      by (intro pb_intros read_once) auto
    then show ?thesis
      by (rule pb_reads_eq) (use False in \<open>simp_all add: skip_pieces.simps [of n] rd_bind_def rd_once_def rd_skip_def\<close>)
  qed
qed

lemma pb_skip [pb_intros]: "pb_reads content cb (pb_read True n) (rd_skip is_buf n)"
proof (cases is_buf)
  case True
  then show ?thesis
    by (intro pb_reads_eq [OF read_once [of True n]])
      (simp_all add: pb_read_def read_once_def rd_skip_def rd_once_def)
next
  case False
  have "pb_read True n s = skip_pieces n s" if "in_callback s = cb" for s :: "'s pb_istream"
    using that False by (cases "n = 0") (simp_all add: pb_read_def skip_pieces.simps [of 0] read_once_def pb_bind_def)
  then show ?thesis
    by (rule pb_reads_eq [OF skip_pieces]) (simp_all add: False)
qed

text \<open>The loops over the bytes of a varint.\<close>

lemma pb_skip_varint:
  "pb_reads content cb pb_skip_varint (\<lambda>bs. map_prod (map_option (\<lambda>_. ())) id (rd_groups (Suc (length bs)) bs))"
proof (rule pb_readsI)
  fix s bs x
  assume "stream_at content cb s bs x"
  then show "\<exists>s'. pb_skip_varint s = Ret (fst (map_prod (map_option (\<lambda>_. ())) id (rd_groups (Suc (length bs)) bs)), s') \<and>
      stream_at content cb s' (snd (map_prod (map_option (\<lambda>_. ())) id (rd_groups (Suc (length bs)) bs))) x \<and>
      (if fst (map_prod (map_option (\<lambda>_. ())) id (rd_groups (Suc (length bs)) bs)) = None
       then in_errmsg s' \<noteq> None else in_errmsg s' = in_errmsg s)"
  proof (induction bs arbitrary: s)
    case Nil
    from pb_readsD [OF pb_read [of 1] Nil] obtain s' where "pb_read False 1 s = Ret (None, s')"
      and "stream_at content cb s' [] x" and "in_errmsg s' \<noteq> None"
      by (auto simp: rd_take_def)
    then show ?case by (auto simp: pb_skip_varint.simps [of s] pb_bind_def)
  next
    case (Cons b bs)
    from pb_readsD [OF pb_read [of 1] Cons.prems] obtain s' where r: "pb_read False 1 s = Ret (Some [b], s')"
      and at: "stream_at content cb s' bs x" and msg: "in_errmsg s' = in_errmsg s"
      by (auto simp: rd_take_def)
    show ?case
    proof (cases "b AND 0x80 = 0")
      case True
      with r at msg show ?thesis by (auto simp: pb_skip_varint.simps [of s] pb_bind_def)
    next
      case False
      with r have "pb_skip_varint s = pb_skip_varint s'" by (simp add: pb_skip_varint.simps [of s] pb_bind_def)
      with False Cons.IH [OF at] msg show ?thesis
        by (auto split: prod.splits option.splits)
    qed
  qed
qed

lemma varint_loop:
  assumes "i \<le> 10" and "unat result < 2 ^ (7 * i)"
  shows "pb_reads content cb (varint_loop (word_of_nat (7 * i)) result)
    (rd_bind (rd_groups (10 - i)) (\<lambda>gs. rd_return (word_of_nat (unat result + groups_nat gs * 2 ^ (7 * i)))))"
  using assms
proof (induction "10 - i" arbitrary: i result)
  case 0
  then have i: "i = 10" by simp
  have "varint_loop (word_of_nat (7 * i)) result s = in_error ''varint overflow'' s" for s :: "'s pb_istream"
    by (simp add: varint_loop.simps [of _ result] i)
  then show ?case
    by (intro pb_reads_eq [OF pb_reads_error]) (simp_all add: i rd_bind_def)
next
  case (Suc n)
  have i: "10 - i = Suc (10 - Suc i)" "i < 10" using Suc.hyps(2) by simp_all
  define p :: u8 where "p = word_of_nat (7 * i)"
  have pos: "unat p = 7 * i" and small: "\<not> 64 \<le> p" and p: "p + 7 = word_of_nat (7 * Suc i)"
    using i(2) unat_word_of_nat_less [of "7 * i", where ?'a = 8]
    by (simp_all add: word_le_nat_alt p_def del: of_nat_mult)
  let ?r = "\<lambda>b :: u8. result OR push_bit (7 * i) (ucast (b AND 0x7F))"
  have less: "unat (?r b) < 2 ^ (7 * Suc i)" for b
    using or_group(2) [OF Suc.prems(2), of b] by (simp add: add.commute)
  have IH: "pb_reads content cb (varint_loop (word_of_nat (7 * Suc i)) (?r b))
      (rd_bind (rd_groups (10 - Suc i)) (\<lambda>gs. rd_return (word_of_nat (unat (?r b) + groups_nat gs * 2 ^ (7 * Suc i)))))" for b
    using Suc.hyps(2) by (intro Suc.hyps(1) less) simp_all
  have "pb_reads content cb
      (pb_bind pb_readbyte (\<lambda>b. if b AND 0x80 \<noteq> 0 then varint_loop (word_of_nat (7 * Suc i)) (?r b) else pb_return (?r b)))
      (rd_bind rd_byte (\<lambda>b. if b AND 0x80 \<noteq> 0
        then rd_bind (rd_groups (10 - Suc i)) (\<lambda>gs. rd_return (word_of_nat (unat (?r b) + groups_nat gs * 2 ^ (7 * Suc i))))
        else rd_return (?r b)))"
    by (intro pb_intros IH)
  then show ?case
  proof (rule pb_reads_eq)
    fix s :: "'s pb_istream"
    show "varint_loop (word_of_nat (7 * i)) result s =
      pb_bind pb_readbyte (\<lambda>b. if b AND 0x80 \<noteq> 0 then varint_loop (word_of_nat (7 * Suc i)) (?r b) else pb_return (?r b)) s"
      using small unfolding p_def [symmetric] varint_loop.simps [of p] p [symmetric] pos
      by (simp only: if_False Let_def) (intro pb_bind_cong refl, simp)
  next
    fix bs
    show "rd_bind rd_byte (\<lambda>b. if b AND 0x80 \<noteq> 0
        then rd_bind (rd_groups (10 - Suc i)) (\<lambda>gs. rd_return (word_of_nat (unat (?r b) + groups_nat gs * 2 ^ (7 * Suc i))))
        else rd_return (?r b)) bs =
      rd_bind (rd_groups (10 - i)) (\<lambda>gs. rd_return (word_of_nat (unat result + groups_nat gs * 2 ^ (7 * i)))) bs"
      unfolding i(1) using or_group(1) [OF Suc.prems(2)]
      by (cases bs) (auto simp: rd_bind_def rd_byte_def algebra_simps power_add split: prod.splits option.splits)
  qed
qed

lemma pb_decode_varint [pb_intros]: "pb_reads content cb pb_decode_varint rd_varint"
  using varint_loop [of 0 0] by (simp add: pb_decode_varint_def rd_varint_def)

lemma varint32_loop: "pb_reads content cb (varint32_loop bitpos result) (rd_varint32_loop bitpos result)"
proof (rule pb_readsI)
  fix s bs x
  assume "stream_at content cb s bs x"
  then show "\<exists>s'. varint32_loop bitpos result s = Ret (fst (rd_varint32_loop bitpos result bs), s') \<and>
      stream_at content cb s' (snd (rd_varint32_loop bitpos result bs)) x \<and>
      (if fst (rd_varint32_loop bitpos result bs) = None
       then in_errmsg s' \<noteq> None else in_errmsg s' = in_errmsg s)"
  proof (induction bs arbitrary: bitpos result s)
    case Nil
    from pb_readsD [OF pb_readbyte Nil] obtain s' where "pb_readbyte s = Ret (None, s')"
      and "stream_at content cb s' [] x" and "in_errmsg s' \<noteq> None"
      by (auto simp: rd_byte_def)
    then show ?case by (auto simp: varint32_loop.simps [of _ _ s] pb_bind_def)
  next
    case (Cons b bs)
    from pb_readsD [OF pb_readbyte Cons.prems] obtain s' where r: "pb_readbyte s = Ret (Some b, s')"
      and at: "stream_at content cb s' bs x" and msg: "in_errmsg s' = in_errmsg s"
      by (auto simp: rd_byte_def)
    let ?over = "32 \<le> bitpos \<and> b AND 0x7F \<noteq> 0 \<and> (drop_bit 31 result = 0 \<or> b \<noteq> (if bitpos < 63 then 0xFF else 0x01))"
    let ?result = "if 32 \<le> bitpos then result else result OR push_bit (unat bitpos) (ucast (b AND 0x7F))"
    have step: "varint32_loop bitpos result s =
        (if ?over then in_error ''varint overflow'' s'
         else if b AND 0x80 \<noteq> 0 then varint32_loop (bitpos + 7) ?result s'
         else Ret (Some (?result, bitpos + 7, b), s'))"
      unfolding varint32_loop.simps [of bitpos result s]
        pb_bind_Some [where f = pb_readbyte and s = s, OF r]
      by (simp only: Let_def pb_return_apply)
    show ?case
    proof (cases ?over)
      case True
      with step at show ?thesis
        by (auto simp: in_error_def stream_at_def split: option.splits)
    next
      case ok: False
      show ?thesis
      proof (cases "b AND 0x80 = 0")
        case True
        with step ok at msg show ?thesis by (auto simp: Let_def)
      next
        case False
        with ok have "rd_varint32_loop bitpos result (b # bs) = rd_varint32_loop (bitpos + 7) ?result bs"
          by (simp only: rd_varint32_loop.simps Let_def if_False) simp
        moreover from step ok False have "varint32_loop bitpos result s = varint32_loop (bitpos + 7) ?result s'"
          by (simp only: if_False) simp
        ultimately show ?thesis using Cons.IH [OF at, of "bitpos + 7" ?result] by (simp only: msg)
      qed
    qed
  qed
qed

lemma decode_varint32_eof:
  assumes "stream_at content cb s bs x"
  shows "\<exists>s'. pb_decode_varint32_eof s = Ret ((fst (rd_varint32 bs), bs = []), s') \<and>
    stream_at content cb s' (snd (rd_varint32 bs)) x \<and>
    (if fst (rd_varint32 bs) = None then in_errmsg s' \<noteq> None else in_errmsg s' = in_errmsg s)"
proof (cases bs)
  case Nil
  with pb_readsD [OF pb_readbyte assms] obtain s' where "pb_readbyte s = Ret (None, s')"
    and "stream_at content cb s' [] x" and "in_errmsg s' \<noteq> None"
    by (auto simp: rd_byte_def)
  with Nil show ?thesis
    by (auto simp: pb_decode_varint32_eof_def rd_varint32_def rd_bind_def rd_byte_def stream_at_def)
next
  case (Cons b bs')
  with pb_readsD [OF pb_readbyte assms] obtain s' where r: "pb_readbyte s = Ret (Some b, s')"
    and at: "stream_at content cb s' bs' x" and msg: "in_errmsg s' = in_errmsg s"
    by (auto simp: rd_byte_def)
  show ?thesis
  proof (cases "b AND 0x80 = 0")
    case True
    with r at msg Cons show ?thesis
      by (auto simp: pb_decode_varint32_eof_def rd_varint32_def rd_bind_def rd_byte_def)
  next
    case False
    let ?f = "pb_bind (varint32_loop 7 (ucast (b AND 0x7F))) (\<lambda>(result, bitpos, byte).
      if bitpos = 35 \<and> byte AND 0x70 \<noteq> 0 then in_error ''varint overflow'' else pb_return result)"
    let ?r = "rd_bind (rd_varint32_loop 7 (ucast (b AND 0x7F))) (\<lambda>(result, bitpos, byte).
      if bitpos = 35 \<and> byte AND 0x70 \<noteq> 0 then rd_fail else rd_return result)"
    have "pb_reads content cb ?f ?r"
      by (intro pb_reads_bind varint32_loop) (auto intro!: pb_intros)
    from pb_readsD [OF this at] obtain t where "?f s' = Ret (fst (?r bs'), t)"
      and "stream_at content cb t (snd (?r bs')) x"
      and "if fst (?r bs') = None then in_errmsg t \<noteq> None else in_errmsg t = in_errmsg s'" .
    moreover have "pb_decode_varint32_eof s = c_bind ?f (\<lambda>r. c_return (r, False)) s'"
      using False r by (simp add: pb_decode_varint32_eof_def)
    moreover have "rd_varint32 bs = ?r bs'"
      using False Cons by (simp add: rd_varint32_def rd_bind_def [of rd_byte] rd_byte_def)
    ultimately show ?thesis using Cons msg by (auto simp: c_bind_def)
  qed
qed

lemma pb_decode_varint32 [pb_intros]: "pb_reads content cb pb_decode_varint32 rd_varint32"
proof (rule pb_readsI)
  fix s bs x
  assume "stream_at content cb s bs x"
  from decode_varint32_eof [OF this]
  show "\<exists>s'. pb_decode_varint32 s = Ret (fst (rd_varint32 bs), s') \<and> stream_at content cb s' (snd (rd_varint32 bs)) x \<and>
    (if fst (rd_varint32 bs) = None then in_errmsg s' \<noteq> None else in_errmsg s' = in_errmsg s)"
    by (elim exE conjE) (auto simp: pb_decode_varint32_def)
qed

lemma pb_skip_string: "pb_reads content cb pb_skip_string (rd_skip_string is_buf)"
  unfolding pb_skip_string_def rd_skip_string_def by (intro pb_intros)

lemma pb_skip_field: "pb_reads content cb (pb_skip_field wire_type) (rd_skip_field is_buf wire_type)"
  unfolding pb_skip_field_def rd_skip_field_def
  by (intro pb_reads_if pb_skip_varint pb_skip_string) (intro pb_intros)+

lemma pb_decode_tag:
  assumes "stream_at content cb s bs x"
  shows "\<exists>s'. pb_decode_tag s =
      Ret ((case fst (rd_varint32 bs) of
              None \<Rightarrow> (None, bs = [])
            | Some t \<Rightarrow> if t = 0 then (None, True) else (Some (t AND 7, drop_bit 3 t), False)), s') \<and>
    stream_at content cb s' (snd (rd_varint32 bs)) x"
  using decode_varint32_eof [OF assms]
  by (elim exE conjE) (auto simp: pb_decode_tag_def c_bind_def split: option.splits)

lemma raw_varint:
  "stream_at content cb s bs x \<Longrightarrow>
   \<exists>s'. raw_varint n s = Ret (fst (rd_groups n bs), s') \<and> stream_at content cb s' (snd (rd_groups n bs)) x"
proof (induction n arbitrary: s bs)
  case 0
  then show ?case by auto
next
  case (Suc n)
  from pb_readsD [OF pb_read [of 1] Suc.prems] obtain s' where r: "pb_read False 1 s = Ret (fst (rd_take 1 bs), s')"
    and at: "stream_at content cb s' (snd (rd_take 1 bs)) x" .
  show ?case
  proof (cases bs)
    case Nil
    with r at show ?thesis by (auto simp: pb_bind_def rd_take_def)
  next
    case (Cons b bs')
    with r at Suc.IH [of s' bs'] show ?thesis
      by (auto simp: pb_bind_def rd_take_def split: prod.splits option.splits)
  qed
qed

text \<open>The substream has the string, whatever is done with it; closing it moves the parent past it.\<close>

lemma make_substream:
  assumes "stream_at content cb s bs x" and "rd_varint32 bs = (Some len, body @ r)" and "unat len = length body"
  shows "\<exists>sub s'. pb_make_string_substream s = Ret (Some sub, s') \<and>
    stream_at content cb sub body (r @ x) \<and> in_errmsg sub = in_errmsg s \<and>
    in_callback s' = cb \<and> bytes_left s' = length r"
proof -
  from pb_readsD [OF pb_decode_varint32 assms(1)] assms(2) obtain s'
    where "pb_decode_varint32 s = Ret (Some len, s')" and "stream_at content cb s' (body @ r) x"
      and "in_errmsg s' = in_errmsg s"
    by auto
  with assms(3) show ?thesis by (auto simp: pb_make_string_substream_def stream_at_def)
qed

lemma make_substream_short:
  assumes "stream_at content cb s bs x" and "rd_varint32 bs = (Some len, r)" and "length r < unat len"
  shows "\<exists>s'. pb_make_string_substream s = Ret (None, s') \<and> in_errmsg s' \<noteq> None"
proof -
  from pb_readsD [OF pb_decode_varint32 assms(1)] assms(2) obtain s'
    where "pb_decode_varint32 s = Ret (Some len, s')" and "stream_at content cb s' r x"
    by auto
  with assms(3) show ?thesis
    by (auto simp: pb_make_string_substream_def stream_at_def in_error_def split: option.splits)
qed

lemma close_substream:
  assumes "stream_at content cb sub rest (r @ x)" and "in_callback s = cb" and "bytes_left s = length r"
  shows "\<exists>s'. pb_close_string_substream sub s = Ret (Some (), s') \<and>
    stream_at content cb s' r x \<and> in_errmsg s' = in_errmsg sub"
proof (cases rest)
  case Nil
  with assms show ?thesis by (auto simp: pb_close_string_substream_def stream_at_def)
next
  case (Cons b bs)
  from pb_readsD [OF pb_skip [of "length rest"] assms(1)] obtain t
    where "pb_read True (length rest) sub = Ret (Some [], t)" and "stream_at content cb t [] (r @ x)"
      and "in_errmsg t = in_errmsg sub"
    by (auto simp: rd_skip_def)
  with assms Cons show ?thesis by (auto simp: pb_close_string_substream_def stream_at_def)
qed

end

section \<open>Memory buffers are sources\<close>

interpretation buffer: byte_source True buf_read "\<lambda>st. st"
  by unfold_locales (auto simp: buf_read_def)

lemma from_buffer_at:
  "stream_at (\<lambda>st. st) (In_callback True buf_read) (pb_istream_from_buffer (bs @ x) (length bs)) bs x"
  by (simp add: stream_at_def pb_istream_from_buffer_def)

end
