(* ===== verification/Pb_Varint.thy ===== *)
theory Pb_Varint
  imports Pb_Read
begin

text \<open>
  What the varint decoders of nanopb accept and return, on lists of bytes: the groups of any
  varint, the canonical encodings \<open>uleb128\<close>, and the 32-bit decoder's overflow checks.
\<close>

section \<open>Groups\<close>

lemma groups_nat_append: "groups_nat (xs @ ys) = groups_nat xs + 2 ^ (7 * length xs) * groups_nat ys"
  by (induction xs) (simp_all add: algebra_simps power_add)

lemma groups_nat_less: "groups_nat xs < 2 ^ (7 * length xs)"
proof (induction xs)
  case (Cons b xs)
  have "groups_nat (b # xs) < 128 * (groups_nat xs + 1)" by simp
  also have "\<dots> \<le> 128 * 2 ^ (7 * length xs)" using Cons by (intro mult_left_mono) simp_all
  finally show ?case by (simp add: power_add)
qed simp

lemma byte_and_7f: "(b :: u8) AND 0x7F = 0 \<longleftrightarrow> unat b mod 128 = 0"
  by (metis unat_and_7f unat_eq_zero)

lemma uleb128_byte:
  "v < 128 \<Longrightarrow> (word_of_nat v :: u8) AND 0x80 = 0"
  "(word_of_nat (128 + v mod 128) :: u8) AND 0x80 \<noteq> 0"
  by (simp_all only: and_top_bit unat_word_of_nat_u8) simp_all

lemma is_groups_uleb128: "is_groups (uleb128 v)"
proof (induction v rule: uleb128.induct)
  case (1 v)
  show ?case
    by (subst uleb128.simps) (use 1 uleb128_byte in \<open>auto simp: is_groups_Cons\<close>)
qed

lemma groups_nat_uleb128: "groups_nat (uleb128 v) = v"
proof (induction v rule: uleb128.induct)
  case (1 v)
  have "unat (word_of_nat (128 + v mod 128) :: u8) mod 128 = v mod 128"
    by (simp only: unat_word_of_nat_u8) simp
  with 1 show ?case by (subst uleb128.simps) (auto simp del: of_nat_add)
qed

lemma uleb128_not_Nil [simp]: "uleb128 v \<noteq> []"
  by (subst uleb128.simps) simp

lemma length_uleb128: "length (uleb128 v) \<le> Suc n \<longleftrightarrow> v < 128 ^ Suc n"
proof (induction n arbitrary: v)
  case 0
  show ?case by (subst uleb128.simps) simp
next
  case (Suc n)
  have "length (uleb128 v) \<le> Suc (Suc n) \<longleftrightarrow> v < 128 \<or> length (uleb128 (v div 128)) \<le> Suc n"
    by (subst uleb128.simps) simp
  also have "\<dots> \<longleftrightarrow> v < 128 \<or> v div 128 < 128 ^ Suc n" by (simp only: Suc.IH)
  also have "\<dots> \<longleftrightarrow> v < 128 ^ Suc (Suc n)"
  proof -
    have "v div 128 < 128 ^ Suc n \<longleftrightarrow> v < 128 ^ Suc n * 128" by (rule div_less_iff_less_mult) simp
    moreover have "(128 :: nat) \<le> 128 ^ Suc n * 128" by simp
    ultimately show ?thesis by (auto simp: mult.commute)
  qed
  finally show ?case .
qed

lemma rd_varint_groups:
  "is_groups gs \<Longrightarrow> length gs \<le> 10 \<Longrightarrow> rd_varint (gs @ r) = (Some (word_of_nat (groups_nat gs)), r)"
  using rd_groups_Some [of 10 "gs @ r" gs r] by (simp add: rd_varint_def rd_bind_def)

lemma rd_varint_uleb128: "rd_varint (uleb128 (unat v) @ r) = (Some v, r)"
proof -
  have "unat v < 128 ^ Suc 9" using unsigned_less [of v, where ?'a = nat] by simp
  then have "length (uleb128 (unat v)) \<le> 10" using length_uleb128 [of "unat v" 9] by simp
  then show ?thesis
    using rd_varint_groups [OF is_groups_uleb128, of "unat v" r] by (simp add: groups_nat_uleb128)
qed

section \<open>The 32-bit decoder\<close>

text \<open>The bytes after the fifth: no bits, or the bits of a sign extension.\<close>

fun extension_ok :: "bool \<Rightarrow> nat \<Rightarrow> bytes \<Rightarrow> bool" where
  "extension_ok neg i [] = True"
| "extension_ok neg i (b # bs) =
     ((b AND 0x7F = 0 \<or> neg \<and> b = (if i < 9 then 0xFF else 0x01)) \<and> extension_ok neg (Suc i) bs)"

lemma bitpos_nat: "i \<le> 36 \<Longrightarrow> unat (word_of_nat (7 * i) :: u8) = 7 * i"
  by (rule unat_word_of_nat_less) simp

lemma loop32_low:
  assumes "\<forall>b \<in> set hs. b AND 0x80 \<noteq> 0" and "i + length hs \<le> 5" and "unat result < 2 ^ (7 * i)"
  shows "rd_varint32_loop (word_of_nat (7 * i)) result (hs @ bs) =
    rd_varint32_loop (word_of_nat (7 * (i + length hs))) (word_of_nat (unat result + groups_nat hs * 2 ^ (7 * i))) bs"
  using assms
proof (induction hs arbitrary: i result)
  case Nil
  then show ?case by simp
next
  case (Cons b hs)
  define p :: u8 where "p = word_of_nat (7 * i)"
  have pos: "unat p = 7 * i" and small: "\<not> 32 \<le> p" and p: "p + 7 = word_of_nat (7 * Suc i)"
    using Cons.prems(2) bitpos_nat [of i] by (simp_all add: word_le_nat_alt p_def del: of_nat_mult)
  let ?r = "result OR push_bit (7 * i) (ucast (b AND 0x7F))"
  have r: "?r = word_of_nat (unat result + unat b mod 128 * 2 ^ (7 * i))"
    by (rule or_group(1)) (use Cons.prems in simp_all)
  have less: "unat ?r < 2 ^ (7 * Suc i)"
    using or_group(2) [OF Cons.prems(3), of b] by (simp add: add.commute)
  have "rd_varint32_loop p result ((b # hs) @ bs) = rd_varint32_loop (p + 7) ?r (hs @ bs)"
    using Cons.prems small by (simp add: Let_def pos)
  also have "\<dots> = rd_varint32_loop (word_of_nat (7 * (Suc i + length hs)))
      (word_of_nat (unat ?r + groups_nat hs * 2 ^ (7 * Suc i))) bs"
    unfolding p by (rule Cons.IH) (use Cons.prems less in simp_all)
  also have "(word_of_nat (unat ?r + groups_nat hs * 2 ^ (7 * Suc i)) :: u32) =
      word_of_nat (unat result + unat b mod 128 * 2 ^ (7 * i) + groups_nat hs * 2 ^ (7 * Suc i))"
    by (simp only: of_nat_add word_of_nat_unat_id r)
  also have "unat result + unat b mod 128 * 2 ^ (7 * i) + groups_nat hs * 2 ^ (7 * Suc i) =
      unat result + groups_nat (b # hs) * 2 ^ (7 * i)"
    by (simp add: algebra_simps power_add)
  finally show ?case unfolding p_def by simp
qed

lemma loop32_high:
  assumes "is_groups gs" and "5 \<le> i" and "i + length gs \<le> 37"
  shows "if extension_ok (drop_bit 31 result \<noteq> 0) i gs
    then rd_varint32_loop (word_of_nat (7 * i)) result (gs @ r) =
      (Some (result, word_of_nat (7 * (i + length gs)), last gs), r)
    else fst (rd_varint32_loop (word_of_nat (7 * i)) result (gs @ r)) = None"
  using assms
proof (induction gs arbitrary: i)
  case Nil
  then show ?case by (simp add: is_groups_def)
next
  case (Cons b gs)
  define p :: u8 where "p = word_of_nat (7 * i)"
  have i: "i \<le> 36" using Cons.prems by simp
  have pos: "32 \<le> p" "p < 63 \<longleftrightarrow> i < 9" and p: "p + 7 = word_of_nat (7 * Suc i)"
    using Cons.prems(2) bitpos_nat [OF i] by (auto simp: word_le_nat_alt word_less_nat_alt p_def simp del: of_nat_mult)
  define neg ok where "neg = (drop_bit 31 result \<noteq> 0)"
    and "ok = (b AND 0x7F = 0 \<or> neg \<and> b = (if i < 9 then 0xFF else 0x01))"
  have ext: "extension_ok neg i (b # gs) \<longleftrightarrow> ok \<and> extension_ok neg (Suc i) gs"
    by (simp add: ok_def)
  define out where "out = rd_varint32_loop p result ((b # gs) @ r)"
  have step: "out = (if \<not> ok then (None, gs @ r)
       else if b AND 0x80 \<noteq> 0 then rd_varint32_loop (p + 7) result (gs @ r)
       else (Some (result, p + 7, b), gs @ r))"
    using pos by (simp add: Let_def ok_def neg_def out_def)
  have "if extension_ok neg i (b # gs) then out = (Some (result, word_of_nat (7 * (i + length (b # gs))), last (b # gs)), r)
    else fst out = None"
  proof (cases "b AND 0x80 = 0")
    case True
    then have "gs = []" using Cons.prems(1) by (simp add: is_groups_Cons)
    moreover have "(word_of_nat (7 * (i + length [b])) :: u8) = p + 7" unfolding p by simp
    ultimately show ?thesis using step True ext by simp
  next
    case False
    then have "is_groups gs" using Cons.prems(1) by (simp add: is_groups_Cons)
    moreover from this have "gs \<noteq> []" by (simp add: is_groups_def)
    ultimately show ?thesis
      using step False Cons.IH [of "Suc i"] Cons.prems unfolding p neg_def [symmetric] ext
      by (auto split: if_splits)
  qed
  then show ?case unfolding out_def p_def neg_def .
qed

text \<open>The groups of at most 36 bytes that the decoder takes as a 32-bit number.\<close>

definition groups32_ok :: "bytes \<Rightarrow> bool" where
  "groups32_ok gs =
     (if length gs \<le> 5 then groups_nat gs < 2 ^ 32
      else extension_ok (2 ^ 31 \<le> groups_nat (take 5 gs) mod 2 ^ 32) 5 (drop 5 gs))"

lemma and_70: "(l :: u8) AND 0x70 = 0 \<longleftrightarrow> unat l mod 128 < 16"
proof -
  have "(0x70 :: u8) = mask (3 + 4) AND NOT (mask 4)" by (simp add: mask_eq_exp_minus_1)
  then have eq: "l AND 0x70 = push_bit 4 (take_bit 3 (drop_bit 4 l))"
    by (simp only: slice_eq_mask and.assoc)
  have "l AND 0x70 = 0 \<longleftrightarrow> unat (l AND 0x70) = 0" by (simp only: unat_eq_zero)
  also have "unat (l AND 0x70) = (unat l div 16 mod 8 * 16) mod 256"
  proof -
    have "unat (drop_bit 4 l) = unat l div 16" using unat_drop_bit [of 4 l] by simp
    moreover have "unat (take_bit 3 w) = unat w mod 8" for w :: u8
      by (simp only: unsigned_take_bit_eq take_bit_eq_mod [of _ "unat w"]) simp
    moreover have "unat (push_bit 4 w) = unat w * 16 mod 256" for w :: u8
      by (simp only: unsigned_push_bit_eq push_bit_eq_mult [of _ "unat w"] take_bit_eq_mod) simp
    ultimately show ?thesis by (simp only: eq)
  qed
  also have "unat l div 16 mod 8 * 16 mod 256 = 0 \<longleftrightarrow> unat l mod 128 < 16"
  proof -
    have "unat l div 16 mod 8 = unat l mod 128 div 16"
      using mod_mult2_eq [of "unat l" 16 8] by simp
    moreover have "unat l mod 128 div 16 * 16 < 256" by simp
    ultimately show ?thesis by (simp add: div_eq_0_iff)
  qed
  finally show ?thesis .
qed

lemma unat_u8_35: "unat (35 :: u8) = 35"
  by simp

lemma rd_varint32_groups:
  assumes gs: "is_groups gs" and len: "length gs \<le> 36"
  shows "if groups32_ok gs then rd_varint32 (gs @ r) = (Some (word_of_nat (groups_nat gs)), r)
    else fst (rd_varint32 (gs @ r)) = None"
proof -
  obtain b gs' where b: "gs = b # gs'" using gs by (cases gs) (simp_all add: is_groups_def)
  define R :: u32 where "R = ucast (b AND 0x7F)"
  define finish :: "u32 \<times> u8 \<times> u8 \<Rightarrow> u32 rd" where
    "finish = (\<lambda>(result, bitpos, b). if bitpos = 35 \<and> b AND 0x70 \<noteq> 0 then rd_fail else rd_return result)"
  have R: "unat R = unat b mod 128" by (simp add: R_def unat_and_7f)
  then have R_less: "unat R < 2 ^ (7 * 1)" by simp
  show ?thesis
  proof (cases "b AND 0x80 = 0")
    case True
    then have "gs' = []" using gs by (simp add: b is_groups_Cons)
    moreover have "unat b < 128" using True by (simp only: and_top_bit)
    moreover from this have "(ucast b :: u32) = word_of_nat (unat b)" by (metis unat_ucast_u8_u32 word_of_nat_unat_id)
    ultimately show ?thesis using True
      by (simp add: b groups32_ok_def rd_varint32_def rd_bind_def rd_byte_def)
  next
    case False
    then have gs': "is_groups gs'" using gs by (simp add: b is_groups_Cons)
    have start: "rd_varint32 (gs @ r) = rd_bind (rd_varint32_loop (word_of_nat (7 * 1)) R) finish (gs' @ r)"
      using False by (simp add: b rd_varint32_def rd_bind_def [of rd_byte] rd_byte_def R_def finish_def)
    have nat: "groups_nat gs = unat R + groups_nat gs' * 2 ^ (7 * 1)" by (simp add: b R)
    show ?thesis
    proof (cases "length gs \<le> 5")
      case True
      define hs l where "hs = butlast gs'" and "l = last gs'"
      have split: "gs' = hs @ [l]" and hs: "length hs = length gs - 2" and n: "2 \<le> length gs"
        using gs' by (simp_all add: hs_def l_def is_groups_def b Suc_le_eq)
      have top: "\<forall>b \<in> set hs. b AND 0x80 \<noteq> 0" and l: "l AND 0x80 = 0"
        using gs' by (simp_all add: is_groups_def hs_def l_def)
      define i where "i = length gs - 1"
      have i: "i \<le> 4" "length gs = Suc i" "length hs = i - 1" using True n by (simp_all add: i_def hs)
      let ?R = "word_of_nat (unat R + groups_nat hs * 2 ^ (7 * 1)) :: u32"
      have low: "unat R + groups_nat hs * 2 ^ (7 * 1) < 2 ^ (7 * i)"
        using groups_nat_less [of "b # hs"] i n by (simp add: R)
      have R': "unat ?R = unat R + groups_nat hs * 2 ^ (7 * 1)"
      proof (rule unat_word_of_nat_less)
        have "(2 :: nat) ^ (7 * i) \<le> 2 ^ 28" using i(1) by (intro power_increasing) simp_all
        with low show "unat R + groups_nat hs * 2 ^ (7 * 1) < 2 ^ LENGTH(32)" by simp
      qed
      have nat_l: "groups_nat gs = unat R + groups_nat hs * 2 ^ (7 * 1) + unat l mod 128 * 2 ^ (7 * i)"
      proof -
        have "7 * i = 7 + 7 * length hs" using i(2,3) n by simp
        then show ?thesis by (simp add: nat split groups_nat_append power_add algebra_simps)
      qed
      define p :: u8 where "p = word_of_nat (7 * i)"
      have pos: "unat p = 7 * i" and small: "\<not> 32 \<le> p" and p: "p + 7 = word_of_nat (7 * Suc i)"
        using i(1) bitpos_nat [of i] by (simp_all add: word_le_nat_alt p_def del: of_nat_mult)
      have "rd_varint32_loop (word_of_nat (7 * 1)) R (gs' @ r) = rd_varint32_loop p ?R (l # r)"
        using loop32_low [OF top _ R_less, of "l # r"] i n by (simp add: split p_def)
      also have "\<dots> = (Some (?R OR push_bit (7 * i) (ucast (l AND 0x7F)), p + 7, l), r)"
        using small l by (simp add: Let_def pos)
      finally have loop: "rd_varint32_loop (word_of_nat (7 * 1)) R (gs' @ r) = \<dots>" .
      have "?R OR push_bit (7 * i) (ucast (l AND 0x7F)) = word_of_nat (groups_nat gs)"
        using or_group(1) [of ?R "7 * i" l] low unfolding R' nat_l by simp
      moreover have "p + 7 = 35 \<longleftrightarrow> i = 4"
      proof -
        have "p + 7 = 35 \<longleftrightarrow> p + 7 = 28 + 7" by simp
        also have "\<dots> \<longleftrightarrow> p = 28" by (rule add_right_cancel)
        also have "\<dots> \<longleftrightarrow> unat p = unat (28 :: u8)" by (rule word_unat_eq_iff)
        finally show ?thesis by (simp add: pos)
      qed
      moreover have "groups_nat gs < 2 ^ 32 \<longleftrightarrow> \<not> (i = 4 \<and> l AND 0x70 \<noteq> 0)"
      proof (cases "i = 4")
        case True
        with low show ?thesis unfolding and_70 nat_l by simp linarith
      next
        case False
        then have "(2 :: nat) ^ (7 * length gs) \<le> 2 ^ 28" using i by (intro power_increasing) simp_all
        with groups_nat_less [of gs] False show ?thesis by simp
      qed
      ultimately show ?thesis
        using loop True by (simp add: start groups32_ok_def rd_bind_def finish_def)
    next
      case False
      define hs tl where "hs = take 4 gs'" and "tl = drop 4 gs'"
      have split: "gs' = hs @ tl" "take 5 gs = b # hs" "drop 5 gs = tl" "length hs = 4" "tl \<noteq> []"
        using False by (simp_all add: hs_def tl_def b)
      have top: "\<forall>b \<in> set hs. b AND 0x80 \<noteq> 0" and tl: "is_groups tl"
        using gs' split(5) unfolding split(1) by (auto simp: is_groups_def butlast_append)
      let ?R = "word_of_nat (groups_nat (b # hs)) :: u32"
      have low: "rd_varint32_loop (word_of_nat (7 * 1)) R (gs' @ r) = rd_varint32_loop (word_of_nat (7 * 5)) ?R (tl @ r)"
        using loop32_low [OF top _ R_less, of "tl @ r"] by (simp add: split(1,4) R mult.commute)
      have neg: "drop_bit 31 ?R \<noteq> 0 \<longleftrightarrow> 2 ^ 31 \<le> groups_nat (take 5 gs) mod 2 ^ 32"
      proof -
        have "drop_bit 31 ?R = 0 \<longleftrightarrow> unat (drop_bit 31 ?R) = 0" by (simp only: unat_eq_zero)
        also have "unat (drop_bit 31 ?R) = unat ?R div 2 ^ 31" by (rule unat_drop_bit)
        also have "unat ?R = groups_nat (b # hs) mod 2 ^ 32" by (simp only: unat_of_nat) simp
        finally show ?thesis unfolding split(2) by (simp add: div_eq_0_iff not_less)
      qed
      have val: "(word_of_nat (groups_nat gs) :: u32) = ?R"
      proof -
        have "groups_nat gs = groups_nat (b # hs) + 2 ^ 32 * (8 * groups_nat tl)"
          using groups_nat_append [of "b # hs" tl] by (simp add: b split)
        then have "groups_nat gs mod 2 ^ 32 = groups_nat (b # hs) mod 2 ^ 32"
          by (simp only: mod_mult_self2)
        moreover have "LENGTH(32) = 32" by simp
        ultimately show ?thesis by (simp only: word_of_nat_eq_iff take_bit_eq_mod)
      qed
      have pos: "(word_of_nat (7 * (5 + length tl)) :: u8) \<noteq> 35"
      proof -
        have "unat (word_of_nat (7 * (5 + length tl)) :: u8) = 7 * (5 + length tl)"
          using len by (intro bitpos_nat) (simp add: b split)
        moreover have "7 * (5 + length tl) \<noteq> 35" using split(5) by simp
        ultimately show ?thesis by (metis unat_u8_35)
      qed
      have ok: "groups32_ok gs \<longleftrightarrow> extension_ok (drop_bit 31 ?R \<noteq> 0) 5 tl"
        using False by (simp only: groups32_ok_def neg split(3)) simp
      have high: "if groups32_ok gs
          then rd_varint32_loop (word_of_nat (7 * 1)) R (gs' @ r) = (Some (?R, word_of_nat (7 * (5 + length tl)), last tl), r)
          else fst (rd_varint32_loop (word_of_nat (7 * 1)) R (gs' @ r)) = None"
        unfolding low ok by (rule loop32_high [OF tl]) (use len in \<open>simp_all add: b split\<close>)
      show ?thesis
      proof (cases "groups32_ok gs")
        case True
        with high pos show ?thesis unfolding start val by (simp only: if_True) (simp add: rd_bind_def finish_def)
      next
        case False
        with high show ?thesis unfolding start
          by (simp only: if_False) (auto simp: rd_bind_def split: prod.splits option.splits)
      qed
    qed
  qed
qed

section \<open>Canonical encodings\<close>

text \<open>
  The numbers whose canonical encoding the 32-bit decoder takes: those below \<open>2 ^ 32\<close>, and
  those whose seven-bit groups from bit 35 on are all zeros or all ones when the bits 31 and
  63 are set. A sign extension is of the second kind; so are numbers that are not.
\<close>

definition varint32_accepts :: "nat \<Rightarrow> bool" where
  "varint32_accepts v =
     (v < 2 ^ 32 \<or>
      odd (v div 2 ^ 31) \<and> v div 2 ^ 63 = 1 \<and>
      list_all (\<lambda>i. v div 2 ^ (7 * i) mod 128 \<in> {0, 127}) [5, 6, 7, 8])"

lemma extension_ok_uleb128:
  "extension_ok neg i (uleb128 v) \<longleftrightarrow>
     (if v < 128 then v = 0 \<or> neg \<and> 9 \<le> i \<and> v = 1
      else (v mod 128 = 0 \<or> neg \<and> i < 9 \<and> v mod 128 = 127) \<and> extension_ok neg (Suc i) (uleb128 (v div 128)))"
proof -
  have byte: "(word_of_nat n :: u8) AND 0x7F = 0 \<longleftrightarrow> n mod 256 mod 128 = 0"
    "(word_of_nat n :: u8) = 0xFF \<longleftrightarrow> n mod 256 = 255" "(word_of_nat n :: u8) = 1 \<longleftrightarrow> n mod 256 = 1" for n
    using byte_and_7f [of "word_of_nat n"] by (simp_all add: word_unat_eq_iff)
  have "v mod 128 < 128" by simp
  then have "(128 + v mod 128) mod 256 = 128 + v mod 128" "(128 + v mod 128) mod 128 = v mod 128" by simp_all
  then show ?thesis
    by (subst uleb128.simps) (auto simp: byte simp del: of_nat_add)
qed

lemma extension_ok_number:
  assumes "0 < w" and "w < 2 ^ (7 * m + 1)" and "i + m = 9"
  shows "extension_ok neg i (uleb128 w) \<longleftrightarrow>
    neg \<and> w div 2 ^ (7 * m) = 1 \<and> (\<forall>k < m. w div 2 ^ (7 * k) mod 128 \<in> {0, 127})"
  using assms
proof (induction m arbitrary: i w)
  case 0
  then have "w = 1" by simp
  with 0 show ?case by (simp add: extension_ok_uleb128 [of _ _ "Suc 0"])
next
  case (Suc m)
  show ?case
  proof (cases "w < 128")
    case True
    have "(128 :: nat) \<le> 128 * 2 ^ (7 * m)" by simp
    with True have "w < 128 * 2 ^ (7 * m)" by (rule less_le_trans)
    then have "w < 2 ^ (7 * Suc m)" by (simp add: power_add)
    with True Suc.prems show ?thesis by (simp add: extension_ok_uleb128 [of _ _ w])
  next
    case False
    have "extension_ok neg (Suc i) (uleb128 (w div 128)) \<longleftrightarrow>
        neg \<and> w div 128 div 2 ^ (7 * m) = 1 \<and> (\<forall>k < m. w div 128 div 2 ^ (7 * k) mod 128 \<in> {0, 127})"
      using False Suc.prems
      by (intro Suc.IH) (simp_all add: div_greater_zero_iff less_mult_imp_div_less power_add)
    moreover have "w div 128 div 2 ^ (7 * k) = w div 2 ^ (7 * Suc k)" for k
      by (simp add: div_mult2_eq [symmetric] power_add)
    ultimately show ?thesis
      using False Suc.prems unfolding extension_ok_uleb128 [of neg i w] All_less_Suc2 by auto
  qed
qed

lemma uleb128_split:
  "128 ^ n \<le> v \<Longrightarrow> drop n (uleb128 v) = uleb128 (v div 128 ^ n) \<and> groups_nat (take n (uleb128 v)) = v mod 128 ^ n"
proof (induction n arbitrary: v)
  case 0
  then show ?case by simp
next
  case (Suc n)
  have big: "128 \<le> v" using Suc.prems by (metis le_trans one_le_numeral one_le_power mult.right_neutral mult_le_mono2 power_Suc)
  moreover have "128 ^ n \<le> v div 128" using Suc.prems div_le_mono [of "128 ^ Suc n" v 128] by simp
  ultimately have IH: "drop n (uleb128 (v div 128)) = uleb128 (v div 128 ^ Suc n)"
      "groups_nat (take n (uleb128 (v div 128))) = v div 128 mod 128 ^ n"
    using Suc.IH [of "v div 128"] by (simp_all add: div_mult2_eq)
  have "unat (word_of_nat (128 + v mod 128) :: u8) mod 128 = v mod 128"
    by (simp only: unat_word_of_nat_u8) simp
  moreover have "v mod 128 ^ Suc n = v mod 128 + 128 * (v div 128 mod 128 ^ n)"
    by (simp only: power_Suc mod_mult2_eq add.commute)
  ultimately show ?case
    using IH big by (simp only: uleb128.simps [of v]) (simp del: of_nat_add)
qed

lemma rd_varint32_uleb128:
  assumes "v < 2 ^ 64"
  shows "if varint32_accepts v then rd_varint32 (uleb128 v @ r) = (Some (word_of_nat v), r)
    else fst (rd_varint32 (uleb128 v @ r)) = None"
proof -
  have len: "length (uleb128 v) \<le> 10" using length_uleb128 [of v 9] assms by simp
  have "groups32_ok (uleb128 v) \<longleftrightarrow> varint32_accepts v"
  proof (cases "v < 128 ^ 5")
    case True
    then have "length (uleb128 v) \<le> 5" using length_uleb128 [of v 4] by simp
    moreover have "v div 2 ^ 63 = 0" using True by simp
    ultimately show ?thesis by (simp add: groups32_ok_def varint32_accepts_def groups_nat_uleb128)
  next
    case False
    then have "\<not> length (uleb128 v) \<le> 5" using length_uleb128 [of v 4] by simp
    moreover have "0 < v div 128 ^ 5" "v div 128 ^ 5 < 2 ^ 29" using False assms by (simp_all add: div_greater_zero_iff less_mult_imp_div_less)
    moreover have "2 ^ 31 \<le> v mod 128 ^ 5 mod 2 ^ 32 \<longleftrightarrow> odd (v div 2 ^ 31)"
    proof -
      have "v mod 128 ^ 5 mod 2 ^ 32 = v mod 2 ^ 32" by (rule mod_mod_cancel) simp
      also have "v mod 2 ^ 32 = 2 ^ 31 * (v div 2 ^ 31 mod 2) + v mod 2 ^ 31"
        using mod_mult2_eq [of v "2 ^ 31" 2] by simp
      finally show ?thesis
        using mod_less_divisor [of "2 ^ 31" v] by (cases "odd (v div 2 ^ 31)") (simp_all add: mod_2_eq_odd)
    qed
    moreover have "extension_ok neg 5 (uleb128 (v div 128 ^ 5)) \<longleftrightarrow>
        neg \<and> v div 2 ^ 63 = 1 \<and> list_all (\<lambda>i. v div 2 ^ (7 * i) mod 128 \<in> {0, 127}) [5, 6, 7, 8]" for neg
    proof -
      have all4: "(\<forall>k < 4. P k) \<longleftrightarrow> P 0 \<and> P 1 \<and> P 2 \<and> P (3 :: nat)" for P
        by (auto simp: numeral_eq_Suc less_Suc_eq)
      have "extension_ok neg 5 (uleb128 (v div 128 ^ 5)) \<longleftrightarrow> neg \<and> v div 128 ^ 5 div 2 ^ (7 * 4) = 1 \<and>
          (\<forall>k < 4. v div 128 ^ 5 div 2 ^ (7 * k) mod 128 \<in> {0, 127})"
        using False assms
        by (intro extension_ok_number) (simp_all add: div_greater_zero_iff less_mult_imp_div_less)
      then show ?thesis by (simp only: all4) (simp add: div_mult2_eq [symmetric])
    qed
    ultimately show ?thesis
      using uleb128_split [of 5 v] False
      by (simp only: groups32_ok_def varint32_accepts_def not_less) simp
  qed
  then show ?thesis
    using rd_varint32_groups [OF is_groups_uleb128, of v r] len by (simp add: groups_nat_uleb128)
qed

end
