(* ===== verification/Pb_Write.thy ===== *)
theory Pb_Write
  imports Pb_Output Pb_Varint
begin

text \<open>
  What the output operations of nanopb write. A sink is a callback that appends; the locale
  \<open>byte_sink\<close> is its contract, which memory buffers and Firestore's strings satisfy. An
  operation writes \<open>bs\<close> when a sizing stream counts them, a stream with room for them gets
  them, and a stream without fails, with an error message and a prefix of them written.
\<close>

section \<open>Sinks\<close>

record 's sink =
  callback :: "'s \<Rightarrow> bytes \<Rightarrow> (bool \<times> 's) c_outcome"
  written :: "'s \<Rightarrow> bytes"
  rest :: "'s \<Rightarrow> bytes"
  fits :: "'s \<Rightarrow> nat \<Rightarrow> bool"

text \<open>The bytes are appended to what is written; of the memory behind, only theirs is used.\<close>

definition appended :: "'s sink \<Rightarrow> 's \<Rightarrow> bytes \<Rightarrow> 's \<Rightarrow> bool" where
  "appended K st bs st' =
     (written K st' = written K st @ bs \<and> rest K st' = drop (length bs) (rest K st) \<and>
      (\<forall>n. fits K st n \<longrightarrow> length bs \<le> n \<longrightarrow> fits K st' (n - length bs)))"

lemma appended_Nil [simp]: "appended K st [] st"
  by (simp add: appended_def)

lemma appended_append:
  "appended K st bs st' \<Longrightarrow> appended K st' cs st'' \<Longrightarrow> appended K st (bs @ cs) st''"
  unfolding appended_def by (auto simp: add.commute) (metis add_leD1 diff_diff_left le_diff_conv2 add.commute)

text \<open>A stream without an error on a sink that takes what the stream's limit allows.\<close>

definition open_at :: "'s sink \<Rightarrow> 's pb_ostream \<Rightarrow> bool" where
  "open_at K s =
     (out_callback s = Some (callback K) \<and> bytes_written s \<le> max_size s \<and> max_size s < size_mod \<and>
      fits K (out_state s) (max_size s - bytes_written s) \<and> out_errmsg s = None)"

text \<open>A sizing stream.\<close>

definition counting :: "'s pb_ostream \<Rightarrow> bool" where
  "counting s = (out_callback s = None \<and> bytes_written s < size_mod)"

definition writing :: "'s sink \<Rightarrow> ('s, unit) pb_out \<Rightarrow> bytes \<Rightarrow> bool" where
  "writing K f bs =
     ((\<forall>s. counting s \<longrightarrow> f s = Ret (Some (), s\<lparr>bytes_written := size_add (bytes_written s) (length bs)\<rparr>)) \<and>
      (\<forall>s. open_at K s \<longrightarrow> bytes_written s + length bs \<le> max_size s \<longrightarrow>
         (\<exists>st'. f s = Ret (Some (), s\<lparr>out_state := st', bytes_written := bytes_written s + length bs\<rparr>) \<and>
                appended K (out_state s) bs st')) \<and>
      (\<forall>s. open_at K s \<longrightarrow> max_size s < bytes_written s + length bs \<longrightarrow> bytes_written s + length bs < size_mod \<longrightarrow>
         (\<exists>s' k. f s = Ret (None, s') \<and> out_errmsg s' \<noteq> None \<and> bytes_written s + k \<le> max_size s \<and>
                appended K (out_state s) (take k bs) (out_state s'))))"

lemma writingI:
  assumes "\<And>s. counting s \<Longrightarrow> f s = Ret (Some (), s\<lparr>bytes_written := size_add (bytes_written s) (length bs)\<rparr>)"
    and "\<And>s. open_at K s \<Longrightarrow> bytes_written s + length bs \<le> max_size s \<Longrightarrow>
         \<exists>st'. f s = Ret (Some (), s\<lparr>out_state := st', bytes_written := bytes_written s + length bs\<rparr>) \<and>
                appended K (out_state s) bs st'"
    and "\<And>s. open_at K s \<Longrightarrow> max_size s < bytes_written s + length bs \<Longrightarrow> bytes_written s + length bs < size_mod \<Longrightarrow>
         \<exists>s' k. f s = Ret (None, s') \<and> out_errmsg s' \<noteq> None \<and> bytes_written s + k \<le> max_size s \<and>
                appended K (out_state s) (take k bs) (out_state s')"
  shows "writing K f bs"
  using assms by (simp add: writing_def)

lemma writing_sizing:
  "writing K f bs \<Longrightarrow> counting s \<Longrightarrow>
   f s = Ret (Some (), s\<lparr>bytes_written := size_add (bytes_written s) (length bs)\<rparr>)"
  by (simp add: writing_def)

lemma writing_room:
  assumes "writing K f bs" and "open_at K s" and "bytes_written s + length bs \<le> max_size s"
  obtains st' where "f s = Ret (Some (), s\<lparr>out_state := st', bytes_written := bytes_written s + length bs\<rparr>)"
    and "appended K (out_state s) bs st'"
  using assms unfolding writing_def by blast

lemma writing_full:
  assumes "writing K f bs" and "open_at K s" and "max_size s < bytes_written s + length bs"
    and "bytes_written s + length bs < size_mod"
  obtains s' k where "f s = Ret (None, s')" and "out_errmsg s' \<noteq> None" and "bytes_written s + k \<le> max_size s"
    and "appended K (out_state s) (take k bs) (out_state s')"
  using assms unfolding writing_def by blast

lemma open_at_after:
  "open_at K s \<Longrightarrow> bytes_written s + length bs \<le> max_size s \<Longrightarrow> appended K (out_state s) bs st' \<Longrightarrow>
   open_at K (s\<lparr>out_state := st', bytes_written := bytes_written s + length bs\<rparr>)"
  by (auto simp: open_at_def appended_def)

lemma size_add_assoc: "size_add (size_add a b) c = size_add a (b + c)"
  by (simp add: size_add_def mod_add_left_eq add.assoc)

lemma size_add_bound: "size_add a b < size_mod"
  by (simp add: size_add_def size_mod_def)

lemma writing_return: "writing K (pb_return ()) []"
proof (rule writingI)
  fix s :: "'a pb_ostream"
  show "\<exists>st'. pb_return () s = Ret (Some (), s\<lparr>out_state := st', bytes_written := bytes_written s + length []\<rparr>) \<and>
      appended K (out_state s) [] st'"
    by (intro exI [of _ "out_state s"]) simp
qed (simp_all add: size_add_small counting_def open_at_def)

lemma writing_bind:
  assumes f: "writing K f bs" and g: "writing K g cs"
  shows "writing K (pb_bind f (\<lambda>_. g)) (bs @ cs)"
proof (rule writingI)
  fix s :: "'a pb_ostream"
  assume s: "counting s"
  then have "counting (s\<lparr>bytes_written := size_add (bytes_written s) n\<rparr>)" for n
    by (simp add: counting_def size_add_bound)
  with writing_sizing [OF f s] show "pb_bind f (\<lambda>_. g) s =
      Ret (Some (), s\<lparr>bytes_written := size_add (bytes_written s) (length (bs @ cs))\<rparr>)"
    by (simp add: writing_sizing [OF g] size_add_assoc)
next
  fix s :: "'a pb_ostream"
  assume s: "open_at K s" and room: "bytes_written s + length (bs @ cs) \<le> max_size s"
  from room have room1: "bytes_written s + length bs \<le> max_size s" by simp
  from writing_room [OF f s room1] obtain st' where 1: "f s = Ret (Some (), s\<lparr>out_state := st', bytes_written := bytes_written s + length bs\<rparr>)"
    and a1: "appended K (out_state s) bs st'" .
  have "open_at K (s\<lparr>out_state := st', bytes_written := bytes_written s + length bs\<rparr>)"
    by (rule open_at_after [OF s room1 a1])
  from writing_room [OF g this] room obtain st'' where
    2: "g (s\<lparr>out_state := st', bytes_written := bytes_written s + length bs\<rparr>) =
      Ret (Some (), s\<lparr>out_state := st'', bytes_written := bytes_written s + length (bs @ cs)\<rparr>)"
    and a2: "appended K st' cs st''"
    by (auto simp: add.assoc)
  from 1 2 appended_append [OF a1 a2] show "\<exists>st'. pb_bind f (\<lambda>_. g) s =
      Ret (Some (), s\<lparr>out_state := st', bytes_written := bytes_written s + length (bs @ cs)\<rparr>) \<and>
      appended K (out_state s) (bs @ cs) st'"
    by auto
next
  fix s :: "'a pb_ostream"
  assume s: "open_at K s" and full: "max_size s < bytes_written s + length (bs @ cs)"
    and small: "bytes_written s + length (bs @ cs) < size_mod"
  show "\<exists>s' k. pb_bind f (\<lambda>_. g) s = Ret (None, s') \<and> out_errmsg s' \<noteq> None \<and> bytes_written s + k \<le> max_size s \<and>
      appended K (out_state s) (take k (bs @ cs)) (out_state s')"
  proof (cases "bytes_written s + length bs \<le> max_size s")
    case True
    from writing_room [OF f s True] obtain st' where 1: "f s = Ret (Some (), s\<lparr>out_state := st', bytes_written := bytes_written s + length bs\<rparr>)"
      and a1: "appended K (out_state s) bs st'" .
    have "open_at K (s\<lparr>out_state := st', bytes_written := bytes_written s + length bs\<rparr>)"
      by (rule open_at_after [OF s True a1])
    from writing_full [OF g this] full small obtain s' k where
      2: "g (s\<lparr>out_state := st', bytes_written := bytes_written s + length bs\<rparr>) = Ret (None, s')"
        "out_errmsg s' \<noteq> None" "bytes_written s + length bs + k \<le> max_size s" and a2: "appended K st' (take k cs) (out_state s')"
      by auto
    from 1 2 appended_append [OF a1 a2] show ?thesis
      by (intro exI [of _ s'] exI [of _ "length bs + k"]) simp
  next
    case False
    from writing_full [OF f s] False small obtain s' k where "f s = Ret (None, s')" "out_errmsg s' \<noteq> None"
      "bytes_written s + k \<le> max_size s" "appended K (out_state s) (take k bs) (out_state s')"
      by auto
    moreover from this False have "k \<le> length bs" by simp
    ultimately show ?thesis by (intro exI [of _ s'] exI [of _ k]) (simp add: pb_bind_def)
  qed
qed

section \<open>The groups of an encoder\<close>

lemma or_top: "Suc k = LENGTH('a) \<Longrightarrow> x OR 2 ^ k = push_bit k 1 OR (x AND mask k)" for x :: "'a :: len word"
  by (rule bit_word_eqI) (auto simp: bit_simps less_Suc_eq)

lemma or_group_bit: "unat ((b :: u8) OR 0x80) = 128 + unat b mod 128"
proof -
  have bits: "(0x80 :: u8) = 2 ^ 7" "(0x7F :: u8) = mask 7" by (simp_all add: mask_eq_exp_minus_1)
  have "b OR 0x80 = push_bit 7 1 OR (b AND 0x7F)"
    unfolding bits by (rule or_top) simp
  then show ?thesis
    using push_or_nat [of "1 :: u8" 1 7 "b AND 0x7F"] by (simp add: unat_and_7f)
qed

lemma low_group: "unat (ucast (v AND 0x7F) :: u8) = unat v mod 128" for v :: u64
proof -
  have "unat (v AND 0x7F) = unat v mod 128"
    using unat_and_mask [of v 7] by (simp add: mask_eq_exp_minus_1)
  then show ?thesis by (simp add: unsigned_ucast_eq take_bit_eq_mod mod_mod_cancel)
qed

lemma varint_fill_append:
  assumes "v \<noteq> 0" and "length buffer + length (uleb128 (unat v)) \<le> 10"
  shows "varint_fill v buffer = Ret (buffer @ butlast (uleb128 (unat v)) @ [last (uleb128 (unat v)) OR 0x80])"
  using assms
proof (induction v buffer rule: varint_fill.induct)
  case (1 v buffer)
  let ?b = "ucast (v AND 0x7F) OR 0x80 :: u8"
  have "length (uleb128 (unat v)) \<noteq> 0" by simp
  then have room: "length buffer \<noteq> 10" using 1(3) by linarith
  then have step: "varint_fill v buffer = varint_fill (drop_bit 7 v) (buffer @ [?b])"
    using 1(2) by (simp add: varint_fill.simps [of v])
  show ?case
  proof (cases "unat v < 128")
    case True
    then have "unat (drop_bit 7 v) = 0" by (simp add: unat_drop_bit)
    then have "drop_bit 7 v = 0" by (simp only: unat_eq_zero)
    moreover have "?b = word_of_nat (unat v) OR 0x80"
      using True by (simp only: word_unat_eq_iff or_group_bit low_group unat_word_of_nat_u8) simp
    ultimately show ?thesis
      using True by (simp add: step varint_fill.simps [of 0] uleb128.simps [of "unat v"])
  next
    case False
    have b: "?b = word_of_nat (128 + unat v mod 128)"
      by (simp only: word_unat_eq_iff or_group_bit low_group unat_word_of_nat_u8) simp
    have u: "uleb128 (unat v) = ?b # uleb128 (unat (drop_bit 7 v))"
      using False unfolding uleb128.simps [of "unat v"] b by (simp add: unat_drop_bit)
    have "unat (drop_bit 7 v) \<noteq> 0" using False by (simp add: unat_drop_bit div_eq_0_iff)
    then have "drop_bit 7 v \<noteq> 0" by auto
    then have "varint_fill (drop_bit 7 v) (buffer @ [?b]) = Ret ((buffer @ [?b]) @
        butlast (uleb128 (unat (drop_bit 7 v))) @ [last (uleb128 (unat (drop_bit 7 v))) OR 0x80])"
      using 1(2,3) room by (intro 1(1)) (simp_all add: u)
    then show ?thesis unfolding step u by simp
  qed
qed

lemma varint_fill:
  assumes "v \<noteq> 0" and "length (uleb128 (unat v)) \<le> 10"
  shows "\<exists>buffer. varint_fill v [] = Ret buffer \<and>
    butlast buffer @ [last buffer AND 0x7F] = uleb128 (unat v) \<and> length buffer = length (uleb128 (unat v))"
proof -
  let ?u = "uleb128 (unat v)"
  have "last ?u AND 0x80 = 0" using is_groups_uleb128 [of "unat v"] by (simp add: is_groups_def)
  then have "unat (last ?u) < 128" by (simp only: and_top_bit)
  then have "(last ?u OR 0x80) AND 0x7F = last ?u"
    by (simp only: word_unat_eq_iff unat_and_7f or_group_bit) simp
  then show ?thesis using varint_fill_append [of v "[]"] assms by simp
qed

section \<open>Values on the wire\<close>

text \<open>Signed numbers with the sign in the lowest bit, and little-endian words.\<close>

definition zigzag :: "int \<Rightarrow> nat" where
  "zigzag n = nat (if n < 0 then - 2 * n - 1 else 2 * n)"

definition le_bytes :: "nat \<Rightarrow> nat \<Rightarrow> bytes" where
  "le_bytes n v = rev (be_bytes n v)"

lemma length_le_bytes [simp]: "length (le_bytes n v) = n"
  by (simp add: le_bytes_def)

lemma le_nat_le_bytes: "le_nat (le_bytes n v) = v mod 256 ^ n"
  by (simp add: le_bytes_def le_nat_def)

lemma zigzag_values: "zigzag (int n) = 2 * n" "n < 2 ^ 64 \<Longrightarrow> zigzag (int n - 2 ^ 64) = 2 ^ 65 - 1 - 2 * n"
  by (simp_all add: zigzag_def nat_mult_distrib)

lemma unat_zigzag: "unat (if v <s 0 then NOT (push_bit 1 v) else push_bit 1 v) = zigzag (sint v)" for v :: u64
proof -
  have less: "unat v < 2 ^ 64" using unsigned_less [of v, where ?'a = nat] by simp
  define w where "w = push_bit 1 v"
  have push: "unat w = unat v * 2 mod 2 ^ 64"
    unfolding w_def by (simp only: unsigned_push_bit_eq push_bit_eq_mult [of _ "unat v"] take_bit_eq_mod) simp
  show ?thesis
  proof (cases "unat v < 2 ^ 63")
    case True
    then have "\<not> v <s 0" by (simp add: word_sless_alt sint_u64)
    have "unat v * 2 mod 2 ^ 64 = unat v * 2" using True by (intro mod_less) simp
    with \<open>\<not> v <s 0\<close> show ?thesis
      using True push by (simp only: w_def [symmetric] if_False sint_u64 if_True zigzag_values mult.commute)
  next
    case False
    have "int (unat v) < 2 ^ 64" using less by (simp only: of_nat_less_numeral_power_cancel_iff)
    then have "v <s 0" using False by (simp add: word_sless_alt sint_u64)
    moreover have "unat (NOT x) = 2 ^ 64 - 1 - unat x" for x :: u64
    proof -
      have "NOT x = - 1 - x" by (simp add: not_eq_complement)
      then show ?thesis by (simp add: unat_sub unsigned_minus_1_eq_mask mask_eq_exp_minus_1)
    qed
    moreover have "unat v * 2 mod 2 ^ 64 = unat v * 2 - 2 ^ 64"
      using False less by (simp add: le_mod_geq)
    ultimately show ?thesis using False less push
      by (simp only: w_def [symmetric] if_False sint_u64 if_True zigzag_values) simp
  qed
qed

lemma le_bytes_simps: "le_bytes 0 v = []" "le_bytes (Suc n) v = word_of_nat v # le_bytes n (v div 256)"
  by (simp_all add: le_bytes_def)

lemma low_byte: "(ucast (w AND 0xFF) :: u8) = word_of_nat (unat w)" for w :: "'a :: len word"
proof -
  have "unat (w AND 0xFF) = unat w mod 256"
    using unat_and_mask [of w 8] by (simp add: mask_eq_exp_minus_1)
  then show ?thesis by (simp only: word_unat_eq_iff unat_word_of_nat_u8) (simp add: unsigned_ucast_eq take_bit_eq_mod)
qed

lemma le_bytes_4: "[ucast (v AND 0xFF), ucast (drop_bit 8 v AND 0xFF), ucast (drop_bit 16 v AND 0xFF),
    ucast (drop_bit 24 v AND 0xFF)] = le_bytes 4 (unat v)" for v :: u32
proof -
  have "le_bytes 4 n = le_bytes (Suc (Suc (Suc (Suc 0)))) n" for n
    by (rule arg_cong [where f = "\<lambda>k. le_bytes k n"]) simp
  then show ?thesis
    by (simp add: low_byte unat_drop_bit le_bytes_simps div_mult2_eq [symmetric])
qed

lemma le_bytes_8: "[ucast (v AND 0xFF), ucast (drop_bit 8 v AND 0xFF), ucast (drop_bit 16 v AND 0xFF),
    ucast (drop_bit 24 v AND 0xFF), ucast (drop_bit 32 v AND 0xFF), ucast (drop_bit 40 v AND 0xFF),
    ucast (drop_bit 48 v AND 0xFF), ucast (drop_bit 56 v AND 0xFF)] = le_bytes 8 (unat v)" for v :: u64
proof -
  have "le_bytes 8 n = le_bytes (Suc (Suc (Suc (Suc (Suc (Suc (Suc (Suc 0)))))))) n" for n
    by (rule arg_cong [where f = "\<lambda>k. le_bytes k n"]) simp
  then show ?thesis
    by (simp add: low_byte unat_drop_bit le_bytes_simps div_mult2_eq [symmetric])
qed

lemma unat_tag: "unat wt < 8 \<Longrightarrow> unat (push_bit 3 (ucast n) OR ucast wt :: u64) = 8 * unat n + unat wt"
  for n wt :: u32
  using push_or_nat [of "ucast n :: u64" 32 3 "ucast wt"] unsigned_less [of n, where ?'a = nat]
  by (simp add: unat_ucast_up mult.commute)

section \<open>Sinks that append\<close>

text \<open>The contract of a callback: it appends what fits.\<close>

locale byte_sink =
  fixes K :: "'s sink"
  assumes call: "fits K st n \<Longrightarrow> length bs \<le> n \<Longrightarrow> \<exists>st'. callback K st bs = Ret (True, st') \<and> appended K st bs st'"
    and fits_less: "fits K st n \<Longrightarrow> m \<le> n \<Longrightarrow> fits K st m"
begin

lemma pb_write: "writing K (pb_write (Some (bs @ junk)) (length bs)) bs"
proof (rule writingI)
  fix s :: "'s pb_ostream"
  assume "counting s"
  then show "pb_write (Some (bs @ junk)) (length bs) s =
      Ret (Some (), s\<lparr>bytes_written := size_add (bytes_written s) (length bs)\<rparr>)"
    by (simp add: pb_write_def counting_def)
next
  fix s :: "'s pb_ostream"
  assume s: "open_at K s" and room: "bytes_written s + length bs \<le> max_size s"
  from s room have sum: "size_add (bytes_written s) (length bs) = bytes_written s + length bs"
    by (simp add: open_at_def size_add_small)
  have "fits K (out_state s) (max_size s - bytes_written s)" using s by (simp add: open_at_def)
  moreover have "length bs \<le> max_size s - bytes_written s" using room by simp
  ultimately obtain st' where "callback K (out_state s) bs = Ret (True, st')" "appended K (out_state s) bs st'"
    using call by blast
  with s sum room show "\<exists>st'. pb_write (Some (bs @ junk)) (length bs) s =
      Ret (Some (), s\<lparr>out_state := st', bytes_written := bytes_written s + length bs\<rparr>) \<and>
      appended K (out_state s) bs st'"
    by (intro exI [of _ "if bs = [] then out_state s else st'"]) (auto simp: pb_write_def open_at_def)
next
  fix s :: "'s pb_ostream"
  assume s: "open_at K s" and full: "max_size s < bytes_written s + length bs"
    and small: "bytes_written s + length bs < size_mod"
  have "max_size s < size_add (bytes_written s) (length bs)"
    using full small by (simp add: size_add_small)
  with s full show "\<exists>s' k. pb_write (Some (bs @ junk)) (length bs) s = Ret (None, s') \<and> out_errmsg s' \<noteq> None \<and>
      bytes_written s + k \<le> max_size s \<and> appended K (out_state s) (take k bs) (out_state s')"
    by (intro exI [of _ "s\<lparr>out_errmsg := Some ''stream full''\<rparr>"] exI [of _ 0])
      (auto simp: pb_write_def open_at_def out_error_def)
qed

lemma pb_write_all: "length bs = n \<Longrightarrow> writing K (pb_write (Some bs) n) bs"
  using pb_write [of bs "[]"] by auto

lemma pb_encode_varint: "writing K (pb_encode_varint v) (uleb128 (unat v))"
proof (cases "v \<le> 0x7F")
  case True
  then have small: "unat v < 128" by (simp add: word_le_nat_alt)
  then have "(ucast v :: u8) = word_of_nat (unat v)"
    by (simp add: word_unat_eq_iff unsigned_ucast_eq take_bit_eq_mod)
  with True small have "pb_encode_varint v = (pb_write (Some (uleb128 (unat v))) 1 :: ('s, unit) pb_out)"
    by (intro ext) (simp add: pb_encode_varint_def uleb128.simps [of "unat v"])
  moreover have "length (uleb128 (unat v)) = 1" using small by (simp add: uleb128.simps [of "unat v"])
  ultimately show ?thesis using pb_write_all [of "uleb128 (unat v)" 1] by (simp add: size_mod_def)
next
  case False
  then have "v \<noteq> 0" by auto
  have len: "length (uleb128 (unat v)) \<le> 10"
    using length_uleb128 [of "unat v" 9] unsigned_less [of v, where ?'a = nat] by simp
  obtain buffer where fill: "varint_fill v [] = Ret buffer"
    and buffer: "butlast buffer @ [last buffer AND 0x7F] = uleb128 (unat v)" "length buffer = length (uleb128 (unat v))"
    using varint_fill [OF \<open>v \<noteq> 0\<close>] len by blast
  have "pb_encode_varint v = (pb_write (Some (uleb128 (unat v))) (length (uleb128 (unat v))) :: ('s, unit) pb_out)"
    by (rule ext) (use False fill buffer in \<open>simp add: pb_encode_varint_def\<close>)
  then show ?thesis using pb_write_all len by (simp add: size_mod_def)
qed

lemma pb_encode_svarint: "writing K (pb_encode_svarint v) (uleb128 (zigzag (sint v)))"
proof -
  have "unat (if v <s 0 then NOT (push_bit 1 v) else push_bit 1 v) = zigzag (sint v)" by (rule unat_zigzag)
  then show ?thesis unfolding pb_encode_svarint_def by (metis pb_encode_varint)
qed

lemma pb_encode_fixed32: "writing K (pb_encode_fixed32 v) (le_bytes 4 (unat v))"
  using pb_write_all [of "le_bytes 4 (unat v)" 4]
  by (simp add: pb_encode_fixed32_def le_bytes_4 size_mod_def)

lemma pb_encode_fixed64: "writing K (pb_encode_fixed64 v) (le_bytes 8 (unat v))"
  using pb_write_all [of "le_bytes 8 (unat v)" 8]
  by (simp add: pb_encode_fixed64_def le_bytes_8 size_mod_def)

lemma pb_encode_tag: "unat wt < 8 \<Longrightarrow> writing K (pb_encode_tag wt n) (uleb128 (8 * unat n + unat wt))"
  using pb_encode_varint [of "push_bit 3 (ucast n) OR ucast wt"] by (simp add: pb_encode_tag_def unat_tag)

lemma pb_encode_string:
  "length bs < size_mod \<Longrightarrow> writing K (pb_encode_string (Some (bs @ junk)) (length bs)) (uleb128 (length bs) @ bs)"
  unfolding pb_encode_string_def
  using writing_bind [OF pb_encode_varint [of "word_of_nat (length bs)"] pb_write [of bs junk]]
  by (simp add: unat_word_of_nat_less size_mod_def)

lemma pb_encode_empty: "writing K (pb_encode_string None 0) [0]"
proof -
  have "writing K (pb_write None 0) []"
  proof (rule writingI)
    fix s :: "'s pb_ostream"
    show "\<exists>st'. pb_write None 0 s = Ret (Some (), s\<lparr>out_state := st', bytes_written := bytes_written s + length []\<rparr>) \<and>
        appended K (out_state s) [] st'" if "open_at K s"
      using that by (intro exI [of _ "out_state s"]) (simp add: pb_write_def open_at_def)
  qed (simp_all add: pb_write_def counting_def open_at_def)
  from writing_bind [OF pb_encode_varint [of 0] this] show ?thesis
    by (simp add: pb_encode_string_def uleb128.simps [of 0])
qed

text \<open>A message of the right size goes out behind its length.\<close>

lemma pb_encode_submessage:
  assumes f: "writing K encode body" and len: "length body < size_mod"
  shows "writing K (pb_encode_submessage encode) (uleb128 (length body) @ body)"
proof -
  let ?len = "pb_encode_varint (word_of_nat (length body)) :: ('s, unit) pb_out"
  have num: "unat (word_of_nat (length body) :: u64) = length body"
    using len by (intro unat_word_of_nat_less) (simp add: size_mod_def)
  have head: "writing K ?len (uleb128 (length body))"
    using pb_encode_varint [of "word_of_nat (length body)"] by (simp only: num)
  define body_of :: "('s, unit) pb_out" where "body_of s =
    (if out_callback s = None then pb_write None (length body) s
     else if max_size s < size_add (bytes_written s) (length body) then out_error ''stream full'' s
     else case encode \<lparr>out_callback = out_callback s, out_state = out_state s, max_size = length body,
                       bytes_written = 0, out_errmsg = None\<rparr> of
            Undef \<Rightarrow> Undef
          | Ret (status, substream) \<Rightarrow>
              let s = s\<lparr>out_state := out_state substream,
                        bytes_written := size_add (bytes_written s) (bytes_written substream),
                        out_errmsg := out_errmsg substream\<rparr>
              in if bytes_written substream \<noteq> length body then out_error ''submsg size changed'' s
                 else Ret (status, s))" for s
  have "counting (PB_OSTREAM_SIZING st)" for st :: 's
    by (simp add: counting_def PB_OSTREAM_SIZING_def size_mod_def)
  then have size: "encode (PB_OSTREAM_SIZING st) = Ret (Some (), (PB_OSTREAM_SIZING st)\<lparr>bytes_written := length body\<rparr>)" for st
    using writing_sizing [OF f, of "PB_OSTREAM_SIZING st"] len
    by (simp add: PB_OSTREAM_SIZING_def size_add_small)
  have sub: "pb_encode_submessage encode = pb_bind ?len (\<lambda>_. body_of)"
    by (rule ext) (auto simp: pb_encode_submessage_def size Let_def body_of_def intro!: pb_bind_cong split: c_outcome.splits prod.splits)
  have "writing K body_of body"
  proof (rule writingI)
    fix s :: "'s pb_ostream"
    assume "counting s"
    then show "body_of s = Ret (Some (), s\<lparr>bytes_written := size_add (bytes_written s) (length body)\<rparr>)"
      by (simp add: counting_def body_of_def pb_write_def)
  next
    fix s :: "'s pb_ostream"
    assume s: "open_at K s" and room: "bytes_written s + length body \<le> max_size s"
    define sub where "sub = \<lparr>out_callback = out_callback s, out_state = out_state s, max_size = length body,
      bytes_written = 0, out_errmsg = None :: string option\<rparr>"
    have "fits K (out_state s) (max_size s - bytes_written s)" using s by (simp add: open_at_def)
    then have "fits K (out_state s) (length body)" by (rule fits_less) (use room in simp)
    then have "open_at K sub" using s len by (simp add: open_at_def sub_def)
    moreover have "bytes_written sub + length body \<le> max_size sub" by (simp add: sub_def)
    ultimately obtain st' where "encode sub = Ret (Some (), sub\<lparr>out_state := st', bytes_written := bytes_written sub + length body\<rparr>)"
      and app: "appended K (out_state sub) body st'" by (rule writing_room [OF f])
    then have "encode sub = Ret (Some (), sub\<lparr>out_state := st', bytes_written := length body\<rparr>)"
      by (simp add: sub_def)
    moreover have "size_add (bytes_written s) (length body) = bytes_written s + length body"
      using s room by (simp add: open_at_def size_add_small)
    ultimately show "\<exists>st'. body_of s = Ret (Some (), s\<lparr>out_state := st', bytes_written := bytes_written s + length body\<rparr>) \<and>
        appended K (out_state s) body st'"
      using s room app by (intro exI [of _ st']) (auto simp: body_of_def open_at_def sub_def Let_def)
  next
    fix s :: "'s pb_ostream"
    assume s: "open_at K s" and full: "max_size s < bytes_written s + length body"
      and small: "bytes_written s + length body < size_mod"
    show "\<exists>s' k. body_of s = Ret (None, s') \<and> out_errmsg s' \<noteq> None \<and> bytes_written s + k \<le> max_size s \<and>
        appended K (out_state s) (take k body) (out_state s')"
      using s full small by (intro exI [of _ "s\<lparr>out_errmsg := Some ''stream full''\<rparr>"] exI [of _ 0])
        (auto simp: body_of_def open_at_def out_error_def size_add_small)
  qed
  with head show ?thesis unfolding sub by (rule writing_bind)
qed

end

section \<open>Buffers and strings\<close>

text \<open>The sink of \<open>pb_ostream_from_buffer\<close>: what lies before the pointer is written.\<close>

definition buffer_sink :: "(bytes \<times> nat) sink" where
  "buffer_sink =
     \<lparr>callback = buf_write, written = (\<lambda>(dest, pos). take pos dest), rest = (\<lambda>(dest, pos). drop pos dest),
      fits = (\<lambda>(dest, pos) n. pos + n \<le> length dest)\<rparr>"

definition string_sink :: "bytes sink" where
  "string_sink = \<lparr>callback = AppendToString, written = (\<lambda>str. str), rest = (\<lambda>_. []), fits = (\<lambda>_ _. True)\<rparr>"

lemma take_put_bytes: "pos \<le> length xs \<Longrightarrow> take (pos + length ys) (put_bytes pos ys xs) = take pos xs @ ys"
  by (simp add: put_bytes_def)

lemma drop_put_bytes: "pos + length ys \<le> length xs \<Longrightarrow> drop (pos + length ys) (put_bytes pos ys xs) = drop (pos + length ys) xs"
  by (simp add: put_bytes_def)

interpretation to_buffer: byte_sink buffer_sink
  by unfold_locales (auto simp: buffer_sink_def buf_write_def appended_def take_put_bytes drop_put_bytes
      length_put_bytes add.commute)

interpretation to_string: byte_sink string_sink
  by unfold_locales (auto simp: string_sink_def AppendToString_def appended_def)

end
