(* ===== verification/Pb_Refine.thy ===== *)
theory Pb_Refine
  imports Pb_Wire
begin

text \<open>
  The encoders write the bytes of \<open>Pb_Wire\<close>. \<open>emits K f (Some bs)\<close> says that \<open>f\<close> writes \<open>bs\<close>
  in the sense of \<open>writing\<close>, on sizing streams, with room and without; \<open>emits K f None\<close> says
  nothing. The combinators of operations have a rule each, and so the encoders follow the
  structure of the format.
\<close>

section \<open>Combinators\<close>

definition emits :: "'s sink \<Rightarrow> ('s, unit) pb_out \<Rightarrow> bytes option \<Rightarrow> bool" where
  "emits K f b = (\<forall>bs. b = Some bs \<longrightarrow> writing K f bs)"

named_theorems emits_intros \<open>what the combinators of encoders emit\<close>

lemma emits_Some: "emits K f (Some bs) \<longleftrightarrow> writing K f bs"
  by (simp add: emits_def)

lemma emits_None [emits_intros]: "emits K f None"
  by (simp add: emits_def)

lemma emitsD: "emits K f b \<Longrightarrow> b = Some bs \<Longrightarrow> writing K f bs"
  by (simp add: emits_def)

lemma emits_return [emits_intros]: "emits K (pb_return ()) (Some [])"
  by (simp add: emits_Some writing_return)

lemma emits_Ret [emits_intros]: "emits K (Ret \<circ> Pair (Some ())) (Some [])" "emits K (\<lambda>s. Ret (Some (), s)) (Some [])"
  using emits_return [of K] by (simp_all add: pb_return_def [abs_def] comp_def)

lemma emits_both [emits_intros]: "emits K f x \<Longrightarrow> emits K g y \<Longrightarrow> emits K (pb_bind f (\<lambda>_. g)) (both x y)"
  by (auto simp: emits_def both_def writing_bind split: bind_splits)

lemma emits_guard [emits_intros]: "(c \<Longrightarrow> emits K f x) \<Longrightarrow> emits K f (guard c x)"
  by (simp add: guard_def emits_None)

lemma emits_if [emits_intros]:
  "(c \<Longrightarrow> emits K f x) \<Longrightarrow> (\<not> c \<Longrightarrow> emits K g y) \<Longrightarrow> emits K (if c then f else g) (if c then x else y)"
  by simp

lemma emits_if_app:
  "(c \<Longrightarrow> emits K (f s) x) \<Longrightarrow> (\<not> c \<Longrightarrow> emits K (g s) y) \<Longrightarrow>
   emits K ((if c then f else g) s) (if c then x else y)"
  by simp

lemma pb_bind_return [simp]: "pb_bind (pb_return x) g = g x"
  by (rule ext) simp

lemma pb_bind_lift_Ret [simp]: "pb_bind (pb_lift (Ret x)) g = g x"
  by (rule ext) (simp add: pb_lift_def)

lemma pb_bind_assoc: "pb_bind (pb_bind f g) h = pb_bind f (\<lambda>x. pb_bind (g x) h)"
  by (rule ext) (simp add: pb_bind_def split: c_outcome.splits prod.splits option.splits)

lemma emits_lift [emits_intros]:
  "(\<And>x. r = Ret x \<Longrightarrow> emits K (g x) (h x)) \<Longrightarrow> emits K (pb_bind (pb_lift r) g) (Option.bind (to_option r) h)"
  by (cases r) (simp_all add: to_option_def emits_None)

section \<open>Reading memory\<close>

lemma to_option_read_le: "to_option (read_le m n a) = map_option le_nat (load m n a)"
  by (simp add: to_option_def read_le_def split: option.splits)

lemma those_map_upt:
  "those (map f [0..<Suc n]) = Some bs \<longleftrightarrow>
   (\<exists>b bs'. bs = b # bs' \<and> f 0 = Some b \<and> those (map (\<lambda>i. f (Suc i)) [0..<n]) = Some bs')"
proof -
  have "[0..<Suc n] = 0 # map Suc [0..<n]" by (simp only: upt_conv_Cons map_Suc_upt zero_less_Suc)
  then show ?thesis by (auto simp: o_def split: option.splits)
qed

lemma those_mapped:
  "those (map (\<lambda>i. m (a + word_of_nat i)) [0..<n]) = Some bs \<Longrightarrow> mapped m n a = bs \<and> length bs = n"
proof (induction n arbitrary: a bs)
  case 0
  then show ?case by simp
next
  case (Suc n)
  then obtain b bs' where "bs = b # bs'" "m a = Some b"
    and "those (map (\<lambda>i. m (a + 1 + word_of_nat i)) [0..<n]) = Some bs'"
    unfolding those_map_upt by (auto simp: add.assoc)
  with Suc.IH [of "a + 1" bs'] show ?case by simp
qed

lemma length_load: "load m n a = Some bs \<Longrightarrow> length bs = n"
  by (auto simp: load_def those_mapped split: if_splits)

lemma le_nat_less: "le_nat bs < 256 ^ length bs"
  using be_nat_less [of "rev bs"] by (simp add: le_nat_def)

lemma mapped_load: "load m n a = Some bs \<Longrightarrow> mapped m n a = bs"
  by (auto simp: load_def those_mapped split: if_splits)

lemma data_at_load: "load m n a = Some bs \<Longrightarrow> a \<noteq> 0 \<Longrightarrow> data_at m n a = Some bs"
  by (simp add: data_at_def mapped_load)

lemma le_bytes_le_nat: "length bs = n \<Longrightarrow> le_bytes n (le_nat bs) = bs"
  by (simp add: le_bytes_def le_nat_def be_bytes_be_nat)

section \<open>Numbers\<close>

lemma sint_twos: "v < 2 ^ LENGTH('a) \<Longrightarrow> sint (word_of_nat v :: 'a :: len word) = twos LENGTH('a) v"
proof -
  assume v: "v < 2 ^ LENGTH('a)"
  obtain n where n: "LENGTH('a) = Suc n" by (cases "LENGTH('a)") simp_all
  have "sint (word_of_nat v :: 'a word) = signed_take_bit n (int v)"
    using sint_sbintrunc' [of "int v", where ?'a = 'a] by (simp add: n)
  also have "\<dots> = (int v + 2 ^ n) mod 2 ^ Suc n - 2 ^ n"
    by (simp only: signed_take_bit_eq_take_bit_shift take_bit_eq_mod)
  also have "\<dots> = twos (Suc n) v"
  proof (cases "v < 2 ^ n")
    case True
    then have "int v < 2 ^ n" by (metis of_nat_less_iff of_nat_power of_nat_numeral)
    with True show ?thesis by (simp add: twos_def)
  next
    case False
    then have "2 ^ n \<le> int v" by (metis of_nat_le_iff of_nat_power of_nat_numeral not_less)
    moreover have "int v < 2 ^ Suc n" using v n by (metis of_nat_less_iff of_nat_power of_nat_numeral)
    ultimately have "(int v + 2 ^ n - 2 ^ Suc n) mod 2 ^ Suc n = int v + 2 ^ n - 2 ^ Suc n"
      by (intro mod_pos_pos_trivial) simp_all
    then have "(int v + 2 ^ n) mod 2 ^ Suc n = int v + 2 ^ n - 2 ^ Suc n" by (metis minus_mod_self2)
    with False show ?thesis by (simp add: twos_def)
  qed
  finally show ?thesis by (simp only: n)
qed

lemma unat_twos: "v < 2 ^ LENGTH('a) \<Longrightarrow> LENGTH('a) \<le> 64 \<Longrightarrow>
    unat (scast (word_of_nat v :: 'a :: len word) :: u64) = nat (twos LENGTH('a) v mod 2 ^ 64)"
  using sint_twos [of v, where ?'a = 'a] by (simp add: scast_eq unsigned_of_int take_bit_eq_mod)

lemma sint_scast: "LENGTH('a) \<le> 64 \<Longrightarrow> sint (scast (w :: 'a :: len word) :: u64) = sint w"
  by (rule sint_up_scast) (simp add: is_up)

section \<open>Values\<close>

lemma read_le_Ret: "read_le m n a = Ret v \<Longrightarrow> v < 256 ^ n"
  using le_nat_less length_load by (fastforce simp: read_le_def split: option.splits)

lemma number_cases:
  assumes "data_size field \<in> {1, 2, 4, 8}"
  obtains "data_size field = 1" | "data_size field = 2" | "data_size field = 4" | "data_size field = 8"
  using assms by auto

lemma number_at_read:
  "number_at m field src =
   guard (data_size field \<in> {1, 2, 4, 8}) (to_option (read_le m (unat (data_size field)) src))"
  by (simp add: number_at_def to_option_read_le)

lemma map_option_bind: "map_option f x = Option.bind x (\<lambda>y. Some (f y))"
  by (cases x) simp_all

lemma emits_scast:
  assumes "\<And>v. emits K (g v) (Some (h (sint v)))" and "v < 2 ^ LENGTH('w)" and "LENGTH('w) \<le> 64"
  shows "emits K (g (scast (word_of_nat v :: 'w :: len word) :: u64)) (Some (h (twos LENGTH('w) v)))"
  using assms(1) [of "scast (word_of_nat v :: 'w word)"] assms(2,3)
  by (simp add: sint_scast sint_twos)

lemma emits_signed:
  assumes "\<And>v. emits K (g v) (Some (h (sint v)))"
  shows "emits K (pb_bind (signed_value m field src) g)
    (map_option (\<lambda>v. h (twos (8 * unat (data_size field)) v)) (number_at m field src))"
proof (cases "data_size field \<in> {1, 2, 4, 8}")
  case False
  then show ?thesis by (simp add: number_at_def guard_def emits_None)
next
  case True
  note sized = emits_scast [where K = K and g = g and h = h, OF assms]
  have "emits K (pb_bind (signed_value m field src) g)
      (Option.bind (to_option (read_le m (unat (data_size field)) src)) (\<lambda>v. Some (h (twos (8 * unat (data_size field)) v))))"
    using True
  proof (cases rule: number_cases)
    case 1
    show ?thesis unfolding signed_value_def using 1 sized [where 'w = 8]
      by (auto simp: pb_bind_assoc intro!: emits_lift dest!: read_le_Ret)
  next
    case 2
    show ?thesis unfolding signed_value_def using 2 sized [where 'w = 16]
      by (auto simp: pb_bind_assoc intro!: emits_lift dest!: read_le_Ret)
  next
    case 3
    show ?thesis unfolding signed_value_def using 3 sized [where 'w = 32]
      by (auto simp: pb_bind_assoc intro!: emits_lift dest!: read_le_Ret)
  next
    case 4
    show ?thesis unfolding signed_value_def using 4 sized [where 'w = 64]
      by (auto simp: pb_bind_assoc intro!: emits_lift dest!: read_le_Ret)
  qed
  then show ?thesis using True by (simp add: number_at_read guard_def map_option_bind)
qed

lemma wire_int_sint: "uleb128 (unat v) = wire_int (sint v)" for v :: u64
proof -
  have "uint v = sint v mod 2 ^ 64" by (simp add: uint_sint take_bit_eq_mod)
  then show ?thesis by (simp add: wire_int_def flip: nat_uint_eq)
qed

lemma data_size_numbers: "unat (8 :: u32) = 8" "unat (4 :: u32) = 4" "unat (2 :: u32) = 2" "unat (1 :: u32) = 1"
  by simp_all

lemma uleb128_small: "v < 128 \<Longrightarrow> uleb128 v = [word_of_nat v]"
  by (subst uleb128.simps) simp

context byte_sink
begin

lemma emits_unsigned:
  "emits K (pb_bind (unsigned_value m field src) pb_encode_varint) (map_option uleb128 (number_at m field src))"
proof (cases "data_size field \<in> {1, 2, 4, 8}")
  case False
  then show ?thesis by (simp add: number_at_def guard_def emits_None)
next
  case True
  have "emits K (pb_encode_varint (word_of_nat v)) (Some (uleb128 v))" if "v < 256 ^ unat (data_size field)" for v
  proof -
    have "(256 :: nat) ^ unat (data_size field) \<le> 256 ^ 8" using True by (intro power_increasing) auto
    then have "unat (word_of_nat v :: u64) = v" using that by (intro unat_word_of_nat_less) simp
    then show ?thesis using pb_encode_varint [of "word_of_nat v"] by (simp add: emits_Some)
  qed
  then have "emits K (pb_bind (pb_lift (read_le m (unat (data_size field)) src)) (\<lambda>v. pb_encode_varint (word_of_nat v)))
      (Option.bind (to_option (read_le m (unat (data_size field)) src)) (\<lambda>v. Some (uleb128 v)))"
    by (intro emits_lift) (simp add: read_le_Ret)
  then show ?thesis
    using True by (simp add: unsigned_value_def pb_bind_assoc number_at_read guard_def map_option_bind)
qed

lemma emits_string:
  assumes "k < size_mod" and "a \<noteq> 0"
  shows "emits K (pb_encode_string (data_at m k a) k) (Option.bind (load m k a) framed)"
proof (cases "load m k a")
  case None
  then show ?thesis by (simp add: emits_None)
next
  case (Some bs)
  with assms length_load [OF Some] pb_encode_string [of bs "[]"] show ?thesis
    by (simp add: data_at_load framed_def emits_Some)
qed

lemma string_length_le: "string_length m n p = Ret k \<Longrightarrow> k \<le> n"
proof (induction m n p arbitrary: k rule: string_length.induct)
  case (1 m n p)
  then show ?case
    by (subst (asm) (2) string_length.simps) (fastforce split: if_splits option.splits c_outcome.splits)
qed

lemma emits_framed: "emits K f x \<Longrightarrow> emits K (pb_encode_submessage f) (Option.bind x framed)"
  by (auto simp: emits_def framed_def pb_encode_submessage split: bind_splits if_splits)

lemma emits_bool: "emits K (pb_enc_bool m field src) (map_option (\<lambda>bs. [if le_nat bs = 0 then 0 else 1]) (load m 1 src))"
proof (cases "load m 1 src")
  case None
  then show ?thesis by (simp add: emits_None)
next
  case (Some bs)
  then have "safe_read_bool m src = Ret (le_nat bs \<noteq> 0)" by (simp add: safe_read_bool_def read_le_def)
  then show ?thesis
    using Some pb_encode_varint [of 0] pb_encode_varint [of 1]
    by (cases "le_nat bs = 0") (simp_all add: pb_enc_bool_def emits_Some uleb128_small)
qed

lemma emits_fixed:
  "emits K (pb_enc_fixed32 m field src) (load m 4 src)" "emits K (pb_enc_fixed64 m field src) (load m 8 src)"
proof -
  show "emits K (pb_enc_fixed32 m field src) (load m 4 src)"
  proof (cases "load m 4 src")
    case (Some bs)
    then have bs: "length bs = 4" "le_nat bs < 2 ^ 32" using le_nat_less [of bs] length_load by auto
    then have "unat (word_of_nat (le_nat bs) :: u32) = le_nat bs" by (intro unat_word_of_nat_less) simp
    with Some bs(1) pb_encode_fixed32 [of "word_of_nat (le_nat bs)"] show ?thesis
      by (simp add: pb_enc_fixed32_def read_le_def emits_Some le_bytes_le_nat)
  qed (simp add: emits_None)
  show "emits K (pb_enc_fixed64 m field src) (load m 8 src)"
  proof (cases "load m 8 src")
    case (Some bs)
    then have bs: "length bs = 8" "le_nat bs < 2 ^ 64" using le_nat_less [of bs] length_load by auto
    then have "unat (word_of_nat (le_nat bs) :: u64) = le_nat bs" by (intro unat_word_of_nat_less) simp
    with Some bs(1) pb_encode_fixed64 [of "word_of_nat (le_nat bs)"] show ?thesis
      by (simp add: pb_enc_fixed64_def read_le_def emits_Some le_bytes_le_nat)
  qed (simp add: emits_None)
qed

lemma emits_bytes:
  "emits K (pb_enc_bytes m field src)
     (if src = 0 then Some [0]
      else Option.bind (load m 4 src) (\<lambda>bs.
        guard (PB_ATYPE (f_type field) = PB_ATYPE_STATIC \<longrightarrow> unat (data_size field) < 4 \<or> le_nat bs + 4 \<le> unat (data_size field))
          (guard (src + 4 \<noteq> 0) (Option.bind (load m (le_nat bs) (src + 4)) framed))))"
proof (cases "src = 0 \<or> load m 4 src = None")
  case True
  then show ?thesis by (auto simp: pb_enc_bytes_def emits_Some pb_encode_empty emits_None)
next
  case False
  then obtain bs where load: "load m 4 src = Some bs" and "src \<noteq> 0" by auto
  have small: "le_nat bs < 2 ^ 32" using le_nat_less [of bs] length_load [OF load] by simp
  have num: "unat (word_of_nat (le_nat bs) :: u64) = le_nat bs"
    using small by (intro unat_word_of_nat_less) simp
  let ?n = "unat (data_size field)"
  have room: "unat (ucast (data_size field) - 4 :: u64) = (if 4 \<le> ?n then ?n - 4 else 2 ^ 64 - 4 + ?n)"
    by (simp add: unat_sub_if' unat_ucast_up)
  have "\<not> ucast (data_size field) - (4 :: u64) < word_of_nat (le_nat bs)" if "?n < 4 \<or> le_nat bs + 4 \<le> ?n"
    using that small by (auto simp: word_less_nat_alt num room)
  with load \<open>src \<noteq> 0\<close> small show ?thesis
    by (auto simp: pb_enc_bytes_def read_le_def guard_def size_mod_def intro!: emits_None emits_string)
qed

lemma emits_c_string:
  "emits K (pb_enc_string m field src)
     (if src = 0 then Some [0]
      else Option.bind (to_option (string_length m
          (if PB_ATYPE (f_type field) = PB_ATYPE_POINTER then size_mod - 1 else unat (data_size field)) src)) (\<lambda>k.
        Option.bind (load m k src) framed))"
proof (cases "src = 0")
  case True
  then show ?thesis by (simp add: pb_enc_string_def data_at_def emits_Some pb_encode_empty)
next
  case False
  let ?n = "if PB_ATYPE (f_type field) = PB_ATYPE_POINTER then size_mod - 1 else unat (data_size field)"
  have "?n < size_mod"
    using unsigned_less [of "data_size field", where ?'a = nat] by (simp add: size_mod_def)
  with False have "emits K (pb_bind (pb_lift (string_length m ?n src)) (\<lambda>k. pb_encode_string (data_at m k src) k))
      (Option.bind (to_option (string_length m ?n src)) (\<lambda>k. Option.bind (load m k src) framed))"
    by (intro emits_lift emits_string) (auto dest: string_length_le)
  with False show ?thesis by (simp only: pb_enc_string_def Let_def if_False)
qed

text \<open>A value is written as the wire format has it.\<close>

lemma emits_value:
  assumes "\<And>ptr src. emits K (encode ptr src) (sub ptr src)"
  shows "emits K (PB_ENCODERS m encode field src) (value_bytes m sub field src)"
proof -
  let ?l = "PB_LTYPE (f_type field)"
  have int: "emits K (pb_enc_varint m field src) (map_option (\<lambda>v. wire_int (twos (8 * unat (data_size field)) v)) (number_at m field src))"
    unfolding pb_enc_varint_def
    by (rule emits_signed) (simp add: emits_Some pb_encode_varint flip: wire_int_sint)
  have sint: "emits K (pb_enc_svarint m field src) (map_option (\<lambda>v. uleb128 (zigzag (twos (8 * unat (data_size field)) v))) (number_at m field src))"
    unfolding pb_enc_svarint_def by (rule emits_signed) (simp add: emits_Some pb_encode_svarint)
  have sub: "emits K (pb_enc_submessage encode field src) (guard (f_ptr field \<noteq> 0) (Option.bind (sub (f_ptr field) src) framed))"
    by (auto simp: pb_enc_submessage_def guard_def intro: emits_None emits_framed assms)
  have fixed: "emits K (pb_enc_fixed_length_bytes m field src)
      (guard (src \<noteq> 0) (Option.bind (load m (unat (data_size field)) src) framed))"
  proof -
    have "unat (data_size field) < size_mod"
      using unsigned_less [of "data_size field", where ?'a = nat] by (simp add: size_mod_def)
    then show ?thesis unfolding pb_enc_fixed_length_bytes_def by (intro emits_guard emits_string)
  qed
  show ?thesis
    unfolding PB_ENCODERS_def value_bytes_def Let_def
    by (intro emits_if_app emits_bool int emits_unsigned [folded pb_enc_uvarint_def] sint emits_fixed emits_bytes
        emits_c_string sub fixed emits_None)
qed

end

section \<open>Arrays\<close>

lemma emits_items:
  "(\<And>p. emits K (func p) (item p)) \<Longrightarrow> emits K (encode_items func step n p) (items_bytes item step n p)"
  by (induction n arbitrary: p) (auto intro: emits_return emits_both)

lemma both_eq_Some: "both x y = Some bs \<longleftrightarrow> (\<exists>as cs. x = Some as \<and> y = Some cs \<and> bs = as @ cs)"
  by (auto simp: both_def bind_eq_Some_conv)

lemma length_items_bytes:
  "(\<And>p bs. item p = Some bs \<Longrightarrow> length bs = k) \<Longrightarrow> items_bytes item step n p = Some bs \<Longrightarrow> length bs = k * n"
  by (induction n arbitrary: p bs) (auto simp: both_eq_Some)

text \<open>The size of the packed data is counted, or computed, before any of it is written.\<close>

lemma packed_size_eq:
  assumes "writing K (encode_items func (ucast (data_size field)) n p) body"
    and "length body < size_mod"
    and "PB_LTYPE (f_type field) = 4 \<Longrightarrow> length body = 4 * n"
    and "PB_LTYPE (f_type field) = 5 \<Longrightarrow> length body = 8 * n"
  shows "packed_size field p n func s = Ret (Some (length body), s)"
proof -
  have "counting (PB_OSTREAM_SIZING (out_state s))" by (simp add: counting_def PB_OSTREAM_SIZING_def size_mod_def)
  from writing_sizing [OF assms(1) this] assms(2-) show ?thesis
    by (simp add: packed_size_def PB_OSTREAM_SIZING_def size_add_small)
qed

lemma writing_or_sizing:
  assumes "writing K f body"
  shows "writing K (\<lambda>s. if out_callback s = None then pb_write None (length body) s else f s) body"
proof (rule writingI)
  fix s :: "'a pb_ostream"
  assume "counting s"
  then show "(if out_callback s = None then pb_write None (length body) s else f s) =
      Ret (Some (), s\<lparr>bytes_written := size_add (bytes_written s) (length body)\<rparr>)"
    by (simp add: counting_def pb_write_def)
next
  fix s :: "'a pb_ostream"
  assume s: "open_at K s"
  then have "out_callback s \<noteq> None" by (simp add: open_at_def)
  then have eq: "(if out_callback s = None then pb_write None (length body) s else f s) = f s" by (rule if_not_P)
  show "\<exists>st'. (if out_callback s = None then pb_write None (length body) s else f s) =
        Ret (Some (), s\<lparr>out_state := st', bytes_written := bytes_written s + length body\<rparr>) \<and>
      appended K (out_state s) body st'" if "bytes_written s + length body \<le> max_size s"
    using writing_room [OF assms s that] unfolding eq by metis
  show "\<exists>s' k. (if out_callback s = None then pb_write None (length body) s else f s) = Ret (None, s') \<and>
      out_errmsg s' \<noteq> None \<and> bytes_written s + k \<le> max_size s \<and> appended K (out_state s) (take k body) (out_state s')"
    if "max_size s < bytes_written s + length body" "bytes_written s + length body < size_mod"
    using writing_full [OF assms s that] unfolding eq by metis
qed

context byte_sink
begin

lemma emits_tag: "wt < 8 \<Longrightarrow> emits K (pb_encode_tag (word_of_nat wt) (f_tag field)) (Some (tag_bytes field wt))"
  using pb_encode_tag [of "word_of_nat wt" "f_tag field"]
  by (simp add: emits_Some tag_bytes_def unat_word_of_nat_less)

lemma emits_tag_for_field:
  assumes "emits K f x" and "PB_LTYPE (f_type field) = 9 \<or> 10 < PB_LTYPE (f_type field) \<Longrightarrow> x = None"
  shows "emits K (pb_bind (pb_encode_tag_for_field field) (\<lambda>_. f)) (tagged field x)"
proof (cases "PB_LTYPE (f_type field) = 9 \<or> 10 < PB_LTYPE (f_type field)")
  case True
  with assms(2) show ?thesis by (auto simp: tagged_def both_def emits_None)
next
  case False
  let ?l = "PB_LTYPE (f_type field)"
  have "unat ?l \<le> 10" "unat ?l \<noteq> 9"
    using False by (auto simp: word_less_nat_alt word_unat_eq_iff)
  then have "unat ?l \<in> {0, 1, 2, 3, 4, 5, 6, 7, 8, 10}" by (simp only: insert_iff empty_iff) presburger
  then have "?l \<in> {0, 1, 2, 3, 4, 5, 6, 7, 8, 10}" by (auto simp: word_unat_eq_iff)
  then have "pb_encode_tag_for_field field = (pb_encode_tag (word_of_nat (wire_type ?l)) (f_tag field) :: ('s, unit) pb_out)"
    "wire_type ?l < 8"
    by (auto simp: pb_encode_tag_for_field_def wire_type_def Let_def)
  with emits_tag [of "wire_type ?l" field] assms(1) show ?thesis
    unfolding tagged_def by (auto intro: emits_both)
qed

lemma value_bytes_None: "PB_LTYPE (f_type field) = 9 \<or> 10 < PB_LTYPE (f_type field) \<Longrightarrow> value_bytes m sub field src = None"
  by (auto simp: value_bytes_def Let_def)

lemma emits_packed:
  assumes item: "\<And>p. emits K (func p) (item p)"
    and len: "\<And>p bs. item p = Some bs \<Longrightarrow> PB_LTYPE (f_type field) = 4 \<Longrightarrow> length bs = 4"
      "\<And>p bs. item p = Some bs \<Longrightarrow> PB_LTYPE (f_type field) = 5 \<Longrightarrow> length bs = 8"
  shows "emits K (pb_bind (packed_size field p n func) (\<lambda>k. pb_bind (pb_encode_varint (word_of_nat k)) (\<lambda>_ s.
        if out_callback s = None then pb_write None k s
        else encode_items func (ucast (data_size field)) n p s)))
    (Option.bind (items_bytes item (ucast (data_size field)) n p) framed)"
proof (cases "items_bytes item (ucast (data_size field)) n p")
  case None
  then show ?thesis by (simp add: emits_None)
next
  case (Some body)
  have w: "writing K (encode_items func (ucast (data_size field)) n p) body"
    using emits_items [of K func item, OF item] Some by (rule emitsD)
  show ?thesis
  proof (cases "length body < size_mod")
    case False
    with Some show ?thesis by (simp add: framed_def emits_None)
  next
    case True
    have size: "packed_size field p n func = pb_return (length body)"
      using packed_size_eq [OF w True] length_items_bytes [OF len(1) Some] length_items_bytes [OF len(2) Some]
      by (intro ext) simp
    have num: "unat (word_of_nat (length body) :: u64) = length body"
      using True by (intro unat_word_of_nat_less) (simp add: size_mod_def)
    show ?thesis
      using writing_bind [OF pb_encode_varint [of "word_of_nat (length body)"] writing_or_sizing [OF w]] True Some
      by (simp add: size framed_def emits_Some num)
  qed
qed

lemma emits_array:
  assumes "\<And>ptr src. emits K (encode ptr src) (sub ptr src)"
  shows "emits K (encode_array m field p n (PB_ENCODERS m encode field))
    (array_bytes m field p n (value_bytes m sub field))"
proof -
  note val = emits_value [OF assms]
  have len: "value_bytes m sub field src = Some bs \<Longrightarrow> PB_LTYPE (f_type field) = 4 \<Longrightarrow> length bs = 4"
    "value_bytes m sub field src = Some bs \<Longrightarrow> PB_LTYPE (f_type field) = 5 \<Longrightarrow> length bs = 8" for src bs
    using length_load by (auto simp: value_bytes_def)
  have packed: "emits K (pb_bind (pb_encode_tag PB_WT_STRING (f_tag field)) (\<lambda>_.
      pb_bind (packed_size field p n (PB_ENCODERS m encode field)) (\<lambda>k. pb_bind (pb_encode_varint (word_of_nat k)) (\<lambda>_ s.
        if out_callback s = None then pb_write None k s
        else encode_items (PB_ENCODERS m encode field) (ucast (data_size field)) n p s))))
    (both (Some (tag_bytes field 2)) (Option.bind (items_bytes (value_bytes m sub field) (ucast (data_size field)) n p) framed))"
    using emits_tag [of 2 field] by (intro emits_both emits_packed val len) simp_all
  have unpacked: "emits K (encode_items (\<lambda>p. pb_bind (pb_encode_tag_for_field field) (\<lambda>_.
        if c then pb_bind (pb_lift (read_ptr m p)) (PB_ENCODERS m encode field) else PB_ENCODERS m encode field p))
      (ucast (data_size field)) n p)
    (items_bytes (\<lambda>p. tagged field (if c then Option.bind (to_option (read_ptr m p)) (value_bytes m sub field)
       else value_bytes m sub field p)) (ucast (data_size field)) n p)" for c
    by (intro emits_items emits_tag_for_field emits_if emits_lift val)
      (auto simp: value_bytes_None to_option_def split: c_outcome.splits)
  show ?thesis
    unfolding encode_array_def array_bytes_def Let_def guard_def
    by (cases "n = 0") (auto intro: emits_return emits_None packed unpacked)
qed

end

section \<open>Fields and messages\<close>

text \<open>The functions of the application write what they promise, and the same every time.\<close>

definition user_writes :: "'s sink \<Rightarrow> 's pb_env \<Rightarrow> user_bytes \<Rightarrow> bool" where
  "user_writes K E U =
     ((\<forall>func field arg. emits K (user_encode E func field arg) (callback_bytes U func field arg)) \<and>
      (\<forall>func extension. emits K (user_extension E func extension) (extension_bytes U func extension)))"

lemma emits_bind_eq:
  "(\<And>x. b = Some x \<Longrightarrow> f = pb_return x) \<Longrightarrow> (\<And>x. b = Some x \<Longrightarrow> emits K (g x) (h x)) \<Longrightarrow>
   emits K (pb_bind f g) (Option.bind b h)"
  by (cases b) (simp_all add: emits_None)

lemma pb_lift_eq: "to_option r = Some x \<Longrightarrow> pb_lift r = pb_return x"
  by (rule ext) (auto simp: to_option_def pb_lift_def split: c_outcome.splits)

lemma emits_callback_result:
  assumes "emits K f x"
  shows "emits K (\<lambda>s. case f s of Undef \<Rightarrow> Undef | Ret (None, s) \<Rightarrow> out_error msg s | Ret (Some _, s) \<Rightarrow> pb_return () s) x"
    (is "emits K ?g x")
  unfolding emits_def
proof (intro allI impI, rule writingI)
  fix bs and s :: "'a pb_ostream"
  assume "x = Some bs"
  with assms have w: "writing K f bs" by (rule emitsD)
  show "?g s = Ret (Some (), s\<lparr>bytes_written := size_add (bytes_written s) (length bs)\<rparr>)" if "counting s"
    using writing_sizing [OF w that] by simp
  show "\<exists>st'. ?g s = Ret (Some (), s\<lparr>out_state := st', bytes_written := bytes_written s + length bs\<rparr>) \<and>
      appended K (out_state s) bs st'" if "open_at K s" "bytes_written s + length bs \<le> max_size s"
    by (rule writing_room [OF w that]) auto
  show "\<exists>s' k. ?g s = Ret (None, s') \<and> out_errmsg s' \<noteq> None \<and> bytes_written s + k \<le> max_size s \<and>
      appended K (out_state s) (take k bs) (out_state s')"
    if "open_at K s" "max_size s < bytes_written s + length bs" "bytes_written s + length bs < size_mod"
  proof (rule writing_full [OF w that])
    fix s' k
    assume "f s = Ret (None, s')" "out_errmsg s' \<noteq> None" "bytes_written s + k \<le> max_size s" "appended K (out_state s) (take k bs) (out_state s')"
    then show ?thesis
      by (intro exI [of _ s'] exI [of _ k]) (auto simp: out_error_def)
  qed
qed

context byte_sink
begin

lemma emits_tagged_value:
  assumes "\<And>ptr src. emits K (encode ptr src) (sub ptr src)"
  shows "emits K (pb_bind (pb_encode_tag_for_field field) (\<lambda>_. PB_ENCODERS m encode field data))
    (tagged field (value_bytes m sub field data))"
  by (intro emits_tag_for_field emits_value assms value_bytes_None)

lemma emits_basic_field:
  assumes "\<And>ptr src. emits K (encode ptr src) (sub ptr src)"
  shows "emits K (encode_basic_field m encode check_sub field pData) (basic_bytes m sub check_sub field pData)"
  unfolding encode_basic_field_def basic_bytes_def Let_def
proof (intro emits_lift emits_bind_eq, goal_cases)
  case (1 has x)
  then show ?case
    by (auto simp: to_option_def pb_lift_eq intro!: ext split: if_splits c_outcome.splits)
next
  case (2 has x)
  obtain data has where x: "x = (data, has)" by (cases x)
  note tv = emits_tagged_value [OF assms]
  show ?case
    unfolding x prod.case
    by (intro emits_if emits_guard emits_bind_eq tv emits_return emits_array assms emits_None)
      (auto simp: pb_lift_eq tv split: if_splits)
qed

lemma emits_field:
  assumes sub: "\<And>ptr src. emits K (encode ptr src) (sub ptr src)" and user: "user_writes K E U"
  shows "emits K (encode_field E encode check_sub field pData) (field_bytes E U sub check_sub field pData)"
proof -
  have call: "emits K (user_encode E func field arg) (callback_bytes U func field arg)" for func arg
    using user by (simp add: user_writes_def)
  have "emits K (encode_callback_field E field pData)
      (Option.bind (to_option (read_ptr (env_mem E) pData)) (\<lambda>func.
         if func = 0 then Some [] else callback_bytes U func field (pData + 8)))"
    unfolding encode_callback_field_def
  proof (rule emits_lift)
    fix func
    show "emits K (\<lambda>s. if func = 0 then pb_return () s
        else case user_encode E func field (pData + 8) s of Undef \<Rightarrow> Undef
             | Ret (None, s) \<Rightarrow> out_error ''callback error'' s | Ret (Some _, s) \<Rightarrow> pb_return () s)
      (if func = 0 then Some [] else callback_bytes U func field (pData + 8))"
      using emits_Ret emits_callback_result [OF call] by (cases "func = 0") simp_all
  qed
  then show ?thesis
    using emits_basic_field [OF sub]
    by (auto simp: encode_field_def field_bytes_def Let_def guard_def intro: emits_None)
qed

lemma emits_extension:
  assumes "\<And>field pData. emits K (enc field pData) (fb field pData)"
  shows "emits K (default_extension_encoder E enc extension) (one_extension_bytes E fb extension)"
  unfolding default_extension_encoder_def one_extension_bytes_def
  by (intro emits_lift) (auto split: option.splits list.splits intro!: emits_None emits_lift assms)

lemma emits_extensions:
  assumes "\<And>field pData. emits K (enc field pData) (fb field pData)" and "user_writes K E U"
  shows "emits K (encode_extensions E enc n extension) (extensions_bytes E U fb n extension)"
proof (induction n arbitrary: extension)
  case 0
  then show ?case by (auto intro: emits_return emits_Ret emits_None)
next
  case (Suc n)
  have "emits K (user_extension E func extension) (extension_bytes U func extension)" for func
    using assms(2) by (simp add: user_writes_def)
  then show ?case
    by (auto intro!: emits_return emits_Ret emits_lift emits_both emits_if emits_extension assms(1) Suc.IH)
qed

lemma emits_fields:
  assumes "\<And>field pData. emits K (enc field pData) (fb (field, pData))"
  shows "field_places iter = Some ps \<Longrightarrow> emits K (encode_fields enc iter) (foldr (\<lambda>p. both (fb p)) ps (Some []))"
proof (induction iter arbitrary: ps rule: field_places.induct)
  case (1 iter)
  obtain again iter' ps' where step: "pb_field_iter_next iter = Ret (again, iter')"
    and ps: "(if again then field_places iter' else Some []) = Some ps'"
      "ps = (it_start iter ! it_pos iter, it_pData iter) # ps'"
    using 1(2) by (subst (asm) field_places.simps)
      (auto simp: bind_eq_Some_conv to_option_def split: c_outcome.splits)
  have "emits K (if again then encode_fields enc iter' else pb_return ()) (foldr (\<lambda>p. both (fb p)) ps' (Some []))"
  proof (cases again)
    case True
    with 1(1) step ps(1) show ?thesis by (simp add: to_option_def)
  next
    case False
    with ps(1) emits_Ret emits_return show ?thesis by simp
  qed
  with assms have "emits K (pb_bind (enc (it_start iter ! it_pos iter) (it_pData iter))
      (\<lambda>_. if again then encode_fields enc iter' else pb_return ()))
    (both (fb (it_start iter ! it_pos iter, it_pData iter)) (foldr (\<lambda>p. both (fb p)) ps' (Some [])))"
    by (rule emits_both)
  then show ?case
    unfolding ps(2) encode_fields.simps [of enc iter] step foldr.simps comp_apply c_outcome.case prod.case .
qed

theorem emits_message:
  assumes user: "user_writes K E U"
  shows "emits K (pb_encode E depth fields_ptr src) (message_bytes E U depth fields_ptr src)"
proof (induction depth arbitrary: fields_ptr src)
  case 0
  then show ?case by (simp add: emits_None)
next
  case (Suc depth)
  have enc: "emits K (encode_field E (pb_encode E depth) (check_submessage E depth) field pData)
      (field_bytes E U (message_bytes E U depth) (check_submessage E depth) field pData)" for field pData
    by (intro emits_field Suc.IH user)
  show ?case
  proof (cases "descriptors E fields_ptr")
    case None
    then show ?thesis by (simp add: emits_None)
  next
    case (Some fs)
    let ?enc = "\<lambda>field pData. let enc = encode_field E (pb_encode E depth) (check_submessage E depth)
      in if PB_LTYPE (f_type field) = PB_LTYPE_EXTENSION then encode_extension_field E enc depth pData else enc field pData"
    let ?fb = "\<lambda>(field, pData). let fb = field_bytes E U (message_bytes E U depth) (check_submessage E depth)
      in if PB_LTYPE (f_type field) = PB_LTYPE_EXTENSION
         then Option.bind (to_option (read_ptr (env_mem E) pData)) (extensions_bytes E U fb depth) else fb field pData"
    have one: "emits K (?enc field pData) (?fb (field, pData))" for field pData
      unfolding Let_def prod.case encode_extension_field_def
      by (intro emits_if emits_lift emits_extensions enc user)
    have message: "emits K (if \<not> some then pb_return () else encode_fields ?enc iter)
      (if \<not> some then Some [] else Option.bind (field_places iter) (\<lambda>ps. foldr (\<lambda>p. both (?fb p)) ps (Some [])))"
      for some iter
    proof (intro emits_if emits_return)
      show "emits K (encode_fields ?enc iter)
        (Option.bind (field_places iter) (\<lambda>ps. foldr (\<lambda>p. both (?fb p)) ps (Some [])))"
      proof (cases "field_places iter")
        case None
        then show ?thesis by (simp add: emits_None)
      next
        case (Some ps)
        show ?thesis unfolding Some Option.bind.simps by (rule emits_fields [of ?enc ?fb, OF one Some])
      qed
    qed
    have curried: "(\<lambda>(field, pData). both (f field pData)) = (\<lambda>p. both (case p of (field, pData) \<Rightarrow> f field pData))" for f
      by (rule ext) (simp add: split_beta)
    show ?thesis
      unfolding pb_encode.simps message_bytes.simps Some option.case Option.bind.simps curried
      by (rule emits_lift, simp only: split_beta fst_conv snd_conv) (rule message [unfolded split_beta])
  qed
qed

end

end
