(* ===== verification/Pb_Messages.thy ===== *)
theory Pb_Messages
  imports Pb_Refine
begin

text \<open>
  What encoding and decoding promise to an application: the size a sizing pass reports, the
  bytes that fill a buffer of that size, and the failure of a buffer that is too small. The
  example is the payload of a crash report.
\<close>

section \<open>An example message\<close>

text \<open>
  A list of files, each with a name and contents in byte arrays of their own, as
  \<open>crashlytics.nanopb.c\<close> describes it; the second description is at address 32.
\<close>

definition google_crashlytics_FilesPayload_fields :: "pb_field list" where
  "google_crashlytics_FilesPayload_fields =
     [\<lparr>f_tag = 1, f_type = 0xA8, data_offset = 8, size_offset = -8, data_size = 16, array_size = 0, f_ptr = 32\<rparr>,
      \<lparr>f_tag = 0, f_type = 0, data_offset = 0, size_offset = 0, data_size = 0, array_size = 0, f_ptr = 0\<rparr>]"

definition google_crashlytics_FilesPayload_File_fields :: "pb_field list" where
  "google_crashlytics_FilesPayload_File_fields =
     [\<lparr>f_tag = 1, f_type = 0x96, data_offset = 0, size_offset = 0, data_size = 8, array_size = 0, f_ptr = 0\<rparr>,
      \<lparr>f_tag = 2, f_type = 0x96, data_offset = 0, size_offset = 0, data_size = 8, array_size = 0, f_ptr = 0\<rparr>,
      \<lparr>f_tag = 0, f_type = 0, data_offset = 0, size_offset = 0, data_size = 0, array_size = 0, f_ptr = 0\<rparr>]"

text \<open>The payload at 64, its file at 80, and the two byte arrays at 96 and 104.\<close>

definition example_mem :: mem where
  "example_mem = mem_at 64
     ([1, 0, 0, 0] @ [0, 0, 0, 0] @ [80, 0, 0, 0, 0, 0, 0, 0] @
      [96, 0, 0, 0, 0, 0, 0, 0] @ [104, 0, 0, 0, 0, 0, 0, 0] @
      [1, 0, 0, 0] @ [97] @ [0, 0, 0] @ [2, 0, 0, 0] @ [7, 9])"

definition example_env :: "'s pb_env" where
  "example_env =
     \<lparr>env_mem = example_mem,
      descriptors = [16 \<mapsto> google_crashlytics_FilesPayload_fields,
        32 \<mapsto> google_crashlytics_FilesPayload_File_fields],
      user_encode = (\<lambda>_ _ _ _. Undef), user_extension = (\<lambda>_ _ _. Undef)\<rparr>"

definition no_callbacks :: user_bytes where
  "no_callbacks = \<lparr>callback_bytes = (\<lambda>_ _ _. None), extension_bytes = (\<lambda>_ _. None)\<rparr>"

lemma no_callbacks_write: "user_writes K example_env no_callbacks"
  by (simp add: user_writes_def no_callbacks_def emits_None)

lemma example_loads:
  "load example_mem 4 64 = Some [1, 0, 0, 0]"
  "load example_mem 8 72 = Some [80, 0, 0, 0, 0, 0, 0, 0]"
  "load example_mem 8 80 = Some [96, 0, 0, 0, 0, 0, 0, 0]"
  "load example_mem 8 88 = Some [104, 0, 0, 0, 0, 0, 0, 0]"
  "load example_mem 4 96 = Some [1, 0, 0, 0]" "load example_mem (Suc 0) 100 = Some [97]"
  "load example_mem 4 104 = Some [2, 0, 0, 0]" "load example_mem 2 108 = Some [7, 9]"
proof -
  have "holds example_mem 64
     ([1, 0, 0, 0] @ [0, 0, 0, 0] @ [80, 0, 0, 0, 0, 0, 0, 0] @
      [96, 0, 0, 0, 0, 0, 0, 0] @ [104, 0, 0, 0, 0, 0, 0, 0] @
      [1, 0, 0, 0] @ [97] @ [0, 0, 0] @ [2, 0, 0, 0] @ [7, 9])"
    unfolding example_mem_def by (rule holds_mem_at) simp
  then have "holds example_mem 64 [1, 0, 0, 0]" "holds example_mem 72 [80, 0, 0, 0, 0, 0, 0, 0]"
    "holds example_mem 80 [96, 0, 0, 0, 0, 0, 0, 0]" "holds example_mem 88 [104, 0, 0, 0, 0, 0, 0, 0]"
    "holds example_mem 96 [1, 0, 0, 0]" "holds example_mem 100 [97]"
    "holds example_mem 104 [2, 0, 0, 0]" "holds example_mem 108 [7, 9]"
    unfolding holds_append by simp_all
  from this [THEN load_holds] show
    "load example_mem 4 64 = Some [1, 0, 0, 0]"
    "load example_mem 8 72 = Some [80, 0, 0, 0, 0, 0, 0, 0]"
    "load example_mem 8 80 = Some [96, 0, 0, 0, 0, 0, 0, 0]"
    "load example_mem 8 88 = Some [104, 0, 0, 0, 0, 0, 0, 0]"
    "load example_mem 4 96 = Some [1, 0, 0, 0]" "load example_mem (Suc 0) 100 = Some [97]"
    "load example_mem 4 104 = Some [2, 0, 0, 0]" "load example_mem 2 108 = Some [7, 9]"
    by (simp_all add: numeral_eq_Suc)
qed

lemma example_numbers:
  "le_nat [1, 0, 0, 0] = 1" "le_nat [80, 0, 0, 0, 0, 0, 0, 0] = 80" "le_nat [96, 0, 0, 0, 0, 0, 0, 0] = 96"
  "le_nat [104, 0, 0, 0, 0, 0, 0, 0] = 104" "le_nat [2, 0, 0, 0] = 2"
  by (simp_all add: le_nat_def be_nat_def)

lemma field_places_last: "pb_field_iter_next iter = Ret (False, iter') \<Longrightarrow>
    field_places iter = Some [(it_start iter ! it_pos iter, it_pData iter)]"
  by (subst field_places.simps) (simp add: to_option_def)

lemma field_places_more: "pb_field_iter_next iter = Ret (True, iter') \<Longrightarrow> field_places iter' = Some ps \<Longrightarrow>
    field_places iter = Some ((it_start iter ! it_pos iter, it_pData iter) # ps)"
  by (subst field_places.simps) (simp add: to_option_def)

lemmas iter_eval = pb_field_iter_begin_def pb_field_iter_next_def PB_HTYPE_def PB_ATYPE_def PB_LTYPE_def Let_def

lemmas example_eval = example_loads example_numbers read_ptr_def read_le_def outcome_bind_def to_option_def
  guard_def both_def framed_def tag_bytes_def tagged_def wire_type_def size_mod_def uleb128_small

lemma example_file:
  "message_bytes (example_env :: 's pb_env) no_callbacks (Suc n) 32 80 = Some [0x0A, 1, 97, 0x12, 2, 7, 9]"
proof -
  let ?fs = google_crashlytics_FilesPayload_File_fields
  obtain iter where start: "pb_field_iter_begin ?fs 80 = Ret (True, iter)"
    and places: "field_places iter = Some [(?fs ! 0, 80), (?fs ! 1, 88)]"
  proof -
    let ?i = "\<lparr>it_start = ?fs, it_pos = 0, required_field_index = 0, dest_struct = 80, it_pData = 80, it_pSize = 80\<rparr>"
    let ?j = "\<lparr>it_start = ?fs, it_pos = 1, required_field_index = 0, dest_struct = 80, it_pData = 88, it_pSize = 88\<rparr>"
    have "pb_field_iter_begin ?fs 80 = Ret (True, ?i)"
      by (simp add: iter_eval google_crashlytics_FilesPayload_File_fields_def)
    moreover have "pb_field_iter_next ?i = Ret (True, ?j)"
      by (simp add: iter_eval google_crashlytics_FilesPayload_File_fields_def)
    moreover have "\<exists>k. pb_field_iter_next ?j = Ret (False, k)"
      by (simp add: iter_eval google_crashlytics_FilesPayload_File_fields_def)
    ultimately show ?thesis
      using that field_places_more [of ?i ?j] field_places_last [of ?j] by force
  qed
  have "descriptors (example_env :: 's pb_env) 32 = Some ?fs" "env_mem (example_env :: 's pb_env) = example_mem"
    by (simp_all add: example_env_def)
  moreover have "field_bytes (example_env :: 's pb_env) no_callbacks sub check (?fs ! 0) 80 = Some [0x0A, 1, 97]" for sub check
    by (simp add: google_crashlytics_FilesPayload_File_fields_def field_bytes_def basic_bytes_def value_bytes_def
        implicit_has_def pb_check_proto3_default_value_def iter_eval example_env_def example_eval)
  moreover have "field_bytes (example_env :: 's pb_env) no_callbacks sub check (?fs ! 1) 88 = Some [0x12, 2, 7, 9]" for sub check
    by (simp add: google_crashlytics_FilesPayload_File_fields_def field_bytes_def basic_bytes_def value_bytes_def
        implicit_has_def pb_check_proto3_default_value_def iter_eval example_env_def example_eval)
  moreover have "PB_LTYPE (f_type (?fs ! 0)) = 6" "PB_LTYPE (f_type (?fs ! 1)) = 6"
    by (simp_all add: google_crashlytics_FilesPayload_File_fields_def PB_LTYPE_def)
  ultimately show ?thesis
    using start places by (simp add: to_option_def both_def)
qed

lemma example_payload:
  "message_bytes (example_env :: 's pb_env) no_callbacks 3 16 64 = Some [0x0A, 7, 0x0A, 1, 97, 0x12, 2, 7, 9]"
proof -
  let ?fs = google_crashlytics_FilesPayload_fields
  let ?i = "\<lparr>it_start = ?fs, it_pos = 0, required_field_index = 0, dest_struct = 64, it_pData = 72, it_pSize = 64\<rparr>"
  have start: "pb_field_iter_begin ?fs 64 = Ret (True, ?i)"
    by (simp add: iter_eval google_crashlytics_FilesPayload_fields_def)
  have "\<exists>k. pb_field_iter_next ?i = Ret (False, k)"
    by (simp add: iter_eval google_crashlytics_FilesPayload_fields_def)
  then have places: "field_places ?i = Some [(?fs ! 0, 72)]"
    using field_places_last [of ?i] by force
  have "descriptors (example_env :: 's pb_env) 16 = Some ?fs" "env_mem (example_env :: 's pb_env) = example_mem"
    by (simp_all add: example_env_def)
  moreover have field: "sub 32 80 = Some [0x0A, 1, 97, 0x12, 2, 7, 9] \<Longrightarrow>
      field_bytes (example_env :: 's pb_env) no_callbacks sub check (?fs ! 0) 72 = Some [0x0A, 7, 0x0A, 1, 97, 0x12, 2, 7, 9]" for sub check
    by (simp add: google_crashlytics_FilesPayload_fields_def field_bytes_def basic_bytes_def value_bytes_def array_bytes_def
        implicit_has_def pb_check_proto3_default_value_def iter_eval example_env_def example_eval)
  note field [where sub = "message_bytes (example_env :: 's pb_env) no_callbacks (Suc (Suc 0))", OF example_file [where n = "Suc 0"]]
  moreover have "PB_LTYPE (f_type (?fs ! 0)) = 8"
    by (simp add: google_crashlytics_FilesPayload_fields_def PB_LTYPE_def)
  ultimately have "message_bytes (example_env :: 's pb_env) no_callbacks (Suc (Suc (Suc 0))) 16 64 = Some [0x0A, 7, 0x0A, 1, 97, 0x12, 2, 7, 9]"
    using start places by (subst message_bytes.simps(2)) (simp add: to_option_def both_def del: message_bytes.simps)
  then show ?thesis by (simp only: numeral_3_eq_3)
qed

lemma example_length: "length [0x0A, 7, 0x0A, 1, 97, 0x12, 2, 7, 9 :: u8] = 9"
  by simp

section \<open>Messages in a buffer\<close>

text \<open>
  The report of a crash as \<open>FIRCLSReportAdapter.m\<close> hands it to the transport: encoded once to
  count its bytes and once into a data object of that size. Errors are only logged. The
  object's bytes come from Core Foundation.
\<close>

definition transportBytes :: "(nat \<Rightarrow> bytes) \<Rightarrow> (bytes \<times> nat) pb_env \<Rightarrow> nat \<Rightarrow> u64 \<Rightarrow> u64 \<Rightarrow> bytes c_outcome" where
  "transportBytes CFDataSetLength E depth fields_ptr report =
     outcome_bind (pb_encode E depth fields_ptr report (PB_OSTREAM_SIZING ([], 0))) (\<lambda>(_, sizestream).
       let bufferSize = bytes_written sizestream
       in outcome_bind (pb_encode E depth fields_ptr report
            (pb_ostream_from_buffer (CFDataSetLength bufferSize) bufferSize)) (\<lambda>(_, ostream).
          Ret (fst (out_state ostream))))"

lemma buffer_open_at: "bufsize \<le> length buf \<Longrightarrow> bufsize < size_mod \<Longrightarrow> open_at buffer_sink (pb_ostream_from_buffer buf bufsize)"
  by (simp add: open_at_def pb_ostream_from_buffer_def buffer_sink_def)

lemma appended_buffer:
  assumes "appended buffer_sink (buf, 0) bs st'" and "length bs \<le> length buf"
  shows "st' = (bs @ drop (length bs) buf, length bs)"
proof (cases st')
  case (Pair dest pos)
  have "take pos dest = bs" "drop pos dest = drop (length bs) buf"
    and fits: "fits buffer_sink st' (length buf - length bs)"
    using assms by (simp_all add: appended_def buffer_sink_def Pair)
  then have "dest = bs @ drop (length bs) buf" by (metis append_take_drop_id)
  moreover have "pos \<le> length dest" using fits by (simp add: buffer_sink_def Pair)
  ultimately show ?thesis using \<open>take pos dest = bs\<close> by (metis Pair length_take min.absorb2)
qed

lemma encode_writes:
  assumes "user_writes buffer_sink E U" and "message_bytes E U depth fields_ptr src = Some bs"
  shows "writing buffer_sink (pb_encode E depth fields_ptr src) bs"
  using to_buffer.emits_message [OF assms(1)] assms(2) by (rule emitsD)

lemma encode_into_buffer:
  assumes "user_writes buffer_sink E U" and "message_bytes E U depth fields_ptr src = Some bs"
    and "length bs \<le> bufsize" and "bufsize \<le> length buf" and "bufsize < size_mod"
  shows "\<exists>s. pb_encode E depth fields_ptr src (pb_ostream_from_buffer buf bufsize) = Ret (Some (), s) \<and>
    out_state s = (bs @ drop (length bs) buf, length bs) \<and> bytes_written s = length bs \<and> out_errmsg s = None"
proof -
  let ?s = "pb_ostream_from_buffer buf bufsize"
  have "bytes_written ?s + length bs \<le> max_size ?s" using assms(3) by (simp add: pb_ostream_from_buffer_def)
  with writing_room [OF encode_writes [OF assms(1,2)] buffer_open_at [OF assms(4,5)]]
  obtain st' where "pb_encode E depth fields_ptr src ?s =
      Ret (Some (), ?s\<lparr>out_state := st', bytes_written := bytes_written ?s + length bs\<rparr>)"
    and "appended buffer_sink (out_state ?s) bs st'" by blast
  moreover have "st' = (bs @ drop (length bs) buf, length bs)"
    using \<open>appended buffer_sink (out_state ?s) bs st'\<close> assms(3,4)
    by (intro appended_buffer) (simp_all add: pb_ostream_from_buffer_def)
  ultimately show ?thesis by (simp add: pb_ostream_from_buffer_def)
qed

lemma encode_sizing:
  assumes "user_writes buffer_sink E U" and "message_bytes E U depth fields_ptr src = Some bs" and "length bs < size_mod"
  shows "pb_encode E depth fields_ptr src (PB_OSTREAM_SIZING st) =
    Ret (Some (), (PB_OSTREAM_SIZING st)\<lparr>bytes_written := length bs\<rparr>)"
  using writing_sizing [OF encode_writes [OF assms(1,2)], of "PB_OSTREAM_SIZING st"] assms(3)
  by (simp add: counting_def PB_OSTREAM_SIZING_def size_add_def)

text \<open>
  C17: \<open>pb_encode\<close> into a buffer with room writes exactly the wire format of the message: the
  bytes the abstract specification gives it stand at the start of the buffer, nothing behind
  them is changed, and \<open>bytes_written\<close> is their number.
\<close>

theorem message_encoded:
  assumes "user_writes buffer_sink E U" and "message_bytes E U depth fields_ptr src = Some bs"
    and "length bs \<le> bufsize" and "bufsize \<le> length buf" and "bufsize < size_mod"
  shows "\<exists>s. pb_encode E depth fields_ptr src (pb_ostream_from_buffer buf bufsize) = Ret (Some (), s) \<and>
    fst (out_state s) = bs @ drop (length bs) buf \<and> bytes_written s = length bs"
  using encode_into_buffer [OF assms] by auto

theorem message_encoded_witness:
  "\<exists>s. pb_encode example_env 3 16 64 (pb_ostream_from_buffer (replicate 12 5) 10) = Ret (Some (), s) \<and>
    fst (out_state s) = [0x0A, 7, 0x0A, 1, 97, 0x12, 2, 7, 9, 5, 5, 5] \<and> bytes_written s = 9"
  using message_encoded [OF no_callbacks_write example_payload, of 10 "replicate 12 5", unfolded example_length]
  by (simp add: size_mod_def numeral_3_eq_3)

text \<open>
  C18: a sizing pass announces exactly the length of the encoded message, and the crash
  reporter's \<open>transportBytes\<close>, which makes its buffer that large, returns the message and
  nothing else.
\<close>

theorem encoded_size_exact:
  assumes "user_writes buffer_sink E U" and "message_bytes E U depth fields_ptr src = Some bs"
    and "length bs < size_mod" and "\<And>n. length (CFDataSetLength n) = n"
  shows "pb_get_encoded_size E depth fields_ptr src st = Ret (Some (length bs)) \<and>
    transportBytes CFDataSetLength E depth fields_ptr src = Ret bs"
proof -
  obtain s where "pb_encode E depth fields_ptr src (pb_ostream_from_buffer (CFDataSetLength (length bs)) (length bs)) =
      Ret (Some (), s)" and "fst (out_state s) = bs"
    using encode_into_buffer [OF assms(1,2), of "length bs" "CFDataSetLength (length bs)"] assms(3,4) by auto
  then show ?thesis
    by (simp add: pb_get_encoded_size_def transportBytes_def encode_sizing [OF assms(1-3)] outcome_bind_def)
qed

theorem encoded_size_exact_witness:
  "pb_get_encoded_size (example_env :: (bytes \<times> nat) pb_env) 3 16 64 ([], 0) = Ret (Some 9) \<and>
   transportBytes (\<lambda>n. replicate n 0) example_env 3 16 64 = Ret [0x0A, 7, 0x0A, 1, 97, 0x12, 2, 7, 9]"
  using encoded_size_exact [OF no_callbacks_write example_payload, of "\<lambda>n. replicate n 0" "([], 0)",
      unfolded example_length]
  by (simp add: size_mod_def)

text \<open>
  C19: into a buffer that is too small \<open>pb_encode\<close> fails with an error message, having written
  some of the first bytes of the message and nothing behind the size it was given.
\<close>

theorem full_buffer_safe:
  assumes "user_writes buffer_sink E U" and "message_bytes E U depth fields_ptr src = Some bs"
    and "bufsize < length bs" and "bufsize \<le> length buf" and "length bs < size_mod"
  shows "\<exists>s k. pb_encode E depth fields_ptr src (pb_ostream_from_buffer buf bufsize) = Ret (None, s) \<and>
    out_errmsg s \<noteq> None \<and> k \<le> bufsize \<and> fst (out_state s) = take k bs @ drop k buf"
proof -
  let ?s = "pb_ostream_from_buffer buf bufsize"
  have "max_size ?s < bytes_written ?s + length bs" "bytes_written ?s + length bs < size_mod" "bufsize < size_mod"
    using assms(3,5) by (simp_all add: pb_ostream_from_buffer_def)
  with writing_full [OF encode_writes [OF assms(1,2)] buffer_open_at [OF assms(4)]]
  obtain s k where "pb_encode E depth fields_ptr src ?s = Ret (None, s)" and "out_errmsg s \<noteq> None"
    and "bytes_written ?s + k \<le> max_size ?s" and "appended buffer_sink (out_state ?s) (take k bs) (out_state s)" by blast
  then have "out_state s = (take k bs @ drop k buf, k)" "k \<le> bufsize"
    using appended_buffer [of buf "take k bs" "out_state s"] assms(3,4) by (simp_all add: pb_ostream_from_buffer_def)
  then show ?thesis
    using \<open>pb_encode E depth fields_ptr src ?s = Ret (None, s)\<close> \<open>out_errmsg s \<noteq> None\<close> by auto
qed

theorem full_buffer_safe_witness:
  "\<exists>s k. pb_encode example_env 3 16 64 (pb_ostream_from_buffer (replicate 12 5) 8) = Ret (None, s) \<and>
    out_errmsg s \<noteq> None \<and> k \<le> 8 \<and>
    fst (out_state s) = take k [0x0A, 7, 0x0A, 1, 97, 0x12, 2, 7, 9] @ drop k (replicate 12 5)"
  using full_buffer_safe [OF no_callbacks_write example_payload, of 8 "replicate 12 5", unfolded example_length]
  by (simp add: size_mod_def)

end
