(* ===== verification/Pb_Values.thy ===== *)
theory Pb_Values
  imports Pb_Encode Pb_Read Pb_Write
begin

text \<open>
  The decoders of single values in \<open>pb_decode.c\<close>. They read from a stream and store into the
  structure that is decoded, so their state is the stream with the memory. A callback that
  fails has stored nothing; storing at an address that is not mapped is undefined. The
  allocator is a parameter.
\<close>

section \<open>Streams with a memory\<close>

type_synonym ('s, 'a) pb_dec = "('s pb_istream \<times> mem, 'a option) c_op"
type_synonym 's decoder = "u64 \<Rightarrow> ('s, unit) pb_dec"

definition store :: "mem \<Rightarrow> u64 \<Rightarrow> bytes \<Rightarrow> mem option" where
  "store m a bs =
     (if load m (length bs) a = None then None
      else Some (\<lambda>p. if unat (p - a) < length bs then Some (bs ! unat (p - a)) else m p))"

definition on_stream :: "('s pb_istream, 'a) c_op \<Rightarrow> ('s pb_istream \<times> mem, 'a) c_op" where
  "on_stream f = (\<lambda>(s, m). case f s of Undef \<Rightarrow> Undef | Ret (r, s) \<Rightarrow> Ret (r, (s, m)))"

definition dec_error :: "string \<Rightarrow> ('s, 'a) pb_dec" where
  "dec_error msg = on_stream (in_error msg)"

definition put_mem :: "u64 \<Rightarrow> bytes \<Rightarrow> ('s, unit) pb_dec" where
  "put_mem a bs = (\<lambda>(s, m). case store m a bs of None \<Rightarrow> Undef | Some m \<Rightarrow> Ret (Some (), (s, m)))"

definition get_mem :: "(mem \<Rightarrow> 'a c_outcome) \<Rightarrow> ('s, 'a) pb_dec" where
  "get_mem f = (\<lambda>(s, m). case f m of Undef \<Rightarrow> Undef | Ret x \<Rightarrow> Ret (Some x, (s, m)))"

text \<open>\<open>pb_read\<close> into memory.\<close>

definition read_into :: "u64 \<Rightarrow> nat \<Rightarrow> ('s, unit) pb_dec" where
  "read_into dest n = pb_bind (on_stream (pb_read False n)) (put_mem dest)"

section \<open>Numbers\<close>

definition pb_decode_svarint :: "('s, u64) pb_in" where
  "pb_decode_svarint =
     pb_bind pb_decode_varint (\<lambda>val.
       pb_return (if val AND 1 \<noteq> 0 then NOT (drop_bit 1 val) else drop_bit 1 val))"

definition pb_decode_fixed32 :: "('s, u32) pb_in" where
  "pb_decode_fixed32 =
     pb_bind (pb_read False 4) (\<lambda>bytes. pb_return
       (push_bit 0 (ucast (bytes ! 0)) OR push_bit 8 (ucast (bytes ! 1)) OR
        push_bit 16 (ucast (bytes ! 2)) OR push_bit 24 (ucast (bytes ! 3))))"

definition pb_decode_fixed64 :: "('s, u64) pb_in" where
  "pb_decode_fixed64 =
     pb_bind (pb_read False 8) (\<lambda>bytes. pb_return
       (push_bit 0 (ucast (bytes ! 0)) OR push_bit 8 (ucast (bytes ! 1)) OR
        push_bit 16 (ucast (bytes ! 2)) OR push_bit 24 (ucast (bytes ! 3)) OR
        push_bit 32 (ucast (bytes ! 4)) OR push_bit 40 (ucast (bytes ! 5)) OR
        push_bit 48 (ucast (bytes ! 6)) OR push_bit 56 (ucast (bytes ! 7))))"

text \<open>The assignments that cut a number to the size of its member; the result is \<open>clamped\<close>.\<close>

definition store_signed :: "pb_field \<Rightarrow> u64 \<Rightarrow> u64 \<Rightarrow> ('s, u64) pb_dec" where
  "store_signed field dest svalue =
     (if data_size field = 8
      then pb_bind (put_mem dest (le_bytes 8 (unat svalue))) (\<lambda>_. pb_return svalue)
      else if data_size field = 4
      then pb_bind (put_mem dest (le_bytes 4 (unat (ucast svalue :: u32)))) (\<lambda>_. pb_return (scast (ucast svalue :: u32)))
      else if data_size field = 2
      then pb_bind (put_mem dest (le_bytes 2 (unat (ucast svalue :: u16)))) (\<lambda>_. pb_return (scast (ucast svalue :: u16)))
      else if data_size field = 1
      then pb_bind (put_mem dest (le_bytes 1 (unat (ucast svalue :: u8)))) (\<lambda>_. pb_return (scast (ucast svalue :: u8)))
      else dec_error ''invalid data_size'')"

definition store_unsigned :: "pb_field \<Rightarrow> u64 \<Rightarrow> u64 \<Rightarrow> ('s, u64) pb_dec" where
  "store_unsigned field dest val =
     (if data_size field = 8
      then pb_bind (put_mem dest (le_bytes 8 (unat val))) (\<lambda>_. pb_return val)
      else if data_size field = 4
      then pb_bind (put_mem dest (le_bytes 4 (unat (ucast val :: u32)))) (\<lambda>_. pb_return (ucast (ucast val :: u32)))
      else if data_size field = 2
      then pb_bind (put_mem dest (le_bytes 2 (unat (ucast val :: u16)))) (\<lambda>_. pb_return (ucast (ucast val :: u16)))
      else if data_size field = 1
      then pb_bind (put_mem dest (le_bytes 1 (unat (ucast val :: u8)))) (\<lambda>_. pb_return (ucast (ucast val :: u8)))
      else dec_error ''invalid data_size'')"

definition pb_dec_bool :: "'s decoder" where
  "pb_dec_bool dest =
     pb_bind (on_stream pb_decode_varint32) (\<lambda>val. put_mem dest [if val \<noteq> 0 then 1 else 0])"

definition pb_decode_bool :: "'s decoder" where
  "pb_decode_bool = pb_dec_bool"

definition pb_dec_varint :: "pb_field \<Rightarrow> 's decoder" where
  "pb_dec_varint field dest =
     pb_bind (on_stream pb_decode_varint) (\<lambda>val.
       let svalue = (if data_size field = 8 then val else scast (ucast val :: u32))
       in pb_bind (store_signed field dest svalue) (\<lambda>clamped.
            if clamped \<noteq> svalue then dec_error ''integer too large'' else pb_return ()))"

definition pb_dec_uvarint :: "pb_field \<Rightarrow> 's decoder" where
  "pb_dec_uvarint field dest =
     pb_bind (on_stream pb_decode_varint) (\<lambda>val.
       pb_bind (store_unsigned field dest val) (\<lambda>clamped.
         if clamped \<noteq> val then dec_error ''integer too large'' else pb_return ()))"

definition pb_dec_svarint :: "pb_field \<Rightarrow> 's decoder" where
  "pb_dec_svarint field dest =
     pb_bind (on_stream pb_decode_svarint) (\<lambda>val.
       pb_bind (store_signed field dest val) (\<lambda>clamped.
         if clamped \<noteq> val then dec_error ''integer too large'' else pb_return ()))"

definition pb_dec_fixed32 :: "'s decoder" where
  "pb_dec_fixed32 dest = pb_bind (on_stream pb_decode_fixed32) (\<lambda>val. put_mem dest (le_bytes 4 (unat val)))"

definition pb_dec_fixed64 :: "'s decoder" where
  "pb_dec_fixed64 dest = pb_bind (on_stream pb_decode_fixed64) (\<lambda>val. put_mem dest (le_bytes 8 (unat val)))"

section \<open>Storage for pointers\<close>

text \<open>\<open>realloc\<close> and \<open>free\<close>: the new address, 0 when the memory is refused, and the new memory.\<close>

record allocator =
  pb_realloc :: "u64 \<Rightarrow> nat \<Rightarrow> mem \<Rightarrow> (u64 \<times> mem) c_outcome"
  pb_free :: "u64 \<Rightarrow> mem \<Rightarrow> mem c_outcome"

definition allocate_field :: "allocator \<Rightarrow> u64 \<Rightarrow> nat \<Rightarrow> nat \<Rightarrow> ('s, unit) pb_dec" where
  "allocate_field A pData item_size items =
     pb_bind (get_mem (\<lambda>m. read_ptr m pData)) (\<lambda>ptr.
       if item_size = 0 \<or> items = 0 then dec_error ''invalid size''
       else if (2 ^ 32 \<le> item_size \<or> 2 ^ 32 \<le> items) \<and> (size_mod - 1) div items < item_size
       then dec_error ''size too large''
       else (\<lambda>(s, m). case pb_realloc A ptr (items * item_size) m of
               Undef \<Rightarrow> Undef
             | Ret (ptr, m) \<Rightarrow>
                 if ptr = 0 then dec_error ''realloc failed'' (s, m)
                 else put_mem pData (le_bytes 8 (unat ptr)) (s, m)))"

section \<open>Byte strings\<close>

definition PB_BYTES_ARRAY_T_ALLOCSIZE :: "nat \<Rightarrow> nat" where
  "PB_BYTES_ARRAY_T_ALLOCSIZE n = size_add n 4"

definition pb_dec_bytes :: "allocator \<Rightarrow> pb_field \<Rightarrow> 's decoder" where
  "pb_dec_bytes A field dest =
     pb_bind (on_stream pb_decode_varint32) (\<lambda>len.
       let alloc_size = PB_BYTES_ARRAY_T_ALLOCSIZE (unat len)
       in if PB_SIZE_MAX < len then dec_error ''bytes overflow''
          else if alloc_size < unat len then dec_error ''size too large''
          else pb_bind
            (if PB_ATYPE (f_type field) = PB_ATYPE_POINTER then
               (\<lambda>(s, m). if bytes_left s < unat len then dec_error ''end-of-stream'' (s, m)
                 else pb_bind (allocate_field A dest alloc_size 1) (\<lambda>_. get_mem (\<lambda>m. read_ptr m dest)) (s, m))
             else if unat (data_size field) < alloc_size then dec_error ''bytes overflow''
             else pb_return dest) (\<lambda>bdest.
          pb_bind (put_mem bdest (le_bytes 4 (unat len))) (\<lambda>_. read_into (bdest + 4) (unat len))))"

text \<open>The terminator is stored even when the bytes before it could not be read.\<close>

definition pb_dec_string :: "allocator \<Rightarrow> pb_field \<Rightarrow> 's decoder" where
  "pb_dec_string A field dest =
     pb_bind (on_stream pb_decode_varint32) (\<lambda>len.
       let alloc_size = len + 1
       in if alloc_size < len then dec_error ''size too large''
          else pb_bind
            (if PB_ATYPE (f_type field) = PB_ATYPE_POINTER then
               (\<lambda>(s, m). if bytes_left s < unat len then dec_error ''end-of-stream'' (s, m)
                 else pb_bind (allocate_field A dest (unat alloc_size) 1) (\<lambda>_. get_mem (\<lambda>m. read_ptr m dest)) (s, m))
             else if data_size field < alloc_size then dec_error ''string overflow''
             else pb_return dest) (\<lambda>dest.
          c_bind (read_into dest (unat len)) (\<lambda>status.
          pb_bind (put_mem (dest + ucast len) [0]) (\<lambda>_. c_return status))))"

definition pb_dec_fixed_length_bytes :: "pb_field \<Rightarrow> 's decoder" where
  "pb_dec_fixed_length_bytes field dest =
     pb_bind (on_stream pb_decode_varint32) (\<lambda>len.
       if PB_SIZE_MAX < len then dec_error ''bytes overflow''
       else if len = 0 then put_mem dest (replicate (unat (data_size field)) 0)
       else if len \<noteq> data_size field then dec_error ''incorrect fixed length bytes size''
       else read_into dest (unat (data_size field)))"

section \<open>Submessages\<close>

text \<open>
  \<open>decode\<close> is \<open>pb_decode\<close> when its first argument says so and \<open>pb_decode_noinit\<close> otherwise, of the
  description at an address.
\<close>

definition close_after :: "('s, 'a) pb_dec \<Rightarrow> 's pb_istream \<Rightarrow> ('s, 'a) pb_dec" where
  "close_after f substream = (\<lambda>(s, m).
     case f (substream, m) of
       Undef \<Rightarrow> Undef
     | Ret (status, (substream, m)) \<Rightarrow>
         pb_bind (on_stream (pb_close_string_substream substream)) (\<lambda>_. c_return status) (s, m))"

definition pb_dec_submessage :: "(bool \<Rightarrow> u64 \<Rightarrow> 's decoder) \<Rightarrow> pb_field \<Rightarrow> 's decoder" where
  "pb_dec_submessage decode field dest =
     pb_bind (on_stream pb_make_string_substream) (\<lambda>substream.
       if f_ptr field = 0 then dec_error ''invalid field descriptor''
       else close_after (decode (PB_HTYPE (f_type field) = PB_HTYPE_REPEATED) (f_ptr field) dest) substream)"

text \<open>The table \<open>PB_DECODERS\<close>, with no function at the index of extensions.\<close>

definition PB_DECODERS :: "allocator \<Rightarrow> (bool \<Rightarrow> u64 \<Rightarrow> 's decoder) \<Rightarrow> pb_field \<Rightarrow> 's decoder" where
  "PB_DECODERS A decode field =
     (let ltype = PB_LTYPE (f_type field)
      in if ltype = PB_LTYPE_BOOL then pb_dec_bool
         else if ltype = PB_LTYPE_VARINT then pb_dec_varint field
         else if ltype = PB_LTYPE_UVARINT then pb_dec_uvarint field
         else if ltype = PB_LTYPE_SVARINT then pb_dec_svarint field
         else if ltype = PB_LTYPE_FIXED32 then pb_dec_fixed32
         else if ltype = PB_LTYPE_FIXED64 then pb_dec_fixed64
         else if ltype = PB_LTYPE_BYTES then pb_dec_bytes A field
         else if ltype = PB_LTYPE_STRING then pb_dec_string A field
         else if ltype = PB_LTYPE_SUBMESSAGE then pb_dec_submessage decode field
         else if ltype = PB_LTYPE_FIXED_LENGTH_BYTES then pb_dec_fixed_length_bytes field
         else (\<lambda>_. c_undef))"

end
