(* ===== verification/Pb_Restore.thy ===== *)
theory Pb_Restore
  imports Pb_Values Pb_Refine
begin

text \<open>
  Decoding what was encoded. For a value in its member of a structure, the bytes that
  \<open>PB_ENCODERS\<close> writes make \<open>PB_DECODERS\<close> store the same bytes in the member it decodes into,
  whatever the source of the stream. This holds for every type of value that stands in the
  structure itself; the conditions on the member are \<open>member_bytes\<close>.
\<close>

section \<open>Storing\<close>

lemma those_Some_iff: "those xs = Some ys \<longleftrightarrow> length xs = length ys \<and> (\<forall>i < length ys. xs ! i = Some (ys ! i))"
proof (induction xs arbitrary: ys)
  case Nil
  then show ?case by auto
next
  case (Cons x xs)
  have all: "(\<forall>i < Suc n. P i) \<longleftrightarrow> P 0 \<and> (\<forall>i < n. P (Suc i))" for P n
    by (auto simp: less_Suc_eq_0_disj)
  show ?case
    by (cases ys) (auto simp: Cons.IH all split: option.splits)
qed

lemma load_iff:
  "load m n a = Some bs \<longleftrightarrow> unat a + n \<le> 2 ^ 64 \<and> length bs = n \<and> (\<forall>i < n. m (a + word_of_nat i) = Some (bs ! i))"
  by (auto simp: load_def those_Some_iff not_less)

lemma load_None_iff: "load m n a = None \<longleftrightarrow> 2 ^ 64 < unat a + n \<or> (\<exists>i < n. m (a + word_of_nat i) = None)"
proof
  assume none: "load m n a = None"
  show "2 ^ 64 < unat a + n \<or> (\<exists>i < n. m (a + word_of_nat i) = None)"
  proof (rule ccontr)
    assume "\<not> ?thesis"
    then have "load m n a = Some (map (\<lambda>i. the (m (a + word_of_nat i))) [0..<n])"
      by (auto simp: load_iff)
    with none show False by simp
  qed
next
  assume "2 ^ 64 < unat a + n \<or> (\<exists>i < n. m (a + word_of_nat i) = None)"
  moreover have "unat a + n \<le> 2 ^ 64 \<and> (\<forall>i < n. m (a + word_of_nat i) \<noteq> None)" if "load m n a = Some bs" for bs
    using that by (simp add: load_iff)
  ultimately show "load m n a = None" by (cases "load m n a") (auto simp: not_le)
qed

lemma load_append:
  "length xs = n \<Longrightarrow> load m (n + k) a = Some (xs @ ys) \<longleftrightarrow>
   unat a + n + k \<le> 2 ^ 64 \<and> load m n a = Some xs \<and> length ys = k \<and> (\<forall>i < k. m (a + word_of_nat (n + i)) = Some (ys ! i))"
proof -
  assume n: "length xs = n"
  have "(\<forall>i < n + k. P i) \<longleftrightarrow> (\<forall>i < n. P i) \<and> (\<forall>i < k. P (n + i))" for P
    by (metis add_less_cancel_left le_add_diff_inverse not_less trans_less_add1)
  then show ?thesis by (auto simp: load_iff n nth_append)
qed

lemma store_Some_iff:
  "store m a bs = Some m' \<longleftrightarrow> load m (length bs) a \<noteq> None \<and>
   m' = (\<lambda>p. if unat (p - a) < length bs then Some (bs ! unat (p - a)) else m p)"
  by (auto simp: store_def)

lemma store_Nil [simp]: "store m a [] = Some m"
  using unsigned_less [of a, where ?'a = nat] by (simp add: store_def load_def)

lemma store_mapped: "store m a bs = Some m' \<Longrightarrow> m' p = None \<longleftrightarrow> m p = None"
proof -
  assume st: "store m a bs = Some m'"
  then have "m p \<noteq> None" if "unat (p - a) < length bs"
    using that unfolding store_Some_iff load_None_iff
    by (metis add.commute diff_add_cancel word_of_nat_unat_id)
  with st show ?thesis by (auto simp: store_Some_iff)
qed

lemma load_None_store: "store m a bs = Some m' \<Longrightarrow> load m' n b = None \<longleftrightarrow> load m n b = None"
  by (simp add: load_None_iff store_mapped)

lemma load_store: "store m a bs = Some m' \<Longrightarrow> load m' (length bs) a = Some bs"
proof -
  assume "store m a bs = Some m'"
  then have "unat a + length bs \<le> 2 ^ 64"
    and m': "m' = (\<lambda>p. if unat (p - a) < length bs then Some (bs ! unat (p - a)) else m p)"
    by (auto simp: store_Some_iff load_None_iff)
  then have "unat (word_of_nat i :: u64) = i" if "i < length bs" for i
    using that by (intro unat_word_of_nat_less) simp
  with \<open>unat a + length bs \<le> 2 ^ 64\<close> show ?thesis by (simp add: load_iff m')
qed

text \<open>Two stores one behind the other are one.\<close>

lemma store_append:
  assumes "store m a (xs @ ys) = Some m''"
  obtains m' where "store m a xs = Some m'" and "store m' (a + word_of_nat (length xs)) ys = Some m''"
proof -
  have room: "unat a + length xs + length ys \<le> 2 ^ 64"
    and at: "\<And>i. i < length xs + length ys \<Longrightarrow> m (a + word_of_nat i) \<noteq> None"
    and m'': "m'' = (\<lambda>p. if unat (p - a) < length xs + length ys then Some ((xs @ ys) ! unat (p - a)) else m p)"
    using assms by (auto simp: store_Some_iff load_None_iff)
  have "load m (length xs) a \<noteq> None" using room at by (auto simp: load_None_iff)
  then obtain m' where m': "store m a xs = Some m'" by (auto simp: store_def)
  have "store m' (a + word_of_nat (length xs)) ys = Some m''"
  proof (cases "ys = []")
    case True
    with assms m' show ?thesis by simp
  next
    case False
    then have "unat a + length xs < 2 ^ 64" using room by (cases ys) simp_all
    then have end_a: "unat (a + word_of_nat (length xs)) = unat a + length xs" by (rule unat_add_offset)
    have "load m' (length ys) (a + word_of_nat (length xs)) \<noteq> None"
      using room at end_a unfolding load_None_store [OF m']
      by (auto simp: load_None_iff add.assoc simp flip: of_nat_add)
    moreover have "unat (p - (a + word_of_nat (length xs))) < length ys \<longleftrightarrow>
        length xs \<le> unat (p - a) \<and> unat (p - a) < length xs + length ys"
      and "length xs \<le> unat (p - a) \<Longrightarrow> unat (p - (a + word_of_nat (length xs))) = unat (p - a) - length xs" for p
    proof -
      have small: "length xs < 2 ^ 64" using \<open>unat a + length xs < 2 ^ 64\<close> by simp
      then have len: "unat (word_of_nat (length xs) :: u64) = length xs" by (intro unat_word_of_nat_less) simp
      have eq: "p - (a + word_of_nat (length xs)) = (p - a) - word_of_nat (length xs)" by simp
      have "unat (p - a) < 2 ^ 64" using unsigned_less [of "p - a", where ?'a = nat] by simp
      then show "length xs \<le> unat (p - a) \<Longrightarrow> unat (p - (a + word_of_nat (length xs))) = unat (p - a) - length xs"
        unfolding eq by (simp add: unat_sub_if' len)
      have "unat ((p - a) - word_of_nat (length xs)) = 2 ^ 64 + unat (p - a) - length xs" if "unat (p - a) < length xs"
        using that small by (simp add: unat_sub_if' len)
      then show "unat (p - (a + word_of_nat (length xs))) < length ys \<longleftrightarrow>
          length xs \<le> unat (p - a) \<and> unat (p - a) < length xs + length ys"
        unfolding eq using room small \<open>unat (p - a) < 2 ^ 64\<close>
        by (cases "length xs \<le> unat (p - a)") (auto simp: unat_sub_if' len)
    qed
    ultimately show ?thesis
      using m' unfolding store_Some_iff [of m'] m'' by (auto simp: store_Some_iff nth_append fun_eq_iff)
  qed
  with m' show thesis by (rule that)
qed

section \<open>Operations that store\<close>

text \<open>
  The operation reads \<open>w\<close> and stores \<open>bs\<close> at \<open>dest\<close>, where the memory is mapped; nothing else
  changes, and what follows in the stream is left.
\<close>

definition stores :: "('s \<Rightarrow> bytes) \<Rightarrow> 's in_callback \<Rightarrow> ('s, unit) pb_dec \<Rightarrow> bytes \<Rightarrow> u64 \<Rightarrow> bytes \<Rightarrow> bool" where
  "stores content cb f w dest bs =
     (\<forall>s r x m m'. stream_at content cb s (w @ r) x \<longrightarrow> store m dest bs = Some m' \<longrightarrow>
        (\<exists>s'. f (s, m) = Ret (Some (), (s', m')) \<and> stream_at content cb s' r x \<and> in_errmsg s' = in_errmsg s))"

lemma storesD:
  assumes "stores content cb f w dest bs" and "stream_at content cb s (w @ r) x" and "store m dest bs = Some m'"
  obtains s' where "f (s, m) = Ret (Some (), (s', m'))" and "stream_at content cb s' r x" and "in_errmsg s' = in_errmsg s"
  using assms unfolding stores_def by blast

lemma stores_put: "stores content cb (put_mem dest bs) [] dest bs"
  by (auto simp: stores_def put_mem_def)

lemma stores_put_then:
  assumes "stores content cb g w (dest + word_of_nat (length xs)) ys"
  shows "stores content cb (pb_bind (put_mem dest xs) (\<lambda>_. g)) w dest (xs @ ys)"
  unfolding stores_def
proof (intro allI impI)
  fix s r x m m''
  assume at: "stream_at content cb s (w @ r) x" and st: "store m dest (xs @ ys) = Some m''"
  from st obtain m' where m': "store m dest xs = Some m'" and m'': "store m' (dest + word_of_nat (length xs)) ys = Some m''"
    by (rule store_append)
  from assms at m'' obtain s' where "g (s, m') = Ret (Some (), (s', m''))" "stream_at content cb s' r x" "in_errmsg s' = in_errmsg s"
    by (rule storesD)
  with m' show "\<exists>s'. pb_bind (put_mem dest xs) (\<lambda>_. g) (s, m) = Ret (Some (), (s', m'')) \<and>
      stream_at content cb s' r x \<and> in_errmsg s' = in_errmsg s"
    by (simp add: pb_bind_def put_mem_def)
qed

lemma stores_read:
  assumes f: "pb_reads content cb f rd" and rd: "\<And>r. rd (w @ r) = (Some v, r)"
    and g: "stores content cb (g v) w' dest bs"
  shows "stores content cb (pb_bind (on_stream f) g) (w @ w') dest bs"
  unfolding stores_def
proof (intro allI impI)
  fix s r x m m'
  assume at: "stream_at content cb s ((w @ w') @ r) x" and st: "store m dest bs = Some m'"
  then have "stream_at content cb s (w @ (w' @ r)) x" by simp
  with f obtain s1 where "f s = Ret (Some v, s1)" and s1: "stream_at content cb s1 (w' @ r) x" and "in_errmsg s1 = in_errmsg s"
    by (rule pb_readsD) (auto simp: rd)
  moreover from g s1 st obtain s' where "g v (s1, m) = Ret (Some (), (s', m'))" "stream_at content cb s' r x" "in_errmsg s' = in_errmsg s1"
    by (rule storesD)
  ultimately show "\<exists>s'. pb_bind (on_stream f) g (s, m) = Ret (Some (), (s', m')) \<and>
      stream_at content cb s' r x \<and> in_errmsg s' = in_errmsg s"
    by (simp add: pb_bind_def on_stream_def)
qed

lemma stores_read_put:
  assumes "pb_reads content cb f rd" and "\<And>r. rd (w @ r) = (Some v, r)" and "g v = put_mem dest bs"
  shows "stores content cb (pb_bind (on_stream f) g) w dest bs"
  using stores_read [OF assms(1,2), of g "[]" dest bs] assms(3) by (simp add: stores_put)

text \<open>The terminator of a string.\<close>

lemma stores_then_zero:
  assumes "stores content cb f w dest xs"
  shows "stores content cb (c_bind f (\<lambda>status. pb_bind (put_mem (dest + word_of_nat (length xs)) ys) (\<lambda>_. c_return status))) w dest (xs @ ys)"
  unfolding stores_def
proof (intro allI impI)
  fix s r x m m''
  assume at: "stream_at content cb s (w @ r) x" and st: "store m dest (xs @ ys) = Some m''"
  from st obtain m' where m': "store m dest xs = Some m'" and m'': "store m' (dest + word_of_nat (length xs)) ys = Some m''"
    by (rule store_append)
  from assms at m' obtain s' where "f (s, m) = Ret (Some (), (s', m'))" "stream_at content cb s' r x" "in_errmsg s' = in_errmsg s"
    by (rule storesD)
  with m'' show "\<exists>s'. c_bind f (\<lambda>status. pb_bind (put_mem (dest + word_of_nat (length xs)) ys) (\<lambda>_. c_return status)) (s, m) =
      Ret (Some (), (s', m'')) \<and> stream_at content cb s' r x \<and> in_errmsg s' = in_errmsg s"
    by (simp add: c_bind_def pb_bind_def put_mem_def)
qed

section \<open>Numbers\<close>

lemma read_wire_int: "rd_varint (wire_int x @ r) = (Some (word_of_int x), r)"
proof -
  have "unat (word_of_int x :: u64) = nat (x mod 2 ^ 64)" by (simp add: unsigned_of_int take_bit_eq_mod)
  then show ?thesis using rd_varint_uleb128 [of "word_of_int x" r] by (simp add: wire_int_def)
qed

lemma read_uleb128: "v < 2 ^ 64 \<Longrightarrow> rd_varint (uleb128 v @ r) = (Some (word_of_nat v), r)"
  using rd_varint_uleb128 [of "word_of_nat v" r] by (simp add: unat_word_of_nat_less)

lemma twos_range: "v < 2 ^ n \<Longrightarrow> 0 < n \<Longrightarrow> - (2 ^ (n - 1)) \<le> twos n v \<and> twos n v < 2 ^ (n - 1)"
proof -
  assume v: "v < 2 ^ n" and "0 < n"
  then obtain k where n: "n = Suc k" by (cases n) auto
  show ?thesis
  proof (cases "v < 2 ^ k")
    case True
    then have "int v < 2 ^ k" by (metis of_nat_less_iff of_nat_power of_nat_numeral)
    moreover have "- (2 ^ k) \<le> int v" by (rule order_trans [of _ 0]) simp_all
    ultimately show ?thesis using True by (simp add: n twos_def)
  next
    case False
    then have "2 ^ k \<le> int v" by (metis of_nat_le_iff of_nat_power of_nat_numeral not_less)
    moreover have "int v < 2 ^ n" using v by (metis of_nat_less_iff of_nat_power of_nat_numeral)
    ultimately show ?thesis using False by (simp add: n twos_def)
  qed
qed

lemma signed_cast: "- (2 ^ (LENGTH('a) - 1)) \<le> x \<Longrightarrow> x < 2 ^ (LENGTH('a) - 1) \<Longrightarrow> LENGTH('a) \<le> 64 \<Longrightarrow>
    scast (ucast (word_of_int x :: u64) :: 'a :: len word) = (word_of_int x :: u64)"
proof -
  assume range: "- (2 ^ (LENGTH('a) - 1)) \<le> x" "x < 2 ^ (LENGTH('a) - 1)" and "LENGTH('a) \<le> 64"
  then have "ucast (word_of_int x :: u64) = (word_of_int x :: 'a word)"
    by (intro bit_word_eqI) (simp add: bit_simps)
  moreover have "sint (word_of_int x :: 'a word) = x"
    using range by (simp only: sint_sbintrunc' signed_take_bit_int_eq_self)
  ultimately show ?thesis by (simp add: scast_eq)
qed

lemma svarint_word: "v < 2 ^ 64 \<Longrightarrow> n = word_of_nat v \<Longrightarrow>
    (if n AND 1 \<noteq> 0 then NOT (drop_bit 1 n) else drop_bit 1 n) = word_of_int (if odd v then - int (v div 2) - 1 else int (v div 2))"
  for n :: u64
proof -
  assume v: "v < 2 ^ 64" and n: "n = word_of_nat v"
  have "unat n = v" unfolding n using v by (intro unat_word_of_nat_less) simp
  then have "drop_bit 1 n = word_of_nat (v div 2)"
    by (metis unat_drop_bit power_one_right word_of_nat_unat_id)
  moreover have "n AND 1 \<noteq> 0 \<longleftrightarrow> odd v"
  proof -
    have "n AND 1 \<noteq> 0 \<longleftrightarrow> bit n 0" by (simp add: bit_0 and_one_eq odd_iff_mod_2_eq_one)
    also have "\<dots> \<longleftrightarrow> bit (unat n) 0" by (simp add: bit_unsigned_iff)
    also have "\<dots> \<longleftrightarrow> odd v" by (simp add: bit_0 \<open>unat n = v\<close>)
    finally show ?thesis .
  qed
  moreover have "NOT w = word_of_int (- int k - 1)" if "w = word_of_nat k" for w :: u64 and k
    using that by (simp add: not_eq_complement)
  ultimately show ?thesis by simp
qed

lemma cast_twos: "k < 2 ^ LENGTH('a) \<Longrightarrow> LENGTH('a) \<le> 64 \<Longrightarrow>
    (ucast (word_of_int (twos LENGTH('a) k) :: u64) :: 'a :: len word) = word_of_nat k"
proof -
  assume "LENGTH('a) \<le> 64"
  then have "ucast (word_of_int x :: u64) = (word_of_int x :: 'a word)" for x
    by (intro bit_word_eqI) (simp add: bit_simps)
  moreover have "word_of_int (twos LENGTH('a) k) = (word_of_nat k :: 'a word)"
    by (simp add: twos_def)
  ultimately show ?thesis by simp
qed

lemma pb_bind_unit: "pb_bind f (\<lambda>_. pb_return ()) = f"
  by (rule ext) (auto simp: pb_bind_def split: c_outcome.splits prod.splits option.splits)

lemma pb_bind_done: "pb_bind (pb_bind f (\<lambda>_. pb_return v)) (\<lambda>c. if c \<noteq> v then g else pb_return ()) = f"
  by (simp only: pb_bind_assoc pb_bind_return simp_thms if_False pb_bind_unit)

lemma number_bounds:
  assumes "data_size field \<in> {1, 2, 4, 8}" and "k < 256 ^ unat (data_size field)"
  shows "k < (2 :: nat) ^ 64" and "data_size field \<noteq> 8 \<Longrightarrow> k < 2 ^ 32"
  using assms by auto

lemma sized_twos:
  assumes "k < 2 ^ LENGTH('w)" and "LENGTH('w) \<le> 64"
  shows "unat (ucast (word_of_int (twos LENGTH('w) k) :: u64) :: 'w :: len word) = k"
    and "scast (ucast (word_of_int (twos LENGTH('w) k) :: u64) :: 'w :: len word) = (word_of_int (twos LENGTH('w) k) :: u64)"
proof -
  show "unat (ucast (word_of_int (twos LENGTH('w) k) :: u64) :: 'w word) = k"
    using assms by (simp add: cast_twos unat_word_of_nat_less)
  show "scast (ucast (word_of_int (twos LENGTH('w) k) :: u64) :: 'w word) = (word_of_int (twos LENGTH('w) k) :: u64)"
    using assms twos_range [of k "LENGTH('w)"] by (intro signed_cast) simp_all
qed

lemma sized_nat:
  assumes "k < 2 ^ LENGTH('w)" and "LENGTH('w) \<le> 64"
  shows "unat (ucast (word_of_nat k :: u64) :: 'w :: len word) = k"
    and "ucast (ucast (word_of_nat k :: u64) :: 'w :: len word) = (word_of_nat k :: u64)"
proof -
  have "(2 :: nat) ^ LENGTH('w) \<le> 2 ^ 64" using assms(2) by (intro power_increasing) simp_all
  then have "unat (word_of_nat k :: u64) = k" using assms(1) by (intro unat_word_of_nat_less) simp
  moreover have "unat (ucast (word_of_nat k :: u64) :: 'w word) = unat (word_of_nat k :: u64) mod 2 ^ LENGTH('w)"
    by (simp only: unsigned_ucast_eq take_bit_eq_mod)
  ultimately show *: "unat (ucast (word_of_nat k :: u64) :: 'w word) = k" using assms(1) by simp
  have "ucast w = (word_of_nat (unat w) :: u64)" for w :: "'w word" by simp
  with * show "ucast (ucast (word_of_nat k :: u64) :: 'w word) = (word_of_nat k :: u64)" by metis
qed

lemma zigzag_small:
  assumes "data_size field \<in> {1, 2, 4, 8}" and "k < 256 ^ unat (data_size field)"
  shows "zigzag (twos (8 * unat (data_size field)) k) < 2 ^ 64"
proof -
  let ?n = "unat (data_size field)"
  let ?t = "twos (8 * ?n) k"
  have "k < 2 ^ (8 * ?n)" using assms(2) by (simp add: power_mult)
  moreover have "0 < 8 * ?n" "8 * ?n - 1 \<le> 63" using assms(1) by auto
  ultimately have "- (2 ^ (8 * ?n - 1)) \<le> ?t" "?t < 2 ^ (8 * ?n - 1)" "8 * ?n - 1 \<le> 63"
    using twos_range [of k "8 * ?n"] by simp_all
  moreover from this(3) have "(2 :: int) ^ (8 * ?n - 1) \<le> 2 ^ 63" by (rule power_increasing) simp
  ultimately have "- (2 ^ 63) \<le> ?t" "?t < 2 ^ 63" by linarith+
  then show ?thesis by (auto simp: zigzag_def)
qed

lemma store_signed_twos:
  assumes "data_size field \<in> {1, 2, 4, 8}" and "k < 256 ^ unat (data_size field)"
  defines "t \<equiv> twos (8 * unat (data_size field)) k"
  shows "store_signed field dest (word_of_int t) =
    pb_bind (put_mem dest (le_bytes (unat (data_size field)) k)) (\<lambda>_. pb_return (word_of_int t))"
proof -
  from assms(1) show ?thesis
  proof (cases rule: number_cases)
    case 1
    then show ?thesis using assms(2) sized_twos [where 'w = 8] by (simp add: store_signed_def t_def)
  next
    case 2
    then show ?thesis using assms(2) sized_twos [where 'w = 16] by (simp add: store_signed_def t_def)
  next
    case 3
    then show ?thesis using assms(2) sized_twos [where 'w = 32] by (simp add: store_signed_def t_def)
  next
    case 4
    then show ?thesis using assms(2) sized_twos [where 'w = 64] by (simp add: store_signed_def t_def)
  qed
qed

lemma store_unsigned_nat:
  assumes "data_size field \<in> {1, 2, 4, 8}" and "k < 256 ^ unat (data_size field)"
  shows "store_unsigned field dest (word_of_nat k) =
    pb_bind (put_mem dest (le_bytes (unat (data_size field)) k)) (\<lambda>_. pb_return (word_of_nat k))"
proof -
  from assms(1) show ?thesis
  proof (cases rule: number_cases)
    case 1
    then show ?thesis using assms(2) sized_nat [where 'w = 8] by (simp add: store_unsigned_def)
  next
    case 2
    then show ?thesis using assms(2) sized_nat [where 'w = 16] by (simp add: store_unsigned_def)
  next
    case 3
    then show ?thesis using assms(2) sized_nat [where 'w = 32] by (simp add: store_unsigned_def)
  next
    case 4
    then show ?thesis using assms(2) sized_nat [where 'w = 64] by (simp add: store_unsigned_def)
  qed
qed

lemma read_varint32: "n < 2 ^ 32 \<Longrightarrow> rd_varint32 (uleb128 n @ r) = (Some (word_of_nat n), r)"
  using rd_varint32_uleb128 [of n r] by (simp add: varint32_accepts_def)

lemma fixed_words:
  "le_bytes 4 (unat (push_bit 0 (ucast b0) OR push_bit 8 (ucast b1) OR push_bit 16 (ucast b2) OR push_bit 24 (ucast b3) :: u32)) =
     [b0, b1, b2, b3]"
  "le_bytes 8 (unat (push_bit 0 (ucast b0) OR push_bit 8 (ucast b1) OR push_bit 16 (ucast b2) OR push_bit 24 (ucast b3) OR
      push_bit 32 (ucast b4) OR push_bit 40 (ucast b5) OR push_bit 48 (ucast b6) OR push_bit 56 (ucast b7) :: u64)) =
     [b0, b1, b2, b3, b4, b5, b6, b7]" for b0 b1 b2 b3 b4 b5 b6 b7 :: u8
proof -
  have ff: "(0xFF :: u32) = mask 8" "(0xFF :: u64) = mask 8" by (simp_all add: mask_eq_exp_minus_1)
  have len: "bit b k \<Longrightarrow> k < 8" for b :: u8 and k using bit_imp_le_length [of b k] by simp
  show "le_bytes 4 (unat (push_bit 0 (ucast b0) OR push_bit 8 (ucast b1) OR push_bit 16 (ucast b2) OR push_bit 24 (ucast b3) :: u32)) =
     [b0, b1, b2, b3]"
    unfolding le_bytes_4 [symmetric] ff
    by (intro list.inject [THEN iffD2] conjI refl bit_word_eqI) (auto simp: bit_simps dest: len)
  show "le_bytes 8 (unat (push_bit 0 (ucast b0) OR push_bit 8 (ucast b1) OR push_bit 16 (ucast b2) OR push_bit 24 (ucast b3) OR
      push_bit 32 (ucast b4) OR push_bit 40 (ucast b5) OR push_bit 48 (ucast b6) OR push_bit 56 (ucast b7) :: u64)) =
     [b0, b1, b2, b3, b4, b5, b6, b7]"
    unfolding le_bytes_8 [symmetric] ff
    by (intro list.inject [THEN iffD2] conjI refl bit_word_eqI) (auto simp: bit_simps dest: len)
qed

section \<open>Members\<close>

text \<open>
  The bytes of a member that hold its value: the number or the array, the length and the bytes
  of a \<open>pb_bytes_array_t\<close>, a string with its terminator. There are none for a boolean that is
  neither 0 nor 1, and when the length or the terminator does not fit in the member.
\<close>

definition member_bytes :: "mem \<Rightarrow> pb_field \<Rightarrow> u64 \<Rightarrow> bytes option" where
  "member_bytes m field src =
     (let ltype = PB_LTYPE (f_type field); n = unat (data_size field)
      in if ltype = PB_LTYPE_BOOL then Option.bind (load m 1 src) (\<lambda>bs. guard (le_nat bs \<le> 1) (Some bs))
         else if ltype \<in> {PB_LTYPE_VARINT, PB_LTYPE_UVARINT, PB_LTYPE_SVARINT}
         then guard (data_size field \<in> {1, 2, 4, 8}) (load m n src)
         else if ltype = PB_LTYPE_FIXED32 then load m 4 src
         else if ltype = PB_LTYPE_FIXED64 then load m 8 src
         else if ltype = PB_LTYPE_BYTES
         then Option.bind (load m 4 src) (\<lambda>h. guard (le_nat h + 4 \<le> n) (map_option ((@) h) (load m (le_nat h) (src + 4))))
         else if ltype = PB_LTYPE_STRING
         then Option.bind (to_option (string_length m n src)) (\<lambda>k.
                guard (k < n) (map_option (\<lambda>bs. bs @ [0]) (load m k src)))
         else if ltype = PB_LTYPE_FIXED_LENGTH_BYTES then load m n src
         else None)"

context byte_source
begin

lemma stores_varint:
  assumes "data_size field \<in> {1, 2, 4, 8}" and "load m (unat (data_size field)) src = Some bs"
  shows "stores content cb (pb_dec_varint field dest) (wire_int (twos (8 * unat (data_size field)) (le_nat bs))) dest bs"
proof -
  let ?n = "unat (data_size field)"
  let ?t = "twos (8 * ?n) (le_nat bs)"
  have bs: "length bs = ?n" "le_nat bs < 256 ^ ?n" using length_load [OF assms(2)] le_nat_less [of bs] by simp_all
  have narrow: "scast (ucast (word_of_int ?t :: u64) :: u32) = (word_of_int ?t :: u64)" if "data_size field \<noteq> 8"
  proof -
    have "8 * ?n \<le> 32" "0 < 8 * ?n" using assms(1) that by auto
    moreover have "le_nat bs < 2 ^ (8 * ?n)" using bs(2) by (simp add: power_mult)
    ultimately have "- (2 ^ (8 * ?n - 1)) \<le> ?t" "?t < 2 ^ (8 * ?n - 1)" "8 * ?n - 1 \<le> 31"
      using twos_range [of "le_nat bs" "8 * ?n"] by simp_all
    moreover from this(3) have "(2 :: int) ^ (8 * ?n - 1) \<le> 2 ^ 31" by (rule power_increasing) simp
    ultimately have "- (2 ^ 31) \<le> ?t" "?t < 2 ^ 31" by linarith+
    then show ?thesis by (intro signed_cast) simp_all
  qed
  show ?thesis
    unfolding pb_dec_varint_def
  proof (rule stores_read_put [OF pb_decode_varint read_wire_int])
    show "(let svalue = if data_size field = 8 then word_of_int ?t else scast (ucast (word_of_int ?t :: u64) :: u32)
        in pb_bind (store_signed field dest svalue) (\<lambda>clamped.
             if clamped \<noteq> svalue then dec_error ''integer too large'' else pb_return ())) = put_mem dest bs"
    proof -
      have "(if data_size field = 8 then word_of_int ?t else scast (ucast (word_of_int ?t :: u64) :: u32)) = (word_of_int ?t :: u64)"
        using narrow by simp
      then show ?thesis
        by (simp only: Let_def store_signed_twos [OF assms(1) bs(2)] pb_bind_done le_bytes_le_nat [OF bs(1)])
    qed
  qed
qed

lemma stores_uvarint:
  assumes "data_size field \<in> {1, 2, 4, 8}" and "load m (unat (data_size field)) src = Some bs"
  shows "stores content cb (pb_dec_uvarint field dest) (uleb128 (le_nat bs)) dest bs"
proof -
  have bs: "length bs = unat (data_size field)" "le_nat bs < 256 ^ unat (data_size field)"
    using length_load [OF assms(2)] le_nat_less [of bs] by simp_all
  show ?thesis
    unfolding pb_dec_uvarint_def
    by (rule stores_read_put [OF pb_decode_varint read_uleb128 [OF number_bounds(1) [OF assms(1) bs(2)]]])
      (simp only: store_unsigned_nat [OF assms(1) bs(2)] pb_bind_done le_bytes_le_nat [OF bs(1)])
qed

lemma pb_decode_svarint [pb_intros]:
  "pb_reads content cb pb_decode_svarint
     (rd_bind rd_varint (\<lambda>v. rd_return (if v AND 1 \<noteq> 0 then NOT (drop_bit 1 v) else drop_bit 1 v)))"
  unfolding pb_decode_svarint_def by (intro pb_intros)

lemma stores_svarint:
  assumes "data_size field \<in> {1, 2, 4, 8}" and "load m (unat (data_size field)) src = Some bs"
  shows "stores content cb (pb_dec_svarint field dest) (uleb128 (zigzag (twos (8 * unat (data_size field)) (le_nat bs)))) dest bs"
proof -
  let ?n = "unat (data_size field)"
  let ?t = "twos (8 * ?n) (le_nat bs)"
  have bs: "length bs = ?n" "le_nat bs < 256 ^ ?n" using length_load [OF assms(2)] le_nat_less [of bs] by simp_all
  have small: "zigzag ?t < 2 ^ 64" by (rule zigzag_small [OF assms(1) bs(2)])
  have half: "(- (2 * x) - 1) div 2 = - x - 1" for x :: int by presburger
  have "odd (zigzag ?t) \<longleftrightarrow> ?t < 0" by (auto simp: zigzag_def even_nat_iff)
  moreover have "int (zigzag ?t div 2) = (if ?t < 0 then - ?t - 1 else ?t)"
    by (simp add: zigzag_def zdiv_int half)
  ultimately have again: "(if odd (zigzag ?t) then - int (zigzag ?t div 2) - 1 else int (zigzag ?t div 2)) = ?t"
    by auto
  show ?thesis
    unfolding pb_dec_svarint_def
  proof (rule stores_read_put [OF pb_decode_svarint])
    show "rd_bind rd_varint (\<lambda>v. rd_return (if v AND 1 \<noteq> 0 then NOT (drop_bit 1 v) else drop_bit 1 v)) (uleb128 (zigzag ?t) @ r) =
        (Some (word_of_int ?t), r)" for r
      using read_uleb128 [OF small, of r] svarint_word [OF small refl]
      by (simp only: rd_bind_Some rd_return_apply again)
    show "pb_bind (store_signed field dest (word_of_int ?t)) (\<lambda>clamped.
        if clamped \<noteq> word_of_int ?t then dec_error ''integer too large'' else pb_return ()) = put_mem dest bs"
      by (simp only: store_signed_twos [OF assms(1) bs(2)] pb_bind_done le_bytes_le_nat [OF bs(1)])
  qed
qed

lemma stores_bool:
  assumes "load m 1 src = Some bs" and "le_nat bs \<le> 1"
  shows "stores content cb (pb_dec_bool dest) [if le_nat bs = 0 then 0 else 1] dest bs"
proof -
  have "le_nat bs = 0 \<or> le_nat bs = 1" using assms(2) by auto
  then have "uleb128 (le_nat bs) = [if le_nat bs = 0 then 0 else 1]" by (auto simp: uleb128_small)
  moreover have "bs = [if le_nat bs = 0 then 0 else 1]"
    using length_load [OF assms(1)] \<open>le_nat bs = 0 \<or> le_nat bs = 1\<close> le_bytes_le_nat [of bs 1] by (auto simp: le_bytes_simps)
  moreover have "(if (word_of_nat (le_nat bs) :: u32) \<noteq> 0 then 1 else 0 :: u8) = (if le_nat bs = 0 then 0 else 1)"
    using \<open>le_nat bs = 0 \<or> le_nat bs = 1\<close> by auto
  ultimately show ?thesis
    unfolding pb_dec_bool_def
    using stores_read_put [OF pb_decode_varint32 read_varint32 [of "le_nat bs"], of "\<lambda>val. put_mem dest [if val \<noteq> 0 then 1 else 0]" dest bs]
      \<open>le_nat bs \<le> 1\<close> by simp
qed

lemma stores_fixed32: "length bs = 4 \<Longrightarrow> stores content cb (pb_dec_fixed32 dest) bs dest bs"
proof -
  assume len: "length bs = 4"
  let ?v = "push_bit 0 (ucast (bs ! 0)) OR push_bit 8 (ucast (bs ! 1)) OR push_bit 16 (ucast (bs ! 2)) OR push_bit 24 (ucast (bs ! 3)) :: u32"
  have "bs = [bs ! 0, bs ! 1, bs ! 2, bs ! 3]"
    using len by (intro nth_equalityI) (auto simp: less_Suc_eq numeral_eq_Suc)
  then have "le_bytes 4 (unat ?v) = bs" using fixed_words(1) by simp
  moreover have "pb_reads content cb pb_decode_fixed32 (rd_bind (rd_take 4) (\<lambda>bytes. rd_return
       (push_bit 0 (ucast (bytes ! 0)) OR push_bit 8 (ucast (bytes ! 1)) OR
        push_bit 16 (ucast (bytes ! 2)) OR push_bit 24 (ucast (bytes ! 3)))))"
    unfolding pb_decode_fixed32_def by (intro pb_intros)
  moreover have "rd_bind (rd_take 4) (\<lambda>bytes. rd_return
       (push_bit 0 (ucast (bytes ! 0)) OR push_bit 8 (ucast (bytes ! 1)) OR
        push_bit 16 (ucast (bytes ! 2)) OR push_bit 24 (ucast (bytes ! 3)))) (bs @ r) = (Some ?v, r)" for r
    using len by (simp add: rd_bind_def rd_take_def)
  ultimately show ?thesis
    unfolding pb_dec_fixed32_def by (intro stores_read_put [where v = ?v]) simp_all
qed

lemma stores_fixed64: "length bs = 8 \<Longrightarrow> stores content cb (pb_dec_fixed64 dest) bs dest bs"
proof -
  assume len: "length bs = 8"
  let ?f = "\<lambda>bytes :: bytes. push_bit 0 (ucast (bytes ! 0)) OR push_bit 8 (ucast (bytes ! 1)) OR
        push_bit 16 (ucast (bytes ! 2)) OR push_bit 24 (ucast (bytes ! 3)) OR
        push_bit 32 (ucast (bytes ! 4)) OR push_bit 40 (ucast (bytes ! 5)) OR
        push_bit 48 (ucast (bytes ! 6)) OR push_bit 56 (ucast (bytes ! 7)) :: u64"
  have "bs = [bs ! 0, bs ! 1, bs ! 2, bs ! 3, bs ! 4, bs ! 5, bs ! 6, bs ! 7]"
    using len by (intro nth_equalityI) (auto simp: less_Suc_eq numeral_eq_Suc)
  then have "le_bytes 8 (unat (?f bs)) = bs" using fixed_words(2) by simp
  moreover have "pb_reads content cb pb_decode_fixed64 (rd_bind (rd_take 8) (\<lambda>bytes. rd_return (?f bytes)))"
    unfolding pb_decode_fixed64_def by (intro pb_intros)
  moreover have "rd_bind (rd_take 8) (\<lambda>bytes. rd_return (?f bytes)) (bs @ r) = (Some (?f bs), r)" for r
    using len by (simp add: rd_bind_def rd_take_def)
  ultimately show ?thesis
    unfolding pb_dec_fixed64_def by (intro stores_read_put [where v = "?f bs"]) simp_all
qed

lemma stores_read_into: "length bs = n \<Longrightarrow> stores content cb (read_into dest n) bs dest bs"
  unfolding read_into_def by (rule stores_read_put [OF pb_read]) (auto simp: rd_take_def)

lemma stores_bytes:
  assumes load: "load m 4 src = Some h" "load m (le_nat h) (src + 4) = Some body"
    and fits: "le_nat h + 4 \<le> unat (data_size field)" and static: "PB_ATYPE (f_type field) = PB_ATYPE_STATIC"
  shows "stores content cb (pb_dec_bytes A field dest) (uleb128 (le_nat h) @ body) dest (h @ body)"
proof -
  have h: "length h = 4" "length body = le_nat h" "le_nat h < 2 ^ 32"
    using length_load [OF load(1)] length_load [OF load(2)] le_nat_less [of h] by simp_all
  then have len: "unat (word_of_nat (le_nat h) :: u32) = le_nat h" by (intro unat_word_of_nat_less) simp
  have alloc: "PB_BYTES_ARRAY_T_ALLOCSIZE (le_nat h) = le_nat h + 4"
    using h(3) by (simp add: PB_BYTES_ARRAY_T_ALLOCSIZE_def size_add_def size_mod_def)
  have small: "\<not> PB_SIZE_MAX < (w :: u32)" for w
    using unsigned_less [of w, where ?'a = nat] by (simp add: word_less_nat_alt)
  have "stores content cb (pb_bind (put_mem dest (le_bytes 4 (le_nat h))) (\<lambda>_. read_into (dest + 4) (le_nat h))) body dest (h @ body)"
    using stores_put_then [OF stores_read_into [OF h(2)], of dest h] h(1) by (simp add: le_bytes_le_nat)
  then show ?thesis
    unfolding pb_dec_bytes_def
    by (intro stores_read [OF pb_decode_varint32 read_varint32 [OF h(3)]])
      (simp add: Let_def len alloc small static fits [THEN leD])
qed

lemma stores_string:
  assumes load: "load m k src = Some bs" and fits: "k < unat (data_size field)"
    and static: "PB_ATYPE (f_type field) = PB_ATYPE_STATIC"
  shows "stores content cb (pb_dec_string A field dest) (uleb128 k @ bs) dest (bs @ [0])"
proof -
  have bs: "length bs = k" using length_load [OF load] .
  have "unat (data_size field) < 2 ^ 32" using unsigned_less [of "data_size field", where ?'a = nat] by simp
  then have small: "k < 2 ^ 32" "k + 1 < 2 ^ 32" using fits by simp_all
  then have len: "unat (word_of_nat k :: u32) = k" "unat (word_of_nat k + 1 :: u32) = k + 1"
    by (simp_all add: unat_word_of_nat_less unat_word_ariths)
  have up: "(ucast (word_of_nat k :: u32) :: u64) = word_of_nat k"
  proof -
    have "(ucast w :: u64) = word_of_nat (unat w)" for w :: u32 by simp
    then show ?thesis by (metis len(1))
  qed
  have "stores content cb (c_bind (read_into dest k) (\<lambda>status. pb_bind (put_mem (dest + word_of_nat k) [0]) (\<lambda>_. c_return status)))
      bs dest (bs @ [0])"
    using stores_then_zero [OF stores_read_into [OF bs]] bs by simp
  then show ?thesis
    unfolding pb_dec_string_def
    by (intro stores_read [OF pb_decode_varint32 read_varint32 [OF small(1)]])
      (use fits in \<open>simp add: Let_def len up static word_less_nat_alt\<close>)
qed

lemma stores_fixed_length:
  assumes load: "load m (unat (data_size field)) src = Some bs"
  shows "stores content cb (pb_dec_fixed_length_bytes field dest) (uleb128 (unat (data_size field)) @ bs) dest bs"
proof -
  have n: "length bs = unat (data_size field)" "unat (data_size field) < 2 ^ 32"
    using length_load [OF load] unsigned_less [of "data_size field", where ?'a = nat] by simp_all
  have small: "\<not> PB_SIZE_MAX < (w :: u32)" for w
    using unsigned_less [of w, where ?'a = nat] by (simp add: word_less_nat_alt)
  have "stores content cb (if data_size field = 0 then put_mem dest (replicate (unat (data_size field)) 0)
      else read_into dest (unat (data_size field))) bs dest bs"
    using stores_put [of content cb dest "[]"] stores_read_into [OF n(1)] n(1)
    by (cases "data_size field = 0") simp_all
  then show ?thesis
    unfolding pb_dec_fixed_length_bytes_def
    by (intro stores_read [OF pb_decode_varint32 read_varint32 [OF n(2)]]) (cases "data_size field = 0"; simp add: small)
qed

text \<open>Every value that stands in its member is restored.\<close>

theorem stores_value:
  assumes member: "member_bytes m field src = Some bs" and wire: "value_bytes m sub field src = Some w"
    and static: "PB_ATYPE (f_type field) = PB_ATYPE_STATIC" and "src \<noteq> 0"
  shows "stores content cb (PB_DECODERS A decode field dest) w dest bs"
proof -
  let ?l = "PB_LTYPE (f_type field)"
  note unfolded = member_bytes_def value_bytes_def PB_DECODERS_def Let_def guard_def framed_def number_at_def
  consider "?l = 0" | "?l = 1" | "?l = 2" | "?l = 3" | "?l = 4" | "?l = 5" | "?l = 6" | "?l = 7" | "?l = 0x0A"
    using member unfolding member_bytes_def Let_def by (auto split: if_splits)
  then show ?thesis
  proof cases
    case 1
    with member wire have "load m 1 src = Some bs" "le_nat bs \<le> 1" "w = [if le_nat bs = 0 then 0 else 1]"
      by (auto simp: unfolded split: bind_splits if_splits)
    with 1 stores_bool [of m src bs dest] show ?thesis by (simp add: PB_DECODERS_def)
  next
    case 2
    with member wire show ?thesis by (auto simp: unfolded intro!: stores_varint split: if_splits)
  next
    case 3
    with member wire show ?thesis by (auto simp: unfolded intro!: stores_uvarint split: if_splits)
  next
    case 4
    with member wire show ?thesis by (auto simp: unfolded intro!: stores_svarint split: if_splits)
  next
    case 5
    with member wire show ?thesis by (auto simp: unfolded length_load intro!: stores_fixed32)
  next
    case 6
    with member wire show ?thesis by (auto simp: unfolded length_load intro!: stores_fixed64)
  next
    case 7
    with member wire static \<open>src \<noteq> 0\<close> show ?thesis
      by (auto simp: unfolded length_load dest!: stores_bytes split: bind_splits if_splits)
  next
    case 8
    with member wire static \<open>src \<noteq> 0\<close> show ?thesis
      by (auto simp: unfolded length_load dest!: stores_string split: bind_splits if_splits)
  next
    case 9
    with member wire \<open>src \<noteq> 0\<close> show ?thesis
      by (auto simp: unfolded length_load intro!: stores_fixed_length split: bind_splits if_splits)
  qed
qed

end

section \<open>Round trips\<close>

lemma member_length: "member_bytes m field src = Some bs \<Longrightarrow> length bs < 2 ^ 33"
proof -
  assume member: "member_bytes m field src = Some bs"
  have n: "unat (data_size field) < 2 ^ 32" using unsigned_less [of "data_size field", where ?'a = nat] by simp
  have "length bs = 1 \<or> length bs = 4 \<or> length bs = 8 \<or> length bs \<le> unat (data_size field)"
    using member unfolding member_bytes_def Let_def guard_def
    by (auto dest!: length_load split: if_splits bind_splits)
  with n show ?thesis by auto
qed

lemma short_number: "v < 2 ^ 64 \<Longrightarrow> length (uleb128 v) \<le> 10"
  using length_uleb128 [of v 9] by simp

lemma short_wire_int: "length (wire_int x) \<le> 10"
  unfolding wire_int_def by (rule short_number) (simp add: nat_less_iff)

lemma framed_short: "length bs < 2 ^ 33 \<Longrightarrow> \<exists>w. framed bs = Some w \<and> length w \<le> 10 + length bs"
proof -
  assume "length bs < 2 ^ 33"
  then have "length (uleb128 (length bs)) \<le> 10" by (intro short_number) simp
  with \<open>length bs < 2 ^ 33\<close> show ?thesis by (simp add: framed_def size_mod_def)
qed

text \<open>A member that has a value has one on the wire.\<close>

lemma member_value:
  assumes member: "member_bytes m field src = Some bs" and static: "PB_ATYPE (f_type field) = PB_ATYPE_STATIC"
    and "src \<noteq> 0" and "src + 4 \<noteq> 0"
  shows "\<exists>w. value_bytes m sub field src = Some w \<and> length w \<le> 10 + length bs"
proof -
  let ?l = "PB_LTYPE (f_type field)"
  note unfolded = member_bytes_def value_bytes_def Let_def guard_def number_at_def
  consider "?l = 0" | "?l \<in> {1, 2, 3}" | "?l \<in> {4, 5}" | "?l = 6" | "?l = 7" | "?l = 0x0A"
    using member unfolding member_bytes_def Let_def by (auto split: if_splits)
  then show ?thesis
  proof cases
    case 1
    with member have "load m 1 src = Some bs" by (auto simp: unfolded split: bind_splits if_splits)
    with 1 show ?thesis by (intro exI [of _ "[if le_nat bs = 0 then 0 else 1]"]) (simp add: unfolded)
  next
    case 2
    with member have num: "data_size field \<in> {1, 2, 4, 8}" "load m (unat (data_size field)) src = Some bs"
      by (auto simp: unfolded split: if_splits)
    have "le_nat bs < 256 ^ unat (data_size field)" using le_nat_less [of bs] length_load [OF num(2)] by simp
    then have v: "le_nat bs < 2 ^ 64" "zigzag (twos (8 * unat (data_size field)) (le_nat bs)) < 2 ^ 64"
      by (rule number_bounds(1) [OF num(1)], rule zigzag_small [OF num(1)])
    show ?thesis
      using 2 num short_number [OF v(1)] short_number [OF v(2)] short_wire_int [of "twos (8 * unat (data_size field)) (le_nat bs)"]
      by (auto simp: unfolded)
  next
    case 3
    with member show ?thesis by (auto simp: unfolded)
  next
    case 4
    with member obtain h body where load: "load m 4 src = Some h" "load m (le_nat h) (src + 4) = Some body"
      and n: "le_nat h + 4 \<le> unat (data_size field)" and bs: "bs = h @ body"
      by (auto simp: unfolded split: bind_splits if_splits)
    have "length body < 2 ^ 33" using member_length [OF member] by (simp add: bs)
    then obtain w where "framed body = Some w" "length w \<le> 10 + length body" using framed_short by blast
    with 4 load n \<open>src \<noteq> 0\<close> \<open>src + 4 \<noteq> 0\<close> show ?thesis
      by (intro exI [of _ w]) (simp add: unfolded bs)
  next
    case 5
    with member obtain k body where str: "string_length m (unat (data_size field)) src = Ret k"
      and load: "load m k src = Some body" and n: "k < unat (data_size field)" and bs: "bs = body @ [0]"
      by (auto simp: unfolded to_option_def split: bind_splits if_splits c_outcome.splits)
    have "length body < 2 ^ 33" using member_length [OF member] by (simp add: bs)
    then obtain w where "framed body = Some w" "length w \<le> 10 + length body" using framed_short by blast
    with 5 str load n static \<open>src \<noteq> 0\<close> show ?thesis
      by (intro exI [of _ w]) (simp add: unfolded bs to_option_def)
  next
    case 6
    with member have load: "load m (unat (data_size field)) src = Some bs" by (simp add: unfolded)
    obtain w where "framed bs = Some w" "length w \<le> 10 + length bs" using framed_short [OF member_length [OF member]] by blast
    with 6 load \<open>src \<noteq> 0\<close> show ?thesis
      by (intro exI [of _ w]) (simp add: unfolded)
  qed
qed

end
