(* ===== verification/Pb_Roundtrip.thy ===== *)
theory Pb_Roundtrip
  imports Pb_Messages Pb_Restore
begin

text \<open>
  Encoding and decoding together, on memory buffers: what a field encoder wrote makes the
  field decoder restore the member, and which numbers the 32-bit reader takes.
\<close>

section \<open>Values\<close>

lemma encoder_writes:
  assumes "member_bytes m field src = Some bs" and "PB_ATYPE (f_type field) = PB_ATYPE_STATIC" and "src \<noteq> 0" and "src + 4 \<noteq> 0"
  obtains w where "writing buffer_sink (PB_ENCODERS m encode field src) w" and "length w < size_mod"
    and "value_bytes m (\<lambda>_ _. None) field src = Some w"
proof -
  obtain w where w: "value_bytes m (\<lambda>_ _. None) field src = Some w" and "length w \<le> 10 + length bs"
    using member_value [OF assms, of "\<lambda>_ _. None"] by blast
  moreover have "length bs < 2 ^ 33" by (rule member_length [OF assms(1)])
  ultimately have "length w < size_mod" by (simp add: size_mod_def)
  moreover have "emits buffer_sink (encode ptr src) None" for ptr src by (rule emits_None)
  then have "writing buffer_sink (PB_ENCODERS m encode field src) w"
    using to_buffer.emits_value [of encode "\<lambda>_ _. None" m field src] w by (intro emitsD) auto
  ultimately show ?thesis using w that by blast
qed

text \<open>
  Whatever \<open>PB_ENCODERS\<close> writes for a value in a member, \<open>PB_DECODERS\<close> reads back: it succeeds,
  uses all of the bytes, and stores at the destination exactly the bytes of the source member
  and nothing else. This holds for booleans, integers of every size, fixed-size words, byte
  arrays and strings.
\<close>

theorem value_roundtrip:
  assumes "member_bytes m field src = Some bs" and "PB_ATYPE (f_type field) = PB_ATYPE_STATIC"
    and "src \<noteq> 0" and "src + 4 \<noteq> 0"
    and "PB_ENCODERS m encode field src (pb_ostream_from_buffer buf bufsize) = Ret (Some (), s)"
    and "bufsize \<le> length buf" and "bufsize < size_mod"
    and "store m' dest bs = Some m''"
  shows "\<exists>t. PB_DECODERS A decode field dest (pb_istream_from_buffer (fst (out_state s)) (bytes_written s), m') =
      Ret (Some (), (t, m'')) \<and> bytes_left t = 0 \<and> in_errmsg t = None"
proof -
  let ?s = "pb_ostream_from_buffer buf bufsize"
  obtain w where w: "writing buffer_sink (PB_ENCODERS m encode field src) w" "length w < size_mod"
    "value_bytes m (\<lambda>_ _. None) field src = Some w"
    using encoder_writes [OF assms(1-4)] by blast
  have opened: "open_at buffer_sink ?s" by (rule buffer_open_at [OF assms(6,7)])
  have "length w \<le> bufsize"
  proof (rule ccontr)
    assume "\<not> ?thesis"
    then have "max_size ?s < bytes_written ?s + length w" "bytes_written ?s + length w < size_mod"
      using w(2) by (simp_all add: pb_ostream_from_buffer_def)
    from writing_full [OF w(1) opened this] assms(5) show False by auto
  qed
  then have "bytes_written ?s + length w \<le> max_size ?s" by (simp add: pb_ostream_from_buffer_def)
  from writing_room [OF w(1) opened this] obtain st' where "s = ?s\<lparr>out_state := st', bytes_written := bytes_written ?s + length w\<rparr>"
    and "appended buffer_sink (out_state ?s) w st'" using assms(5) by auto
  then have "fst (out_state s) = w @ drop (length w) buf" "bytes_written s = length w"
    using appended_buffer [of buf w st'] \<open>length w \<le> bufsize\<close> assms(6) by (simp_all add: pb_ostream_from_buffer_def)
  then have "stream_at (\<lambda>st. st) (In_callback True buf_read) (pb_istream_from_buffer (fst (out_state s)) (bytes_written s))
      (w @ []) (drop (length w) buf)"
    using from_buffer_at [of w "drop (length w) buf"] by simp
  with buffer.stores_value [OF assms(1) w(3) assms(2,3)] obtain t where
    "PB_DECODERS A decode field dest (pb_istream_from_buffer (fst (out_state s)) (bytes_written s), m') = Ret (Some (), (t, m''))"
    "stream_at (\<lambda>st. st) (In_callback True buf_read) t [] (drop (length w) buf)"
    "in_errmsg t = in_errmsg (pb_istream_from_buffer (fst (out_state s)) (bytes_written s))"
    using assms(8) by (rule storesD)
  then show ?thesis by (simp add: stream_at_def pb_istream_from_buffer_def)
qed

text \<open>A four-byte signed member at 64 that holds -2, restored at 96 from a stream of two bytes.\<close>

definition sint32_field :: pb_field where
  "sint32_field =
     \<lparr>f_tag = 1, f_type = 0x03, data_offset = 0, size_offset = 0, data_size = 4, array_size = 0, f_ptr = 0\<rparr>"

definition no_memory :: allocator where
  "no_memory = \<lparr>pb_realloc = (\<lambda>_ _ m. Ret (0, m)), pb_free = (\<lambda>_ m. Ret m)\<rparr>"

lemma load_mem_at: "length bs = n \<Longrightarrow> unat a + n < 2 ^ 64 \<Longrightarrow> load (mem_at a bs) n a = Some bs"
  using load_holds [OF holds_mem_at, of a bs] by simp

lemma store_mem_at:
  assumes "length xs = length ys" and "unat a + length xs < 2 ^ 64"
  shows "store (mem_at a xs) a ys = Some (mem_at a ys)"
  using load_mem_at [of xs "length xs" a] assms by (auto simp: store_def mem_at_def)

lemma sint32_member: "member_bytes (mem_at 64 [0xFE, 0xFF, 0xFF, 0xFF]) sint32_field 64 = Some [0xFE, 0xFF, 0xFF, 0xFF]"
  using load_mem_at [of "[0xFE, 0xFF, 0xFF, 0xFF]" 4 64]
  by (simp add: member_bytes_def sint32_field_def PB_LTYPE_def guard_def)

lemma sint32_encoded:
  "PB_ENCODERS (mem_at 64 [0xFE, 0xFF, 0xFF, 0xFF]) (\<lambda>_ _ _. Undef) sint32_field 64 (pb_ostream_from_buffer [0, 0] 2) =
   Ret (Some (), \<lparr>out_callback = Some buf_write, out_state = ([3, 0], 1), max_size = 2, bytes_written = 1, out_errmsg = None\<rparr>)"
proof -
  have "le_nat [0xFE, 0xFF, 0xFF, 0xFF] = 0xFFFFFFFE" by (simp add: le_nat_def be_nat_def)
  then have "read_le (mem_at 64 [0xFE, 0xFF, 0xFF, 0xFF]) 4 64 = Ret 0xFFFFFFFE"
    using load_mem_at [of "[0xFE, 0xFF, 0xFF, 0xFF]" 4 64] by (simp add: read_le_def)
  moreover have "(- 2 :: u64) <s 0" by (simp add: word_sless_alt)
  ultimately show ?thesis
    by (simp add: PB_ENCODERS_def sint32_field_def PB_LTYPE_def pb_enc_svarint_def signed_value_def pb_lift_def pb_bind_def
        pb_encode_svarint_def pb_encode_varint_def pb_write_def pb_ostream_from_buffer_def buf_write_def put_bytes_def
        size_add_def size_mod_def)
qed

theorem value_roundtrip_witness:
  "\<exists>t. PB_DECODERS no_memory (\<lambda>_ _ _. c_undef) sint32_field 96
       (pb_istream_from_buffer [3, 0] 1, mem_at 96 [0, 0, 0, 0]) =
      Ret (Some (), (t, mem_at 96 [0xFE, 0xFF, 0xFF, 0xFF])) \<and> bytes_left t = 0 \<and> in_errmsg t = None"
  using value_roundtrip [OF sint32_member _ _ _ sint32_encoded _ _ store_mem_at, of "[0, 0, 0, 0]" 96 no_memory "\<lambda>_ _ _. c_undef"]
  by (simp add: sint32_field_def PB_ATYPE_def size_mod_def)

section \<open>Numbers of 32 bits\<close>

text \<open>
  C36: \<open>pb_decode_varint32\<close> takes a number of the wire exactly when \<open>varint32_accepts\<close> it: those of
  32 bits, and of the longer ones any whose bit 31 and bit 63 are set and whose groups above
  are all zeros or all ones, of which it returns the low 32 bits. So it takes numbers that are
  not sign extensions.
\<close>

theorem varint32_exact:
  assumes "v < 2 ^ 64"
  shows "\<exists>t. pb_decode_varint32 (pb_istream_from_buffer (uleb128 v @ r) (length (uleb128 v @ r))) =
      Ret (if varint32_accepts v then Some (word_of_nat v) else None, t) \<and>
    (if varint32_accepts v then in_state t = r \<and> bytes_left t = length r else in_errmsg t \<noteq> None)"
proof -
  have "stream_at (\<lambda>st. st) (In_callback True buf_read) (pb_istream_from_buffer (uleb128 v @ r) (length (uleb128 v @ r)))
      (uleb128 v @ r) []"
    using from_buffer_at [of "uleb128 v @ r" "[]"] by simp
  with buffer.pb_decode_varint32 show ?thesis
    by (rule pb_readsD) (use rd_varint32_uleb128 [OF assms, of r] in \<open>auto simp: stream_at_def split: if_splits\<close>)
qed

lemma uleb128_step: "uleb128 v = (if v < 128 then [word_of_nat v] else word_of_nat (128 + v mod 128) # uleb128 (v div 128))"
  by (simp add: uleb128.simps)

lemma not_extended: "uleb128 (2 ^ 63 + 2 ^ 31) = [0x80, 0x80, 0x80, 0x80, 0x88, 0x80, 0x80, 0x80, 0x80, 0x01]"
  by (simp add: uleb128_step)

lemma not_extended_bytes:
  "uleb128 (2 ^ 63 + 2 ^ 31) @ [7] = [0x80, 0x80, 0x80, 0x80, 0x88, 0x80, 0x80, 0x80, 0x80, 0x01, 7]"
  "length [0x80, 0x80, 0x80, 0x80, 0x88, 0x80, 0x80, 0x80, 0x80, 0x01, 7 :: u8] = 11"
  "(word_of_nat (2 ^ 63 + 2 ^ 31) :: u32) = 0x80000000"
  by (simp only: not_extended append.simps) simp_all

theorem varint32_exact_witness:
  "\<exists>t. pb_decode_varint32 (pb_istream_from_buffer [0x80, 0x80, 0x80, 0x80, 0x88, 0x80, 0x80, 0x80, 0x80, 0x01, 7] 11) =
      Ret (Some 0x80000000, t) \<and> in_state t = [7] \<and> bytes_left t = 1"
  using varint32_exact [of "2 ^ 63 + 2 ^ 31" "[7]", unfolded not_extended_bytes]
  by (simp add: varint32_accepts_def)

end
