(* ===== verification/Pb_Defaults.thy ===== *)
theory Pb_Defaults
  imports Pb_Values
begin

text \<open>
  The parts of \<open>pb_decode.c\<close> and \<open>pb_common.c\<close> that work on the structure alone: searching the
  fields, initialising a message to its defaults, and releasing what it points to. They are
  operations on the memory. As in the encoder, the depth of the recursion and the length of a
  chain of extensions have a bound; what exceeds it has no defined result.
\<close>

section \<open>Searching fields\<close>

text \<open>
  The loops that go round the fields until one fits or the first comes again; \<open>n\<close> is the number
  of entries, which is enough to come round.
\<close>

fun iter_search :: "(pb_field \<Rightarrow> bool) \<Rightarrow> nat \<Rightarrow> nat \<Rightarrow> pb_field_iter \<Rightarrow> (bool \<times> pb_field_iter) c_outcome" where
  "iter_search fit 0 start iter = Undef"
| "iter_search fit (Suc n) start iter =
     (if length (it_start iter) \<le> it_pos iter then Undef
      else if fit (it_start iter ! it_pos iter) then Ret (True, iter)
      else case pb_field_iter_next iter of
             Undef \<Rightarrow> Undef
           | Ret (_, iter) \<Rightarrow> if it_pos iter = start then Ret (False, iter) else iter_search fit n start iter)"

definition pb_field_iter_find :: "pb_field_iter \<Rightarrow> u32 \<Rightarrow> (bool \<times> pb_field_iter) c_outcome" where
  "pb_field_iter_find iter tag =
     iter_search (\<lambda>field. f_tag field = tag \<and> PB_LTYPE (f_type field) \<noteq> PB_LTYPE_EXTENSION)
       (length (it_start iter)) (it_pos iter) iter"

definition find_extension_field :: "pb_field_iter \<Rightarrow> (bool \<times> pb_field_iter) c_outcome" where
  "find_extension_field iter =
     iter_search (\<lambda>field. PB_LTYPE (f_type field) = PB_LTYPE_EXTENSION) (length (it_start iter)) (it_pos iter) iter"

section \<open>Operations on memory\<close>

type_synonym 'a mem_op = "(mem, 'a) c_op"

definition put :: "u64 \<Rightarrow> bytes \<Rightarrow> unit mem_op" where
  "put a bs m = (case store m a bs of None \<Rightarrow> Undef | Some m \<Rightarrow> Ret ((), m))"

definition get :: "(mem \<Rightarrow> 'a c_outcome) \<Rightarrow> 'a mem_op" where
  "get f m = (case f m of Undef \<Rightarrow> Undef | Ret x \<Rightarrow> Ret (x, m))"

definition get_ptr :: "u64 \<Rightarrow> u64 mem_op" where
  "get_ptr a = get (\<lambda>m. read_ptr m a)"

definition put_ptr :: "u64 \<Rightarrow> u64 \<Rightarrow> unit mem_op" where
  "put_ptr a p = put a (le_bytes 8 (unat p))"

text \<open>A \<open>pb_size_t\<close>.\<close>

definition get_size :: "u64 \<Rightarrow> u32 mem_op" where
  "get_size a = get (\<lambda>m. outcome_bind (read_le m 4 a) (\<lambda>v. Ret (word_of_nat v)))"

definition put_size :: "u64 \<Rightarrow> u32 \<Rightarrow> unit mem_op" where
  "put_size a v = put a (le_bytes 4 (unat v))"

definition memset :: "u64 \<Rightarrow> u8 \<Rightarrow> nat \<Rightarrow> unit mem_op" where
  "memset a b n = put a (replicate n b)"

definition memcpy :: "u64 \<Rightarrow> u64 \<Rightarrow> nat \<Rightarrow> unit mem_op" where
  "memcpy dest src n = c_bind (get (\<lambda>m. case load m n src of None \<Rightarrow> Undef | Some bs \<Rightarrow> Ret bs)) (put dest)"

text \<open>The loop over the fields of a message.\<close>

function each_field :: "(pb_field_iter \<Rightarrow> unit mem_op) \<Rightarrow> pb_field_iter \<Rightarrow> unit mem_op" where
  "each_field f iter =
     c_bind (f iter) (\<lambda>_.
       case pb_field_iter_next iter of
         Undef \<Rightarrow> c_undef
       | Ret (again, iter) \<Rightarrow> if again then each_field f iter else c_return ())"
  by pat_completeness auto

termination each_field
  by (relation "measure (\<lambda>(_, iter). length (it_start iter) - it_pos iter)")
    (auto dest!: iter_next_pos)

declare each_field.simps [simp del]

text \<open>The field an iterator is at.\<close>

definition it_field :: "pb_field_iter \<Rightarrow> pb_field" where
  "it_field iter = it_start iter ! it_pos iter"

definition message_fields :: "(u64 \<Rightarrow> pb_field list option) \<Rightarrow> (pb_field_iter \<Rightarrow> unit mem_op) \<Rightarrow> u64 \<Rightarrow> u64 \<Rightarrow> unit mem_op" where
  "message_fields descr f fields_ptr dest =
     (case descr fields_ptr of
        None \<Rightarrow> c_undef
      | Some fs \<Rightarrow>
          c_bind (c_lift (pb_field_iter_begin fs dest)) (\<lambda>(some, iter).
            if some then each_field f iter else c_return ()))"

section \<open>Extensions\<close>

text \<open>
  A \<open>pb_extension_t\<close> has its type at 0, \<open>dest\<close> at 8, \<open>next\<close> at 16 and \<open>found\<close> at 24; the type has
  the decoder at 0 and the description at 16.
\<close>

definition iter_from_extension :: "(u64 \<Rightarrow> pb_field list option) \<Rightarrow> u64 \<Rightarrow> pb_field_iter mem_op" where
  "iter_from_extension descr extension =
     c_bind (get_ptr extension) (\<lambda>type. c_bind (get_ptr (type + 16)) (\<lambda>arg. c_bind (get_ptr (extension + 8)) (\<lambda>dest.
       case descr arg of
         None \<Rightarrow> c_undef
       | Some fs \<Rightarrow>
           c_bind (c_lift (pb_field_iter_begin fs dest)) (\<lambda>(_, iter).
             c_return (iter\<lparr>it_pData := (if PB_ATYPE (f_type (hd fs)) = PB_ATYPE_POINTER then extension + 8 else dest),
                            it_pSize := extension + 24\<rparr>)))))"

text \<open>The loop over a chain of at most \<open>n\<close> extensions.\<close>

fun each_extension :: "(u64 \<Rightarrow> unit mem_op) \<Rightarrow> nat \<Rightarrow> u64 \<Rightarrow> unit mem_op" where
  "each_extension f 0 ext = (if ext = 0 then c_return () else c_undef)"
| "each_extension f (Suc n) ext =
     (if ext = 0 then c_return ()
      else c_bind (f ext) (\<lambda>_. c_bind (get_ptr (ext + 16)) (each_extension f n)))"

section \<open>Defaults\<close>

definition field_default ::
    "(u64 \<Rightarrow> pb_field list option) \<Rightarrow> (pb_field_iter \<Rightarrow> unit mem_op) \<Rightarrow> nat \<Rightarrow> pb_field_iter \<Rightarrow> unit mem_op" where
  "field_default descr rec n iter =
     (let field = it_field iter; ltype = PB_LTYPE (f_type field); htype = PB_HTYPE (f_type field);
          atype = PB_ATYPE (f_type field); pData = it_pData iter; pSize = it_pSize iter
      in if ltype = PB_LTYPE_EXTENSION then
           c_bind (get_ptr pData) (each_extension (\<lambda>ext.
             c_bind (put (ext + 24) [0]) (\<lambda>_. c_bind (iter_from_extension descr ext) rec)) n)
         else if atype = PB_ATYPE_STATIC then
           (let init_data =
              (if ltype = PB_LTYPE_SUBMESSAGE then message_fields descr rec (f_ptr field) pData
               else if f_ptr field \<noteq> 0 then memcpy pData (f_ptr field) (unat (data_size field))
               else memset pData 0 (unat (data_size field)))
            in if htype = PB_HTYPE_OPTIONAL \<and> pSize \<noteq> pData then c_bind (put pSize [0]) (\<lambda>_. init_data)
               else if htype \<in> {PB_HTYPE_REPEATED, PB_HTYPE_ONEOF} then put_size pSize 0
               else init_data)
         else if atype = PB_ATYPE_POINTER then
           c_bind (put_ptr pData 0) (\<lambda>_.
             if htype \<in> {PB_HTYPE_REPEATED, PB_HTYPE_ONEOF} then put_size pSize 0 else c_return ())
         else c_return ())"

fun pb_field_set_to_default :: "(u64 \<Rightarrow> pb_field list option) \<Rightarrow> nat \<Rightarrow> pb_field_iter \<Rightarrow> unit mem_op" where
  "pb_field_set_to_default descr 0 iter = c_undef"
| "pb_field_set_to_default descr (Suc depth) iter = field_default descr (pb_field_set_to_default descr depth) depth iter"

definition pb_message_set_to_defaults :: "(u64 \<Rightarrow> pb_field list option) \<Rightarrow> nat \<Rightarrow> u64 \<Rightarrow> u64 \<Rightarrow> unit mem_op" where
  "pb_message_set_to_defaults descr depth = message_fields descr (pb_field_set_to_default descr depth)"

section \<open>Release\<close>

definition mem_free :: "allocator \<Rightarrow> u64 \<Rightarrow> unit mem_op" where
  "mem_free A ptr m = (case pb_free A ptr m of Undef \<Rightarrow> Undef | Ret m \<Rightarrow> Ret ((), m))"

text \<open>The entries of an array of pointers, and of an array of submessages.\<close>

fun release_entries :: "allocator \<Rightarrow> nat \<Rightarrow> u64 \<Rightarrow> unit mem_op" where
  "release_entries A 0 pItem = c_return ()"
| "release_entries A (Suc count) pItem =
     c_bind (get_ptr pItem) (\<lambda>p. c_bind (mem_free A p) (\<lambda>_. c_bind (put_ptr pItem 0) (\<lambda>_.
       release_entries A count (pItem + 8))))"

fun release_items :: "(u64 \<Rightarrow> unit mem_op) \<Rightarrow> u64 \<Rightarrow> nat \<Rightarrow> u64 \<Rightarrow> unit mem_op" where
  "release_items release step 0 pItem = c_return ()"
| "release_items release step (Suc count) pItem =
     c_bind (release pItem) (\<lambda>_. release_items release step count (pItem + step))"

text \<open>\<open>pb_release\<close> with the release of a field as an argument.\<close>

definition release_message ::
    "(u64 \<Rightarrow> pb_field list option) \<Rightarrow> (pb_field_iter \<Rightarrow> unit mem_op) \<Rightarrow> u64 \<Rightarrow> u64 \<Rightarrow> unit mem_op" where
  "release_message descr rec fields_ptr dest = (if dest = 0 then c_return () else message_fields descr rec fields_ptr dest)"

text \<open>The submessage or the array of submessages of a field.\<close>

definition release_submessages ::
    "(u64 \<Rightarrow> pb_field list option) \<Rightarrow> (pb_field_iter \<Rightarrow> unit mem_op) \<Rightarrow> pb_field_iter \<Rightarrow> unit mem_op" where
  "release_submessages descr rec iter =
     (let field = it_field iter; static = (PB_ATYPE (f_type field) = PB_ATYPE_STATIC)
      in c_bind (if PB_ATYPE (f_type field) = PB_ATYPE_POINTER then get_ptr (it_pData iter)
                 else c_return (it_pData iter)) (\<lambda>pItem.
         c_bind (if PB_HTYPE (f_type field) = PB_HTYPE_REPEATED then
                   c_bind (if static \<and> it_pSize iter = it_pData iter then c_return (array_size field)
                           else get_size (it_pSize iter)) (\<lambda>count.
                   c_return (if static \<and> array_size field < count then array_size field else count))
                 else c_return 1) (\<lambda>count.
           if pItem = 0 then c_return ()
           else release_items (release_message descr rec (f_ptr field)) (ucast (data_size field)) (unat count) pItem)))"

definition release_pointer :: "allocator \<Rightarrow> pb_field_iter \<Rightarrow> unit mem_op" where
  "release_pointer A iter =
     (let field = it_field iter; repeated = (PB_HTYPE (f_type field) = PB_HTYPE_REPEATED)
      in c_bind (if repeated \<and> PB_LTYPE (f_type field) \<in> {PB_LTYPE_STRING, PB_LTYPE_BYTES} then
                   c_bind (get_ptr (it_pData iter)) (\<lambda>pItem. c_bind (get_size (it_pSize iter)) (\<lambda>count.
                     release_entries A (unat count) pItem))
                 else c_return ()) (\<lambda>_.
         c_bind (if repeated then put_size (it_pSize iter) 0 else c_return ()) (\<lambda>_.
         c_bind (get_ptr (it_pData iter)) (\<lambda>p.
         c_bind (mem_free A p) (\<lambda>_. put_ptr (it_pData iter) 0)))))"

definition release_field ::
    "(u64 \<Rightarrow> pb_field list option) \<Rightarrow> allocator \<Rightarrow> (pb_field_iter \<Rightarrow> unit mem_op) \<Rightarrow> nat \<Rightarrow> pb_field_iter \<Rightarrow> unit mem_op" where
  "release_field descr A rec n iter =
     (let field = it_field iter; ltype = PB_LTYPE (f_type field); atype = PB_ATYPE (f_type field)
      in c_bind (if PB_HTYPE (f_type field) = PB_HTYPE_ONEOF
                 then c_bind (get_size (it_pSize iter)) (\<lambda>which. c_return (which = f_tag field))
                 else c_return True) (\<lambda>current.
           if \<not> current then c_return ()
           else c_bind
             (if ltype = PB_LTYPE_EXTENSION then
                c_bind (get_ptr (it_pData iter)) (each_extension (\<lambda>ext. c_bind (iter_from_extension descr ext) rec) n)
              else if ltype = PB_LTYPE_SUBMESSAGE \<and> atype \<noteq> PB_ATYPE_CALLBACK then release_submessages descr rec iter
              else c_return ()) (\<lambda>_.
             if atype = PB_ATYPE_POINTER then release_pointer A iter else c_return ())))"

fun pb_release_single_field :: "(u64 \<Rightarrow> pb_field list option) \<Rightarrow> allocator \<Rightarrow> nat \<Rightarrow> pb_field_iter \<Rightarrow> unit mem_op" where
  "pb_release_single_field descr A 0 iter = c_undef"
| "pb_release_single_field descr A (Suc depth) iter =
     release_field descr A (pb_release_single_field descr A depth) depth iter"

definition pb_release :: "(u64 \<Rightarrow> pb_field list option) \<Rightarrow> allocator \<Rightarrow> nat \<Rightarrow> u64 \<Rightarrow> u64 \<Rightarrow> unit mem_op" where
  "pb_release descr A depth = release_message descr (pb_release_single_field descr A depth)"

end
