(* ===== verification/Pb_Decode.thy ===== *)
theory Pb_Decode
  imports Pb_Defaults
begin

text \<open>
  The message level of \<open>pb_decode.c\<close>. The functions of the application, the allocator and the
  descriptions are parameters, and so is the number of rounds that a loop may make: a callback
  that takes nothing from its stream is called again without end, which has no result here.
\<close>

section \<open>Environment\<close>

record 's dec_env =
  dec_descriptors :: "u64 \<Rightarrow> pb_field list option"
  dec_allocator :: allocator
  dec_rounds :: nat
  user_decode :: "u64 \<Rightarrow> pb_field \<Rightarrow> u64 \<Rightarrow> ('s, unit) pb_dec"
  user_decode_scalar :: "u64 \<Rightarrow> pb_field \<Rightarrow> u64 \<Rightarrow> (bytes, unit) pb_dec"
  user_decode_extension :: "u64 \<Rightarrow> u64 \<Rightarrow> u32 \<Rightarrow> u32 \<Rightarrow> ('s, unit) pb_dec"

definition on_mem :: "'a mem_op \<Rightarrow> ('s, 'a) pb_dec" where
  "on_mem f = (\<lambda>(s, m). case f m of Undef \<Rightarrow> Undef | Ret (x, m) \<Rightarrow> Ret (Some x, (s, m)))"

definition on_iter :: "'a c_outcome \<Rightarrow> ('s, 'a) pb_dec" where
  "on_iter r = on_mem (c_lift r)"

text \<open>
  \<open>*size\<close> of a repeated field: the counter \<open>fixed\<close> of \<open>pb_decode_noinit\<close> for an array of fixed count,
  which has no member for it, and the member at \<open>pSize\<close> for any other.
\<close>

definition get_count :: "pb_field_iter \<Rightarrow> u32 option \<Rightarrow> ('s, u32) pb_dec" where
  "get_count iter fixed = (case fixed of Some n \<Rightarrow> pb_return n | None \<Rightarrow> on_mem (get_size (it_pSize iter)))"

definition put_count :: "pb_field_iter \<Rightarrow> u32 option \<Rightarrow> u32 \<Rightarrow> ('s, u32 option) pb_dec" where
  "put_count iter fixed n =
     (case fixed of Some _ \<Rightarrow> pb_return (Some n) | None \<Rightarrow> pb_bind (on_mem (put_size (it_pSize iter) n)) (\<lambda>_. pb_return None))"

text \<open>\<open>base + data_size * size\<close>, a product of 32 bits.\<close>

definition item_address :: "pb_field \<Rightarrow> u64 \<Rightarrow> u32 \<Rightarrow> u64" where
  "item_address field base n = base + ucast (data_size field * n)"

section \<open>Static fields\<close>

fun packed_items :: "nat \<Rightarrow> 's decoder \<Rightarrow> pb_field_iter \<Rightarrow> u32 option \<Rightarrow> ('s, u32 option) pb_dec" where
  "packed_items 0 func iter fixed = c_undef"
| "packed_items (Suc rounds) func iter fixed =
     (\<lambda>(s, m).
       if bytes_left s = 0 then Ret (Some fixed, (s, m))
       else pb_bind (get_count iter fixed) (\<lambda>n.
         if array_size (it_field iter) \<le> n then pb_return fixed
         else pb_bind (func (item_address (it_field iter) (it_pData iter) n)) (\<lambda>_.
              pb_bind (get_count iter fixed) (\<lambda>n.
              pb_bind (put_count iter fixed (n + 1)) (packed_items rounds func iter)))) (s, m))"

definition decode_packed :: "nat \<Rightarrow> 's decoder \<Rightarrow> pb_field_iter \<Rightarrow> u32 option \<Rightarrow> ('s, u32 option) pb_dec" where
  "decode_packed rounds func iter fixed =
     pb_bind (on_stream pb_make_string_substream) (\<lambda>substream (s, m).
       case packed_items rounds func iter fixed (substream, m) of
         Undef \<Rightarrow> Undef
       | Ret (status, (substream, m)) \<Rightarrow>
           if bytes_left substream \<noteq> 0 then dec_error ''array overflow'' (s, m)
           else close_after (c_return status) substream (s, m))"

definition decode_static_field ::
    "'s dec_env \<Rightarrow> (bool \<Rightarrow> u64 \<Rightarrow> 's decoder) \<Rightarrow> nat \<Rightarrow> u32 \<Rightarrow> pb_field_iter \<Rightarrow> u32 option \<Rightarrow> ('s, u32 option) pb_dec" where
  "decode_static_field E decode depth wire_type iter fixed =
     (let field = it_field iter; func = PB_DECODERS (dec_allocator E) decode field;
          htype = PB_HTYPE (f_type field); ltype = PB_LTYPE (f_type field); pData = it_pData iter; pSize = it_pSize iter
      in if htype = PB_HTYPE_REQUIRED then pb_bind (func pData) (\<lambda>_. pb_return fixed)
         else if htype = PB_HTYPE_OPTIONAL then
           pb_bind (if pSize \<noteq> pData then put_mem pSize [1] else pb_return ()) (\<lambda>_.
           pb_bind (func pData) (\<lambda>_. pb_return fixed))
         else if htype = PB_HTYPE_REPEATED then
           (if wire_type = PB_WT_STRING \<and> ltype \<le> PB_LTYPE_LAST_PACKABLE
            then decode_packed (dec_rounds E) func iter fixed
            else pb_bind (get_count iter fixed) (\<lambda>n.
                 pb_bind (put_count iter fixed (n + 1)) (\<lambda>fixed.
                   if array_size field \<le> n then dec_error ''array overflow''
                   else pb_bind (func (item_address field pData n)) (\<lambda>_. pb_return fixed))))
         else if htype = PB_HTYPE_ONEOF then
           pb_bind (on_mem (c_bind (if ltype = PB_LTYPE_SUBMESSAGE then get_size pSize else c_return (f_tag field)) (\<lambda>which.
             c_bind (if which \<noteq> f_tag field
                     then c_bind (memset pData 0 (unat (data_size field))) (\<lambda>_.
                            pb_message_set_to_defaults (dec_descriptors E) depth (f_ptr field) pData)
                     else c_return ()) (\<lambda>_. put_size pSize (f_tag field))))) (\<lambda>_.
           pb_bind (func pData) (\<lambda>_. pb_return fixed))
         else dec_error ''invalid field type'')"

section \<open>Fields behind pointers\<close>

definition initialize_pointer_field :: "'s dec_env \<Rightarrow> nat \<Rightarrow> pb_field \<Rightarrow> u64 \<Rightarrow> unit mem_op" where
  "initialize_pointer_field E depth field pItem =
     (if PB_LTYPE (f_type field) \<in> {PB_LTYPE_STRING, PB_LTYPE_BYTES} then put_ptr pItem 0
      else if PB_LTYPE (f_type field) = PB_LTYPE_SUBMESSAGE then
        c_bind (memset pItem 0 (unat (data_size field))) (\<lambda>_.
          pb_message_set_to_defaults (dec_descriptors E) depth (f_ptr field) pItem)
      else c_return ())"

text \<open>\<open>allocated_size\<close> when one more entry does not fit: it grows by the entries that may still come.\<close>

definition grown_size :: "pb_field \<Rightarrow> nat \<Rightarrow> nat \<Rightarrow> nat c_outcome" where
  "grown_size field allocated left =
     (if data_size field = 0 then Undef
      else let remain = (left - 1) div unat (data_size field) + 1;
               spare = (unat PB_SIZE_MAX + size_mod - allocated) mod size_mod
           in Ret (size_add allocated (if remain < spare then remain else 1)))"

text \<open>
  The items of a packed array: \<open>False\<close> when there are too many, \<open>None\<close> for any other failure.
\<close>

fun pointer_items ::
    "'s dec_env \<Rightarrow> nat \<Rightarrow> nat \<Rightarrow> 's decoder \<Rightarrow> pb_field_iter \<Rightarrow> nat \<Rightarrow> u32 option \<Rightarrow> ('s, bool \<times> u32 option) pb_dec" where
  "pointer_items E depth 0 func iter allocated fixed = c_undef"
| "pointer_items E depth (Suc rounds) func iter allocated fixed =
     (\<lambda>(s, m).
       if bytes_left s = 0 then Ret (Some (True, fixed), (s, m))
       else pb_bind (get_count iter fixed) (\<lambda>n.
         if n = PB_SIZE_MAX then pb_return (False, fixed)
         else let field = it_field iter in
           pb_bind (if allocated < unat n + 1
                    then pb_bind (on_iter (grown_size field allocated (bytes_left s))) (\<lambda>allocated.
                         pb_bind (allocate_field (dec_allocator E) (it_pData iter) (unat (data_size field)) allocated) (\<lambda>_.
                           pb_return allocated))
                    else pb_return allocated) (\<lambda>allocated.
           pb_bind (on_mem (get_ptr (it_pData iter))) (\<lambda>p.
           pb_bind (get_count iter fixed) (\<lambda>n.
             let pItem = item_address field p n
             in if pItem = 0 then c_return None
                else pb_bind (on_mem (initialize_pointer_field E depth field pItem)) (\<lambda>_.
                     pb_bind (func pItem) (\<lambda>_.
                     pb_bind (get_count iter fixed) (\<lambda>n.
                     pb_bind (put_count iter fixed (n + 1)) (pointer_items E depth rounds func iter allocated)))))))) (s, m))"

definition decode_packed_pointer ::
    "'s dec_env \<Rightarrow> nat \<Rightarrow> 's decoder \<Rightarrow> pb_field_iter \<Rightarrow> u32 option \<Rightarrow> ('s, u32 option) pb_dec" where
  "decode_packed_pointer E depth func iter fixed =
     pb_bind (get_count iter fixed) (\<lambda>allocated.
     pb_bind (on_stream pb_make_string_substream) (\<lambda>substream (s, m).
       case pointer_items E depth (dec_rounds E) func iter (unat allocated) fixed (substream, m) of
         Undef \<Rightarrow> Undef
       | Ret (status, (substream, m)) \<Rightarrow>
           let s = (case status of Some (False, _) \<Rightarrow> s\<lparr>in_errmsg := Some ''too many array entries''\<rparr> | _ \<Rightarrow> s);
               r = (case status of Some (True, fixed) \<Rightarrow> Some fixed | _ \<Rightarrow> None)
           in close_after (c_return r) substream (s, m)))"

definition decode_pointer_field ::
    "'s dec_env \<Rightarrow> (bool \<Rightarrow> u64 \<Rightarrow> 's decoder) \<Rightarrow> nat \<Rightarrow> u32 \<Rightarrow> pb_field_iter \<Rightarrow> u32 option \<Rightarrow> ('s, u32 option) pb_dec" where
  "decode_pointer_field E decode depth wire_type iter fixed =
     (let field = it_field iter; func = PB_DECODERS (dec_allocator E) decode field;
          htype = PB_HTYPE (f_type field); ltype = PB_LTYPE (f_type field); pData = it_pData iter
      in if htype \<in> {PB_HTYPE_REQUIRED, PB_HTYPE_OPTIONAL, PB_HTYPE_ONEOF} then
           pb_bind (on_mem (c_bind (if ltype = PB_LTYPE_SUBMESSAGE then get_ptr pData else c_return 0) (\<lambda>old.
             c_bind (if old \<noteq> 0 then pb_release_single_field (dec_descriptors E) (dec_allocator E) depth iter
                     else c_return ()) (\<lambda>_.
               if htype = PB_HTYPE_ONEOF then put_size (it_pSize iter) (f_tag field) else c_return ())))) (\<lambda>_.
           pb_bind (if ltype \<in> {PB_LTYPE_STRING, PB_LTYPE_BYTES} then func pData
                    else pb_bind (allocate_field (dec_allocator E) pData (unat (data_size field)) 1) (\<lambda>_.
                         pb_bind (on_mem (get_ptr pData)) (\<lambda>pItem.
                         pb_bind (on_mem (initialize_pointer_field E depth field pItem)) (\<lambda>_.
                         pb_bind (on_mem (get_ptr pData)) func)))) (\<lambda>_. pb_return fixed))
         else if htype = PB_HTYPE_REPEATED then
           (if wire_type = PB_WT_STRING \<and> ltype \<le> PB_LTYPE_LAST_PACKABLE
            then decode_packed_pointer E depth func iter fixed
            else pb_bind (get_count iter fixed) (\<lambda>n.
                   if n = PB_SIZE_MAX then dec_error ''too many array entries''
                   else pb_bind (allocate_field (dec_allocator E) pData (unat (data_size field)) (unat (n + 1))) (\<lambda>_.
                        pb_bind (on_mem (get_ptr pData)) (\<lambda>p.
                        pb_bind (get_count iter fixed) (\<lambda>n.
                        pb_bind (put_count iter fixed (n + 1)) (\<lambda>fixed.
                        pb_bind (on_mem (initialize_pointer_field E depth field (item_address field p n))) (\<lambda>_.
                        pb_bind (func (item_address field p n)) (\<lambda>_. pb_return fixed))))))))
         else dec_error ''invalid field type'')"

section \<open>Callbacks\<close>

fun callback_rounds :: "nat \<Rightarrow> ('s, unit) pb_dec \<Rightarrow> ('s, unit) pb_dec" where
  "callback_rounds 0 f = c_undef"
| "callback_rounds (Suc rounds) f =
     pb_bind f (\<lambda>_ (s, m). if bytes_left s \<noteq> 0 then callback_rounds rounds f (s, m) else Ret (Some (), (s, m)))"

definition decode_callback_field :: "'s dec_env \<Rightarrow> u32 \<Rightarrow> pb_field_iter \<Rightarrow> ('s, unit) pb_dec" where
  "decode_callback_field E wire_type iter =
     (let pData = it_pData iter; field = it_field iter
      in pb_bind (if pData = 0 then pb_return 0 else on_mem (get_ptr pData)) (\<lambda>func.
         if func = 0 then on_stream (pb_skip_field wire_type)
         else if wire_type = PB_WT_STRING then
           pb_bind (on_stream pb_make_string_substream) (\<lambda>substream (s, m).
             case callback_rounds (dec_rounds E) (user_decode E func field (pData + 8)) (substream, m) of
               Undef \<Rightarrow> Undef
             | Ret (None, (_, m)) \<Rightarrow> dec_error ''callback failed'' (s, m)
             | Ret (Some _, (substream, m)) \<Rightarrow> on_stream (pb_close_string_substream substream) (s, m))
         else pb_bind (on_stream (read_raw_value wire_type 10)) (\<lambda>buffer (s, m).
             case user_decode_scalar E func field (pData + 8) (pb_istream_from_buffer buffer (length buffer), m) of
               Undef \<Rightarrow> Undef
             | Ret (status, (_, m)) \<Rightarrow> Ret (status, (s, m)))))"

section \<open>Any field\<close>

text \<open>The iterator that is left, since releasing a union searches with it.\<close>

definition pb_release_union_field :: "'s dec_env \<Rightarrow> nat \<Rightarrow> pb_field_iter \<Rightarrow> ('s, pb_field_iter) pb_dec" where
  "pb_release_union_field E depth iter =
     (let new_tag = f_tag (it_field iter)
      in pb_bind (on_mem (get_size (it_pSize iter))) (\<lambda>old_tag.
         if old_tag = 0 \<or> old_tag = new_tag then pb_return iter
         else pb_bind (on_iter (pb_field_iter_find iter old_tag)) (\<lambda>(found, iter).
           if \<not> found then dec_error ''invalid union tag''
           else pb_bind (on_mem (pb_release_single_field (dec_descriptors E) (dec_allocator E) depth iter)) (\<lambda>_.
                pb_bind (on_iter (pb_field_iter_find iter new_tag)) (\<lambda>(found, iter).
                  if \<not> found then dec_error ''iterator error''
                  else pb_bind (if PB_ATYPE (f_type (it_field iter)) = PB_ATYPE_POINTER
                                then on_mem (put_ptr (it_pData iter) 0) else pb_return ()) (\<lambda>_. pb_return iter))))))"

definition decode_field ::
    "'s dec_env \<Rightarrow> (bool \<Rightarrow> u64 \<Rightarrow> 's decoder) \<Rightarrow> nat \<Rightarrow> u32 \<Rightarrow> pb_field_iter \<Rightarrow> u32 option \<Rightarrow>
     ('s, pb_field_iter \<times> u32 option) pb_dec" where
  "decode_field E decode depth wire_type iter fixed =
     pb_bind (if PB_HTYPE (f_type (it_field iter)) = PB_HTYPE_ONEOF then pb_release_union_field E depth iter
              else pb_return iter) (\<lambda>iter.
       let atype = PB_ATYPE (f_type (it_field iter))
       in pb_bind
         (if atype = PB_ATYPE_STATIC then decode_static_field E decode depth wire_type iter fixed
          else if atype = PB_ATYPE_POINTER then decode_pointer_field E decode depth wire_type iter fixed
          else if atype = PB_ATYPE_CALLBACK then pb_bind (decode_callback_field E wire_type iter) (\<lambda>_. pb_return fixed)
          else dec_error ''invalid field type'') (\<lambda>fixed. pb_return (iter, fixed)))"

section \<open>Unknown fields\<close>

definition default_extension_decoder ::
    "'s dec_env \<Rightarrow> (bool \<Rightarrow> u64 \<Rightarrow> 's decoder) \<Rightarrow> nat \<Rightarrow> u64 \<Rightarrow> u32 \<Rightarrow> u32 \<Rightarrow> ('s, unit) pb_dec" where
  "default_extension_decoder E decode depth extension tag wire_type =
     pb_bind (on_mem (c_bind (get_ptr extension) (\<lambda>type. get_ptr (type + 16)))) (\<lambda>arg.
       case dec_descriptors E arg of
         Some (field # _) \<Rightarrow>
           if f_tag field \<noteq> tag then pb_return ()
           else pb_bind (on_mem (iter_from_extension (dec_descriptors E) extension)) (\<lambda>iter.
                pb_bind (put_mem (extension + 24) [1]) (\<lambda>_.
                pb_bind (decode_field E decode depth wire_type iter None) (\<lambda>_. pb_return ())))
       | _ \<Rightarrow> c_undef)"

text \<open>The chain of at most \<open>n\<close> extensions, until one takes something from the stream.\<close>

fun decode_extensions ::
    "'s dec_env \<Rightarrow> (bool \<Rightarrow> u64 \<Rightarrow> 's decoder) \<Rightarrow> nat \<Rightarrow> nat \<Rightarrow> u32 \<Rightarrow> u32 \<Rightarrow> nat \<Rightarrow> u64 \<Rightarrow> ('s, unit) pb_dec" where
  "decode_extensions E decode depth pos tag wire_type 0 extension =
     (\<lambda>(s, m). if extension = 0 \<or> bytes_left s \<noteq> pos then Ret (Some (), (s, m)) else Undef)"
| "decode_extensions E decode depth pos tag wire_type (Suc n) extension =
     (\<lambda>(s, m).
       if extension = 0 \<or> bytes_left s \<noteq> pos then Ret (Some (), (s, m))
       else pb_bind (on_mem (c_bind (get_ptr extension) get_ptr)) (\<lambda>func.
            pb_bind (if func \<noteq> 0 then user_decode_extension E func extension tag wire_type
                     else default_extension_decoder E decode depth extension tag wire_type) (\<lambda>_.
            pb_bind (on_mem (get_ptr (extension + 16)))
              (decode_extensions E decode depth pos tag wire_type n))) (s, m))"

definition decode_extension ::
    "'s dec_env \<Rightarrow> (bool \<Rightarrow> u64 \<Rightarrow> 's decoder) \<Rightarrow> nat \<Rightarrow> u32 \<Rightarrow> u32 \<Rightarrow> pb_field_iter \<Rightarrow> ('s, unit) pb_dec" where
  "decode_extension E decode depth tag wire_type iter =
     pb_bind (on_mem (get_ptr (it_pData iter))) (\<lambda>extension (s, m).
       decode_extensions E decode depth (bytes_left s) tag wire_type depth extension (s, m))"

section \<open>Messages\<close>

text \<open>The variables of the loop; \<open>fixed_count_field\<close> is an index, and \<open>fields_seen\<close> two words.\<close>

record dec_loop =
  dec_iter :: pb_field_iter
  fields_seen :: "u32 list"
  extension_range_start :: u32
  fixed_count_field :: "nat option"
  fixed_count_size :: u32

text \<open>A field that is not described: \<open>True\<close> when an extension has taken it.\<close>

definition unknown_field ::
    "'s dec_env \<Rightarrow> (bool \<Rightarrow> u64 \<Rightarrow> 's decoder) \<Rightarrow> nat \<Rightarrow> u32 \<Rightarrow> u32 \<Rightarrow> dec_loop \<Rightarrow> ('s, dec_loop) pb_dec" where
  "unknown_field E decode depth tag wire_type L =
     (let skip = (\<lambda>L. pb_bind (on_stream (pb_skip_field wire_type)) (\<lambda>_. pb_return L))
      in if tag < extension_range_start L then skip L
         else pb_bind (on_iter (find_extension_field (dec_iter L))) (\<lambda>(found, iter).
           let start = (if found then f_tag (it_field iter) else 0xFFFFFFFF);
               L = L\<lparr>dec_iter := iter, extension_range_start := start\<rparr>
           in if tag < start then skip L
              else (\<lambda>(s, m).
                pb_bind (decode_extension E decode depth tag wire_type iter) (\<lambda>_ (s', m').
                  if bytes_left s' \<noteq> bytes_left s then Ret (Some L, (s', m')) else skip L (s', m')) (s, m))))"

text \<open>The counter of the array of fixed count that a field starts or goes on with.\<close>

definition fixed_count :: "dec_loop \<Rightarrow> ('s, dec_loop \<times> u32 option) pb_dec" where
  "fixed_count L =
     (let iter = dec_iter L; complete = (\<lambda>f. fixed_count_size L = array_size (it_start iter ! f))
      in if PB_HTYPE (f_type (it_field iter)) = PB_HTYPE_REPEATED \<and> it_pSize iter = it_pData iter then
           (if fixed_count_field L = Some (it_pos iter) then pb_return (L, Some (fixed_count_size L))
            else if fixed_count_field L = None \<or> complete (the (fixed_count_field L))
            then pb_return (L\<lparr>fixed_count_field := Some (it_pos iter), fixed_count_size := 0\<rparr>, Some 0)
            else dec_error ''wrong size for fixed count field'')
         else pb_return (L, None))"

definition mark_seen :: "pb_field_iter \<Rightarrow> u32 list \<Rightarrow> u32 list" where
  "mark_seen iter seen =
     (let i = required_field_index iter
      in if PB_HTYPE (f_type (it_field iter)) = PB_HTYPE_REQUIRED \<and> i < 64
         then seen[i div 32 := seen ! (i div 32) OR push_bit (i mod 32) 1] else seen)"

text \<open>One round of the loop: \<open>None\<close> for \<open>break\<close>.\<close>

definition decode_round ::
    "'s dec_env \<Rightarrow> (bool \<Rightarrow> u64 \<Rightarrow> 's decoder) \<Rightarrow> nat \<Rightarrow> dec_loop \<Rightarrow> ('s, dec_loop option) pb_dec" where
  "decode_round E decode depth L =
     c_bind (on_stream pb_decode_tag) (\<lambda>(r, eof).
       case r of
         None \<Rightarrow> if eof then pb_return None else c_return None
       | Some (wire_type, tag) \<Rightarrow>
           pb_bind (on_iter (pb_field_iter_find (dec_iter L) tag)) (\<lambda>(found, iter).
             let L = L\<lparr>dec_iter := iter\<rparr>
             in if \<not> found then pb_bind (unknown_field E decode depth tag wire_type L) (\<lambda>L. pb_return (Some L))
                else pb_bind (fixed_count L) (\<lambda>(L, fixed).
                     let L = L\<lparr>fields_seen := mark_seen iter (fields_seen L)\<rparr>
                     in pb_bind (decode_field E decode depth wire_type iter fixed) (\<lambda>(iter, fixed).
                          pb_return (Some (L\<lparr>dec_iter := iter,
                            fixed_count_size := (case fixed of None \<Rightarrow> fixed_count_size L | Some n \<Rightarrow> n)\<rparr>))))))"

fun decode_rounds ::
    "'s dec_env \<Rightarrow> (bool \<Rightarrow> u64 \<Rightarrow> 's decoder) \<Rightarrow> nat \<Rightarrow> nat \<Rightarrow> dec_loop \<Rightarrow> ('s, dec_loop) pb_dec" where
  "decode_rounds E decode depth 0 L = (\<lambda>(s, m). if bytes_left s = 0 then Ret (Some L, (s, m)) else Undef)"
| "decode_rounds E decode depth (Suc rounds) L =
     (\<lambda>(s, m).
       if bytes_left s = 0 then Ret (Some L, (s, m))
       else pb_bind (decode_round E decode depth L) (\<lambda>r.
         case r of None \<Rightarrow> pb_return L | Some L \<Rightarrow> decode_rounds E decode depth rounds L) (s, m))"

text \<open>
  The loop to the end of the fields: the number of required fields before the last, the type
  of the last, and the iterator.
\<close>

function required_count :: "pb_field_iter \<Rightarrow> (nat \<times> u8 \<times> pb_field_iter) c_outcome" where
  "required_count iter =
     (case pb_field_iter_next iter of
        Undef \<Rightarrow> Undef
      | Ret (again, iter') \<Rightarrow>
          if again then required_count iter'
          else Ret (required_field_index iter, f_type (it_field iter), iter'))"
  by pat_completeness auto

termination required_count
  by (relation "measure (\<lambda>iter. length (it_start iter) - it_pos iter)") (auto dest!: iter_next_pos)

declare required_count.simps [simp del]

definition all_seen :: "nat \<Rightarrow> u32 list \<Rightarrow> bool" where
  "all_seen req_field_count seen =
     (list_all (\<lambda>w. w = - 1) (take (req_field_count div 32) seen) \<and>
      (req_field_count mod 32 \<noteq> 0 \<longrightarrow>
       seen ! (req_field_count div 32) = drop_bit (32 - req_field_count mod 32) (- 1)))"

definition check_complete :: "dec_loop \<Rightarrow> ('s, unit) pb_dec" where
  "check_complete L =
     (case fixed_count_field L of
        Some f \<Rightarrow>
          if fixed_count_size L \<noteq> array_size (it_start (dec_iter L) ! f)
          then dec_error ''wrong size for fixed count field'' else pb_return ()
      | None \<Rightarrow> pb_return ())"

definition check_required :: "dec_loop \<Rightarrow> ('s, unit) pb_dec" where
  "check_required L =
     pb_bind (on_iter (required_count (dec_iter L))) (\<lambda>(n, last_type, iter).
       let n = (if PB_HTYPE last_type = PB_HTYPE_REQUIRED \<and> f_tag (it_field iter) \<noteq> 0 then n + 1 else n);
           n = min n 64
       in if all_seen n (fields_seen L) then pb_return () else dec_error ''missing required field'')"

definition decode_message ::
    "'s dec_env \<Rightarrow> (bool \<Rightarrow> u64 \<Rightarrow> 's decoder) \<Rightarrow> nat \<Rightarrow> u64 \<Rightarrow> 's decoder" where
  "decode_message E decode depth fields_ptr dest =
     (case dec_descriptors E fields_ptr of
        None \<Rightarrow> c_undef
      | Some fs \<Rightarrow>
          pb_bind (on_iter (pb_field_iter_begin fs dest)) (\<lambda>(_, iter).
          pb_bind (decode_rounds E decode depth (dec_rounds E)
             \<lparr>dec_iter = iter, fields_seen = [0, 0], extension_range_start = 0, fixed_count_field = None,
              fixed_count_size = 0\<rparr>) (\<lambda>L.
          pb_bind (check_complete L) (\<lambda>_. check_required L))))"

text \<open>\<open>pb_decode\<close>, given \<open>pb_decode_noinit\<close>.\<close>

definition decode_from_defaults :: "'s dec_env \<Rightarrow> nat \<Rightarrow> (u64 \<Rightarrow> 's decoder) \<Rightarrow> u64 \<Rightarrow> 's decoder" where
  "decode_from_defaults E depth noinit fields_ptr dest =
     pb_bind (on_mem (pb_message_set_to_defaults (dec_descriptors E) depth fields_ptr dest)) (\<lambda>_.
     c_bind (noinit fields_ptr dest) (\<lambda>status.
       if status = None
       then pb_bind (on_mem (pb_release (dec_descriptors E) (dec_allocator E) depth fields_ptr dest)) (\<lambda>_. c_return None)
       else c_return status))"

fun pb_decode_noinit :: "'s dec_env \<Rightarrow> nat \<Rightarrow> u64 \<Rightarrow> 's decoder" where
  "pb_decode_noinit E 0 fields_ptr dest = c_undef"
| "pb_decode_noinit E (Suc depth) fields_ptr dest =
     decode_message E (\<lambda>init ptr dest.
       if init then decode_from_defaults E depth (pb_decode_noinit E depth) ptr dest
       else pb_decode_noinit E depth ptr dest) depth fields_ptr dest"

definition pb_decode :: "'s dec_env \<Rightarrow> nat \<Rightarrow> u64 \<Rightarrow> 's decoder" where
  "pb_decode E depth = decode_from_defaults E depth (pb_decode_noinit E depth)"

definition pb_decode_delimited_noinit :: "'s dec_env \<Rightarrow> nat \<Rightarrow> u64 \<Rightarrow> 's decoder" where
  "pb_decode_delimited_noinit E depth fields_ptr dest =
     pb_bind (on_stream pb_make_string_substream) (close_after (pb_decode_noinit E depth fields_ptr dest))"

definition pb_decode_delimited :: "'s dec_env \<Rightarrow> nat \<Rightarrow> u64 \<Rightarrow> 's decoder" where
  "pb_decode_delimited E depth fields_ptr dest =
     pb_bind (on_stream pb_make_string_substream) (close_after (pb_decode E depth fields_ptr dest))"

definition pb_decode_nullterminated :: "'s dec_env \<Rightarrow> nat \<Rightarrow> u64 \<Rightarrow> 's decoder" where
  "pb_decode_nullterminated = pb_decode"

end
