(* ===== verification/Pb_Records.thy ===== *)
theory Pb_Records
  imports Pb_Decode Pb_Restore
begin

text \<open>
  What \<open>pb_decode_noinit\<close> does with the records of a message whose members stand in its
  structure: each record stores its value where its field is, in the order they come in and
  whatever their order, records of other tags are skipped, and at the end every required field
  must have come.
\<close>

section \<open>Descriptions\<close>

definition plain_field :: "pb_field \<Rightarrow> bool" where
  "plain_field field =
     (f_tag field \<noteq> 0 \<and> unat (f_tag field) < 2 ^ 29 \<and> PB_ATYPE (f_type field) = PB_ATYPE_STATIC \<and>
      PB_HTYPE (f_type field) \<in> {PB_HTYPE_REQUIRED, PB_HTYPE_OPTIONAL} \<and>
      PB_LTYPE (f_type field) \<noteq> PB_LTYPE_SUBMESSAGE \<and> PB_LTYPE (f_type field) \<noteq> PB_LTYPE_EXTENSION)"

definition plain_message :: "pb_field list \<Rightarrow> bool" where
  "plain_message fs =
     (2 \<le> length fs \<and> f_tag (last fs) = 0 \<and> list_all plain_field (butlast fs) \<and> distinct (map f_tag (butlast fs)))"

text \<open>The iterator at the field of an index.\<close>

fun iter_at :: "pb_field list \<Rightarrow> u64 \<Rightarrow> nat \<Rightarrow> pb_field_iter" where
  "iter_at fs dest 0 = (case pb_field_iter_begin fs dest of Ret (_, iter) \<Rightarrow> iter)"
| "iter_at fs dest (Suc i) = (case pb_field_iter_next (iter_at fs dest i) of Ret (_, iter) \<Rightarrow> iter)"

definition is_required :: "pb_field \<Rightarrow> bool" where
  "is_required field = (PB_HTYPE (f_type field) = PB_HTYPE_REQUIRED)"

lemma plain_nth:
  assumes "plain_message fs" and "length fs = Suc n" and "i < n"
  shows "plain_field (fs ! i)" and "f_tag (fs ! i) \<noteq> 0"
proof -
  have "fs ! i \<in> set (butlast fs)"
    using assms(2,3) by (metis diff_Suc_1 length_butlast nth_butlast nth_mem)
  then show "plain_field (fs ! i)" using assms(1) by (simp add: plain_message_def list_all_iff)
  then show "f_tag (fs ! i) \<noteq> 0" by (simp add: plain_field_def)
qed

lemma plain_last: "plain_message fs \<Longrightarrow> length fs = Suc n \<Longrightarrow> f_tag (fs ! n) = 0"
  by (metis diff_Suc_1 last_conv_nth length_0_conv nat.distinct(1) plain_message_def)

lemma plain_size: "plain_message fs \<Longrightarrow> length fs = Suc n \<Longrightarrow> 0 < n"
  by (simp add: plain_message_def)

lemma plain_tags:
  assumes "plain_message fs" and "length fs = Suc n" and "i < n" and "j < n" and "f_tag (fs ! i) = f_tag (fs ! j)"
  shows "i = j"
proof -
  have "distinct (map f_tag (butlast fs))" using assms(1) by (simp add: plain_message_def)
  moreover have "map f_tag (butlast fs) ! i = map f_tag (butlast fs) ! j" "i < length (map f_tag (butlast fs))"
    "j < length (map f_tag (butlast fs))"
    using assms(2-) by (simp_all add: nth_butlast)
  ultimately show ?thesis by (metis nth_eq_iff_index_eq)
qed

lemma begin_at: "plain_message fs \<Longrightarrow> pb_field_iter_begin fs dest = Ret (True, iter_at fs dest 0)"
proof -
  assume plain: "plain_message fs"
  then obtain f fs' where fs: "fs = f # fs'" by (cases fs) (auto simp: plain_message_def)
  then have "f_tag (fs ! 0) \<noteq> 0" using plain_nth(2) [OF plain, of "length fs'" 0] plain_size [OF plain] by simp
  with fs show ?thesis by (simp add: pb_field_iter_begin_def Let_def)
qed

lemma iter_at_place:
  assumes "plain_message fs" and "length fs = Suc n" and "i < n"
  shows "it_start (iter_at fs dest i) = fs \<and> it_pos (iter_at fs dest i) = i \<and> dest_struct (iter_at fs dest i) = dest \<and>
    required_field_index (iter_at fs dest i) = length (filter is_required (take i fs))"
  using assms(3)
proof (induction i)
  case 0
  obtain f fs' where "fs = f # fs'" using assms(2) by (cases fs) simp_all
  then show ?case by (simp add: pb_field_iter_begin_def Let_def)
next
  case (Suc i)
  then have IH: "it_start (iter_at fs dest i) = fs" "it_pos (iter_at fs dest i) = i" "dest_struct (iter_at fs dest i) = dest"
    "required_field_index (iter_at fs dest i) = length (filter is_required (take i fs))" by simp_all
  have "f_tag (fs ! i) \<noteq> 0" "f_tag (fs ! Suc i) \<noteq> 0" "plain_field (fs ! i)" using plain_nth [OF assms(1,2)] Suc.prems by simp_all
  then have "\<exists>iter. pb_field_iter_next (iter_at fs dest i) = Ret (True, iter) \<and> it_start iter = fs \<and> it_pos iter = Suc i \<and>
      dest_struct iter = dest \<and> required_field_index iter =
        length (filter is_required (take i fs)) + (if is_required (fs ! i) then 1 else 0)"
    using IH Suc.prems assms(2) by (auto simp: pb_field_iter_next_def Let_def is_required_def plain_field_def)
  moreover have "take (Suc i) fs = take i fs @ [fs ! i]" using Suc.prems assms(2) by (intro take_Suc_conv_app_nth) simp
  ultimately show ?case by auto
qed

lemma next_at:
  assumes "plain_message fs" and "length fs = Suc n" and "i < n"
  shows "pb_field_iter_next (iter_at fs dest i) =
    (if Suc i < n then Ret (True, iter_at fs dest (Suc i)) else Ret (False, iter_at fs dest 0))"
proof -
  have at: "it_start (iter_at fs dest i) = fs" "it_pos (iter_at fs dest i) = i" "dest_struct (iter_at fs dest i) = dest"
    using iter_at_place [OF assms] by simp_all
  have tag: "f_tag (fs ! i) \<noteq> 0" by (rule plain_nth(2) [OF assms])
  show ?thesis
  proof (cases "Suc i < n")
    case True
    then have "f_tag (fs ! Suc i) \<noteq> 0" by (rule plain_nth(2) [OF assms(1,2)])
    with True tag at have "\<exists>iter. pb_field_iter_next (iter_at fs dest i) = Ret (True, iter)"
      using assms(2) by (simp add: pb_field_iter_next_def Let_def)
    with True show ?thesis by auto
  next
    case False
    then have "Suc i = n" using assms(3) by simp
    with plain_last [OF assms(1,2)] have "f_tag (fs ! Suc i) = 0" by simp
    with False tag at assms(2,3) begin_at [OF assms(1), of dest] show ?thesis
      by (simp add: pb_field_iter_next_def Let_def del: iter_at.simps)
  qed
qed

lemma it_field_at: "plain_message fs \<Longrightarrow> length fs = Suc n \<Longrightarrow> i < n \<Longrightarrow> it_field (iter_at fs dest i) = fs ! i"
  using iter_at_place [of fs n i dest] by (simp add: it_field_def)

section \<open>Searching\<close>

text \<open>The fields from one place round to another are looked at in turn.\<close>

lemma round_next: "j < n \<Longrightarrow> j = (start + k) mod n \<Longrightarrow> (start + Suc k) mod n = (if Suc j < n then Suc j else 0)"
  for n :: nat
  by (simp add: mod_Suc)

lemma round_distinct: "(start + i) mod n = (start + k) mod n \<Longrightarrow> i < k \<Longrightarrow> k < n \<Longrightarrow> False" for n :: nat
proof -
  assume eq: "(start + i) mod n = (start + k) mod n" and "i < k" "k < n"
  then have "n dvd k - i" using mod_eq_dvd_iff_nat [of "start + i" "start + k" n] by simp
  with \<open>i < k\<close> \<open>k < n\<close> show False by (simp add: nat_dvd_not_less)
qed

lemma iter_search_step:
  assumes "it_start it = fs" and "it_pos it = j" and "j < length fs" and "\<not> fit (fs ! j)"
    and "pb_field_iter_next it = Ret (b, it')"
  shows "iter_search fit (Suc r) start it = (if it_pos it' = start then Ret (False, it') else iter_search fit r start it')"
  using assms by simp

lemma iter_search_hit:
  assumes "it_start it = fs" and "it_pos it = j" and "j < length fs" and "fit (fs ! j)"
  shows "iter_search fit (Suc r) start it = Ret (True, it)"
  using assms by simp

declare iter_search.simps [simp del] iter_at.simps [simp del]

lemma iter_search_at:
  assumes plain: "plain_message fs" and len: "length fs = Suc n" and "start < n" and "k < n"
    and "\<forall>j < k. \<not> fit (fs ! ((start + j) mod n))"
    and "k \<le> r"
  shows "iter_search fit (Suc r) start (iter_at fs dest start) =
    iter_search fit (Suc r - k) start (iter_at fs dest ((start + k) mod n))"
  using assms(4-6)
proof (induction k)
  case 0
  then show ?case using assms(3) by simp
next
  case (Suc k)
  let ?j = "(start + k) mod n"
  let ?i = "(start + Suc k) mod n"
  have j: "?j < n" "?i < n" using assms(3) by simp_all
  have at: "it_start (iter_at fs dest ?j) = fs" "it_pos (iter_at fs dest ?j) = ?j" "it_pos (iter_at fs dest ?i) = ?i"
    using iter_at_place [OF plain len j(1)] iter_at_place [OF plain len j(2)] by simp_all
  have "?i \<noteq> start" using round_distinct [of start 0 n "Suc k"] assms(3) Suc.prems(1) by auto
  obtain b where again: "pb_field_iter_next (iter_at fs dest ?j) = Ret (b, iter_at fs dest ?i)"
    using next_at [OF plain len j(1), of dest] round_next [OF j(1) refl] by (auto split: if_splits)
  have "\<not> fit (fs ! ?j)" "?j < length fs" using Suc.prems(2) j(1) len by simp_all
  from iter_search_step [where fit = fit and fs = fs and j = ?j, OF at(1,2) this(2,1) again, of "r - k" start] \<open>?i \<noteq> start\<close>
  have "iter_search fit (Suc (r - k)) start (iter_at fs dest ?j) = iter_search fit (r - k) start (iter_at fs dest ?i)"
    unfolding at(3) by (simp only: if_False)
  then have "iter_search fit (Suc r - k) start (iter_at fs dest ?j) = iter_search fit (Suc r - Suc k) start (iter_at fs dest ?i)"
    using Suc.prems(3) by (simp only: Suc_diff_le [OF Suc_leD] diff_Suc_Suc)
  moreover have "iter_search fit (Suc r) start (iter_at fs dest start) = iter_search fit (Suc r - k) start (iter_at fs dest ?j)"
    by (rule Suc.IH) (use Suc.prems in simp_all)
  ultimately show ?case by (rule trans [rotated])
qed

lemma iter_search_found:
  assumes plain: "plain_message fs" and len: "length fs = Suc n" and "start < n" and "i < n" and "fit (fs ! i)"
    and unique: "\<And>j. j < n \<Longrightarrow> fit (fs ! j) \<Longrightarrow> j = i"
  shows "iter_search fit (length fs) start (iter_at fs dest start) = Ret (True, iter_at fs dest i)"
proof -
  define k where "k = (i + (n - start)) mod n"
  have k: "k < n" unfolding k_def using assms(3) by simp
  have "(start + k) mod n = (start + (i + (n - start))) mod n" unfolding k_def by (rule mod_add_right_eq)
  also have "start + (i + (n - start)) = i + n" using assms(3) by simp
  finally have i: "(start + k) mod n = i" using assms(4) by simp
  have "\<not> fit (fs ! ((start + j) mod n))" if "j < k" for j
    using unique [of "(start + j) mod n"] assms(3) i round_distinct [of start j n k] that k by auto
  then have "iter_search fit (Suc n) start (iter_at fs dest start) = iter_search fit (Suc n - k) start (iter_at fs dest i)"
    using iter_search_at [OF plain len assms(3) k, of fit n dest] k i by simp
  moreover have "Suc n - k = Suc (n - k)" using k by simp
  moreover have "it_start (iter_at fs dest i) = fs" "it_pos (iter_at fs dest i) = i"
    using iter_at_place [OF plain len assms(4)] by simp_all
  moreover have "i < length fs" using assms(4) len by simp
  ultimately show ?thesis using iter_search_hit [of "iter_at fs dest i" fs i fit "n - k" start] assms(5)
    by (simp only: len)
qed

lemma iter_search_none:
  assumes plain: "plain_message fs" and len: "length fs = Suc n" and "start < n" and none: "\<And>j. j < n \<Longrightarrow> \<not> fit (fs ! j)"
  shows "iter_search fit (length fs) start (iter_at fs dest start) = Ret (False, iter_at fs dest start)"
proof -
  obtain k where n: "n = Suc k" using assms(3) by (cases n) simp_all
  let ?j = "(start + k) mod n"
  have j: "?j < n" using assms(3) by simp
  have step: "iter_search fit (Suc n) start (iter_at fs dest start) = iter_search fit (Suc n - k) start (iter_at fs dest ?j)"
    using assms(3) by (intro iter_search_at [OF plain len]) (auto simp: none n)
  have start: "start = (if Suc ?j < n then Suc ?j else 0)"
  proof -
    have "(start + Suc k) mod n = start" using assms(3) by (simp only: n [symmetric]) simp
    then show ?thesis using round_next [OF j refl] by (simp only:)
  qed
  obtain b where again: "pb_field_iter_next (iter_at fs dest ?j) = Ret (b, iter_at fs dest start)"
    using next_at [OF plain len j, of dest] start by (auto split: if_splits)
  have at: "it_start (iter_at fs dest ?j) = fs" "it_pos (iter_at fs dest ?j) = ?j" "it_pos (iter_at fs dest start) = start"
    using iter_at_place [OF plain len j] iter_at_place [OF plain len assms(3)] by simp_all
  have "?j < length fs" using j len by simp
  from iter_search_step [OF at(1,2) this, of fit, OF none [OF j] again, of 1 start]
  have "iter_search fit (Suc 1) start (iter_at fs dest ?j) = Ret (False, iter_at fs dest start)"
    unfolding at(3) by (simp only: if_True refl)
  moreover have "Suc n - k = Suc 1" using n by simp
  ultimately show ?thesis using len step by (simp only:)
qed

section \<open>Required fields\<close>

definition required_index :: "pb_field list \<Rightarrow> nat \<Rightarrow> nat" where
  "required_index fs i = length (filter is_required (take i fs))"

lemma required_index_Suc: "i < length fs \<Longrightarrow> required_index fs (Suc i) = required_index fs i + (if is_required (fs ! i) then 1 else 0)"
  by (simp add: required_index_def take_Suc_conv_app_nth)

lemma required_index_mono: "i \<le> j \<Longrightarrow> j \<le> length fs \<Longrightarrow> required_index fs i \<le> required_index fs j"
proof (induction j)
  case (Suc j)
  then show ?case by (cases "i = Suc j") (auto simp: required_index_Suc)
qed simp

lemma required_index_less: "i < j \<Longrightarrow> j \<le> length fs \<Longrightarrow> is_required (fs ! i) \<Longrightarrow> required_index fs i < required_index fs j"
  using required_index_mono [of "Suc i" j fs] by (simp add: required_index_Suc)

lemma required_index_inj:
  "i < length fs \<Longrightarrow> j < length fs \<Longrightarrow> is_required (fs ! i) \<Longrightarrow> is_required (fs ! j) \<Longrightarrow>
   required_index fs i = required_index fs j \<Longrightarrow> i = j"
  using required_index_less [of i j fs] required_index_less [of j i fs] by (cases i j rule: linorder_cases) auto

lemma required_index_surj: "n \<le> length fs \<Longrightarrow> k < required_index fs n \<Longrightarrow> \<exists>i < n. is_required (fs ! i) \<and> required_index fs i = k"
proof (induction n)
  case 0
  then show ?case by (simp add: required_index_def)
next
  case (Suc n)
  show ?case
  proof (cases "k < required_index fs n")
    case True
    with Suc show ?thesis by (auto simp: less_Suc_eq)
  next
    case False
    with Suc.prems have "is_required (fs ! n) \<and> required_index fs n = k"
      by (auto simp: required_index_Suc split: if_splits)
    then show ?thesis by blast
  qed
qed

text \<open>The words of \<open>fields_seen\<close> stand for a set of indices below 64.\<close>

definition seen_is :: "u32 list \<Rightarrow> nat set \<Rightarrow> bool" where
  "seen_is seen S = (length seen = 2 \<and> (\<forall>k < 64. bit (seen ! (k div 32)) (k mod 32) \<longleftrightarrow> k \<in> S))"

lemma seen_none: "seen_is [0, 0] {}"
proof -
  have "[0, 0 :: u32] ! (k div 32) = 0" if "k < 64" for k :: nat
    using that less_mult_imp_div_less [of k 2 32] by (auto simp: nth_Cons split: nat.splits)
  then show ?thesis by (simp add: seen_is_def)
qed

lemma seen_insert:
  assumes "seen_is seen S" and "i < 64"
  shows "seen_is (seen[i div 32 := seen ! (i div 32) OR push_bit (i mod 32) 1]) (insert i S)"
proof -
  have len: "length seen = 2" and at: "\<And>k. k < 64 \<Longrightarrow> bit (seen ! (k div 32)) (k mod 32) \<longleftrightarrow> k \<in> S"
    using assms(1) by (simp_all add: seen_is_def)
  have "bit (seen[i div 32 := seen ! (i div 32) OR push_bit (i mod 32) 1] ! (k div 32)) (k mod 32) \<longleftrightarrow> k \<in> insert i S"
    if k: "k < 64" for k
  proof (cases "k div 32 = i div 32")
    case True
    have "bit (push_bit (i mod 32) 1 :: u32) (k mod 32) \<longleftrightarrow> k mod 32 = i mod 32"
      by (auto simp: bit_simps bit_1_iff)
    also have "\<dots> \<longleftrightarrow> k = i" using True by (metis div_mult_mod_eq)
    finally show ?thesis
      using True at [OF k] len less_mult_imp_div_less [of i 2 32] assms(2) by (auto simp: bit_or_iff)
  next
    case False
    then show ?thesis using at [OF k] by auto
  qed
  with len show ?thesis by (simp add: seen_is_def)
qed

lemma word_all_iff: "w = - 1 \<longleftrightarrow> (\<forall>b < 32. bit w b)" for w :: u32
  by (auto simp: bit_eq_iff)

lemma word_low_iff: "r \<le> 32 \<Longrightarrow> w = drop_bit (32 - r) (- 1) \<longleftrightarrow> (\<forall>b < 32. bit w b \<longleftrightarrow> b < r)" for w :: u32
  by (auto simp: bit_eq_iff bit_simps)

lemma all_seen_iff:
  assumes "seen_is seen S" and "n \<le> 64" and "S \<subseteq> {..<n}"
  shows "all_seen n seen \<longleftrightarrow> {..<n} \<subseteq> S"
proof -
  have len: "length seen = 2" and at: "\<And>k. k < 64 \<Longrightarrow> bit (seen ! (k div 32)) (k mod 32) \<longleftrightarrow> k \<in> S"
    using assms(1) by (simp_all add: seen_is_def)
  have at': "bit (seen ! j) b \<longleftrightarrow> 32 * j + b \<in> S" if "j < 2" "b < 32" for j b
    using at [of "32 * j + b"] that by simp
  define q r where "q = n div 32" and "r = n mod 32"
  have n: "n = 32 * q + r" "r < 32" by (simp_all add: q_def r_def)
  then have n': "q \<le> 2" "r \<noteq> 0 \<Longrightarrow> q < 2" using assms(2) by simp_all
  have "list_all (\<lambda>w. w = - 1) (take q seen) \<longleftrightarrow> (\<forall>j < q. seen ! j = - 1)"
    using len n'(1) by (simp add: list_all_length)
  also have "\<dots> \<longleftrightarrow> (\<forall>j < q. \<forall>b < 32. 32 * j + b \<in> S)" using n'(1) by (simp add: word_all_iff at')
  also have "\<dots> \<longleftrightarrow> (\<forall>k < 32 * q. k \<in> S)"
  proof (intro iffI allI impI)
    fix k
    assume all: "\<forall>j < q. \<forall>b < 32. 32 * j + b \<in> S" and "k < 32 * q"
    then have "k div 32 < q" "k mod 32 < 32" by (simp_all add: less_mult_imp_div_less mult.commute)
    with all have "32 * (k div 32) + k mod 32 \<in> S" by blast
    then show "k \<in> S" by simp
  qed simp
  finally have low: "list_all (\<lambda>w. w = - 1) (take q seen) \<longleftrightarrow> (\<forall>k < 32 * q. k \<in> S)" .
  have high: "seen ! q = drop_bit (32 - r) (- 1) \<longleftrightarrow> (\<forall>b < r. 32 * q + b \<in> S)" if "r \<noteq> 0"
  proof -
    have "32 * q + b \<notin> S" if "r \<le> b" for b using assms(3) n(1) that by auto
    then have "b < r" if "32 * q + b \<in> S" for b using that by (cases "b < r") auto
    with n(2) show ?thesis
      unfolding word_low_iff [OF less_imp_le [OF n(2)]] using at' [OF n'(2) [OF that]] by auto
  qed
  have "(\<forall>k < n. k \<in> S) \<longleftrightarrow> (\<forall>k < 32 * q. k \<in> S) \<and> (\<forall>b < r. 32 * q + b \<in> S)"
  proof (intro iffI conjI allI impI)
    fix k
    assume both: "(\<forall>k < 32 * q. k \<in> S) \<and> (\<forall>b < r. 32 * q + b \<in> S)" and "k < n"
    show "k \<in> S"
    proof (cases "k < 32 * q")
      case False
      with \<open>k < n\<close> n(1) have "k - 32 * q < r" "32 * q + (k - 32 * q) = k" by simp_all
      with both show ?thesis by metis
    qed (use both in simp)
  qed (simp_all add: n(1))
  with low high show ?thesis
    by (cases "r = 0") (auto simp: all_seen_def subset_eq simp flip: q_def r_def)
qed

section \<open>Records\<close>

text \<open>
  A record of a described field: its index, the wire type in the tag, the bytes of the value
  and those of the member they stand for. A record of another tag has a payload that can be
  skipped.
\<close>

datatype wire_record = Known nat nat bytes bytes | Unknown nat nat bytes

fun record_bytes :: "pb_field list \<Rightarrow> wire_record \<Rightarrow> bytes" where
  "record_bytes fs (Known i wt w b) = uleb128 (8 * unat (f_tag (fs ! i)) + wt) @ w"
| "record_bytes fs (Unknown tag wt w) = uleb128 (8 * tag + wt) @ w"

text \<open>The bytes are those of a value that a member with these bytes has.\<close>

definition value_form :: "pb_field \<Rightarrow> bytes \<Rightarrow> bytes \<Rightarrow> bool" where
  "value_form field w b =
     (\<exists>m src. src \<noteq> 0 \<and> member_bytes m field src = Some b \<and> value_bytes m (\<lambda>_ _. None) field src = Some w)"

definition skippable :: "nat \<Rightarrow> bytes \<Rightarrow> bool" where
  "skippable wt w =
     (wt = 0 \<and> is_groups w \<or> wt = 1 \<and> length w = 8 \<or> wt = 5 \<and> length w = 4 \<or>
      wt = 2 \<and> (\<exists>body. w = uleb128 (length body) @ body \<and> length body < 2 ^ 32))"

fun record_ok :: "pb_field list \<Rightarrow> wire_record \<Rightarrow> bool" where
  "record_ok fs (Known i wt w b) = (i < length fs - 1 \<and> wt < 8 \<and> value_form (fs ! i) w b)"
| "record_ok fs (Unknown tag wt w) =
     (0 < tag \<and> tag < 2 ^ 29 \<and> (\<forall>field \<in> set (butlast fs). unat (f_tag field) \<noteq> tag) \<and> skippable wt w)"

text \<open>What the records store: the flag of an optional field, and the member.\<close>

fun apply_record :: "pb_field list \<Rightarrow> u64 \<Rightarrow> wire_record \<Rightarrow> mem \<Rightarrow> mem option" where
  "apply_record fs dest (Known i wt w b) m =
     (let iter = iter_at fs dest i
      in Option.bind (if \<not> is_required (fs ! i) \<and> it_pSize iter \<noteq> it_pData iter then store m (it_pSize iter) [1] else Some m)
           (\<lambda>m. store m (it_pData iter) b))"
| "apply_record fs dest (Unknown tag wt w) m = Some m"

fun apply_records :: "pb_field list \<Rightarrow> u64 \<Rightarrow> wire_record list \<Rightarrow> mem \<Rightarrow> mem option" where
  "apply_records fs dest [] m = Some m"
| "apply_records fs dest (r # rs) m = Option.bind (apply_record fs dest r m) (apply_records fs dest rs)"

text \<open>Every required field, of those the code can mark, has a record.\<close>

definition required_present :: "pb_field list \<Rightarrow> wire_record list \<Rightarrow> bool" where
  "required_present fs rs =
     (\<forall>i < length fs - 1. is_required (fs ! i) \<longrightarrow> required_index fs i < 64 \<longrightarrow>
        list_ex (\<lambda>r. case r of Known j _ _ _ \<Rightarrow> j = i | Unknown _ _ _ \<Rightarrow> False) rs)"

fun record_seen :: "pb_field list \<Rightarrow> wire_record \<Rightarrow> nat set" where
  "record_seen fs (Known i wt w b) = (if is_required (fs ! i) \<and> required_index fs i < 64 then {required_index fs i} else {})"
| "record_seen fs (Unknown tag wt w) = {}"

lemma tag_word:
  assumes "tag < 2 ^ 29" and "wt < 8"
  shows "(word_of_nat (8 * tag + wt) :: u32) AND 7 = word_of_nat wt" "drop_bit 3 (word_of_nat (8 * tag + wt) :: u32) = word_of_nat tag"
    "0 < tag \<Longrightarrow> (word_of_nat (8 * tag + wt) :: u32) \<noteq> 0"
proof -
  let ?t = "word_of_nat (8 * tag + wt) :: u32"
  have t: "unat ?t = 8 * tag + wt" using assms by (intro unat_word_of_nat_less) simp
  have "?t AND 7 = ?t AND mask 3" by (simp add: mask_eq_exp_minus_1)
  also have "unat (?t AND mask 3) = unat ?t mod 2 ^ 3" by (rule unat_and_mask)
  finally have "unat (?t AND 7) = (8 * tag + wt) mod 8" by (simp only: t) simp
  then have "unat (?t AND 7) = wt" using assms(2) by (simp only: mod_mult_self4 mod_less)
  then show "?t AND 7 = word_of_nat wt" by (metis word_of_nat_unat_id)
  have "unat (drop_bit 3 ?t) = (8 * tag + wt) div 2 ^ 3" by (simp only: unat_drop_bit t)
  then have "unat (drop_bit 3 ?t) = tag" using assms(2) by simp
  then show "drop_bit 3 ?t = word_of_nat tag" by (metis word_of_nat_unat_id)
  show "?t \<noteq> 0" if "0 < tag" using t that by (metis add_is_0 mult_is_0 neq0_conv unat_0 zero_neq_numeral)
qed

section \<open>Fields found\<close>

lemma find_known:
  assumes "plain_message fs" and "length fs = Suc n" and "j < n" and "i < n"
  shows "pb_field_iter_find (iter_at fs dest j) (f_tag (fs ! i)) = Ret (True, iter_at fs dest i)"
proof -
  have at: "it_start (iter_at fs dest j) = fs" "it_pos (iter_at fs dest j) = j"
    using iter_at_place [OF assms(1-3)] by simp_all
  have "plain_field (fs ! i)" by (rule plain_nth(1) [OF assms(1,2,4)])
  then show ?thesis
    unfolding pb_field_iter_find_def at
    by (intro iter_search_found [OF assms]) (auto simp: plain_field_def intro: plain_tags [OF assms(1,2) _ assms(4)])
qed

lemma find_unknown:
  assumes "plain_message fs" and "length fs = Suc n" and "j < n" and "tag < 2 ^ 29"
    and "\<forall>field \<in> set (butlast fs). unat (f_tag field) \<noteq> tag"
  shows "pb_field_iter_find (iter_at fs dest j) (word_of_nat tag) = Ret (False, iter_at fs dest j)"
proof -
  have at: "it_start (iter_at fs dest j) = fs" "it_pos (iter_at fs dest j) = j"
    using iter_at_place [OF assms(1-3)] by simp_all
  have "unat (word_of_nat tag :: u32) = tag" using assms(4) by (intro unat_word_of_nat_less) simp
  moreover have "fs ! k \<in> set (butlast fs)" if "k < n" for k
    using that assms(2) by (metis diff_Suc_1 length_butlast nth_butlast nth_mem)
  ultimately have "f_tag (fs ! k) \<noteq> word_of_nat tag" if "k < n" for k
    using assms(5) that by metis
  then show ?thesis
    unfolding pb_field_iter_find_def at by (intro iter_search_none [OF assms(1-3)]) simp
qed

lemma find_no_extension:
  assumes "plain_message fs" and "length fs = Suc n" and "j < n"
  shows "find_extension_field (iter_at fs dest j) = Ret (False, iter_at fs dest j)"
proof -
  have at: "it_start (iter_at fs dest j) = fs" "it_pos (iter_at fs dest j) = j"
    using iter_at_place [OF assms(1-3)] by simp_all
  show ?thesis
    unfolding find_extension_field_def at
    by (intro iter_search_none [OF assms]) (use plain_nth(1) [OF assms(1,2)] in \<open>auto simp: plain_field_def\<close>)
qed

section \<open>Required fields at the end\<close>

lemma required_count_at:
  assumes "plain_message fs" and "length fs = Suc n" and "i < n"
  shows "required_count (iter_at fs dest i) = Ret (required_index fs (n - 1), f_type (fs ! (n - 1)), iter_at fs dest 0)"
  using assms(3)
proof (induction "n - i" arbitrary: i)
  case (Suc k)
  show ?case
  proof (cases "Suc i < n")
    case True
    with Suc show ?thesis
      by (subst required_count.simps) (simp add: next_at [OF assms(1,2)])
  next
    case False
    with Suc have "i = n - 1" by simp
    with False Suc.prems show ?thesis
      using iter_at_place [OF assms(1,2), of i dest] it_field_at [OF assms(1,2), of i dest]
      by (subst required_count.simps) (simp add: next_at [OF assms(1,2)] required_index_def)
  qed
qed simp

definition records_seen :: "pb_field list \<Rightarrow> wire_record list \<Rightarrow> nat set" where
  "records_seen fs rs = (\<Union>r \<in> set rs. record_seen fs r)"

lemma records_seen_simps:
  "records_seen fs [] = {}"
  "records_seen fs (r # rs) = record_seen fs r \<union> records_seen fs rs"
  by (simp_all add: records_seen_def)

lemma record_seen_less:
  assumes "length fs = Suc n" and "record_ok fs r"
  shows "record_seen fs r \<subseteq> {..<min (required_index fs n) 64}"
  using assms required_index_less [of _ n fs] by (cases r) auto

lemma records_seen_less:
  assumes "length fs = Suc n" and "list_all (record_ok fs) rs"
  shows "records_seen fs rs \<subseteq> {..<min (required_index fs n) 64}"
  using record_seen_less [OF assms(1)] assms(2) unfolding records_seen_def list_all_iff by blast

lemma records_seen_required:
  assumes "length fs = Suc n" and "list_all (record_ok fs) rs"
  shows "{..<min (required_index fs n) 64} \<subseteq> records_seen fs rs \<longleftrightarrow> required_present fs rs"
proof
  assume all: "{..<min (required_index fs n) 64} \<subseteq> records_seen fs rs"
  show "required_present fs rs"
    unfolding required_present_def
  proof (intro allI impI)
    fix i
    assume i: "i < length fs - 1" "is_required (fs ! i)" "required_index fs i < 64"
    then have "required_index fs i < required_index fs n" using required_index_less [of i n fs] assms(1) by simp
    with i(3) all have "required_index fs i \<in> records_seen fs rs" by auto
    then obtain r where r: "r \<in> set rs" "required_index fs i \<in> record_seen fs r" by (auto simp: records_seen_def)
    then have ok: "record_ok fs r" using assms(2) by (simp add: list_all_iff)
    obtain j wt w b where j: "r = Known j wt w b" "is_required (fs ! j)" "required_index fs i = required_index fs j"
      using r(2) by (cases r) (auto split: if_splits)
    with ok i have "j = i" using required_index_inj [of j fs i] by auto
    with j(1) r(1) show "list_ex (\<lambda>r. case r of Known j _ _ _ \<Rightarrow> j = i | Unknown _ _ _ \<Rightarrow> False) rs"
      by (force simp: list_ex_iff)
  qed
next
  assume present: "required_present fs rs"
  show "{..<min (required_index fs n) 64} \<subseteq> records_seen fs rs"
  proof
    fix k
    assume "k \<in> {..<min (required_index fs n) 64}"
    then obtain i where i: "i < n" "is_required (fs ! i)" "required_index fs i = k" and k: "k < 64"
      using required_index_surj [of n fs k] assms(1) by auto
    with present assms(1) obtain r where r: "r \<in> set rs"
      "case r of Known j _ _ _ \<Rightarrow> j = i | Unknown _ _ _ \<Rightarrow> False"
      by (auto simp: required_present_def list_ex_iff)
    from r(2) i k have "k \<in> record_seen fs r" by (cases r) auto
    with r(1) show "k \<in> records_seen fs rs" by (auto simp: records_seen_def)
  qed
qed

section \<open>Tags and payloads\<close>

text \<open>
  The variables of the loop between two records: the iterator is at some field, and the required
  fields of the indices \<open>S\<close> have come.
\<close>

definition loop_at :: "pb_field list \<Rightarrow> u64 \<Rightarrow> dec_loop \<Rightarrow> nat set \<Rightarrow> bool" where
  "loop_at fs dest L S =
     ((\<exists>i < length fs - 1. dec_iter L = iter_at fs dest i) \<and> seen_is (fields_seen L) S \<and> fixed_count_field L = None \<and>
      extension_range_start L \<in> {0, 0xFFFFFFFF})"

lemma mark_at:
  assumes "plain_message fs" and "length fs = Suc n" and "i < n" and "seen_is seen S"
  shows "seen_is (mark_seen (iter_at fs dest i) seen) (S \<union> record_seen fs (Known i wt w b))"
proof -
  have "it_field (iter_at fs dest i) = fs ! i" by (rule it_field_at [OF assms(1-3)])
  moreover have "required_field_index (iter_at fs dest i) = required_index fs i"
    using iter_at_place [OF assms(1-3)] by (simp add: required_index_def)
  ultimately show ?thesis
    using assms(4) seen_insert [OF assms(4), of "required_index fs i"]
    by (auto simp: mark_seen_def Let_def is_required_def)
qed

lemma check_required_at:
  assumes "plain_message fs" and "length fs = Suc n" and "list_all (record_ok fs) rs"
    and "loop_at fs dest L (records_seen fs rs)"
  shows "check_required L = (if required_present fs rs then pb_return () else dec_error ''missing required field'')"
proof -
  from assms(2,4) obtain j where j: "j < n" "dec_iter L = iter_at fs dest j" and seen: "seen_is (fields_seen L) (records_seen fs rs)"
    by (auto simp: loop_at_def)
  have zero: "0 < n" using j(1) by simp
  have "f_tag (it_field (iter_at fs dest 0)) \<noteq> 0"
    using plain_nth(2) [OF assms(1,2) zero] it_field_at [OF assms(1,2) zero] by simp
  moreover have "required_index fs n = (if PB_HTYPE (f_type (fs ! (n - 1))) = PB_HTYPE_REQUIRED
      then required_index fs (n - 1) + 1 else required_index fs (n - 1))"
    using required_index_Suc [of "n - 1" fs] zero assms(2) by (simp add: is_required_def)
  moreover have "all_seen (min (required_index fs n) 64) (fields_seen L) \<longleftrightarrow> required_present fs rs"
    using all_seen_iff [OF seen _ records_seen_less [OF assms(2,3)]] records_seen_required [OF assms(2,3)] by simp
  ultimately show ?thesis
    using required_count_at [OF assms(1,2) j(1), of dest]
    by (auto simp: check_required_def j(2) fun_eq_iff on_iter_def on_mem_def c_lift_def Let_def)
qed

context byte_source
begin

lemma read_tag:
  assumes "stream_at content cb s (uleb128 (8 * tag + wt) @ r) x" and "0 < tag" and "tag < 2 ^ 29" and "wt < 8"
  shows "\<exists>s'. pb_decode_tag s = Ret ((Some (word_of_nat wt, word_of_nat tag), False), s') \<and> stream_at content cb s' r x"
proof -
  have "8 * tag + wt < 2 ^ 32" using assms(3,4) by simp
  with pb_decode_tag [OF assms(1)] tag_word [OF assms(3,4)] assms(2) show ?thesis
    by (simp add: read_varint32 del: of_nat_add of_nat_mult)
qed

lemma skip_payload:
  assumes "stream_at content cb s (w @ r) x" and "skippable wt w"
  shows "\<exists>s'. pb_skip_field (word_of_nat wt) s = Ret (Some (), s') \<and> stream_at content cb s' r x"
proof -
  have "rd_skip_field is_buf (word_of_nat wt) (w @ r) = (Some (), r)"
  proof -
    consider "wt = 0" "is_groups w" | "wt = 1" "length w = 8" | "wt = 5" "length w = 4"
      | body where "wt = 2" "w = uleb128 (length body) @ body" "length body < 2 ^ 32"
      using assms(2) unfolding skippable_def by blast
    then show ?thesis
    proof cases
      case 1
      have "rd_groups (Suc (length (w @ r))) (w @ r) = (Some w, r)" unfolding rd_groups_Some using 1 by simp
      with 1 show ?thesis by (simp add: rd_skip_field_def del: rd_groups.simps)
    next
      case 4
      then have "unat (word_of_nat (length body) :: u32) = length body" by (intro unat_word_of_nat_less) simp
      with 4 show ?thesis
        by (simp add: rd_skip_field_def rd_skip_string_def rd_bind_def read_varint32 rd_skip_def rd_return_def)
    qed (simp_all add: rd_skip_field_def rd_bind_def rd_skip_def rd_return_def)
  qed
  with pb_readsD [OF pb_skip_field assms(1)] show ?thesis by (metis fst_conv snd_conv)
qed

lemma store_field:
  assumes "plain_message fs" and "length fs = Suc n" and "i < n" and "value_form (fs ! i) w b"
    and "stream_at content cb s (w @ r) x" and "apply_record fs dest (Known i wt w b) m = Some m'"
  shows "\<exists>s'. decode_field E decode depth (word_of_nat wt) (iter_at fs dest i) None (s, m) =
      Ret (Some (iter_at fs dest i, None), (s', m')) \<and> stream_at content cb s' r x"
proof -
  let ?iter = "iter_at fs dest i"
  have field: "it_field ?iter = fs ! i" by (rule it_field_at [OF assms(1-3)])
  have plain: "PB_ATYPE (f_type (fs ! i)) = PB_ATYPE_STATIC"
    "PB_HTYPE (f_type (fs ! i)) = PB_HTYPE_REQUIRED \<or> PB_HTYPE (f_type (fs ! i)) = PB_HTYPE_OPTIONAL"
    using plain_nth(1) [OF assms(1-3)] by (auto simp: plain_field_def)
  let ?flag = "\<not> is_required (fs ! i) \<and> it_pSize ?iter \<noteq> it_pData ?iter"
  obtain m1 where m1: "(if ?flag then store m (it_pSize ?iter) [1] else Some m) = Some m1"
    and m': "store m1 (it_pData ?iter) b = Some m'"
    using assms(6) by (auto simp: Let_def split: bind_splits)
  from assms(4) plain(1) have "stores content cb (PB_DECODERS (dec_allocator E) decode (fs ! i) (it_pData ?iter)) w (it_pData ?iter) b"
    unfolding value_form_def by (auto intro: stores_value)
  from storesD [OF this assms(5) m'] obtain s' where
    val: "PB_DECODERS (dec_allocator E) decode (fs ! i) (it_pData ?iter) (s, m1) = Ret (Some (), (s', m'))"
    and s': "stream_at content cb s' r x" .
  have "decode_static_field E decode depth (word_of_nat wt) ?iter None (s, m) = Ret (Some None, (s', m'))"
    using plain(2)
  proof
    assume "PB_HTYPE (f_type (fs ! i)) = PB_HTYPE_REQUIRED"
    with val m1 show ?thesis by (simp add: decode_static_field_def field is_required_def)
  next
    assume "PB_HTYPE (f_type (fs ! i)) = PB_HTYPE_OPTIONAL"
    with val m1 show ?thesis
      by (auto simp: decode_static_field_def field is_required_def pb_bind_def put_mem_def split: if_splits)
  qed
  with plain s' show ?thesis by (auto simp: decode_field_def field Let_def)
qed

lemma known_round:
  assumes "plain_message fs" and "length fs = Suc n" and "record_ok fs (Known i wt w b)" and "loop_at fs dest L S"
    and "stream_at content cb s (record_bytes fs (Known i wt w b) @ r) x"
    and "apply_record fs dest (Known i wt w b) m = Some m'"
  shows "\<exists>L' s'. decode_round E decode depth L (s, m) = Ret (Some (Some L'), (s', m')) \<and>
    stream_at content cb s' r x \<and> loop_at fs dest L' (S \<union> record_seen fs (Known i wt w b))"
proof -
  have ok: "i < n" "wt < 8" "value_form (fs ! i) w b" using assms(2,3) by simp_all
  have field: "plain_field (fs ! i)" by (rule plain_nth(1) [OF assms(1,2) ok(1)])
  then have tag: "0 < unat (f_tag (fs ! i))" "unat (f_tag (fs ! i)) < 2 ^ 29"
    by (simp_all add: plain_field_def unat_gt_0)
  from assms(5) have "stream_at content cb s (uleb128 (8 * unat (f_tag (fs ! i)) + wt) @ (w @ r)) x" by simp
  from read_tag [OF this tag ok(2)] obtain s1 where
    s1: "pb_decode_tag s = Ret ((Some (word_of_nat wt, f_tag (fs ! i)), False), s1)" "stream_at content cb s1 (w @ r) x"
    by auto
  from assms(2,4) obtain j where j: "j < n" "dec_iter L = iter_at fs dest j" and seen: "seen_is (fields_seen L) S"
    and rest: "fixed_count_field L = None" "extension_range_start L \<in> {0, 0xFFFFFFFF}"
    by (auto simp: loop_at_def)
  obtain s' where val: "decode_field E decode depth (word_of_nat wt) (iter_at fs dest i) None (s1, m) =
      Ret (Some (iter_at fs dest i, None), (s', m'))" and s': "stream_at content cb s' r x"
    using store_field [OF assms(1,2) ok(1,3) s1(2) assms(6)] by blast
  have "PB_HTYPE (f_type (it_field (iter_at fs dest i))) \<noteq> PB_HTYPE_REPEATED"
    using field it_field_at [OF assms(1,2) ok(1)] by (auto simp: plain_field_def)
  then have round: "decode_round E decode depth L (s, m) =
      Ret (Some (Some (L\<lparr>dec_iter := iter_at fs dest i, fields_seen := mark_seen (iter_at fs dest i) (fields_seen L)\<rparr>)), (s', m'))"
    using s1(1) val
    by (simp add: decode_round_def c_bind_def on_stream_def j(2) on_iter_def on_mem_def c_lift_def
        find_known [OF assms(1,2) j(1) ok(1)] fixed_count_def Let_def)
  have "loop_at fs dest (L\<lparr>dec_iter := iter_at fs dest i, fields_seen := mark_seen (iter_at fs dest i) (fields_seen L)\<rparr>)
      (S \<union> record_seen fs (Known i wt w b))"
    using mark_at [OF assms(1,2) ok(1) seen] ok(1) rest assms(2) by (auto simp: loop_at_def)
  with round s' show ?thesis by blast
qed

lemma unknown_round:
  assumes "plain_message fs" and "length fs = Suc n" and "record_ok fs (Unknown tag wt w)" and "loop_at fs dest L S"
    and "stream_at content cb s (record_bytes fs (Unknown tag wt w) @ r) x"
  shows "\<exists>L' s'. decode_round E decode depth L (s, m) = Ret (Some (Some L'), (s', m)) \<and>
    stream_at content cb s' r x \<and> loop_at fs dest L' S"
proof -
  have ok: "0 < tag" "tag < 2 ^ 29" "\<forall>field \<in> set (butlast fs). unat (f_tag field) \<noteq> tag" "skippable wt w"
    using assms(3) by simp_all
  have wt: "wt < 8" using ok(4) by (auto simp: skippable_def)
  from assms(5) have "stream_at content cb s (uleb128 (8 * tag + wt) @ (w @ r)) x" by simp
  from read_tag [OF this ok(1,2) wt] obtain s1 where
    s1: "pb_decode_tag s = Ret ((Some (word_of_nat wt, word_of_nat tag), False), s1)" "stream_at content cb s1 (w @ r) x"
    by auto
  obtain s' where skip: "pb_skip_field (word_of_nat wt) s1 = Ret (Some (), s')" and s': "stream_at content cb s' r x"
    using skip_payload [OF s1(2) ok(4)] by blast
  from assms(2,4) obtain j where j: "j < n" "dec_iter L = iter_at fs dest j" and seen: "seen_is (fields_seen L) S"
    and rest: "fixed_count_field L = None" "extension_range_start L = 0 \<or> extension_range_start L = 0xFFFFFFFF"
    by (auto simp: loop_at_def)
  have "unat (word_of_nat tag :: u32) = tag" using ok(2) by (intro unat_word_of_nat_less) simp
  then have less: "(word_of_nat tag :: u32) < 0xFFFFFFFF" using ok(2) by (simp add: word_less_nat_alt)
  have "\<exists>L'. unknown_field E decode depth (word_of_nat tag) (word_of_nat wt) (L\<lparr>dec_iter := iter_at fs dest j\<rparr>) (s1, m) =
      Ret (Some L', (s', m)) \<and> dec_iter L' = iter_at fs dest j \<and> fields_seen L' = fields_seen L \<and>
      fixed_count_field L' = None \<and> extension_range_start L' = 0xFFFFFFFF"
    using rest(2)
  proof
    assume "extension_range_start L = 0"
    then show ?thesis
      using less skip rest
      by (simp add: unknown_field_def Let_def on_iter_def on_mem_def c_lift_def find_no_extension [OF assms(1,2) j(1)]
          on_stream_def pb_bind_def)
  next
    assume "extension_range_start L = 0xFFFFFFFF"
    then show ?thesis using less skip rest by (simp add: unknown_field_def Let_def on_stream_def pb_bind_def)
  qed
  then obtain L' where L': "unknown_field E decode depth (word_of_nat tag) (word_of_nat wt) (L\<lparr>dec_iter := iter_at fs dest j\<rparr>) (s1, m) =
      Ret (Some L', (s', m))" "dec_iter L' = iter_at fs dest j" "fields_seen L' = fields_seen L"
      "fixed_count_field L' = None" "extension_range_start L' = 0xFFFFFFFF" by blast
  have "decode_round E decode depth L (s, m) = Ret (Some (Some L'), (s', m))"
    using s1(1) L'(1)
    by (simp add: decode_round_def c_bind_def on_stream_def j(2) on_iter_def on_mem_def c_lift_def
        find_unknown [OF assms(1,2) j(1) ok(2,3)] Let_def)
  moreover have "loop_at fs dest L' S" using L'(2-) j(1) seen assms(2) by (auto simp: loop_at_def)
  ultimately show ?thesis using s' by blast
qed

lemma record_round:
  assumes "plain_message fs" and "length fs = Suc n" and "record_ok fs r" and "loop_at fs dest L S"
    and "stream_at content cb s (record_bytes fs r @ cs) x" and "apply_record fs dest r m = Some m'"
  shows "\<exists>L' s'. decode_round E decode depth L (s, m) = Ret (Some (Some L'), (s', m')) \<and>
    stream_at content cb s' cs x \<and> loop_at fs dest L' (S \<union> record_seen fs r)"
proof (cases r)
  case (Known i wt w b)
  with assms known_round [OF assms(1,2) _ assms(4), of i wt w b s cs x m m' E decode depth] show ?thesis by simp
next
  case (Unknown tag wt w)
  with assms unknown_round [OF assms(1,2) _ assms(4), of tag wt w s cs x E decode depth m] show ?thesis by simp
qed

lemma records_rounds:
  assumes "plain_message fs" and "length fs = Suc n" and "list_all (record_ok fs) rs" and "loop_at fs dest L S"
    and "stream_at content cb s (concat (map (record_bytes fs) rs)) x" and "apply_records fs dest rs m = Some m'"
    and "length rs \<le> rounds"
  shows "\<exists>L' s'. decode_rounds E decode depth rounds L (s, m) = Ret (Some L', (s', m')) \<and>
    stream_at content cb s' [] x \<and> loop_at fs dest L' (S \<union> records_seen fs rs)"
  using assms(3-)
proof (induction rs arbitrary: L S s m rounds)
  case Nil
  then show ?case by (cases rounds) (auto simp: stream_at_def records_seen_simps)
next
  case (Cons r rs)
  from Cons.prems(5) obtain k where k: "rounds = Suc k" "length rs \<le> k" by (cases rounds) auto
  from Cons.prems(4) obtain m1 where m1: "apply_record fs dest r m = Some m1" "apply_records fs dest rs m1 = Some m'"
    by (auto split: bind_splits)
  have "record_ok fs r" "list_all (record_ok fs) rs" using Cons.prems(1) by simp_all
  moreover have at: "stream_at content cb s (record_bytes fs r @ concat (map (record_bytes fs) rs)) x" using Cons.prems(3) by simp
  ultimately obtain L1 s1 where round: "decode_round E decode depth L (s, m) = Ret (Some (Some L1), (s1, m1))"
    and s1: "stream_at content cb s1 (concat (map (record_bytes fs) rs)) x" "loop_at fs dest L1 (S \<union> record_seen fs r)"
    using record_round [OF assms(1,2) _ Cons.prems(2) at m1(1), of E decode depth] by blast
  have "record_bytes fs r \<noteq> []" by (cases r) simp_all
  with at have "bytes_left s \<noteq> 0" by (simp add: stream_at_def)
  with round k have step: "decode_rounds E decode depth rounds L (s, m) = decode_rounds E decode depth k L1 (s1, m1)" by simp
  from Cons.IH [OF \<open>list_all (record_ok fs) rs\<close> s1(2,1) m1(2) k(2)] show ?case
    unfolding step by (simp add: records_seen_simps Un_assoc)
qed

text \<open>The message is read to its end, and it is taken when nothing is missing.\<close>

theorem records_decoded:
  assumes "plain_message fs" and "dec_descriptors E ptr = Some fs" and "list_all (record_ok fs) rs"
    and "stream_at content cb s (concat (map (record_bytes fs) rs)) x" and "apply_records fs dest rs m = Some m'"
    and "length rs \<le> dec_rounds E"
  shows "\<exists>s'. pb_decode_noinit E (Suc depth) ptr dest (s, m) =
      Ret (if required_present fs rs then Some () else None, (s', m')) \<and> stream_at content cb s' [] x \<and>
    (\<not> required_present fs rs \<longrightarrow> in_errmsg s' \<noteq> None)"
proof -
  obtain n where n: "length fs = Suc n" "0 < n" using assms(1) by (cases "length fs") (auto simp: plain_message_def)
  let ?L = "\<lparr>dec_iter = iter_at fs dest 0, fields_seen = [0, 0], extension_range_start = 0, fixed_count_field = None,
    fixed_count_size = 0\<rparr>"
  let ?decode = "\<lambda>init ptr dest. if init then decode_from_defaults E depth (pb_decode_noinit E depth) ptr dest
    else pb_decode_noinit E depth ptr dest"
  have "loop_at fs dest ?L {}" using n seen_none by (auto simp: loop_at_def)
  from records_rounds [OF assms(1) n(1) assms(3) this assms(4-6), of E ?decode depth] obtain L' s' where
    rounds: "decode_rounds E ?decode depth (dec_rounds E) ?L (s, m) = Ret (Some L', (s', m'))"
    and s': "stream_at content cb s' [] x" and L': "loop_at fs dest L' (records_seen fs rs)"
    by auto
  have "pb_decode_noinit E (Suc depth) ptr dest (s, m) =
      pb_bind (check_complete L') (\<lambda>_. check_required L') (s', m')"
    using rounds
    by (simp add: decode_message_def assms(2) begin_at [OF assms(1)] on_iter_def on_mem_def c_lift_def pb_bind_def)
  also have "\<dots> = check_required L' (s', m')" using L' by (simp add: check_complete_def loop_at_def)
  finally show ?thesis
    unfolding check_required_at [OF assms(1) n(1) assms(3) L']
    using s' by (auto simp: dec_error_def on_stream_def in_error_def stream_at_def split: option.splits)
qed

end

end
