(* ===== verification/Pb_Copy.thy ===== *)
theory Pb_Copy
  imports Pb_Messages Pb_Records
begin

text \<open>
  Encoding a structure and decoding the bytes into another: the records of a message whose
  members stand in its structure, and that the decoder takes them.
\<close>

section \<open>The records of a structure\<close>

definition present :: "mem \<Rightarrow> pb_field \<Rightarrow> u64 \<Rightarrow> bool option" where
  "present m field pData =
     Option.bind (to_option (implicit_has m (\<lambda>_ _. Undef) field pData)) (\<lambda>has.
       if is_required field then Some True
       else if size_offset field \<noteq> 0 then to_option (safe_read_bool m (pData + scast (size_offset field)))
       else Some has)"

definition member_records :: "mem \<Rightarrow> pb_field list \<Rightarrow> u64 \<Rightarrow> nat \<Rightarrow> wire_record list option" where
  "member_records m fs src i =
     (let field = fs ! i; pData = it_pData (iter_at fs src i)
      in guard (pData \<noteq> 0) (Option.bind (present m field pData) (\<lambda>p.
           if p then Option.bind (member_bytes m field pData) (\<lambda>b.
             map_option (\<lambda>w. [Known i (wire_type (PB_LTYPE (f_type field))) w b]) (value_bytes m (\<lambda>_ _. None) field pData))
           else Some [])))"

definition struct_records :: "mem \<Rightarrow> pb_field list \<Rightarrow> u64 \<Rightarrow> wire_record list option" where
  "struct_records m fs src = map_option concat (those (map (member_records m fs src) [0..<length fs - 1]))"

lemma member_records_cases:
  assumes "member_records m fs src i = Some rs"
  obtains "present m (fs ! i) (it_pData (iter_at fs src i)) = Some False" and "rs = []"
  | b w where "present m (fs ! i) (it_pData (iter_at fs src i)) = Some True" and "it_pData (iter_at fs src i) \<noteq> 0"
    and "member_bytes m (fs ! i) (it_pData (iter_at fs src i)) = Some b"
    and "value_bytes m (\<lambda>_ _. None) (fs ! i) (it_pData (iter_at fs src i)) = Some w"
    and "rs = [Known i (wire_type (PB_LTYPE (f_type (fs ! i)))) w b]"
  using assms by (auto simp: member_records_def Let_def guard_def split: if_splits bind_splits)

lemma plain_not_sub: "plain_field field \<Longrightarrow> value_bytes m sub field src = value_bytes m (\<lambda>_ _. None) field src"
  by (simp add: plain_field_def value_bytes_def Let_def)

lemma plain_has: "plain_field field \<Longrightarrow> implicit_has m check_sub field pData = implicit_has m (\<lambda>_ _. Undef) field pData"
  by (simp add: plain_field_def implicit_has_def pb_check_proto3_default_value_def Let_def)

lemma tagged_value:
  "value_bytes m sub (fs ! i) src = Some w \<Longrightarrow>
   tagged (fs ! i) (value_bytes m sub (fs ! i) src) = Some (record_bytes fs (Known i (wire_type (PB_LTYPE (f_type (fs ! i)))) w b))"
  by (simp add: tagged_def both_def tag_bytes_def)

lemma member_encoded:
  assumes "plain_field (fs ! i)" and "member_records (env_mem E) fs src i = Some rs"
  shows "field_bytes E U sub check_sub (fs ! i) (it_pData (iter_at fs src i)) = Some (concat (map (record_bytes fs) rs))"
proof -
  let ?p = "it_pData (iter_at fs src i)"
  from assms(2) obtain p where "?p \<noteq> 0" and p: "present (env_mem E) (fs ! i) ?p = Some p"
    and rs: "if p then \<exists>b w. value_bytes (env_mem E) (\<lambda>_ _. None) (fs ! i) ?p = Some w \<and>
        rs = [Known i (wire_type (PB_LTYPE (f_type (fs ! i)))) w b] else rs = []"
    by (auto simp: member_records_def Let_def guard_def split: if_splits bind_splits)
  have plain: "PB_ATYPE (f_type (fs ! i)) = PB_ATYPE_STATIC"
    "PB_HTYPE (f_type (fs ! i)) = PB_HTYPE_REQUIRED \<or> PB_HTYPE (f_type (fs ! i)) = PB_HTYPE_OPTIONAL"
    using assms(1) by (auto simp: plain_field_def)
  have "(if p then tagged (fs ! i) (value_bytes (env_mem E) sub (fs ! i) ?p) else Some []) = Some (concat (map (record_bytes fs) rs))"
    using rs tagged_value [of "env_mem E" sub fs i ?p] unfolding plain_not_sub [OF assms(1), of _ sub]
    by (auto simp: tagged_value simp del: record_bytes.simps)
  with plain p \<open>?p \<noteq> 0\<close> show ?thesis
    unfolding field_bytes_def basic_bytes_def present_def plain_has [OF assms(1), of _ check_sub]
    by (auto simp: Let_def guard_def is_required_def split: bind_splits if_splits)
qed

section \<open>The bytes of a structure\<close>

lemma places_at:
  assumes "plain_message fs" and "length fs = Suc n" and "i < n"
  shows "field_places (iter_at fs src i) = Some (map (\<lambda>i. (fs ! i, it_pData (iter_at fs src i))) [i..<n])"
  using assms(3)
proof (induction "n - i" arbitrary: i)
  case (Suc k)
  have at: "it_start (iter_at fs src i) ! it_pos (iter_at fs src i) = fs ! i"
    using iter_at_place [OF assms(1,2) Suc.prems] by simp
  show ?case
  proof (cases "Suc i < n")
    case True
    have "pb_field_iter_next (iter_at fs src i) = Ret (True, iter_at fs src (Suc i))"
      using True next_at [OF assms(1,2) Suc.prems] by simp
    from field_places_more [OF this] True Suc at show ?thesis by (simp add: upt_conv_Cons)
  next
    case False
    then have n: "n = Suc i" using Suc.prems by simp
    have "pb_field_iter_next (iter_at fs src i) = Ret (False, iter_at fs src 0)"
      using False next_at [OF assms(1,2) Suc.prems] by simp
    from field_places_last [OF this] at show ?thesis by (simp add: n)
  qed
qed simp

lemma concat_map_concat: "concat (map f (concat (map g xs))) = concat (map (\<lambda>i. concat (map f (g i))) xs)"
  by (induction xs) simp_all

lemma foldr_both: "(\<And>x. x \<in> set xs \<Longrightarrow> f x = Some (g x)) \<Longrightarrow> foldr (\<lambda>x. both (f x)) xs (Some []) = Some (concat (map g xs))"
  by (induction xs) (simp_all add: both_def)

lemma those_map_SomeD: "those (map f xs) = Some ys \<Longrightarrow> \<exists>g. ys = map g xs \<and> (\<forall>x \<in> set xs. f x = Some (g x))"
proof -
  assume "those (map f xs) = Some ys"
  then have "length xs = length ys" and at: "\<And>i. i < length ys \<Longrightarrow> f (xs ! i) = Some (ys ! i)"
    by (auto simp: those_Some_iff)
  then have "ys = map (\<lambda>x. the (f x)) xs" by (intro nth_equalityI) auto
  moreover have "\<forall>x \<in> set xs. f x = Some (the (f x))"
    using at \<open>length xs = length ys\<close> by (force simp: in_set_conv_nth)
  ultimately show ?thesis by blast
qed

lemma struct_encoded:
  assumes "plain_message fs" and "descriptors E ptr = Some fs" and "struct_records (env_mem E) fs src = Some rs"
  shows "message_bytes E U (Suc depth) ptr src = Some (concat (map (record_bytes fs) rs))"
proof -
  obtain n where n: "length fs = Suc n" "0 < n" using assms(1) by (cases "length fs") (auto simp: plain_message_def)
  obtain g where rs: "rs = concat (map g [0..<n])" and g: "\<And>i. i < n \<Longrightarrow> member_records (env_mem E) fs src i = Some (g i)"
    using assms(3) n(1) by (auto simp: struct_records_def dest!: those_map_SomeD)
  let ?fb = "field_bytes E U (message_bytes E U depth) (check_submessage E depth)"
  let ?f = "\<lambda>(field, pData). if PB_LTYPE (f_type field) = PB_LTYPE_EXTENSION
      then Option.bind (to_option (read_ptr (env_mem E) pData)) (extensions_bytes E U ?fb depth) else ?fb field pData"
  let ?at = "\<lambda>i. (fs ! i, it_pData (iter_at fs src i))"
  have "?f (?at i) = Some (concat (map (record_bytes fs) (g i)))" if "i < n" for i
    using member_encoded [OF plain_nth(1) [OF assms(1) n(1) that] g [OF that]] plain_nth(1) [OF assms(1) n(1) that]
    by (simp add: plain_field_def)
  then have "foldr (\<lambda>x. both (?f (?at x))) [0..<n] (Some []) = Some (concat (map (\<lambda>i. concat (map (record_bytes fs) (g i))) [0..<n]))"
    by (intro foldr_both) simp
  then have "foldr (\<lambda>x. both (?f x)) (map ?at [0..<n]) (Some []) = Some (concat (map (record_bytes fs) rs))"
    by (simp add: foldr_map comp_def rs concat_map_concat)
  moreover have "field_places (iter_at fs src 0) = Some (map ?at [0..<n])" by (rule places_at [OF assms(1) n])
  ultimately show ?thesis
    using assms(2) begin_at [OF assms(1), of src] by (simp add: to_option_def Let_def split_def cong: if_cong)
qed

text \<open>They are records the decoder takes, and no required one is missing.\<close>

lemma struct_records_ok:
  assumes "plain_message fs" and "struct_records m fs src = Some rs"
  shows "list_all (record_ok fs) rs" and "required_present fs rs"
proof -
  obtain n where n: "length fs = Suc n" using assms(1) by (cases "length fs") (auto simp: plain_message_def)
  obtain g where rs: "rs = concat (map g [0..<n])" and g: "\<And>i. i < n \<Longrightarrow> member_records m fs src i = Some (g i)"
    using assms(2) n(1) by (auto simp: struct_records_def dest!: those_map_SomeD)
  have small: "wire_type l < 8" for l by (simp add: wire_type_def)
  have "record_ok fs r" if "i < n" "r \<in> set (g i)" for i r
    using g [OF that(1)] that n by (cases rule: member_records_cases) (auto simp: value_form_def small)
  then show "list_all (record_ok fs) rs" unfolding rs by (auto simp: list_all_iff)
  have "\<exists>wt w b. Known i wt w b \<in> set (g i)" if "i < n" "is_required (fs ! i)" for i
    using g [OF that(1)] that(2)
    by (cases rule: member_records_cases) (auto simp: present_def split: bind_splits)
  then show "required_present fs rs"
    unfolding required_present_def rs by (force simp: list_ex_iff n)
qed

section \<open>An example\<close>

text \<open>A required number of four bytes, and behind it an optional boolean with its flag.\<close>

definition copy_fields :: "pb_field list" where
  "copy_fields =
     [\<lparr>f_tag = 1, f_type = 0x03, data_offset = 0, size_offset = 0, data_size = 4, array_size = 0, f_ptr = 0\<rparr>,
      \<lparr>f_tag = 2, f_type = 0x10, data_offset = 1, size_offset = -1, data_size = 1, array_size = 0, f_ptr = 0\<rparr>,
      \<lparr>f_tag = 0, f_type = 0, data_offset = 0, size_offset = 0, data_size = 0, array_size = 0, f_ptr = 0\<rparr>]"

definition copy_decoder :: "bytes dec_env" where
  "copy_decoder =
     \<lparr>dec_descriptors = [16 \<mapsto> copy_fields], dec_allocator = \<lparr>pb_realloc = (\<lambda>_ _ m. Ret (0, m)), pb_free = (\<lambda>_ m. Ret m)\<rparr>,
      dec_rounds = 8, user_decode = (\<lambda>_ _ _. c_undef), user_decode_scalar = (\<lambda>_ _ _. c_undef),
      user_decode_extension = (\<lambda>_ _ _ _. c_undef)\<rparr>"

lemma copy_plain: "plain_message copy_fields"
  by (simp add: plain_message_def plain_field_def copy_fields_def PB_ATYPE_def PB_HTYPE_def PB_LTYPE_def)

lemma copy_places:
  "it_pData (iter_at copy_fields a 0) = a" "it_pData (iter_at copy_fields a 1) = a + 5"
  "it_pSize (iter_at copy_fields a 1) = a + 4"
  by (simp_all add: iter_at.simps [unfolded One_nat_def] copy_fields_def iter_eval One_nat_def)

lemma copy_required: "is_required (copy_fields ! 0)" "\<not> is_required (copy_fields ! 1)"
  by (simp_all add: copy_fields_def is_required_def PB_HTYPE_def)

text \<open>Parts of a memory.\<close>

lemma load_inside: "unat a + length (xs @ ys @ zs) < 2 ^ 64 \<Longrightarrow>
    load (mem_at a (xs @ ys @ zs)) (length ys) (a + word_of_nat (length xs)) = Some ys"
  using holds_mem_at [of a "xs @ ys @ zs"] by (intro load_holds) (simp add: holds_append)

lemma store_inside:
  assumes "length ys = length ys'" and "unat a + length (xs @ ys @ zs) < 2 ^ 64"
  shows "store (mem_at a (xs @ ys @ zs)) (a + word_of_nat (length xs)) ys' = Some (mem_at a (xs @ ys' @ zs))"
proof -
  have "(if unat (p - (a + word_of_nat (length xs))) < length ys' then Some (ys' ! unat (p - (a + word_of_nat (length xs))))
      else mem_at a (xs @ ys @ zs) p) = mem_at a (xs @ ys' @ zs) p" for p
  proof -
    define d where "d = p - a"
    have eq: "p - (a + word_of_nat (length xs)) = d - word_of_nat (length xs)" by (simp add: d_def)
    have "unat d < 2 ^ 64" using unsigned_less [of d, where ?'a = nat] by simp
    moreover have "unat (word_of_nat (length xs) :: u64) = length xs" using assms(2) by (intro unat_word_of_nat_less) simp
    ultimately have "unat (d - word_of_nat (length xs)) =
        (if length xs \<le> unat d then unat d - length xs else unat d + 2 ^ 64 - length xs)"
      by (simp add: unat_sub_if')
    then show ?thesis
      using assms unfolding eq mem_at_def d_def [symmetric] by (auto simp: nth_append)
  qed
  with load_inside [OF assms(2)] assms(1) show ?thesis by (simp add: store_def)
qed

text \<open>Where the number is, the flag and the boolean.\<close>

lemma copy_stores:
  assumes "unat a < 2 ^ 63"
  shows "store (mem_at a [n0, n1, n2, n3, f, b]) a [k0, k1, k2, k3] = Some (mem_at a [k0, k1, k2, k3, f, b])"
    and "store (mem_at a [n0, n1, n2, n3, f, b]) (a + 4) [x] = Some (mem_at a [n0, n1, n2, n3, x, b])"
    and "store (mem_at a [n0, n1, n2, n3, f, b]) (a + 5) [x] = Some (mem_at a [n0, n1, n2, n3, f, x])"
  using assms store_inside [of "[n0, n1, n2, n3]" "[k0, k1, k2, k3]" a "[]" "[f, b]"]
    store_inside [of "[f]" "[x]" a "[n0, n1, n2, n3]" "[b]"] store_inside [of "[b]" "[x]" a "[n0, n1, n2, n3, f]" "[]"]
  by simp_all

lemma length_four: "length [w, x, y, z] = 4" by simp

lemma copy_loads:
  assumes "unat a < 2 ^ 63"
  shows "load (mem_at a [n0, n1, n2, n3, f, b]) 4 a = Some [n0, n1, n2, n3]"
    and "load (mem_at a [n0, n1, n2, n3, f, b]) (Suc 0) (a + 4) = Some [f]"
    and "load (mem_at a [n0, n1, n2, n3, f, b]) (Suc 0) (a + 5) = Some [b]"
  using assms load_inside [of a "[]" "[n0, n1, n2, n3]" "[f, b]", unfolded length_four] load_inside [of a "[n0, n1, n2, n3]" "[f]" "[b]"]
    load_inside [of a "[n0, n1, n2, n3, f]" "[b]" "[]"]
  by simp_all

lemma copy_values:
  assumes "a \<noteq> 0" and "unat a < 2 ^ 63" and "le_nat [n0, n1, n2, n3] = 2 ^ 32 - v" and "0 < v" and "v < 32"
  shows "member_bytes (mem_at a [n0, n1, n2, n3, f, 1]) (copy_fields ! 0) a = Some [n0, n1, n2, n3]"
    and "value_bytes (mem_at a [n0, n1, n2, n3, f, 1]) (\<lambda>_ _. None) (copy_fields ! 0) a = Some [word_of_nat (2 * v - 1)]"
    and "member_bytes (mem_at a [n0, n1, n2, n3, f, 1]) (copy_fields ! 1) (a + 5) = Some [1]"
    and "value_bytes (mem_at a [n0, n1, n2, n3, f, 1]) (\<lambda>_ _. None) (copy_fields ! 1) (a + 5) = Some [1]"
proof -
  note loads = copy_loads [OF assms(2)]
  have one: "le_nat [1 :: u8] = 1" by (simp add: le_nat_def be_nat_def)
  have "zigzag (twos 32 (2 ^ 32 - v)) = 2 * v - 1" using assms(4,5) by (auto simp: twos_def zigzag_def nat_diff_distrib)
  then have z: "uleb128 (zigzag (twos 32 (2 ^ 32 - v))) = [word_of_nat (2 * v - 1)]"
    using assms(5) by (simp only: uleb128_small)
  show "member_bytes (mem_at a [n0, n1, n2, n3, f, 1]) (copy_fields ! 0) a = Some [n0, n1, n2, n3]"
    by (simp add: member_bytes_def copy_fields_def PB_LTYPE_def guard_def loads)
  show "value_bytes (mem_at a [n0, n1, n2, n3, f, 1]) (\<lambda>_ _. None) (copy_fields ! 0) a = Some [word_of_nat (2 * v - 1)]"
    using z by (simp add: value_bytes_def number_at_def copy_fields_def PB_LTYPE_def guard_def loads assms(3))
  show "member_bytes (mem_at a [n0, n1, n2, n3, f, 1]) (copy_fields ! 1) (a + 5) = Some [1]"
    "value_bytes (mem_at a [n0, n1, n2, n3, f, 1]) (\<lambda>_ _. None) (copy_fields ! 1) (a + 5) = Some [1]"
    by (simp_all add: member_bytes_def value_bytes_def copy_fields_def PB_LTYPE_def guard_def loads one)
qed

section \<open>Messages in any order\<close>

text \<open>
  C16: \<open>pb_decode_noinit\<close> on the records of a message whose fields are required or optional and
  stand in the structure: in whatever order they come, and however often, each stores its value
  at its field and sets the flag of an optional one, so the last of a field stays; records
  of other tags change nothing; all of the bytes are used; and it succeeds exactly when each
  required field (of the 64 that are tracked) has come, having stored the others all the same.
  The wire type in the tag of a known field is not looked at.
\<close>

theorem message_decoded:
  assumes "plain_message fs" and "dec_descriptors D ptr = Some fs" and "list_all (record_ok fs) rs"
    and "length rs \<le> dec_rounds D" and "apply_records fs dest rs m = Some m'"
    and "bs = concat (map (record_bytes fs) rs)"
  shows "\<exists>t. pb_decode_noinit D (Suc depth) ptr dest (pb_istream_from_buffer bs (length bs), m) =
      Ret (if required_present fs rs then Some () else None, (t, m')) \<and> bytes_left t = 0 \<and>
    (\<not> required_present fs rs \<longrightarrow> in_errmsg t \<noteq> None)"
proof -
  have "stream_at (\<lambda>st. st) (In_callback True buf_read) (pb_istream_from_buffer bs (length bs)) (concat (map (record_bytes fs) rs)) []"
    using from_buffer_at [of bs "[]"] assms(6) by simp
  from buffer.records_decoded [OF assms(1-3) this assms(5,4), of depth] show ?thesis
    by (auto simp: stream_at_def)
qed

lemma copy_form:
  "value_form (copy_fields ! 0) [5] [0xFD, 0xFF, 0xFF, 0xFF]" "value_form (copy_fields ! 0) [3] [0xFE, 0xFF, 0xFF, 0xFF]"
  "value_form (copy_fields ! 1) [1] [1]"
proof -
  have le: "le_nat [0xFD, 0xFF, 0xFF, 0xFF] = 2 ^ 32 - 3" "le_nat [0xFE, 0xFF, 0xFF, 0xFF] = 2 ^ 32 - 2"
    by (simp_all add: le_nat_def be_nat_def)
  have form: "src \<noteq> 0 \<Longrightarrow> member_bytes m field src = Some b \<Longrightarrow> value_bytes m (\<lambda>_ _. None) field src = Some w \<Longrightarrow>
      value_form field w b" for m field src b w
    unfolding value_form_def by blast
  note vals = copy_values [of 64, OF _ _ le(1), of 0] copy_values [of 64, OF _ _ le(2), of 0]
  show "value_form (copy_fields ! 0) [5] [0xFD, 0xFF, 0xFF, 0xFF]" "value_form (copy_fields ! 0) [3] [0xFE, 0xFF, 0xFF, 0xFF]"
    using form [of 64, OF _ vals(1,2)] form [of 64, OF _ vals(5,6)] by simp_all
  show "value_form (copy_fields ! 1) [1] [1]"
    using form [of "64 + 5", OF _ vals(3,4)] by simp
qed

text \<open>The boolean with the wire type of a string, a string of an unknown tag, and the number twice.\<close>

definition copy_records :: "wire_record list" where
  "copy_records =
     [Known 1 2 [1] [1], Unknown 5 2 [2, 7, 8], Known 0 0 [5] [0xFD, 0xFF, 0xFF, 0xFF], Known 0 0 [3] [0xFE, 0xFF, 0xFF, 0xFF]]"

lemma copy_records_ok: "list_all (record_ok copy_fields) copy_records" "required_present copy_fields copy_records"
proof -
  have "skippable 2 [2, 7, 8]" unfolding skippable_def by (auto intro!: exI [of _ "[7, 8]"] simp: uleb128_small)
  moreover have "length copy_fields = 3" "\<forall>field \<in> set (butlast copy_fields). unat (f_tag field) \<noteq> 5" by (simp_all add: copy_fields_def)
  ultimately show "list_all (record_ok copy_fields) copy_records"
    using copy_form by (simp add: copy_records_def)
  show "required_present copy_fields copy_records"
    using copy_required by (auto simp: required_present_def copy_records_def \<open>length copy_fields = 3\<close> less_Suc_eq numeral_2_eq_2)
qed

lemma copy_records_length: "length [0x12, 1, 0x2A, 2, 7, 8, 8, 5, 8, 3 :: u8] = 10"
  by simp

lemma copy_records_bytes:
  "[0x12, 1, 0x2A, 2, 7, 8, 8, 5, 8, 3] = concat (map (record_bytes copy_fields) copy_records)"
  by (simp add: copy_records_def copy_fields_def uleb128_small)

lemma copy_records_applied:
  "apply_records copy_fields 96 copy_records (mem_at 96 [0, 0, 0, 0, 0, 0]) = Some (mem_at 96 [0xFE, 0xFF, 0xFF, 0xFF, 1, 1])"
  using copy_stores [of 96] copy_required by (simp add: copy_records_def copy_places [unfolded One_nat_def] Let_def)

theorem message_decoded_witness:
  "\<exists>t. pb_decode_noinit copy_decoder 1 16 96
      (pb_istream_from_buffer [0x12, 1, 0x2A, 2, 7, 8, 8, 5, 8, 3] 10, mem_at 96 [0, 0, 0, 0, 0, 0]) =
    Ret (Some (), (t, mem_at 96 [0xFE, 0xFF, 0xFF, 0xFF, 1, 1])) \<and> bytes_left t = 0"
proof -
  have "dec_descriptors copy_decoder 16 = Some copy_fields" "length copy_records \<le> dec_rounds copy_decoder"
    by (simp_all add: copy_decoder_def copy_records_def)
  from message_decoded [OF copy_plain this(1) copy_records_ok(1) this(2) copy_records_applied copy_records_bytes, of 0, unfolded copy_records_length]
  show ?thesis using copy_records_ok(2) by (simp del: pb_decode_noinit.simps)
qed

section \<open>Copies\<close>

text \<open>
  C15: from the bytes of \<open>pb_encode\<close>, \<open>pb_decode_noinit\<close> rebuilds the structure: for a message whose
  fields are required or optional and stand in the structure, and a buffer with room, both
  succeed; the decoder uses all the bytes and stores exactly the members that are present, each
  at its place in the destination, and the flags of the optional ones.
\<close>

theorem message_roundtrip:
  assumes "plain_message fs" and "descriptors E ptr = Some fs" and "dec_descriptors D ptr' = Some fs"
    and "struct_records (env_mem E) fs src = Some rs"
    and "length (concat (map (record_bytes fs) rs)) \<le> bufsize" and "bufsize \<le> length buf" and "bufsize < size_mod"
    and "length rs \<le> dec_rounds D" and "apply_records fs dest rs m = Some m'"
  shows "\<exists>s t. pb_encode E (Suc depth) ptr src (pb_ostream_from_buffer buf bufsize) = Ret (Some (), s) \<and>
    pb_decode_noinit D (Suc depth') ptr' dest (pb_istream_from_buffer (fst (out_state s)) (bytes_written s), m) =
      Ret (Some (), (t, m')) \<and> bytes_left t = 0"
proof -
  let ?w = "concat (map (record_bytes fs) rs)"
  have "message_bytes E no_callbacks (Suc depth) ptr src = Some ?w"
    by (rule struct_encoded [OF assms(1,2,4)])
  moreover have "user_writes buffer_sink E no_callbacks"
    by (simp add: user_writes_def no_callbacks_def emits_None)
  ultimately obtain s where enc: "pb_encode E (Suc depth) ptr src (pb_ostream_from_buffer buf bufsize) = Ret (Some (), s)"
    and s: "fst (out_state s) = ?w @ drop (length ?w) buf" "bytes_written s = length ?w"
    using encode_into_buffer [OF _ _ assms(5-7)] by fastforce
  have "stream_at (\<lambda>st. st) (In_callback True buf_read) (pb_istream_from_buffer (fst (out_state s)) (bytes_written s))
      ?w (drop (length ?w) buf)"
    unfolding s by (rule from_buffer_at)
  from buffer.records_decoded [OF assms(1,3) struct_records_ok(1) [OF assms(1,4)] this assms(9,8), of depth']
  show ?thesis using enc struct_records_ok(2) [OF assms(1,4)] by (auto simp: stream_at_def)
qed

definition copy_env :: "(bytes \<times> nat) pb_env" where
  "copy_env =
     \<lparr>env_mem = mem_at 64 [0xFE, 0xFF, 0xFF, 0xFF, 1, 1], descriptors = [32 \<mapsto> copy_fields],
      user_encode = (\<lambda>_ _ _ _. Undef), user_extension = (\<lambda>_ _ _. Undef)\<rparr>"

lemma copy_struct:
  "struct_records (env_mem copy_env) copy_fields 64 =
   Some [Known 0 0 [3] [0xFE, 0xFF, 0xFF, 0xFF], Known 1 0 [1] [1]]"
proof -
  let ?m = "mem_at 64 [0xFE, 0xFF, 0xFF, 0xFF, 1, 1]"
  have "le_nat [0xFE, 0xFF, 0xFF, 0xFF] = 2 ^ 32 - 2" by (simp add: le_nat_def be_nat_def)
  note vals = copy_values [of 64, OF _ _ this, of 1]
  have has: "present ?m (copy_fields ! 0) 64 = Some True" "present ?m (copy_fields ! 1) 69 = Some True"
  proof -
    have "read_le ?m 1 68 = Ret 1" using copy_loads(2) [of 64] by (simp add: read_le_def le_nat_def be_nat_def)
    then show "present ?m (copy_fields ! 0) 64 = Some True" "present ?m (copy_fields ! 1) 69 = Some True"
      by (simp_all add: present_def copy_fields_def implicit_has_def is_required_def PB_HTYPE_def to_option_def safe_read_bool_def)
  qed
  have types: "wire_type (PB_LTYPE (f_type (copy_fields ! 0))) = 0" "wire_type (PB_LTYPE (f_type (copy_fields ! 1))) = 0"
    by (simp_all add: copy_fields_def PB_LTYPE_def wire_type_def)
  have "member_records ?m copy_fields 64 0 = Some [Known 0 0 [3] [0xFE, 0xFF, 0xFF, 0xFF]]"
    "member_records ?m copy_fields 64 1 = Some [Known 1 0 [1] [1]]"
    using vals has by (simp_all add: member_records_def copy_places [unfolded One_nat_def] types [unfolded One_nat_def] Let_def guard_def)
  moreover have "[0..<length copy_fields - 1] = [0, 1]" by (simp add: copy_fields_def upt_rec)
  ultimately show ?thesis by (simp add: struct_records_def copy_env_def)
qed

theorem message_roundtrip_witness:
  "\<exists>s t. pb_encode copy_env 1 32 64 (pb_ostream_from_buffer [0, 0, 0, 0, 0] 5) = Ret (Some (), s) \<and>
    pb_decode_noinit copy_decoder 1 16 96 (pb_istream_from_buffer (fst (out_state s)) (bytes_written s), mem_at 96 [0, 0, 0, 0, 0, 0]) =
      Ret (Some (), (t, mem_at 96 [0xFE, 0xFF, 0xFF, 0xFF, 1, 1])) \<and> bytes_left t = 0"
proof -
  let ?rs = "[Known 0 0 [3] [0xFE, 0xFF, 0xFF, 0xFF], Known 1 0 [1] [1]]"
  have env: "descriptors copy_env 32 = Some copy_fields" "dec_descriptors copy_decoder 16 = Some copy_fields"
    "length ?rs \<le> dec_rounds copy_decoder"
    by (simp_all add: copy_env_def copy_decoder_def)
  have room: "length (concat (map (record_bytes copy_fields) ?rs)) \<le> 5" by (simp add: copy_fields_def uleb128_small)
  have "apply_records copy_fields 96 ?rs (mem_at 96 [0, 0, 0, 0, 0, 0]) = Some (mem_at 96 [0xFE, 0xFF, 0xFF, 0xFF, 1, 1])"
    using copy_stores [of 96] copy_required by (simp add: copy_places [unfolded One_nat_def] Let_def)
  from message_roundtrip [OF copy_plain env(1,2) copy_struct room _ _ env(3) this, of "[0, 0, 0, 0, 0]" 0 0]
  show ?thesis by (simp add: size_mod_def del: pb_decode_noinit.simps pb_encode.simps)
qed

end
