(* ===== verification/Spec2Isabelle.thy ===== *)
theory Spec2Isabelle
  imports Cbb_Safety Unicode Cbs_Time Bio_Transfer Unwind_Agree Trace_Proofs Pb_Roundtrip Pb_Copy
begin

text \<open>
  \<^bold>\<open>A verification library for the C code of the logistics app's iOS build.\<close>

  The repository holds a Flutter application and, under \<open>src/ios/Pods\<close>, the sources of the
  libraries its iOS build compiles. The application itself is Dart (screens and calls of
  remote services); the C code is in the pods. The library models the subsystems in which
  the code itself carries a contract: the DER reader and writer of BoringSSL
  (\<open>BoringSSL-GRPC/src/crypto/bytestring\<close>, with \<open>asn1/posix_time.c\<close>), through which
  certificates and keys of every TLS connection are read; its BIO pairs
  (\<open>crypto/bio/pair.c\<close>), the in-memory transport between a TLS engine and its driver; the
  protocol buffers of nanopb (\<open>nanopb/pb_encode.c\<close> and \<open>pb_decode.c\<close>), in which crash reports
  and the Firestore client's messages are written; and the
  stack unwinder of the crash reporter (\<open>FirebaseCrashlytics/Crashlytics/Crashlytics/Unwind\<close>),
  which runs in a process that has just crashed, on memory nobody vouches for.

  \<^bold>\<open>How C is modelled.\<close> A machine integer is a word of its width, so that wrap-around is
  that of the code. A function that returns 0 or false for failure returns an option or a
  flag with the state it leaves. Undefined behaviour is a value of its own: signed overflow
  in \<open>Posix_Time\<close>, and in the unwinder also a read of unmapped memory through a plain
  pointer (the outcome type \<open>c_outcome\<close> of \<open>C_Lang\<close>: \<open>Undef\<close> or \<open>Ret x\<close>). Memory is a partial
  function from addresses to bytes; a guarded read (\<open>FIRCLSReadMemory\<close>) fails where it has
  no value, a plain one is undefined. Loops are recursive functions whose termination is
  proved with a measure: the bytes left of the input, the distance of a cursor from the end
  of the address space or of its section, the entries left of a search interval, the frames
  left of \<open>FIRCLSUnwindMaxFrames\<close>. The copying loops of the BIO pair and \<open>BIO_write_all\<close> do
  not end on every state of their data; they are partial functions with the result \<open>None\<close>
  there, and it is proved that no reachable state leads to it. There is fuel in two places. One
  is the number of rounds of \<open>transfer\<close>, a user of the pair that is not part of the code, with
  the bound that is enough in its theorem. The other is in nanopb, whose recursion over
  submessages, chains of extensions and loops around callbacks end only if the data and the
  callbacks let them: there a depth and a number of rounds are arguments, running out of them is
  \<open>Undef\<close>, and the theorems state the depth and the rounds with which a result is returned.
  Pointers to structures the callers own are not arguments: such a structure is passed by
  value and returned updated, and the tests of these pointers for null are left out.

  \<^bold>\<open>DER and times.\<close>
  \<^item> \<open>Prelude\<close>: big-endian numbers and the reader monad over a byte string, with its rules.
  \<^item> \<open>Cbs\<close>: \<open>bytestring/cbs.c\<close>, one reader per function; the state is the remaining bytes.
    \<open>Der\<close> defines the DER encodings (tags, lengths, elements) that are the reference.
  \<^item> \<open>Cbb\<close>: \<open>bytestring/cbb.c\<close>. The state is the shared buffer (\<open>cbb_buffer\<close>: bytes, capacity,
    flags) and the chain of open children with their pending length prefixes (\<open>cbb_child\<close>);
    the allocator is a parameter that may refuse. \<open>Cbb_Build\<close> shows that each writer appends
    the encoding of its argument, or fails. \<open>Cbb_Safety\<close> runs arbitrary sequences of calls
    (\<open>cbb_call\<close>) and proves the invariants of fixed and growing buffers and of errors.
  \<^item> \<open>Asn1_Values\<close>: readers accept exactly the DER of the value they return, and what the
    writers build is read back.
  \<^item> \<open>Oid\<close>: object identifiers as text, the functions of \<open>cbs.c\<close> and \<open>cbb.c\<close> that parse, print
    and check them, with round trip and exactness. \<open>Set_Of\<close>: \<open>CBB_flush_asn1_set_of\<close> sorts the
    elements of a SET OF in place; its order is the lexicographic one of the library.
  \<^item> \<open>Unicode\<close>: \<open>bytestring/unicode.c\<close>, readers and writers of UTF-8, Latin-1, UCS-2, UTF-32.
  \<^item> \<open>Posix_Time\<close>: \<open>asn1/posix_time.c\<close> against the Gregorian calendar. \<open>Cbs_Time\<close>: the time
    parsers at the end of \<open>cbs.c\<close>.

  \<^bold>\<open>BIO pairs.\<close>
  \<^item> \<open>Bio_Pair\<close>: \<open>bio/pair.c\<close> and the functions of \<open>bio/bio.c\<close> around it, on a heap of BIOs whose
    peer pointers are positions (\<open>bio_bio_st\<close> is the record \<open>bio_bio\<close>, \<open>bio_st\<close> is \<open>bio\<close>).
  \<^item> \<open>Bio_Ring\<close>: the copying loops on the ring buffer are operations on the list of its bytes.
    \<open>Bio_Queue\<close>: the invariant of the heap; reads and writes are those of two bounded queues.
    \<open>Bio_Calls\<close>: creation, release and all other calls keep the invariant and are defined.
  \<^item> \<open>Bio_Transfer\<close>: runs of calls refine the queues; the locale \<open>byte_pipe\<close>, interpreted on both
    directions of a pair, shows that a sender and a receiver get all bytes across.

  \<^bold>\<open>Protocol buffers\<close> (built with \<open>PB_FIELD_32BIT\<close> and \<open>PB_ENABLE_MALLOC\<close>, as the pods are; sizes
  are numbers modulo \<open>size_mod\<close>, the members of structures little-endian bytes of the memory).
  \<^item> \<open>Pb_Stream\<close>: the input streams of \<open>pb_decode.c\<close> with their callback and state, varints, tags,
    substreams, skipping. \<open>Pb_Read\<close>: the locale \<open>byte_source\<close>, a callback that delivers bytes in
    order, interpreted on the memory buffer \<open>buf_read\<close>; over it each operation is a reader of the
    bytes left. \<open>Pb_Varint\<close>: which numbers these readers take.
  \<^item> \<open>Pb_Output\<close>: the output streams of \<open>pb_encode.c\<close>, and the string sink of \<open>nanopb/writer.cc\<close>.
    \<open>Pb_Write\<close>: the locale of sinks, interpreted on buffers and strings; what an operation that
    writes given bytes does with room, without, and on a sizing stream.
  \<^item> \<open>Pb_Encode\<close>: fields, iterators (\<open>pb_common.c\<close>) and the message level of \<open>pb_encode.c\<close>; a
    description is a list of \<open>pb_field\<close> that an address stands for. \<open>Pb_Wire\<close>: the wire format of a
    structure as a list of bytes. \<open>Pb_Refine\<close>: the encoder writes it. \<open>Pb_Messages\<close>: what follows for
    applications, with \<open>transportBytes\<close> of \<open>FIRCLSReportAdapter.m\<close> and a message of
    \<open>crashlytics.nanopb.c\<close>.
  \<^item> \<open>Pb_Values\<close>: the field decoders (\<open>PB_DECODERS\<close>), as operations on a stream and the memory.
    \<open>Pb_Defaults\<close>: defaults, search and release, operations on the memory alone. \<open>Pb_Decode\<close>: static,
    pointer and callback fields, unions, extensions, the loop of \<open>pb_decode_noinit\<close> and the entry
    points; a failing callback changes the memory as it says, and a failed read stores nothing.
  \<^item> \<open>Pb_Restore\<close>: each field decoder stores the bytes of the member that its encoder read.
    \<open>Pb_Roundtrip\<close>: the same on buffers, and the numbers of \<open>pb_decode_varint32\<close>. \<open>Pb_Records\<close>: the
    decoder on a sequence of records, known and unknown, of a message whose members stand in the
    structure. \<open>Pb_Copy\<close>: the same on buffers, and encoding followed by decoding.

  \<^bold>\<open>The crash unwinder\<close> (x86-64, the target whose unwinder is complete in the repository).
  \<^item> \<open>C_Lang\<close>: outcomes, memory, cursors. \<open>Crash_Thread\<close>: the registers
    (\<open>Helpers/FIRCLSThreadState.c\<close>, and the DWARF numbering in \<open>FIRCLSUnwind_x86.c\<close>).
  \<^item> \<open>Dwarf_Data\<close>: \<open>Dwarf/FIRCLSDataParsing.c\<close>, with the exact range of the LEB128 readers.
  \<^item> \<open>Dwarf_Machine\<close>: \<open>Dwarf/FIRCLSDwarfExpressionMachine.c\<close>. \<open>Dwarf_Expr\<close>: it refines a machine on
    plain lists; the stack's contract is the locale \<open>failing_stack\<close>.
  \<^item> \<open>Dwarf_Unwind\<close>: \<open>Dwarf/FIRCLSDwarfUnwind.c\<close> (CIE and FDE parsing, call frame
    instructions, registers). \<open>Dwarf_Cfi\<close>: instruction execution against the rows of the
    DWARF standard (the code finds the row of the location before the pc), and what the
    register assignment does.
  \<^item> \<open>Unwind_X86\<close>: frame-pointer and frameless frames of \<open>FIRCLSUnwind_x86.c\<close>, with the
    permutation encoding of saved registers inverted. \<open>Unwind_Agree\<close>: DWARF and
    frame-pointer unwinding agree on the standard frame.
  \<^item> \<open>Compact_Unwind\<close>: \<open>Compact/FIRCLSCompactUnwind.c\<close>, the two-level lookup and the dispatch on
    encodings. \<open>Compact_Lookup\<close>: what the binary search answers for every address, and which
    pcs the lookup finds an entry for.
  \<^item> \<open>Stack_Trace\<close>: \<open>FIRCLSUnwind.c\<close> (the strategies for the next frame, stack scanning), the
    image table of \<open>FIRCLSBinaryImage.m\<close>, and the recording loop of \<open>FIRCLSProcess.c\<close>.
    \<open>Trace_Proofs\<close>: a walk ends (the locale \<open>counted_walk\<close>, interpreted on
    \<open>FIRCLSUnwindNextFrame\<close>), and the report is the list of frames up to the suppression of
    recursions; without unwind information these are the pc, the address a scan of the top
    frame finds, if any, and the chain of frame pointers.

  The layers call each other as the code does: \<open>FIRCLSProcessRecordThread\<close> asks
  \<open>FIRCLSUnwindNextFrame\<close> for frames; that looks the pc up in the image table and in the
  compact unwind section, whose encoding selects a frame-pointer, frameless or DWARF
  unwinder; the DWARF one parses the records, runs the instructions and evaluates
  expressions. When there is no unwind information only the frame pointer remains, for the
  first caller after a scan of the stack.

  \<^bold>\<open>Parameters.\<close> The memory allocators of CBB and of BIO pairs (the latter never granting
  \<open>2 ^ 63\<close> bytes or more, \<open>small_allocs\<close>, as no allocator does); the contents of memory; the table of images;
  the structures, masks and constants of Apple's \<open>compact_unwind_encoding.h\<close> (the records
  \<open>unwind_abi\<close> and \<open>unwind_layout\<close>, of which \<open>apple_abi\<close> and \<open>apple_layout\<close> are the instances used
  in examples); and, for nanopb, the functions of the application behind callback fields and
  extensions, the descriptions behind addresses, \<open>realloc\<close> and \<open>free\<close>, and the bytes a new
  \<open>CFData\<close> has.

  \<^bold>\<open>Not modelled.\<close> In the files above: \<open>CBB_cleanup\<close>, which only frees memory
  (so the state after \<open>CBB_finish\<close> keeps the contents it has handed out); the fields of
  \<open>struct tm\<close> that are only cleared; of \<open>bio.c\<close> the
  chains of filter BIOs, \<open>bio_read_all\<close> and the registration of other BIO types; the error queue; of \<open>writer.cc\<close> the byte string
  sink, and of the report adapter the conversions of its objects; the ARM unwinder, the debug
  printers and logging (except the log line whose argument reads memory), the report file and
  thread lists. That decoding rebuilds what was encoded is proved for fields in the structure;
  arrays, submessages, pointers, unions and extensions are modelled in the decoder, but no theorem
  covers them. The comparison with the DWARF standard covers the instructions the unwinder
  executes except \<open>set_loc\<close>, whose operand it misreads. Outside them: the
  Dart application and the Swift and Objective-C glue of the runner; the rest of BoringSSL
  (ciphers, curves, X.509, TLS), gRPC, abseil, leveldb and the Firebase and Google SDKs,
  which are large C++ and Objective-C libraries, generated tables and binary frameworks.
\<close>

end
